(* ===== verification/Prelude.thy ===== *)
theory Prelude
  imports Main "HOL-Library.AList" "HOL-Library.Signed_Division"
begin

text \<open>
  What every component of the model shares: the reading of JavaScript values (errors as sums,
  \<open>Map\<close> and \<open>Set\<close> as insertion-ordered lists, truncating \<open>bigint\<close> division, numbers printed
  in decimal), the collections of simplification rules, and the two interfaces that several
  components rely on: a doubling back-off and a bounded map.
\<close>

named_theorems model_simps \<open>unfolding rules of small model operations\<close>
named_theorems err_simps \<open>inversion of computations that can fail\<close>

subsection \<open>Computations that can fail\<close>

text \<open>A thrown error is \<open>Inl\<close>; sequencing stops at the first one.\<close>

definition bindE :: "'e + 'a \<Rightarrow> ('a \<Rightarrow> 'e + 'b) \<Rightarrow> 'e + 'b" where
  "bindE m f = (case m of Inl e \<Rightarrow> Inl e | Inr a \<Rightarrow> f a)"

lemma bindE_simps [simp]: "bindE (Inl e) f = Inl e" "bindE (Inr a) f = f a"
  by (simp_all add: bindE_def)

lemma bindE_Inr [err_simps]: "bindE m f = Inr b \<longleftrightarrow> (\<exists>a. m = Inr a \<and> f a = Inr b)"
  by (cases m) simp_all

lemma bindE_Inl [err_simps]: "bindE m f = Inl e \<longleftrightarrow> m = Inl e \<or> (\<exists>a. m = Inr a \<and> f a = Inl e)"
  by (cases m) simp_all

lemma bindE_cong [fundef_cong]:
  "m = m' \<Longrightarrow> (\<And>a. m' = Inr a \<Longrightarrow> f a = g a) \<Longrightarrow> bindE m f = bindE m' g"
  by (cases m') simp_all

text \<open>A loop that pushes one result per element and throws at the first failure.\<close>

fun mapE :: "('a \<Rightarrow> 'e + 'b) \<Rightarrow> 'a list \<Rightarrow> 'e + 'b list" where
  "mapE f [] = Inr []"
| "mapE f (x # xs) = bindE (f x) (\<lambda>y. bindE (mapE f xs) (\<lambda>ys. Inr (y # ys)))"

text \<open>A loop over a state that throws at the first failure.\<close>

fun foldE :: "('s \<Rightarrow> 'a \<Rightarrow> 'e + 's) \<Rightarrow> 's \<Rightarrow> 'a list \<Rightarrow> 'e + 's" where
  "foldE f s [] = Inr s"
| "foldE f s (x # xs) = bindE (f s x) (\<lambda>s'. foldE f s' xs)"

lemma mapE_Inr [err_simps]: "mapE f xs = Inr ys \<longleftrightarrow> list_all2 (\<lambda>x y. f x = Inr y) xs ys"
  by (induction xs arbitrary: ys) (auto simp: bindE_Inr list_all2_Cons1)

lemma mapE_total: "(\<And>x. x \<in> set xs \<Longrightarrow> f x = Inr (g x)) \<Longrightarrow> mapE f xs = Inr (map g xs)"
  by (induction xs) simp_all

lemma mapE_Inl: "mapE f xs = Inl e \<Longrightarrow> \<exists>x \<in> set xs. f x = Inl e"
  by (induction xs) (auto simp: bindE_Inl)

lemma foldE_append: "foldE f s (xs @ ys) = bindE (foldE f s xs) (\<lambda>s'. foldE f s' ys)"
  by (induction xs arbitrary: s) (auto simp: bindE_def split: sum.splits)

lemma foldE_invariant:
  assumes "foldE f s xs = Inr t" "P s" "\<And>s x s'. x \<in> set xs \<Longrightarrow> P s \<Longrightarrow> f s x = Inr s' \<Longrightarrow> P s'"
  shows "P t"
  using assms by (induction xs arbitrary: s) (auto simp: bindE_Inr)

lemma list_all2_left: "list_all2 P xs ys \<Longrightarrow> x \<in> set xs \<Longrightarrow> \<exists>y \<in> set ys. P x y"
  by (induction rule: list_all2_induct) auto

lemma list_all2_right: "list_all2 P xs ys \<Longrightarrow> y \<in> set ys \<Longrightarrow> \<exists>x \<in> set xs. P x y"
  by (induction rule: list_all2_induct) auto

lemma map_sum_Inr:
  assumes "map_sum g f m = Inr y"
  obtains x where "m = Inr x" "f x = y"
  using assms by (cases m) auto

text \<open>The error classes of the worker and its core, each with its message.\<close>

datatype failure =
    NamingError string
  | AbiError string
  | DdlError string
  | DecodeError string
  | LayoutError string
  | PlainError string
  | SqlError string

primrec message_of :: "failure \<Rightarrow> string" where
  "message_of (NamingError m) = m"
| "message_of (AbiError m) = m"
| "message_of (DdlError m) = m"
| "message_of (DecodeError m) = m"
| "message_of (LayoutError m) = m"
| "message_of (PlainError m) = m"
| "message_of (SqlError m) = m"

subsection \<open>Insertion-ordered dictionaries and sets\<close>

text \<open>
  A JavaScript \<open>Map\<close> keeps its keys in order of first insertion and \<open>set\<close> on a present key
  leaves its place: exactly \<^theory_text>\<open>AList.update\<close>. \<open>delete\<close> is \<^theory_text>\<open>AList.delete\<close>, \<open>get\<close>
  is \<^theory_text>\<open>map_of\<close>, and \<open>keys().next().value\<close> is the first key.
\<close>

abbreviation map_set :: "'k \<Rightarrow> 'v \<Rightarrow> ('k \<times> 'v) list \<Rightarrow> ('k \<times> 'v) list" where
  "map_set \<equiv> AList.update"

abbreviation map_delete :: "'k \<Rightarrow> ('k \<times> 'v) list \<Rightarrow> ('k \<times> 'v) list" where
  "map_delete \<equiv> AList.delete"

abbreviation map_keys :: "('k \<times> 'v) list \<Rightarrow> 'k list" where
  "map_keys m \<equiv> map fst m"

abbreviation map_has :: "'k \<Rightarrow> ('k \<times> 'v) list \<Rightarrow> bool" where
  "map_has k m \<equiv> k \<in> set (map_keys m)"

text \<open>Deleting the key inserted first.\<close>

definition drop_oldest :: "('k \<times> 'v) list \<Rightarrow> ('k \<times> 'v) list" where
  "drop_oldest m = tl m"

lemma map_of_set [simp]: "map_of (map_set k v m) k' = (if k' = k then Some v else map_of m k')"
  by (simp add: update_conv')

lemma map_of_delete [simp]: "map_of (map_delete k m) k' = (if k' = k then None else map_of m k')"
  by (simp add: delete_conv')

lemma map_set_new: "\<not> map_has k m \<Longrightarrow> map_set k v m = m @ [(k, v)]"
  by (induction m) auto

lemma map_has_iff: "map_has k m \<longleftrightarrow> map_of m k \<noteq> None"
  by (induction m) auto

lemma map_delete_notin: "\<not> map_has k m \<Longrightarrow> map_delete k m = m"
  by (induction m) (auto simp: AList.delete_eq)

lemma map_delete_head: "distinct (map_keys ((k, v) # m)) \<Longrightarrow> map_delete k ((k, v) # m) = m"
  by (simp add: map_delete_notin)

lemma length_map_set: "length (map_set k v m) = (if map_has k m then length m else Suc (length m))"
  by (induction m) auto

lemma keys_map_set: "fst ` set (map_set k v m) = insert k (fst ` set m)"
  by (induction m) auto

lemma map_of_drop_oldest:
  "distinct (map_keys m) \<Longrightarrow> map_of (drop_oldest m) k = None \<or> map_of (drop_oldest m) k = map_of m k"
proof (cases m)
  case (Cons p ps)
  moreover assume "distinct (map_keys m)"
  ultimately show ?thesis
    by (cases "fst p = k") (auto simp: drop_oldest_def map_of_eq_None_iff)
qed (simp add: drop_oldest_def)

lemma distinct_drop_oldest: "distinct (map_keys m) \<Longrightarrow> distinct (map_keys (drop_oldest m))"
  by (simp add: drop_oldest_def map_tl distinct_tl)

text \<open>A \<open>Set\<close> is a list without repetitions; \<open>new Set(xs)\<close> keeps first occurrences in order.\<close>

definition set_add :: "'a list \<Rightarrow> 'a \<Rightarrow> 'a list" where
  "set_add s x = (if x \<in> set s then s else s @ [x])"

definition set_of_list :: "'a list \<Rightarrow> 'a list" where
  "set_of_list xs = foldl set_add [] xs"

lemma foldl_set_add:
  "set (foldl set_add s xs) = set s \<union> set xs"
  "distinct s \<Longrightarrow> distinct (foldl set_add s xs)"
  by (induction xs arbitrary: s) (auto simp: set_add_def)

lemma set_set_of_list [simp]: "set (set_of_list xs) = set xs"
  by (simp add: set_of_list_def foldl_set_add)

lemma distinct_set_of_list [simp]: "distinct (set_of_list xs)"
  by (simp add: set_of_list_def foldl_set_add)

subsection \<open>Numbers in decimal\<close>

definition digit_char :: "nat \<Rightarrow> char" where
  "digit_char d = char_of (48 + d)"

definition is_digit :: "char \<Rightarrow> bool" where
  "is_digit c \<longleftrightarrow> 48 \<le> (of_char c :: nat) \<and> (of_char c :: nat) \<le> 57"

fun show_nat :: "nat \<Rightarrow> string" where
  "show_nat n = (if n < 10 then [digit_char n] else show_nat (n div 10) @ [digit_char (n mod 10)])"

declare show_nat.simps [simp del]

definition show_int :: "int \<Rightarrow> string" where
  "show_int i = (if i < 0 then ''-'' @ show_nat (nat (- i)) else show_nat (nat i))"

definition read_nat :: "string \<Rightarrow> nat" where
  "read_nat s = foldl (\<lambda>acc c. 10 * acc + (of_char c - 48)) 0 s"

lemma digit_char_eval:
  "digit_char 0 = CHR ''0''" "digit_char 1 = CHR ''1''" "digit_char (Suc 0) = CHR ''1''" "digit_char 2 = CHR ''2''"
  "digit_char 3 = CHR ''3''" "digit_char 4 = CHR ''4''" "digit_char 5 = CHR ''5''" "digit_char 6 = CHR ''6''"
  "digit_char 7 = CHR ''7''" "digit_char 8 = CHR ''8''" "digit_char 9 = CHR ''9''"
  by code_simp+

text \<open>Evaluates numbers in decimal without counting in unary.\<close>

lemmas show_eval = show_int_def show_nat.simps digit_char_eval

lemma of_char_digit [simp]: "d < 10 \<Longrightarrow> (of_char (digit_char d) :: nat) = 48 + d"
  by (simp add: digit_char_def)

lemma read_show_nat [simp]: "read_nat (show_nat n) = n"
proof (induction n rule: show_nat.induct)
  case (1 n)
  show ?case
  proof (cases "n < 10")
    case True
    then show ?thesis by (simp add: show_nat.simps [of n] read_nat_def)
  next
    case False
    with 1 show ?thesis
      by (simp add: show_nat.simps [of n] read_nat_def)
  qed
qed

lemma show_nat_digits: "c \<in> set (show_nat n) \<Longrightarrow> is_digit c"
proof (induction n rule: show_nat.induct)
  case (1 n)
  then show ?case
    by (cases "n < 10") (auto simp: show_nat.simps [of n] is_digit_def)
qed

lemma show_nat_nonempty [simp]: "show_nat n \<noteq> []"
  by (simp add: show_nat.simps [of n])

lemma show_nat_inj [simp]: "show_nat m = show_nat n \<longleftrightarrow> m = n"
  by (metis read_show_nat)

lemma show_int_inj:
  assumes "0 \<le> i" "0 \<le> j" "show_int i = show_int j"
  shows "i = j"
  using assms by (simp add: show_int_def)

subsection \<open>Strings\<close>

definition join :: "string \<Rightarrow> string list \<Rightarrow> string" where
  "join sep xs = (case xs of [] \<Rightarrow> [] | y # ys \<Rightarrow> y @ concat (map (\<lambda>z. sep @ z) ys))"

definition startsWith :: "string \<Rightarrow> string \<Rightarrow> bool" where
  "startsWith pre s \<longleftrightarrow> take (length pre) s = pre"

definition endsWith :: "string \<Rightarrow> string \<Rightarrow> bool" where
  "endsWith suf s \<longleftrightarrow> length suf \<le> length s \<and> drop (length s - length suf) s = suf"

definition nl :: string where
  "nl = [CHR 0x0A]"

text \<open>\<open>find((x, i, a) => a.indexOf(x) !== i)\<close>: the first element that occurred before.\<close>

fun first_dup_from :: "'a list \<Rightarrow> 'a list \<Rightarrow> 'a option" where
  "first_dup_from seen [] = None"
| "first_dup_from seen (x # xs) = (if x \<in> set seen then Some x else first_dup_from (x # seen) xs)"

definition first_dup :: "'a list \<Rightarrow> 'a option" where
  "first_dup xs = first_dup_from [] xs"

lemma startsWith_append [simp]: "startsWith pre (pre @ s)"
  by (simp add: startsWith_def)

lemma first_dup_from_None: "first_dup_from seen xs = None \<longleftrightarrow> distinct xs \<and> set xs \<inter> set seen = {}"
  by (induction xs arbitrary: seen) auto

lemma first_dup_None [simp]: "first_dup xs = None \<longleftrightarrow> distinct xs"
  by (simp add: first_dup_def first_dup_from_None)

lemma first_dup_from_Some: "first_dup_from seen xs = Some x \<Longrightarrow> x \<in> set xs"
  by (induction xs arbitrary: seen) (auto split: if_splits)

lemma first_dup_Some: "first_dup xs = Some x \<Longrightarrow> x \<in> set xs"
  by (simp add: first_dup_def first_dup_from_Some)

subsection \<open>Slices\<close>

text \<open>A list cut into slices of at most \<open>n\<close>, as a loop with step \<open>n\<close> and \<open>slice\<close> does.\<close>

fun chunks_of :: "nat \<Rightarrow> 'a list \<Rightarrow> 'a list list" where
  "chunks_of n [] = []"
| "chunks_of n (x # xs) = (if n = 0 then [] else (x # take (n - 1) xs) # chunks_of n (drop (n - 1) xs))"

lemma concat_chunks_of: "0 < n \<Longrightarrow> concat (chunks_of n xs) = xs"
  by (induction n xs rule: chunks_of.induct) simp_all

lemma chunks_of_length: "c \<in> set (chunks_of n xs) \<Longrightarrow> length c \<le> n"
  by (induction n xs rule: chunks_of.induct) (auto split: if_splits)

subsection \<open>Interface: a doubling back-off\<close>

text \<open>
  \<open>delay n\<close> is the wait after \<open>n\<close> earlier failures in a row: it doubles up to a cap. The
  ingest loop, the insight loop, the newHeads reconnect, the resting RPC endpoints and the
  operator's waiting retries all promise this; their theories interpret the locale.
\<close>

locale doubling_backoff =
  fixes delay :: "nat \<Rightarrow> int" and start cap :: int
  assumes start_pos: "0 < start" and start_le_cap: "start \<le> cap"
    and delay_0: "delay 0 = start"
    and delay_Suc: "delay (Suc n) = min (2 * delay n) cap"
begin

lemma delay_closed: "delay n = min (start * 2 ^ n) cap"
proof (induction n)
  case 0
  then show ?case using start_le_cap by (simp add: delay_0)
next
  case (Suc n)
  have "0 < cap" using start_pos start_le_cap by simp
  with Suc show ?case by (simp add: delay_Suc min_def)
qed

lemma delay_bounds: "start \<le> delay n \<and> delay n \<le> cap"
proof -
  have "start * 1 \<le> start * 2 ^ n" by (rule mult_left_mono) (use start_pos in auto)
  then show ?thesis using start_le_cap by (simp add: delay_closed)
qed

lemma delay_mono: "m \<le> n \<Longrightarrow> delay m \<le> delay n"
proof -
  assume "m \<le> n"
  then have "start * 2 ^ m \<le> start * 2 ^ n"
    using start_pos by (simp add: mult_left_mono power_increasing)
  then show ?thesis by (simp add: delay_closed)
qed

lemma delay_reaches_cap: "cap \<le> start * 2 ^ n \<Longrightarrow> delay n = cap"
  by (simp add: delay_closed)

end

text \<open>The state-passing form of the same law: a stored delay that is doubled after each use.\<close>

lemma doubling_backoff_iterate:
  assumes "0 < start" "start \<le> cap" "\<And>d. next d = min (d * 2) cap"
  shows "doubling_backoff (\<lambda>n. (next ^^ n) start) start cap"
  using assms by unfold_locales (simp_all add: mult.commute)

text \<open>The closed form of the same law: the delay computed from a counter of attempts.\<close>

lemma doubling_backoff_closed:
  assumes "0 < start" "start \<le> (cap :: int)" "\<And>n. delay n = min (start * 2 ^ n) cap"
  shows "doubling_backoff delay start cap"
proof unfold_locales
  fix n
  have "0 < cap" using assms(1,2) by simp
  then show "delay (Suc n) = min (2 * delay n) cap"
    by (simp add: assms(3) min_def)
qed (use assms in simp_all)

subsection \<open>Interface: a bounded map\<close>

text \<open>
  A cache that forgets its oldest entries: \<open>put\<close> stores a value and may drop others. What its
  clients rely on is that it never grows past its bound, that a stored value is found at once,
  and that whatever is found later was stored under that very key.
\<close>

locale bounded_map =
  fixes put :: "'k \<Rightarrow> 'v \<Rightarrow> ('k \<times> 'v) list \<Rightarrow> ('k \<times> 'v) list" and bound :: nat
  assumes put_distinct: "distinct (map_keys m) \<Longrightarrow> distinct (map_keys (put k v m))"
    and put_bound: "length m \<le> bound \<Longrightarrow> length (put k v m) \<le> bound"
    and put_same: "distinct (map_keys m) \<Longrightarrow> length m \<le> bound \<Longrightarrow> map_of (put k v m) k \<in> {None, Some v}"
    and put_other: "distinct (map_keys m) \<Longrightarrow> k' \<noteq> k \<Longrightarrow> map_of (put k v m) k' \<in> {None, map_of m k'}"
begin

definition cache_ok :: "('k \<times> 'v) list \<Rightarrow> bool" where
  "cache_ok m \<longleftrightarrow> distinct (map_keys m) \<and> length m \<le> bound"

definition puts :: "('k \<times> 'v) list \<Rightarrow> ('k \<times> 'v) list \<Rightarrow> ('k \<times> 'v) list" where
  "puts kvs m = foldl (\<lambda>m (k, v). put k v m) m kvs"

lemma put_ok: "cache_ok m \<Longrightarrow> cache_ok (put k v m)"
  by (simp add: cache_ok_def put_distinct put_bound)

lemma puts_ok: "cache_ok m \<Longrightarrow> cache_ok (puts kvs m)"
  unfolding puts_def by (induction kvs arbitrary: m) (auto simp: put_ok)

text \<open>A lookup answers the last value stored under the key, or nothing.\<close>

lemma puts_sound:
  assumes "cache_ok m" "map_of (puts kvs m) k = Some v"
  shows "case map_of (rev kvs) k of Some w \<Rightarrow> v = w | None \<Rightarrow> map_of m k = Some v"
  using assms(2)
proof (induction kvs arbitrary: v rule: rev_induct)
  case Nil
  then show ?case by (simp add: puts_def)
next
  case (snoc kv kvs)
  obtain k0 v0 where kv: "kv = (k0, v0)" by (cases kv)
  let ?m = "puts kvs m"
  have ok: "cache_ok ?m" using assms(1) by (rule puts_ok)
  have eq: "puts (kvs @ [kv]) m = put k0 v0 ?m" by (simp add: puts_def kv)
  show ?case
  proof (cases "k0 = k")
    case True
    have "map_of (put k v0 ?m) k \<in> {None, Some v0}" using ok by (simp only: cache_ok_def put_same)
    then have "v = v0" using snoc.prems eq True by simp
    with True show ?thesis by (simp add: kv)
  next
    case False
    have "map_of (put k0 v0 ?m) k \<in> {None, map_of ?m k}"
      by (rule put_other) (use False ok in \<open>auto simp: cache_ok_def\<close>)
    then have "map_of ?m k = Some v" using snoc.prems eq by simp
    from snoc.IH [OF this] show ?thesis using False by (simp add: kv)
  qed
qed

end

end
