(* ===== verification/Facts.thy ===== *)
theory Facts
  imports Prelude
begin

text \<open>
  \<open>core/src/insights/signatures.ts\<close>: what the function called and the events logged say about a
  transaction. The tables are the source's, in its order; a \<open>Map\<close> built from a literal keeps the
  last value of a repeated key, so lookups go through \<open>js_map\<close>.
\<close>

subsection \<open>Tables\<close>

datatype fact = Bridge | Liquidity | Lending | Vault | Swap | Market | Batch | Payout | Wrap | Signed | SmartAccount | Fee

definition FACT_ORDER :: "fact list" where
  "FACT_ORDER = [Bridge, Liquidity, Lending, Vault, Swap, Market, Batch, Payout, Wrap, Signed, SmartAccount, Fee]"

fun FACT_PHRASE :: "fact \<Rightarrow> string" where
  "FACT_PHRASE Swap = ''tokens were swapped on an exchange''"
| "FACT_PHRASE Bridge = ''funds were sent across chains through a bridge''"
| "FACT_PHRASE Liquidity = ''pool liquidity changed''"
| "FACT_PHRASE Lending = ''a loan was opened, repaid or liquidated''"
| "FACT_PHRASE Vault = ''funds were deposited into or withdrawn from a vault''"
| "FACT_PHRASE Wrap = ''USDC was wrapped or unwrapped''"
| "FACT_PHRASE Market = ''tokens were bought or sold on a marketplace''"
| "FACT_PHRASE Batch = ''a batch of payments was sent to many recipients''"
| "FACT_PHRASE Payout = ''rewards or payouts were claimed or distributed''"
| "FACT_PHRASE Signed = ''the payer signed an authorization and someone else submitted it''"
| "FACT_PHRASE SmartAccount = ''it was sent by a smart account''"
| "FACT_PHRASE Fee = ''a fee was taken''"

text \<open>\<open>new Map(entries)\<close>.\<close>

definition js_map :: "('k \<times> 'v) list \<Rightarrow> ('k \<times> 'v) list" where
  "js_map entries = foldl (\<lambda>m (k, v). map_set k v m) [] entries"

definition FACT_BY_SELECTOR :: "(string \<times> fact) list" where
  "FACT_BY_SELECTOR = js_map
    [(''0x3593564c'', Swap), (''0x04e45aaf'', Swap), (''0x38ed1739'', Swap),
     (''0x0c307f76'', Swap), (''0x0d5f0e3b'', Swap), (''0xf2c42696'', Swap),
     (''0x44014e98'', Swap), (''0x4d819a2a'', Swap), (''0xe21fd0e9'', Swap),
     (''0x07ed2379'', Swap), (''0x2f139e4f'', Swap), (''0x3e0f9c3c'', Swap),
     (''0x2213bc0b'', Swap), (''0x2afaca20'', Swap), (''0x40993b26'', Swap),
     (''0x8e0250ee'', Bridge), (''0x779b432d'', Bridge), (''0x57ecfd28'', Bridge),
     (''0xdeff4b24'', Bridge), (''0x7e7fc653'', Bridge), (''0x3ce33bff'', Bridge),
     (''0x6e1537da'', Bridge), (''0xdd46508f'', Liquidity), (''0x87201b41'', Market),
     (''0xf2d12b12'', Market), (''0xe7acab24'', Market), (''0xe63d38ed'', Batch),
     (''0xc73a2d60'', Batch), (''0x51ba162c'', Batch), (''0x1e83409a'', Payout),
     (''0x4e71d92d'', Payout), (''0xe4fc6b6d'', Payout), (''0xe3ee160e'', Signed),
     (''0xef55bec6'', Signed), (''0x765e827f'', SmartAccount), (''0xb61d27f6'', SmartAccount),
     (''0x34fcd5be'', SmartAccount), (''0x2d9fb478'', SmartAccount)]"

definition FACT_BY_TOPIC :: "(string \<times> fact) list" where
  "FACT_BY_TOPIC = js_map
    [(''0xc42079f94a6350d7e6235f29174924f928cc2ac818eb64fed8004e115fbcca67'', Swap),
     (''0x40e9cecb9f5f1f1c5b9c97dec2917b7ee92e57ba5563708daca94dd84ad7112f'', Swap),
     (''0xd78ad95fa46c994b6551d0da85fc275fe613ce37657fb8d5e3d130840159d822'', Swap),
     (''0x8619026a40d38bedb4002fe511cea4bc4a9b336710efe8f21a61869a7ee0f02a'', Swap),
     (''0xd6d4f5681c246c9f42c203e287975af1601f8df8035a9251f79aab5c8f09e2f8'', Swap),
     (''0x20efd6d5195b7b50273f01cd79a27989255356f9f13293edc53ee142accfdb75'', Swap),
     (''0x7bfdfdb5e3a3776976e53cb0607060f54c5312701c8cba1155cc4d5394440b38'', Swap),
     (''0x38eee76fd911eabac79da7af16053e809be0e12c8637f156e77e1af309b99537'', Swap),
     (''0x1bb43f2da90e35f7b0cf38521ca95a49e68eb42fac49924930a5bd73cdf7576c'', Swap),
     (''0x7724394874fdd8ad13292ec739b441f85c6559f10dc4141b8d4c0fa4cbf55bdb'', Swap),
     (''0xa6fee24309b1d83d9ec7b9e4dbb73c6f882746efbfb26db7b7d9e9f2fb6dc95a'', Swap),
     (''0x2c5cc05b9a7b53e2478a9af1c94ec079b5be7c669be3df98ad86d28237f689e7'', Swap),
     (''0xec36bf571f136799e8dc0b0b8bea4b04d8bd3d43de838aab0d5fc21d4cbfc455'', Swap),
     (''0xc1742a443d639e06cae611e6969aa3e066a8edf9ca632e4d45b9167f487d1785'', Swap),
     (''0x8113d738abdcb6b38357e9d53a54a7157861a09031b453651f0fe7fe151f59df'', Swap),
     (''0xcf93b133041e0c9edcb77b3088a72ce25e769d56f3df661c1b0db04a3fe7fa0d'', Swap),
     (''0x0c8c1cbdc5190613ebd485511d4e2812cfa45eecb79d845893331fedad5130a5'', Bridge),
     (''0x2fa9ca894982930190727e75500a97d8dc500233a5065e0f3126c48fbe0343c0'', Bridge),
     (''0x50c55e915134d457debfa58eb6f4342956f8b0616d51a89a3659360178e1ab63'', Bridge),
     (''0x1b2a7ff080b8cb6ff436ce0372e399692bbfb6d4ae5766fd8d58a7b8cc6142e6'', Bridge),
     (''0x8c5261668696ce22758910d05bab8f186d6eb247ceac2af2e82c7dc17669b036'', Bridge),
     (''0x49fed1d0b752ce30eee63c7a81133f3363b532fec5d4d7dd1ccfd005de4555e1'', Bridge),
     (''0xcba69f43792f9f399347222505213b55af8e0b0b54b893085c2e27ecbe1644f1'', Bridge),
     (''0x44b559f101f8fbcc8a0ea43fa91a05a729a5ea6e14a7c75aa750374690137208'', Bridge),
     (''0xfef24569acf839f2b5cb23fd59d8a9bcc21650ff711ac1961ca3c5d4681ffe12'', Bridge),
     (''0x0f8712c47eb813e705bf827a60bdd551e6f2e055b4a1c2004304d52208a5a513'', Liquidity),
     (''0x26f6a048ee9138f2c0ce266f322cb99228e8d619ae2bff30c67f8dcf9d2377b4'', Liquidity),
     (''0x40d0efd1a53d60ecbf40971b9daf7dc90178c3aadc7aab1765632738fa8b8f01'', Liquidity),
     (''0x70935338e69775456a85ddef226c395fb668b63fa0115f5f20610b388e6ca9c0'', Liquidity),
     (''0x0c396cd989a39f4459b5fa1aed6a9a8dcdbc45908acfd67e028cd568da98982c'', Liquidity),
     (''0x7a53080ba414158be7ec69b987b5fb7d07dee101fe85488f0853ae16239d0bde'', Liquidity),
     (''0xf208f4912782fd25c7f114ca3723a2d5dd6f3bcc3ac8db5af63baa85f711d5ec'', Liquidity),
     (''0xdcbc1c05240f31ff3ad067ef1ee35ce4997762752e3a095284754544f4c709d7'', Vault),
     (''0xfbde797d201c681b91056529119e0b02407c7bb96a4a2c75c01fc9667232c8db'', Vault),
     (''0xe1fffcc4923d04b559f4d29a8bfc6cda04eb5b0d3c460751c2402c5c5cc9109c'', Wrap),
     (''0x7fcf532c15f0a6db0bd6d0e038bea71d30d808c7d98cb3bf7268a95bf5081b65'', Wrap),
     (''0xb3d084820fb1a9decffb176436bd02558d15fac9b0ddfed8c465bc7359d7dce0'', Lending),
     (''0x2b627736bca15cd5381dcf80b0bf11fd197d01a037c52b927a881a10fb73ba61'', Lending),
     (''0xa534c8dbe71f871f9f3530e97a74601fea17b426cae02e1c5aee42c96c784051'', Lending),
     (''0x3115d1449a7b732c986cba18244e897a450f61e1bb8d589cd2e69e6c8924f9f7'', Lending),
     (''0xe413a321e8681d831f4dbccbca790d2952b56f977908e45be37335533e005286'', Lending),
     (''0x9d9af8e38d66c62e2c12f0225249fd9d721c54b83f48d9352c97c6cacdcb6f31'', Market),
     (''0xf7a40077ff7a04c7e61f6f26fb13774259ddf1b6bce9ecf26a8276cdd3992683'', Payout),
     (''0xf7576d8c2653e9d07af5ef229acf59b339e327d4e0eaddb4a96615534cf148f8'', Payout),
     (''0x2105469e420e4f1c383a7b27c355d98d617715055986873b1963dedba114d59c'', Payout),
     (''0x9def4e2802183d68ce90a6a226a2962b59298616c27165f12c4fbc5c84cdd778'', Payout),
     (''0x98de503528ee59b575ef0c0a2576a82497bfc029a5685b209e9ec333479b10a5'', Signed),
     (''0x49628fd1471006c1482da88028e9ce4dbb080b815c9b0344d39e5a8e6ec1419f'', SmartAccount),
     (''0x7970b0744fdb6cf0b120e5e0a5f4da3ab8cbec6d5d9ec8a4f327ccc1d8a5eb8b'', Fee),
     (''0xcd5eae9d9d0b96532bd1b7dbf6628ce436b2af735829087a03c548439f8bf850'', Fee),
     (''0x3cfb523a4c38d88561dd3bf04805a31715c8b5fc468a03b8d684356f360dea99'', Fee),
     (''0x205442d60b70af1203d43cab62352c3b69b94f091be32fe683198057282b5c92'', Fee),
     (''0x3a7029951ba36c1af37954df919ce2f9a95c3f5c2c2e872d5e7fd47c61a6df26'', Fee),
     (''0x2cbc7a49494b955fc97f275d59dab3e8cb331287723f93b9505b81482cfd1b98'', Fee),
     (''0xc532c43b3423e14ef72748f1c8291238829ca0af8ba9b67975ad1483485a4b4d'', Fee)]"

definition POOL_TOPICS :: "string list" where
  "POOL_TOPICS =
    [''0xc42079f94a6350d7e6235f29174924f928cc2ac818eb64fed8004e115fbcca67'',
     ''0x7a53080ba414158be7ec69b987b5fb7d07dee101fe85488f0853ae16239d0bde'',
     ''0x0c396cd989a39f4459b5fa1aed6a9a8dcdbc45908acfd67e028cd568da98982c'',
     ''0x70935338e69775456a85ddef226c395fb668b63fa0115f5f20610b388e6ca9c0'',
     ''0xd78ad95fa46c994b6551d0da85fc275fe613ce37657fb8d5e3d130840159d822'']"

definition FACTORY_CALL :: string where
  "FACTORY_CALL = ''0xc45a0155''"

definition UNISWAP_V4_POOL_MANAGER :: string where
  "UNISWAP_V4_POOL_MANAGER = ''0x8366a39cc670b4001a1121b8f6a443a643e40951''"

definition UNISWAP_ENTRY_POINTS :: "string list" where
  "UNISWAP_ENTRY_POINTS = [''0x4fca4a51ab4f23a7447b3284fbd7d73289a89fb1'', ''0x6049c9a0e26405c0985f9e3685c87d0ae917f82b'']"

definition FACTORY_NAMES :: "(string \<times> string) list" where
  "FACTORY_NAMES = js_map
    [(''0xf0db7b58379503491d857db50ac9ece64c653918'', ''Uniswap''),
     (''0xb89df768af2cfe637ceb352c587fe8edaf491d03'', ''Aerodrome'')]"

text \<open>Name, selectors and events of a protocol, the most specific first.\<close>

definition PROTOCOL_RULES :: "(string \<times> string list \<times> string list) list" where
  "PROTOCOL_RULES =
    [(''CCTP'', [''0x8e0250ee'', ''0x779b432d'', ''0x57ecfd28''],
       [''0x0c8c1cbdc5190613ebd485511d4e2812cfa45eecb79d845893331fedad5130a5'',
        ''0x2fa9ca894982930190727e75500a97d8dc500233a5065e0f3126c48fbe0343c0'',
        ''0x50c55e915134d457debfa58eb6f4342956f8b0616d51a89a3659360178e1ab63'',
        ''0x1b2a7ff080b8cb6ff436ce0372e399692bbfb6d4ae5766fd8d58a7b8cc6142e6'']),
     (''Relay'', [], [''0x49fed1d0b752ce30eee63c7a81133f3363b532fec5d4d7dd1ccfd005de4555e1'']),
     (''LI.FI'', [],
       [''0xcba69f43792f9f399347222505213b55af8e0b0b54b893085c2e27ecbe1644f1'',
        ''0x38eee76fd911eabac79da7af16053e809be0e12c8637f156e77e1af309b99537'',
        ''0x7bfdfdb5e3a3776976e53cb0607060f54c5312701c8cba1155cc4d5394440b38'']),
     (''OKX DEX'', [''0x0c307f76'', ''0x0d5f0e3b'', ''0xf2c42696'', ''0x44014e98''],
       [''0x1bb43f2da90e35f7b0cf38521ca95a49e68eb42fac49924930a5bd73cdf7576c'']),
     (''KyberSwap'', [''0xe21fd0e9''], []),
     (''1inch'', [''0x07ed2379''], []),
     (''0x'', [''0x2213bc0b''], [])]"

subsection \<open>Reading a transaction\<close>

record tx_context =
  tc_to :: "string option"
  tc_selector :: string
  tc_topics :: "string list"
  tc_sender :: string
  tc_emitters :: "string list"
  tc_factories :: "(string \<times> string) list"
  tc_valueSent :: "bool option"

definition factsOf :: "tx_context option \<Rightarrow> fact list" where
  "factsOf ctx =
     (case ctx of None \<Rightarrow> []
      | Some c \<Rightarrow>
          (let found = (case map_of FACT_BY_SELECTOR (tc_selector c) of Some f \<Rightarrow> set_add [] f | None \<Rightarrow> []);
               found = foldl (\<lambda>s topic. case map_of FACT_BY_TOPIC topic of Some f \<Rightarrow> set_add s f | None \<Rightarrow> s) found (tc_topics c)
           in filter (\<lambda>f. f \<in> set found) FACT_ORDER))"

text \<open>The first factory that has a name; an empty name would be passed over.\<close>

fun first_name :: "string list \<Rightarrow> string" where
  "first_name [] = []"
| "first_name (f # fs) =
     (case map_of FACTORY_NAMES f of Some name \<Rightarrow> if name \<noteq> [] then name else first_name fs | None \<Rightarrow> first_name fs)"

definition venueOf :: "tx_context \<Rightarrow> string" where
  "venueOf c =
     (if (case tc_to c of Some t \<Rightarrow> t \<in> set UNISWAP_ENTRY_POINTS | None \<Rightarrow> False) \<or> UNISWAP_V4_POOL_MANAGER \<in> set (tc_emitters c)
      then ''Uniswap''
      else first_name (map snd (tc_factories c)))"

fun first_rule :: "(string \<times> string list \<times> string list) list \<Rightarrow> tx_context \<Rightarrow> string option" where
  "first_rule [] c = None"
| "first_rule ((name, selectors, events) # rules) c =
     (if tc_selector c \<in> set selectors \<or> list_ex (\<lambda>e. e \<in> set (tc_topics c)) events then Some name else first_rule rules c)"

definition protocolOf :: "tx_context option \<Rightarrow> string" where
  "protocolOf ctx =
     (case ctx of None \<Rightarrow> []
      | Some c \<Rightarrow> (case first_rule PROTOCOL_RULES c of Some name \<Rightarrow> name | None \<Rightarrow> venueOf c))"

subsection \<open>What the facts are\<close>

definition evidence :: "tx_context \<Rightarrow> fact \<Rightarrow> bool" where
  "evidence c f \<longleftrightarrow> map_of FACT_BY_SELECTOR (tc_selector c) = Some f \<or> (\<exists>t \<in> set (tc_topics c). map_of FACT_BY_TOPIC t = Some f)"

lemma FACT_ORDER_all: "set FACT_ORDER = UNIV" "distinct FACT_ORDER"
proof -
  have "f \<in> set FACT_ORDER" for f by (cases f) (simp_all add: FACT_ORDER_def)
  then show "set FACT_ORDER = UNIV" by blast
qed (simp add: FACT_ORDER_def)

lemma foldl_set_add_option:
  "set (foldl (\<lambda>s t. case g t of Some f \<Rightarrow> set_add s f | None \<Rightarrow> s) s ts) = set s \<union> {f. \<exists>t \<in> set ts. g t = Some f}"
  by (induction ts arbitrary: s) (auto simp: set_add_def split: option.split)

lemma factsOf_eq: "factsOf (Some c) = filter (evidence c) FACT_ORDER"
  unfolding factsOf_def option.case Let_def foldl_set_add_option
  by (rule filter_cong) (auto simp: evidence_def set_add_def split: option.split)

lemma factsOf_mem: "f \<in> set (factsOf ctx) \<longleftrightarrow> (\<exists>c. ctx = Some c \<and> evidence c f)"
  by (cases ctx) (simp_all add: factsOf_eq FACT_ORDER_all(1), simp add: factsOf_def)

lemma distinct_factsOf: "distinct (factsOf ctx)"
  by (cases ctx) (simp_all add: factsOf_eq FACT_ORDER_all(2), simp add: factsOf_def)

text \<open>A bridge is always read out first, so that a swap on the way to another chain stays a bridge.\<close>

lemma bridge_first: "evidence c Bridge \<Longrightarrow> \<exists>fs. factsOf (Some c) = Bridge # fs"
  by (simp add: factsOf_eq FACT_ORDER_def)

text \<open>The facts depend only on which events were logged, not on their order or number.\<close>

lemma factsOf_order: "set (tc_topics c) = set (tc_topics c') \<Longrightarrow> tc_selector c = tc_selector c' \<Longrightarrow> factsOf (Some c) = factsOf (Some c')"
  by (simp add: factsOf_eq evidence_def [abs_def])

end
