(* ===== verification/Naming.thy ===== *)
theory Naming
  imports Prelude
begin

text \<open>
  \<open>core/src/naming.ts\<close> and \<open>core/src/partitions.ts\<close>: how contract, event and column names
  become PostgreSQL identifiers, and how a block number picks its partition. A JavaScript string
  is a list of characters; those of the model are the code units below 256. Each
  \<open>replace(/re/g, ..)\<close> of \<open>toSnakeCase\<close> is a left-to-right scanner of its own.
\<close>

subsection \<open>Characters\<close>

definition is_lower :: "char \<Rightarrow> bool" where
  "is_lower c \<longleftrightarrow> 97 \<le> (of_char c :: nat) \<and> (of_char c :: nat) \<le> 122"

definition is_upper :: "char \<Rightarrow> bool" where
  "is_upper c \<longleftrightarrow> 65 \<le> (of_char c :: nat) \<and> (of_char c :: nat) \<le> 90"

definition is_alnum :: "char \<Rightarrow> bool" where
  "is_alnum c \<longleftrightarrow> is_lower c \<or> is_upper c \<or> is_digit c"

definition to_lower :: "char \<Rightarrow> char" where
  "to_lower c = (if is_upper c then char_of ((of_char c :: nat) + 32) else c)"

lemmas char_class_defs = is_lower_def is_upper_def is_digit_def is_alnum_def

lemma underscore_class [simp]:
  "\<not> is_lower CHR ''_''" "\<not> is_upper CHR ''_''" "\<not> is_digit CHR ''_''" "\<not> is_alnum CHR ''_''"
  by (simp_all add: char_class_defs)

lemma class_disjoint:
  "is_lower c \<Longrightarrow> \<not> is_upper c" "is_digit c \<Longrightarrow> \<not> is_upper c" "is_digit c \<Longrightarrow> \<not> is_lower c"
  by (simp_all add: char_class_defs)

lemma to_lower_class:
  "is_upper c \<Longrightarrow> is_lower (to_lower c)" "\<not> is_upper c \<Longrightarrow> to_lower c = c"
  by (auto simp: to_lower_def is_lower_def is_upper_def)

lemma to_lower_underscore [simp]: "to_lower c = CHR ''_'' \<longleftrightarrow> c = CHR ''_''"
proof (cases "is_upper c")
  case True
  then have "is_lower (to_lower c)" by (rule to_lower_class)
  with True show ?thesis using underscore_class(1,2) by auto
qed (simp add: to_lower_class)

subsection \<open>toSnakeCase\<close>

text \<open>\<open>/([a-z0-9])([A-Z])/g\<close>: an underscore between a lower-case letter or digit and a capital.\<close>

fun split_camel :: "string \<Rightarrow> string" where
  "split_camel (a # b # xs) =
     (if (is_lower a \<or> is_digit a) \<and> is_upper b then a # CHR ''_'' # b # split_camel xs
      else a # split_camel (b # xs))"
| "split_camel xs = xs"

text \<open>
  \<open>/([A-Z]+)([A-Z][a-z])/g\<close>: a run of capitals followed by a lower-case letter gives up its last
  capital to the next word. The greedy \<open>[A-Z]+\<close> leaves exactly one capital of the run.
\<close>

function split_acronym :: "string \<Rightarrow> string" where
  "split_acronym s =
     (case s of [] \<Rightarrow> []
      | x # xs \<Rightarrow>
          (let caps = takeWhile is_upper s; rest = dropWhile is_upper s
           in if 2 \<le> length caps \<and> rest \<noteq> [] \<and> is_lower (hd rest)
              then butlast caps @ [CHR ''_'', last caps, hd rest] @ split_acronym (tl rest)
              else x # split_acronym xs))"
  by pat_completeness auto
termination
proof (relation "measure length", simp_all, goal_cases)
  case (1 s x xs)
  have "length (tl (dropWhile is_upper xs)) \<le> length (dropWhile is_upper xs)" by simp
  also have "\<dots> \<le> length xs" by (rule length_dropWhile_le)
  finally show ?case by (auto split: if_splits)
qed

declare split_acronym.simps [simp del]

text \<open>\<open>/[^a-zA-Z0-9]+/g\<close>: every run of other characters becomes one underscore.\<close>

function squeeze :: "string \<Rightarrow> string" where
  "squeeze [] = []"
| "squeeze (c # cs) =
     (if is_alnum c then c # squeeze cs else CHR ''_'' # squeeze (dropWhile (\<lambda>d. \<not> is_alnum d) cs))"
  by pat_completeness auto
termination
  by (relation "measure length") (auto simp: le_imp_less_Suc length_dropWhile_le)

text \<open>\<open>/^_+|_+$/g\<close>: underscores at either end go.\<close>

definition strip_underscores :: "string \<Rightarrow> string" where
  "strip_underscores s =
     rev (dropWhile (\<lambda>c. c = CHR ''_'') (rev (dropWhile (\<lambda>c. c = CHR ''_'') s)))"

definition toSnakeCase :: "string \<Rightarrow> string" where
  "toSnakeCase input = map to_lower (strip_underscores (squeeze (split_acronym (split_camel input))))"

subsection \<open>The shape of a snake-case name\<close>

definition no_double :: "string \<Rightarrow> bool" where
  "no_double s \<longleftrightarrow> successively (\<lambda>a b. \<not> (a = CHR ''_'' \<and> b = CHR ''_'')) s"

definition is_snake :: "string \<Rightarrow> bool" where
  "is_snake s \<longleftrightarrow>
     (\<forall>c \<in> set s. is_lower c \<or> is_digit c \<or> c = CHR ''_'') \<and> no_double s \<and>
     (s \<noteq> [] \<longrightarrow> hd s \<noteq> CHR ''_'' \<and> last s \<noteq> CHR ''_'')"

lemma squeeze_chars: "c \<in> set (squeeze s) \<Longrightarrow> is_alnum c \<or> c = CHR ''_''"
  by (induction s rule: squeeze.induct) (auto split: if_splits)

lemma squeeze_hd: "s \<noteq> [] \<Longrightarrow> is_alnum (hd s) \<Longrightarrow> is_alnum (hd (squeeze s))"
  by (cases s) simp_all

lemma squeeze_eq_Nil [simp]: "squeeze s = [] \<longleftrightarrow> s = []"
  by (cases s) simp_all

lemma hd_dropWhile_alnum:
  "dropWhile (\<lambda>d. \<not> is_alnum d) cs \<noteq> [] \<Longrightarrow> is_alnum (hd (dropWhile (\<lambda>d. \<not> is_alnum d) cs))"
  by (induction cs) auto

lemma squeeze_no_double: "no_double (squeeze s)"
proof (induction s rule: squeeze.induct)
  case (2 c cs)
  let ?r = "dropWhile (\<lambda>d. \<not> is_alnum d) cs"
  show ?case
  proof (cases "is_alnum c")
    case True
    with 2 show ?thesis by (auto simp: no_double_def successively_Cons)
  next
    case False
    have "?r = [] \<or> is_alnum (hd (squeeze ?r))"
      using squeeze_hd hd_dropWhile_alnum by blast
    then have "?r = [] \<or> hd (squeeze ?r) \<noteq> CHR ''_''" using underscore_class(4) by metis
    with False 2 show ?thesis by (simp add: no_double_def successively_Cons del: dropWhile_eq_Nil_conv)
  qed
qed (simp add: no_double_def)

lemma no_double_rev [simp]: "no_double (rev s) \<longleftrightarrow> no_double s"
  unfolding no_double_def successively_rev by (simp add: conj_commute)

lemma no_double_dropWhile: "no_double s \<Longrightarrow> no_double (dropWhile P s)"
  by (induction s) (auto simp: no_double_def successively_Cons)

lemma strip_no_double: "no_double s \<Longrightarrow> no_double (strip_underscores s)"
  by (simp add: strip_underscores_def no_double_dropWhile)

lemma strip_subset: "set (strip_underscores s) \<subseteq> set s"
  unfolding strip_underscores_def by (auto dest!: set_dropWhileD)

lemma hd_dropWhile_no: "dropWhile (\<lambda>c. c = x) s \<noteq> [] \<Longrightarrow> hd (dropWhile (\<lambda>c. c = x) s) \<noteq> x"
  by (induction s) auto

lemma last_dropWhile: "dropWhile P s \<noteq> [] \<Longrightarrow> last (dropWhile P s) = last s"
  by (induction s) auto

lemma strip_ends:
  assumes "strip_underscores s \<noteq> []"
  shows "hd (strip_underscores s) \<noteq> CHR ''_'' \<and> last (strip_underscores s) \<noteq> CHR ''_''"
proof -
  let ?a = "dropWhile (\<lambda>c. c = CHR ''_'') s"
  let ?b = "dropWhile (\<lambda>c. c = CHR ''_'') (rev ?a)"
  have b: "?b \<noteq> []" using assms by (simp add: strip_underscores_def)
  have a: "?a \<noteq> []"
  proof
    assume "?a = []"
    then have "?b = []" by (simp only: rev.simps dropWhile.simps)
    with b show False by contradiction
  qed
  have "last ?b = last (rev ?a)" by (rule last_dropWhile [OF b])
  then have "hd (rev ?b) = hd ?a" using a b by (simp only: hd_rev last_rev)
  moreover have "hd ?b \<noteq> CHR ''_''" by (rule hd_dropWhile_no [OF b])
  moreover have "hd ?a \<noteq> CHR ''_''" by (rule hd_dropWhile_no [OF a])
  moreover have "last (rev ?b) = hd ?b" using b by (simp only: last_rev)
  ultimately show ?thesis unfolding strip_underscores_def by metis
qed

lemma no_double_map_lower [simp]: "no_double (map to_lower s) \<longleftrightarrow> no_double s"
  by (simp add: no_double_def successively_map)

lemma toSnakeCase_is_snake: "is_snake (toSnakeCase s)"
proof -
  define t where "t = strip_underscores (squeeze (split_acronym (split_camel s)))"
  have ch: "is_alnum c \<or> c = CHR ''_''" if "c \<in> set t" for c
    using that strip_subset squeeze_chars unfolding t_def by blast
  have "no_double t" unfolding t_def by (rule strip_no_double [OF squeeze_no_double])
  then have "no_double (map to_lower t)" by simp
  moreover have "is_lower (to_lower c) \<or> is_digit (to_lower c) \<or> to_lower c = CHR ''_''" if "c \<in> set t" for c
    using ch [OF that] to_lower_class [of c] class_disjoint [of c] by (cases "is_upper c") (auto simp: is_alnum_def)
  moreover have "t \<noteq> [] \<Longrightarrow> to_lower (hd t) \<noteq> CHR ''_'' \<and> to_lower (last t) \<noteq> CHR ''_''"
    using strip_ends [of "squeeze (split_acronym (split_camel s))"] unfolding t_def [symmetric] by simp
  ultimately show ?thesis
    unfolding toSnakeCase_def t_def [symmetric] is_snake_def by (auto simp: hd_map last_map)
qed

text \<open>Names that already have the shape pass through unchanged.\<close>

lemma split_camel_id: "(\<And>c. c \<in> set s \<Longrightarrow> \<not> is_upper c) \<Longrightarrow> split_camel s = s"
  by (induction s rule: split_camel.induct) auto

lemma split_acronym_id: "(\<And>c. c \<in> set s \<Longrightarrow> \<not> is_upper c) \<Longrightarrow> split_acronym s = s"
  by (induction s) (simp_all add: split_acronym.simps)

lemma squeeze_id:
  "(\<And>c. c \<in> set s \<Longrightarrow> is_alnum c \<or> c = CHR ''_'') \<Longrightarrow> no_double s \<Longrightarrow> squeeze s = s"
proof (induction s)
  case (Cons c cs)
  have sub: "squeeze cs = cs" using Cons by (auto simp: no_double_def successively_Cons)
  show ?case
  proof (cases "is_alnum c")
    case False
    then have "c = CHR ''_''" using Cons.prems by auto
    then have "cs = [] \<or> is_alnum (hd cs)"
      using Cons.prems by (cases cs) (auto simp: no_double_def)
    then have "dropWhile (\<lambda>d. \<not> is_alnum d) cs = cs" by (cases cs) auto
    with sub \<open>c = CHR ''_''\<close> show ?thesis by simp
  qed (simp add: sub)
qed simp

lemma strip_id: "(s \<noteq> [] \<Longrightarrow> hd s \<noteq> CHR ''_'' \<and> last s \<noteq> CHR ''_'') \<Longrightarrow> strip_underscores s = s"
proof (cases "s = []")
  case False
  moreover assume "s \<noteq> [] \<Longrightarrow> hd s \<noteq> CHR ''_'' \<and> last s \<noteq> CHR ''_''"
  ultimately have "dropWhile (\<lambda>c. c = CHR ''_'') s = s" "dropWhile (\<lambda>c. c = CHR ''_'') (rev s) = rev s"
    by (auto simp: dropWhile_eq_self_iff hd_rev)
  then show ?thesis by (simp add: strip_underscores_def)
qed (simp add: strip_underscores_def)

lemma toSnakeCase_id:
  assumes "is_snake s"
  shows "toSnakeCase s = s"
proof -
  have up: "\<not> is_upper c" if "c \<in> set s" for c
    using assms that class_disjoint by (auto simp: is_snake_def)
  have al: "is_alnum c \<or> c = CHR ''_''" if "c \<in> set s" for c
    using assms that by (auto simp: is_snake_def is_alnum_def)
  have "strip_underscores (squeeze (split_acronym (split_camel s))) = s"
    using assms by (simp add: split_camel_id split_acronym_id squeeze_id strip_id up al is_snake_def)
  moreover have "map to_lower s = s" by (simp add: map_idI to_lower_class up)
  ultimately show ?thesis by (simp add: toSnakeCase_def)
qed

text \<open>
  Snake-casing yields a canonical name: lower-case letters, digits and single underscores,
  none at either end; the names it leaves unchanged are exactly the canonical ones, so applying
  it twice is the same as once (a schema name does not drift when it is derived again).
\<close>

theorem toSnakeCase_canonical:
  "is_snake (toSnakeCase s) \<and> (toSnakeCase s = s \<longleftrightarrow> is_snake s) \<and> toSnakeCase (toSnakeCase s) = toSnakeCase s"
  using toSnakeCase_is_snake [of s] toSnakeCase_id [of s] toSnakeCase_id [of "toSnakeCase s"] by metis

subsection \<open>PostgreSQL identifiers\<close>

text \<open>\<open>Buffer.byteLength(id, 'utf8')\<close> of code units below 256: two bytes from 128 on.\<close>

definition byteLength :: "string \<Rightarrow> nat" where
  "byteLength s = sum_list (map (\<lambda>c. if (of_char c :: nat) < 128 then 1 else 2) s)"

definition assertPgIdentifier :: "string \<Rightarrow> failure + string" where
  "assertPgIdentifier ident =
     (if byteLength ident > 63 then Inl (NamingError (''PostgreSQL identifier exceeds 63 bytes: '' @ ident))
      else Inr ident)"

definition schemaName :: "string \<Rightarrow> failure + string" where
  "schemaName indexerName = assertPgIdentifier (''idx_'' @ toSnakeCase indexerName)"

text \<open>\<open>overloadTopic0.slice(2, 6)\<close>: the first four hex digits after \<open>0x\<close>; an empty string is falsy.\<close>

definition eventTableName :: "string \<Rightarrow> string \<Rightarrow> string option \<Rightarrow> failure + string" where
  "eventTableName contractName eventName overloadTopic0 =
     (let base = toSnakeCase contractName @ ''_'' @ toSnakeCase eventName
      in assertPgIdentifier
           (case overloadTopic0 of
              Some t \<Rightarrow> if t \<noteq> [] then base @ ''_'' @ take 4 (drop 2 t) else base
            | None \<Rightarrow> base))"

lemma assertPgIdentifier_Inr [err_simps]:
  "assertPgIdentifier ident = Inr x \<longleftrightarrow> x = ident \<and> byteLength ident \<le> 63"
  by (auto simp: assertPgIdentifier_def)

lemma length_le_byteLength: "length s \<le> byteLength s"
  by (induction s) (auto simp: byteLength_def)

subsection \<open>Partitions\<close>

text \<open>\<open>bigint\<close> division truncates towards zero.\<close>

definition partitionOf :: "int \<Rightarrow> int \<Rightarrow> int" where
  "partitionOf block width = block sdiv width"

definition partitionName :: "string \<Rightarrow> int \<Rightarrow> failure + string" where
  "partitionName table n = assertPgIdentifier (table @ ''_p'' @ show_int n)"

definition quote_id :: "string \<Rightarrow> string" where
  "quote_id ident = CHR 0x22 # ident @ [CHR 0x22]"

definition partitionDdl :: "string \<Rightarrow> string \<Rightarrow> int \<Rightarrow> int \<Rightarrow> failure + string" where
  "partitionDdl schema table n width =
     bindE (partitionName table n) (\<lambda>p. Inr
       (''CREATE TABLE IF NOT EXISTS '' @ quote_id schema @ ''.'' @ quote_id p @ '' PARTITION OF '' @
        quote_id schema @ ''.'' @ quote_id table @ '' FOR VALUES FROM ('' @ show_int (n * width) @
        '') TO ('' @ show_int ((n + 1) * width) @ '')''))"

lemma byteLength_append [simp]: "byteLength (s @ t) = byteLength s + byteLength t"
  by (simp add: byteLength_def)

lemma byteLength_Cons [simp]: "byteLength (c # s) = (if (of_char c :: nat) < 128 then 1 else 2) + byteLength s"
  by (simp add: byteLength_def)

lemma byteLength_digits: "\<forall>c \<in> set s. is_digit c \<Longrightarrow> byteLength s = length s"
  by (induction s) (auto simp: byteLength_def is_digit_def)

lemma byteLength_show_nat: "byteLength (show_nat n) = length (show_nat n)"
  by (rule byteLength_digits) (simp add: show_nat_digits)

lemma length_show_nat: "0 < k \<Longrightarrow> n < 10 ^ k \<Longrightarrow> length (show_nat n) \<le> k"
proof (induction k arbitrary: n)
  case (Suc k)
  show ?case
  proof (cases "n < 10")
    case False
    then have "0 < k" using Suc.prems by (cases k) auto
    moreover have "n div 10 < 10 ^ k" using Suc.prems by (simp add: less_mult_imp_div_less mult.commute)
    ultimately have "length (show_nat (n div 10)) \<le> k" by (rule Suc.IH)
    with False show ?thesis by (simp add: show_nat.simps [of n])
  qed (simp add: show_nat.simps [of n])
qed simp

lemma partitionName_below:
  assumes "byteLength (t @ ''_p'' @ show_int 999999) \<le> 63" "0 \<le> n" "n \<le> 999999"
  shows "partitionName t n = Inr (t @ ''_p'' @ show_nat (nat n))"
proof -
  have six: "show_nat 999999 = ''999999''" by (simp add: show_eval)
  have "length (show_nat (nat n)) \<le> 6" by (rule length_show_nat) (use assms(2,3) in auto)
  moreover have "byteLength ''999999'' = 6" by (simp add: byteLength_def)
  ultimately show ?thesis
    using assms by (simp add: partitionName_def assertPgIdentifier_def show_int_def byteLength_show_nat six)
qed

lemma partitionOf_nonneg: "0 \<le> b \<Longrightarrow> 0 < width \<Longrightarrow> partitionOf b width = b div width"
  by (cases "b = 0") (simp_all add: partitionOf_def signed_divide_int_def)

lemma partitionOf_iff:
  assumes "0 \<le> b" "0 < width"
  shows "partitionOf b width = n \<longleftrightarrow> n * width \<le> b \<and> b < (n + 1) * width"
proof -
  have "b div width = n \<longleftrightarrow> n * width \<le> b \<and> b < (n + 1) * width"
  proof
    assume "b div width = n"
    then show "n * width \<le> b \<and> b < (n + 1) * width"
      using assms(2) by (metis div_mult_mod_eq add.commute distrib_right le_add_same_cancel1 mult.commute
        mult_1 pos_mod_bound pos_mod_sign add_strict_left_mono)
  next
    assume h: "n * width \<le> b \<and> b < (n + 1) * width"
    then have "b = n * width + (b - n * width)" "0 \<le> b - n * width" "b - n * width < width"
      by (auto simp: algebra_simps)
    then show "b div width = n" using int_div_pos_eq [of b width n "b - n * width"] by (simp add: mult.commute)
  qed
  then show ?thesis by (simp add: partitionOf_nonneg assms)
qed

lemma takeWhile_digits_rev_show: "takeWhile is_digit (rev (show_nat n) @ CHR ''p'' # xs) = rev (show_nat n)"
  by (rule takeWhile_tail [THEN trans])
     (auto simp: is_digit_def takeWhile_eq_all_conv dest: show_nat_digits)

lemma partition_suffix_unique:
  assumes "t @ ''_p'' @ show_nat m = t' @ ''_p'' @ show_nat n"
  shows "t = t' \<and> m = n"
proof -
  have eq: "rev (show_nat m) @ CHR ''p'' # CHR ''_'' # rev t = rev (show_nat n) @ CHR ''p'' # CHR ''_'' # rev t'"
    using arg_cong [OF assms, of rev] by simp
  then have "rev (show_nat m) = rev (show_nat n)" by (metis takeWhile_digits_rev_show)
  then have "show_nat m = show_nat n" by simp
  with assms show ?thesis by simp
qed

text \<open>
  A partition's name tells the table and the partition number: two different tables or
  numbers never share one, although names are only concatenated (\<open>a\<close> with partition 12 and
  \<open>a_p1\<close> with partition 2 stay apart).
\<close>

theorem partitionName_injective:
  assumes "partitionName t m = Inr p" "partitionName t' n = Inr p" "0 \<le> m" "0 \<le> n"
  shows "t = t' \<and> m = n"
proof -
  have "t @ ''_p'' @ show_nat (nat m) = t' @ ''_p'' @ show_nat (nat n)"
    using assms by (simp add: partitionName_def assertPgIdentifier_Inr show_int_def)
  then have "t = t' \<and> nat m = nat n" by (rule partition_suffix_unique)
  with assms(3,4) show ?thesis by (simp add: eq_nat_nat_iff)
qed

lemma partition_usdc_7: "partitionName ''usdc_transfer'' 7 = Inr ''usdc_transfer_p7''"
  by code_simp

theorem partitionName_injective_witness: "''usdc_transfer'' = ''usdc_transfer'' \<and> (7 :: int) = 7"
  using partitionName_injective [OF partition_usdc_7 partition_usdc_7] by simp

text \<open>
  Every block has exactly one partition, the one whose declared bounds hold it: partition
  \<open>n\<close> of span \<open>width\<close> covers \<open>[n * width, (n + 1) * width)\<close>, with no gap and no overlap.
\<close>

theorem partition_covers:
  assumes "0 \<le> b" "0 < width"
  shows "partitionOf b width * width \<le> b \<and> b < (partitionOf b width + 1) * width \<and>
         (n * width \<le> b \<and> b < (n + 1) * width \<longleftrightarrow> n = partitionOf b width)"
  using partitionOf_iff [OF assms] by metis

theorem partition_covers_witness:
  "partitionOf 4000001 2000000 * 2000000 \<le> 4000001 \<and> (4000001 :: int) < (partitionOf 4000001 2000000 + 1) * 2000000"
  using partition_covers [of 4000001 2000000] by simp

end
