(* ===== verification/Abi.thy ===== *)
theory Abi
  imports Naming
begin

text \<open>
  \<open>core/src/abi.ts\<close> and \<open>worker/src/abi.ts\<close>: from a contract's ABI to the definitions of the
  events that are indexed, one table each. The selector hashes (viem's \<open>toEventSelector\<close> and
  \<open>toFunctionSelector\<close>) are parameters, as are reading a mounted file, \<open>JSON.parse\<close> of it and the
  explorer's answer.
\<close>

subsection \<open>ABI entries and event definitions\<close>

record abi_param =
  p_name :: string           \<comment> \<open>\<open>''\<close> when the ABI names none\<close>
  p_type :: string
  p_indexed :: bool

record abi_event =
  ev_name :: string
  ev_inputs :: "abi_param list"

record abi_function =
  fn_name :: string
  fn_inputs :: "string list"

text \<open>One element of the ABI array; anything that is neither (null, a constructor, an error) is other.\<close>

datatype abi_entry = EventEntry abi_event | FunctionEntry abi_function | OtherEntry

text \<open>A JSON value offered as an ABI: an array of entries, or something that is no array.\<close>

type_synonym abi_json = "abi_entry list option"

record event_def =
  ed_contractName :: string
  ed_address :: string
  ed_event :: abi_event
  ed_topic0 :: string
  ed_tableName :: string

fun abi_events :: "abi_entry list \<Rightarrow> abi_event list" where
  "abi_events [] = []"
| "abi_events (EventEntry e # es) = e # abi_events es"
| "abi_events (_ # es) = abi_events es"

definition name_counts :: "abi_event list \<Rightarrow> (string \<times> nat) list" where
  "name_counts wanted =
     foldl (\<lambda>m e. map_set (ev_name e) (case map_of m (ev_name e) of None \<Rightarrow> 1 | Some n \<Rightarrow> n + 1) m) [] wanted"

definition eventDef :: "(abi_event \<Rightarrow> string) \<Rightarrow> string \<Rightarrow> string \<Rightarrow> (string \<times> nat) list \<Rightarrow> abi_event \<Rightarrow> failure + event_def" where
  "eventDef toEventSelector contractName address nameCounts event =
     (let topic0 = toEventSelector event;
          overloaded = (case map_of nameCounts (ev_name event) of None \<Rightarrow> 0 | Some n \<Rightarrow> n) > 1
      in bindE (eventTableName contractName (ev_name event) (if overloaded then Some topic0 else None))
           (\<lambda>tableName. Inr \<lparr>ed_contractName = contractName, ed_address = map to_lower address,
              ed_event = event, ed_topic0 = topic0, ed_tableName = tableName\<rparr>))"

definition wanted_events :: "string list option \<Rightarrow> abi_event list \<Rightarrow> abi_event list" where
  "wanted_events selectedEvents events =
     (case selectedEvents of
        Some names \<Rightarrow> if names \<noteq> [] then filter (\<lambda>e. ev_name e \<in> set names) events else events
      | None \<Rightarrow> events)"

definition extractEventDefs ::
  "(abi_event \<Rightarrow> string) \<Rightarrow> string \<Rightarrow> string \<Rightarrow> abi_json \<Rightarrow> string list option \<Rightarrow> failure + event_def list" where
  "extractEventDefs toEventSelector contractName address abi selectedEvents =
     (case abi of
        None \<Rightarrow> Inl (AbiError (contractName @ '': ABI must be a JSON array''))
      | Some entries \<Rightarrow>
          (let events = abi_events entries
           in case find (\<lambda>name. name \<notin> ev_name ` set events) (case selectedEvents of None \<Rightarrow> [] | Some ns \<Rightarrow> ns) of
                Some name \<Rightarrow> Inl (AbiError (contractName @ '': event '' @ [CHR 0x27] @ name @ [CHR 0x27] @ '' not found in ABI''))
              | None \<Rightarrow>
                  (let wanted = wanted_events selectedEvents events
                   in mapE (eventDef toEventSelector contractName address (name_counts wanted)) wanted)))"

text \<open>The names of an ABI's functions by selector; a later function with the same selector wins.\<close>

definition extractFunctionNames :: "(abi_function \<Rightarrow> string) \<Rightarrow> abi_json \<Rightarrow> failure + (string \<times> string) list" where
  "extractFunctionNames toFunctionSelector abi =
     (case abi of
        None \<Rightarrow> Inl (AbiError ''ABI must be a JSON array'')
      | Some entries \<Rightarrow>
          Inr (foldl (\<lambda>names entry. case entry of
                 FunctionEntry fn \<Rightarrow> map_set (toFunctionSelector fn) (fn_name fn) names | _ \<Rightarrow> names) [] entries))"

subsection \<open>Where an ABI comes from\<close>

record contract_config =
  cc_name :: string
  cc_address :: string
  cc_abiPath :: "string option"
  cc_abiInline :: "abi_entry list option"
  cc_startBlock :: "int option"
  cc_events :: "string list"

text \<open>The explorer's answer: an \<open>abi\<close> (absent when falsy) and an optional message.\<close>

record explorer_body =
  eb_abi :: "abi_json option"
  eb_message :: "string option"

record abi_deps =
  readFile :: "string \<Rightarrow> failure + string"
  parseJson :: "string \<Rightarrow> failure + abi_json"
  fetchJson :: "string \<Rightarrow> failure + explorer_body"

definition strip_slash :: "string \<Rightarrow> string" where
  "strip_slash u = (if u \<noteq> [] \<and> last u = CHR ''/'' then butlast u else u)"

definition truthy :: "string option \<Rightarrow> string option" where
  "truthy s = (case s of Some [] \<Rightarrow> None | _ \<Rightarrow> s)"

definition resolveContractAbi :: "abi_deps \<Rightarrow> contract_config \<Rightarrow> string option \<Rightarrow> failure + abi_json" where
  "resolveContractAbi deps contract explorerApi =
     (case truthy (cc_abiPath contract) of
        Some path \<Rightarrow> bindE (readFile deps path) (parseJson deps)
      | None \<Rightarrow>
     (case cc_abiInline contract of
        Some inline \<Rightarrow> Inr (Some inline)
      | None \<Rightarrow>
     (case truthy explorerApi of
        Some api \<Rightarrow>
          bindE (fetchJson deps (strip_slash api @ ''/smart-contracts/'' @ cc_address contract)) (\<lambda>body.
            case eb_abi body of
              None \<Rightarrow> Inl (PlainError
                (''no verified ABI on the explorer for '' @ cc_name contract @ '' ('' @ cc_address contract @ '')'' @
                 (case truthy (eb_message body) of Some m \<Rightarrow> '': '' @ m | None \<Rightarrow> []) @
                 '' - set abi.configMapRef or abi.inline''))
            | Some abi \<Rightarrow> Inr abi)
      | None \<Rightarrow> Inl (PlainError
          (''no ABI source for '' @ cc_name contract @
           '': set abi.configMapRef, abi.inline, or network.explorerApi'')))))"

subsection \<open>What extraction yields\<close>

lemma name_counts_count: "map_of (name_counts es) n = (let k = length (filter (\<lambda>e. ev_name e = n) es) in if k = 0 then None else Some k)"
proof (induction es rule: rev_induct)
  case (snoc e es)
  then show ?case by (auto simp: name_counts_def Let_def filter_empty_conv)
qed (simp add: name_counts_def)

definition overloaded_in :: "abi_event list \<Rightarrow> abi_event \<Rightarrow> bool" where
  "overloaded_in wanted e \<longleftrightarrow> length (filter (\<lambda>e'. ev_name e' = ev_name e) wanted) > 1"

lemma eventDef_Inr [err_simps]:
  "eventDef sel c a (name_counts wanted) e = Inr d \<longleftrightarrow>
     ed_contractName d = c \<and> ed_address d = map to_lower a \<and> ed_event d = e \<and> ed_topic0 d = sel e \<and>
     eventTableName c (ev_name e) (if overloaded_in wanted e then Some (sel e) else None) = Inr (ed_tableName d)"
  unfolding eventDef_def name_counts_count overloaded_in_def
  by (cases d) (auto simp: bindE_Inr Let_def)

lemma eventTableName_len: "eventTableName c e o0 = Inr t \<Longrightarrow> byteLength t \<le> 63"
  by (auto simp: eventTableName_def Let_def assertPgIdentifier_Inr)

text \<open>
  Extraction indexes exactly the wanted events of the ABI, in ABI order, each under its own
  topic, the lower-cased address and a table name within PostgreSQL's 63 bytes; it fails just when
  the ABI is no array, a selected event is not in it, or a table name would be too long.
\<close>

theorem extractEventDefs_correct:
  "(case extractEventDefs sel c a abi selected of
      Inr defs \<Rightarrow> \<exists>entries. abi = Some entries \<and>
        map ed_event defs = wanted_events selected (abi_events entries) \<and>
        (\<forall>d \<in> set defs. ed_contractName d = c \<and> ed_address d = map to_lower a \<and>
           ed_topic0 d = sel (ed_event d) \<and> byteLength (ed_tableName d) \<le> 63)
    | Inl e \<Rightarrow> abi = None \<or>
        (\<exists>entries. abi = Some entries \<and>
          ((\<exists>names n. selected = Some names \<and> n \<in> set names \<and> n \<notin> ev_name ` set (abi_events entries)) \<or>
           (\<exists>ev \<in> set (wanted_events selected (abi_events entries)). \<exists>o0. eventTableName c (ev_name ev) o0 = Inl e))))"
proof (cases "extractEventDefs sel c a abi selected")
  case (Inr defs)
  then obtain entries where e: "abi = Some entries" and
    m: "mapE (eventDef sel c a (name_counts (wanted_events selected (abi_events entries))))
          (wanted_events selected (abi_events entries)) = Inr defs"
    by (auto simp: extractEventDefs_def Let_def split: option.splits)
  then have l2: "list_all2 (\<lambda>ev d. eventDef sel c a (name_counts (wanted_events selected (abi_events entries))) ev = Inr d)
      (wanted_events selected (abi_events entries)) defs"
    by (simp add: mapE_Inr)
  have "map ed_event defs = wanted_events selected (abi_events entries)"
    using l2 by (rule list_all2_induct) (auto simp: eventDef_Inr)
  moreover have "\<forall>d \<in> set defs. ed_contractName d = c \<and> ed_address d = map to_lower a \<and>
           ed_topic0 d = sel (ed_event d) \<and> byteLength (ed_tableName d) \<le> 63"
    using l2 by (auto simp: list_all2_conv_all_nth in_set_conv_nth eventDef_Inr dest!: eventTableName_len)
  ultimately show ?thesis using Inr e by auto
next
  case (Inl e)
  then show ?thesis
    by (auto simp: extractEventDefs_def Let_def eventDef_def bindE_Inl find_Some_iff in_set_conv_nth
        dest!: mapE_Inl split: option.splits) (metis nth_mem)+
qed

definition sample_abi :: "abi_entry list" where
  "sample_abi = [OtherEntry, EventEntry \<lparr>ev_name = ''Transfer'', ev_inputs = []\<rparr>]"

theorem extractEventDefs_correct_witness:
  "map_sum (\<lambda>e. ()) (map ed_event) (extractEventDefs (\<lambda>_. ''0xdd'') ''usdc'' ''0xA'' (Some sample_abi) None) =
     Inr [\<lparr>ev_name = ''Transfer'', ev_inputs = []\<rparr>]"
proof -
  have "\<not> isl (extractEventDefs (\<lambda>_. ''0xdd'') ''usdc'' ''0xA'' (Some sample_abi) None)" by code_simp
  then obtain defs where "extractEventDefs (\<lambda>_. ''0xdd'') ''usdc'' ''0xA'' (Some sample_abi) None = Inr defs"
    by (metis sum.collapse(2))
  moreover have "wanted_events None (abi_events sample_abi) = [\<lparr>ev_name = ''Transfer'', ev_inputs = []\<rparr>]" by code_simp
  ultimately show ?thesis
    using extractEventDefs_correct [where sel = "\<lambda>_. ''0xdd''" and c = "''usdc''" and a = "''0xA''" and abi = "Some sample_abi" and selected = None] by simp
qed

text \<open>
  Table names do not tell contracts apart: two contracts whose names differ only by where the
  words are cut (contract \<open>a\<close> with event \<open>bC\<close>, contract \<open>a-b\<close> with event \<open>c\<close>) get the same
  table, although their addresses differ.
\<close>

theorem tableName_collision:
  "eventTableName ''a'' ''bC'' None = eventTableName ''a-b'' ''c'' None \<and>
   eventTableName ''a'' ''bC'' None = Inr ''a_b_c''"
  by code_simp

end
