(* ===== verification/Sentence.thy ===== *)
theory Sentence
  imports Complex_Main Facts Abi
begin

text \<open>
  \<open>core/src/insights/sentence.ts\<close>, \<open>lanes.ts\<close> and \<open>tokens.ts\<close>: an indexed event and its
  transaction become the sentence the model reads, and the model's answer becomes a lane.
  Probabilities are exact rationals where the source has doubles.
\<close>

subsection \<open>Known tokens\<close>

record token_info =
  tk_label :: string
  tk_decimals :: "nat option"

definition NATIVE_USDC :: string where
  "NATIVE_USDC = ''0xfffffffffffffffffffffffffffffffffffffffe''"

definition KNOWN_TOKENS :: "(int \<times> (string \<times> token_info) list) list" where
  "KNOWN_TOKENS = (let ARC = [(NATIVE_USDC, \<lparr>tk_label = ''USDC'', tk_decimals = Some 18\<rparr>)] in [(5042, ARC), (5042002, ARC)])"

definition knownToken :: "int \<Rightarrow> string \<Rightarrow> token_info option" where
  "knownToken chainId address =
     (case map_of KNOWN_TOKENS chainId of None \<Rightarrow> None | Some toks \<Rightarrow> map_of toks (map to_lower address))"

subsection \<open>Describing an event\<close>

definition TRANSFER_TOPIC :: string where
  "TRANSFER_TOPIC = ''0xddf252ad1be2c89b69c2b068fc378daa952ba7f163c4a11628f55a4df523b3ef''"

definition ZERO_ADDRESS :: string where
  "ZERO_ADDRESS = ''0x0000000000000000000000000000000000000000''"

definition PLAIN_SELECTORS :: "string list" where
  "PLAIN_SELECTORS = [''0x'', ''0xa9059cbb'', ''0x23b872dd'']"

definition MOVEMENT_TOPICS :: "string list" where
  "MOVEMENT_TOPICS =
     [TRANSFER_TOPIC,
      ''0xc3d58168c5ae7397731d063d5bbf3d657854427343f4c083240f7aacaa2d0f62'',
      ''0x4a39dc06d4c0dbc64b70af90fd698a233a518aa5d07e595d983b8c0526c8f7fb'']"

definition INCIDENTAL :: "fact list" where
  "INCIDENTAL = [SmartAccount, Fee]"

record transfer_fields =
  tf_from :: string
  tf_to :: string
  tf_value :: int

record call_info =
  ci_contract :: string
  ci_fn :: "string option"

record describe_input =
  di_contractName :: string
  di_contractAddress :: string
  di_eventName :: string
  di_transfer :: "transfer_fields option"
  di_token :: "token_info option"
  di_ctx :: "tx_context option"
  di_parties :: "(string \<times> bool) list"
  di_call :: "call_info option"

record description =
  ds_sentence :: string
  ds_facts :: "fact list"
  ds_protocol :: string
  ds_ruled :: string

definition isTransferEvent :: "event_def \<Rightarrow> bool" where
  "isTransferEvent def \<longleftrightarrow>
     ed_topic0 def = TRANSFER_TOPIC \<and>
     (case ev_inputs (ed_event def) of
        [from, to, val] \<Rightarrow> p_type from = ''address'' \<and> p_type to = ''address'' \<and> p_type val = ''uint256'' \<and> \<not> p_indexed val
      | _ \<Rightarrow> False)"

definition amountBucket :: "int \<Rightarrow> token_info \<Rightarrow> string" where
  "amountBucket v token =
     (if v = 0 then ''zero '' @ tk_label token
      else case tk_decimals token of
        None \<Rightarrow> ''a nonzero amount of '' @ tk_label token
      | Some d \<Rightarrow>
          (let unit = 10 ^ d in
           if v * 100 < unit then ''less than one cent of '' @ tk_label token
           else if v < unit then ''under 1 '' @ tk_label token
           else if v < 100 * unit then ''1 to 100 '' @ tk_label token
           else if v < 10000 * unit then ''100 to 10,000 '' @ tk_label token
           else ''over 10,000 '' @ tk_label token))"

definition party :: "string \<Rightarrow> (string \<times> bool) list \<Rightarrow> string" where
  "party address parties =
     (case map_of parties address of None \<Rightarrow> ''an account'' | Some c \<Rightarrow> if c then ''a contract'' else ''a wallet'')"

definition head_phrase :: "describe_input \<Rightarrow> string" where
  "head_phrase i =
     (case (di_transfer i, di_token i) of
        (Some t, Some token) \<Rightarrow>
          (let amount = amountBucket (tf_value t) token in
           if tf_from t = ZERO_ADDRESS
           then tk_label token @ '' was minted to '' @ party (tf_to t) (di_parties i) @ '', amount '' @ amount @ ''.''
           else if tf_to t = ZERO_ADDRESS
           then tk_label token @ '' was burned from '' @ party (tf_from t) (di_parties i) @ '', amount '' @ amount @ ''.''
           else tk_label token @ '' moved from '' @ party (tf_from t) (di_parties i) @ '' to '' @
                party (tf_to t) (di_parties i) @ '', amount '' @ amount @ ''.'')
      | _ \<Rightarrow> ''The '' @ di_contractName i @ '' contract logged '' @ di_eventName i @ ''.'')"

definition isPlain :: "tx_context option \<Rightarrow> fact list \<Rightarrow> string \<Rightarrow> bool" where
  "isPlain ctx facts contractAddress \<longleftrightarrow>
     (case ctx of None \<Rightarrow> False
      | Some c \<Rightarrow> facts = [] \<and> tc_selector c \<in> set PLAIN_SELECTORS \<and> (tc_to c = Some contractAddress \<or> tc_selector c = ''0x''))"

definition callPhrase :: "tx_context option \<Rightarrow> call_info option \<Rightarrow> string" where
  "callPhrase ctx call =
     (case (ctx, truthy (case call of None \<Rightarrow> None | Some c \<Rightarrow> ci_fn c)) of
        (Some c, Some fn) \<Rightarrow>
          if map_has (tc_selector c) FACT_BY_SELECTOR \<or> tc_selector c \<in> set PLAIN_SELECTORS then []
          else ''It was called with '' @ fn @ ''.''
      | _ \<Rightarrow> [])"

definition tail_phrase :: "tx_context option \<Rightarrow> fact list \<Rightarrow> bool \<Rightarrow> string" where
  "tail_phrase ctx facts plain =
     (if ctx = None then ''The rest of the transaction could not be read.''
      else ''In the same transaction: '' @
        join ''; '' (if facts = []
          then [if plain then ''it was a plain direct transfer'' else ''nothing else recognisable happened'']
          else map FACT_PHRASE facts) @ ''.'')"

definition ruledLane :: "describe_input \<Rightarrow> fact list \<Rightarrow> bool \<Rightarrow> string \<Rightarrow> string" where
  "ruledLane i facts plain called =
     (case di_ctx i of None \<Rightarrow> ''uncertain''
      | Some c \<Rightarrow>
         (case (di_transfer i, di_token i) of
            (Some t, Some _) \<Rightarrow>
              if (tf_from t = ZERO_ADDRESS \<or> tf_to t = ZERO_ADDRESS) \<and> Bridge \<notin> set facts then ''issuance''
              else if tf_value t = 0 \<and> list_all (\<lambda>f. f \<in> set INCIDENTAL) facts then ''spam''
              else if facts = [] \<and> \<not> plain \<and> called = [] then ''uncertain''
              else []
          | _ \<Rightarrow>
              if tc_valueSent c = Some True \<or> list_ex (\<lambda>topic. topic \<in> set MOVEMENT_TOPICS) (tc_topics c)
              then [] else ''no_transfer''))"

definition describeEvent :: "describe_input \<Rightarrow> description" where
  "describeEvent i =
     (let facts = factsOf (di_ctx i);
          plain = isPlain (di_ctx i) facts (di_contractAddress i);
          called = callPhrase (di_ctx i) (di_call i)
      in \<lparr>ds_sentence = join '' '' (filter (\<lambda>s. s \<noteq> []) [head_phrase i, called, tail_phrase (di_ctx i) facts plain]),
          ds_facts = facts,
          ds_protocol = (if protocolOf (di_ctx i) \<noteq> [] then protocolOf (di_ctx i)
            else case di_call i of Some c \<Rightarrow> ci_contract c | None \<Rightarrow> []),
          ds_ruled = ruledLane i facts plain called\<rparr>)"

subsection \<open>Settling a lane\<close>

definition LANES :: "(string \<times> string) list" where
  "LANES =
     [(''swap'', ''tokens were swapped on an exchange or traded on a marketplace''),
      (''bridge'', ''funds were sent to or arrived from another chain through a bridge, even if tokens were also swapped''),
      (''liquidity'', ''pool liquidity changed, even if tokens were also swapped''),
      (''vault'', ''funds were deposited into or withdrawn from a vault, or USDC was wrapped or unwrapped''),
      (''lending'', ''a loan was opened, repaid or liquidated''),
      (''signed_payment'', ''the payer signed an authorization and someone else submitted it''),
      (''payment'', ''a plain direct transfer, with nothing else happening''),
      (''spam'', ''zero or less than one cent of USDC moved and nothing else recognisable happened'')]"

definition UNCERTAIN_BELOW :: rat where
  "UNCERTAIN_BELOW = 35 / 100"

record lane_answer =
  la_choice :: string
  la_probabilities :: "(string \<times> rat) list"

record settled_lane =
  sl_lane :: string
  sl_laneP :: "rat option"

definition round3 :: "rat \<Rightarrow> rat" where
  "round3 n = of_int \<lfloor>n * 1000 + 1 / 2\<rfloor> / 1000"

fun best_of :: "(string \<times> rat) \<Rightarrow> (string \<times> rat) list \<Rightarrow> string \<times> rat" where
  "best_of best [] = best"
| "best_of best (cur # rest) = best_of (if snd cur > snd best then cur else best) rest"

fun max_of :: "rat list \<Rightarrow> rat" where
  "max_of [] = 0"
| "max_of (x # xs) = foldl max x xs"

definition settleLane :: "lane_answer option \<Rightarrow> string \<Rightarrow> settled_lane" where
  "settleLane answer ruled =
     (if ruled \<noteq> [] then \<lparr>sl_lane = ruled, sl_laneP = None\<rparr>
      else case answer of None \<Rightarrow> \<lparr>sl_lane = ''uncertain'', sl_laneP = None\<rparr>
      | Some a \<Rightarrow>
         (let stand = (\<lambda>(lane, p).
                (let p = round3 p
                 in if \<not> map_has lane LANES \<or> p < UNCERTAIN_BELOW then \<lparr>sl_lane = ''uncertain'', sl_laneP = Some p\<rparr>
                    else \<lparr>sl_lane = lane, sl_laneP = Some p\<rparr>))
          in if la_choice a = ''spam''
             then (case filter (\<lambda>(k, _). map_has k LANES \<and> k \<noteq> ''spam'') (la_probabilities a) of
                     [] \<Rightarrow> \<lparr>sl_lane = ''uncertain'', sl_laneP = Some 0\<rparr>
                   | r # rest \<Rightarrow> stand (best_of r rest))
             else stand (la_choice a, max_of (map snd (la_probabilities a)))))"

subsection \<open>A settled lane stands on the answer\<close>

lemma best_of_mem: "best_of b xs \<in> set (b # xs)"
proof (induction xs arbitrary: b)
  case (Cons c xs)
  have "best_of b (c # xs) = best_of (if snd c > snd b then c else b) xs" by simp
  with Cons [of "if snd c > snd b then c else b"] show ?case by (auto split: if_splits)
qed simp

lemma best_of_max: "x \<in> set (b # xs) \<Longrightarrow> snd x \<le> snd (best_of b xs)"
proof (induction xs arbitrary: b x)
  case (Cons c xs)
  let ?b = "if snd c > snd b then c else b"
  have b: "snd ?b \<le> snd (best_of ?b xs)" by (rule Cons.IH [OF list.set_intros(1)])
  have "snd b \<le> snd ?b" "snd c \<le> snd ?b" by simp_all
  then have "snd b \<le> snd (best_of ?b xs)" "snd c \<le> snd (best_of ?b xs)" using b by (meson order_trans)+
  with Cons.IH [of x ?b] Cons.prems show ?case by (auto simp del: best_of.simps(1))
qed simp

definition offered :: "lane_answer \<Rightarrow> (string \<times> rat) list" where
  "offered a = filter (\<lambda>(k, _). map_has k LANES \<and> k \<noteq> ''spam'') (la_probabilities a)"

lemma settled_answer:
  assumes "sl_lane (settleLane (Some a) []) \<noteq> ''uncertain''"
  shows "\<exists>p. settleLane (Some a) [] = \<lparr>sl_lane = sl_lane (settleLane (Some a) []), sl_laneP = Some (round3 p)\<rparr> \<and>
     UNCERTAIN_BELOW \<le> round3 p \<and> map_has (sl_lane (settleLane (Some a) [])) LANES \<and>
     (if la_choice a = ''spam''
      then (sl_lane (settleLane (Some a) []), p) \<in> set (offered a) \<and> (\<forall>x \<in> set (offered a). snd x \<le> p)
      else sl_lane (settleLane (Some a) []) = la_choice a \<and> p = max_of (map snd (la_probabilities a)))"
proof (cases "la_choice a = ''spam''")
  case False
  then show ?thesis using assms by (auto simp: settleLane_def Let_def split: if_splits)
next
  case True
  show ?thesis
  proof (cases "offered a")
    case Nil
    with True assms show ?thesis by (simp add: settleLane_def offered_def)
  next
    case (Cons r rest)
    obtain k p where b: "best_of r rest = (k, p)" by fastforce
    have s: "settleLane (Some a) [] =
        (if \<not> map_has k LANES \<or> round3 p < UNCERTAIN_BELOW then \<lparr>sl_lane = ''uncertain'', sl_laneP = Some (round3 p)\<rparr>
         else \<lparr>sl_lane = k, sl_laneP = Some (round3 p)\<rparr>)"
      using True Cons by (simp add: settleLane_def offered_def b Let_def)
    have "(k, p) \<in> set (offered a)" "\<And>x. x \<in> set (offered a) \<Longrightarrow> snd x \<le> p"
      using best_of_mem [of r rest] best_of_max [of _ r rest] unfolding Cons b by simp_all
    with s assms True show ?thesis by (auto split: if_splits)
  qed
qed

text \<open>
  A settled lane is the ruled one without a confidence, or uncertain, or a lane the model gave at
  least 35 percent: its own choice with the highest probability or, where it chose spam, the most
  probable other lane on offer. Spam is never the model's decision.
\<close>

theorem settleLane_sound:
  "case settleLane answer ruled of s \<Rightarrow>
     if ruled \<noteq> [] then s = \<lparr>sl_lane = ruled, sl_laneP = None\<rparr>
     else if sl_lane s = ''uncertain'' then True
     else (\<exists>a p. answer = Some a \<and> sl_laneP s = Some (round3 p) \<and> 35 / 100 \<le> round3 p \<and>
             map_has (sl_lane s) LANES \<and> sl_lane s \<noteq> ''spam'' \<and>
             (if la_choice a = ''spam'' then (sl_lane s, p) \<in> set (offered a) \<and> list_all (\<lambda>x. snd x \<le> p) (offered a)
              else sl_lane s = la_choice a \<and> p = max_of (map snd (la_probabilities a))))"
proof (cases "ruled = []")
  case False
  then show ?thesis by (simp add: settleLane_def)
next
  case True
  let ?s = "settleLane answer []"
  show ?thesis
  proof (cases "sl_lane ?s = ''uncertain''")
    case False
    then obtain a where a: "answer = Some a" by (cases answer) (simp_all add: settleLane_def)
    obtain p where p: "?s = \<lparr>sl_lane = sl_lane ?s, sl_laneP = Some (round3 p)\<rparr>" "UNCERTAIN_BELOW \<le> round3 p"
      "map_has (sl_lane ?s) LANES"
      "if la_choice a = ''spam'' then (sl_lane ?s, p) \<in> set (offered a) \<and> (\<forall>x \<in> set (offered a). snd x \<le> p)
       else sl_lane ?s = la_choice a \<and> p = max_of (map snd (la_probabilities a))"
      using settled_answer [of a] False unfolding a by blast
    have "sl_lane ?s \<noteq> ''spam''" using p(4) by (auto simp: offered_def split: if_splits)
    moreover have "sl_laneP ?s = Some (round3 p)" by (subst p(1)) simp
    moreover have "35 / 100 \<le> round3 p" using p(2) by (simp add: UNCERTAIN_BELOW_def)
    moreover note p(3,4) a
    ultimately have "\<exists>a p. answer = Some a \<and> sl_laneP ?s = Some (round3 p) \<and> 35 / 100 \<le> round3 p \<and>
        map_has (sl_lane ?s) LANES \<and> sl_lane ?s \<noteq> ''spam'' \<and>
        (if la_choice a = ''spam'' then (sl_lane ?s, p) \<in> set (offered a) \<and> list_all (\<lambda>x. snd x \<le> p) (offered a)
         else sl_lane ?s = la_choice a \<and> p = max_of (map snd (la_probabilities a)))"
      unfolding list_all_iff by blast
    with False show ?thesis unfolding True by (simp only: if_False simp_thms)
  qed (simp add: True)
qed

subsection \<open>Amounts\<close>

definition amount_phrase :: "rat \<Rightarrow> string \<Rightarrow> string" where
  "amount_phrase q t =
     (if q = 0 then ''zero '' @ t else if q < 1 / 100 then ''less than one cent of '' @ t
      else if q < 1 then ''under 1 '' @ t else if q < 100 then ''1 to 100 '' @ t
      else if q < 10000 then ''100 to 10,000 '' @ t else ''over 10,000 '' @ t)"

text \<open>
  The integer comparisons of \<open>amountBucket\<close> are exact: for a token of \<open>d\<close> decimals the bucket is
  the one of the decimal amount \<open>v / 10^d\<close>, at every boundary and for every size.
\<close>

theorem amountBucket_exact:
  assumes "tk_decimals token = Some d"
  shows "amountBucket v token = amount_phrase (of_int v / 10 ^ d) (tk_label token)"
proof -
  have pos: "(0 :: rat) < 10 ^ d" by simp
  have cmp: "of_int v / 10 ^ d < (of_int a :: rat) \<longleftrightarrow> v < a * 10 ^ d" for a
  proof -
    have "of_int v / 10 ^ d < (of_int a :: rat) \<longleftrightarrow> (of_int v :: rat) < of_int (a * 10 ^ d)"
      by (simp add: pos_divide_less_eq [OF pos])
    then show ?thesis by (simp only: of_int_less_iff)
  qed
  have cent: "of_int v / 10 ^ d < (1 / 100 :: rat) \<longleftrightarrow> v * 100 < 10 ^ d"
  proof -
    have "of_int v / 10 ^ d < (1 / 100 :: rat) \<longleftrightarrow> (of_int (v * 100) :: rat) < of_int (10 ^ d)"
      by (simp add: pos_divide_less_eq [OF pos] field_simps)
    then show ?thesis by (simp only: of_int_less_iff)
  qed
  show ?thesis
    using cmp [of 1] cmp [of 100] cmp [of 10000] cent
    by (simp add: amountBucket_def amount_phrase_def assms Let_def)
qed

theorem amountBucket_exact_witness:
  "amountBucket 1230000 \<lparr>tk_label = ''USDC'', tk_decimals = Some 6\<rparr> = ''1 to 100 USDC''"
  using amountBucket_exact [of "\<lparr>tk_label = ''USDC'', tk_decimals = Some 6\<rparr>" 6 1230000]
  by (simp add: amount_phrase_def)

subsection \<open>Sentences name nobody\<close>

definition rename_ctx :: "(string \<Rightarrow> string) \<Rightarrow> tx_context \<Rightarrow> tx_context" where
  "rename_ctx f c = c\<lparr>tc_to := map_option f (tc_to c), tc_sender := f (tc_sender c), tc_emitters := map f (tc_emitters c),
     tc_factories := map (\<lambda>(p, fa). (f p, f fa)) (tc_factories c)\<rparr>"

definition rename_input :: "(string \<Rightarrow> string) \<Rightarrow> describe_input \<Rightarrow> describe_input" where
  "rename_input f i = i\<lparr>di_contractAddress := f (di_contractAddress i),
     di_transfer := map_option (\<lambda>t. t\<lparr>tf_from := f (tf_from t), tf_to := f (tf_to t)\<rparr>) (di_transfer i),
     di_ctx := map_option (rename_ctx f) (di_ctx i),
     di_parties := map (\<lambda>(a, c). (f a, c)) (di_parties i)\<rparr>"

lemma party_rename: "inj f \<Longrightarrow> party (f a) (map (\<lambda>(a, c). (f a, c)) ps) = party a ps"
proof -
  assume "inj f"
  then have "map_of (map (\<lambda>(a, c). (f a, c)) ps) (f a) = map_of ps a"
    by (induction ps) (auto simp: inj_eq)
  then show ?thesis by (simp add: party_def)
qed

lemma head_rename:
  assumes "inj f" "f ZERO_ADDRESS = ZERO_ADDRESS"
  shows "head_phrase (rename_input f i) = head_phrase i"
proof -
  have z: "f a = ZERO_ADDRESS \<longleftrightarrow> a = ZERO_ADDRESS" for a using assms by (metis injD)
  show ?thesis
    by (cases "di_transfer i"; cases "di_token i")
      (simp_all add: head_phrase_def rename_input_def z party_rename [OF assms(1)] Let_def cong: if_cong)
qed

lemma facts_rename: "factsOf (map_option (rename_ctx f) ctx) = factsOf ctx"
  by (cases ctx) (simp_all add: factsOf_def rename_ctx_def)

lemma plain_rename: "inj f \<Longrightarrow> isPlain (map_option (rename_ctx f) ctx) facts (f a) = isPlain ctx facts a"
  by (cases ctx) (auto simp: isPlain_def rename_ctx_def inj_eq)

lemma call_rename: "callPhrase (map_option (rename_ctx f) ctx) call = callPhrase ctx call"
  by (cases ctx) (simp_all add: callPhrase_def rename_ctx_def cong: option.case_cong if_cong)

lemma ruled_rename:
  assumes "inj f" "f ZERO_ADDRESS = ZERO_ADDRESS"
  shows "ruledLane (rename_input f i) facts plain called = ruledLane i facts plain called"
proof -
  have z: "f a = ZERO_ADDRESS \<longleftrightarrow> a = ZERO_ADDRESS" for a using assms by (metis injD)
  show ?thesis
    by (cases "di_ctx i"; cases "di_transfer i"; cases "di_token i")
      (simp_all add: ruledLane_def rename_input_def rename_ctx_def z cong: if_cong)
qed

text \<open>
  C35: No address reaches the model or decides a lane: renaming every address of an event, its
  transaction and its parties, only keeping the zero address, changes neither the sentence nor the
  facts nor the ruled lane.
\<close>

theorem describeEvent_anonymous:
  assumes "inj f" "f ZERO_ADDRESS = ZERO_ADDRESS"
  shows "ds_sentence (describeEvent (rename_input f i)) = ds_sentence (describeEvent i) \<and>
         ds_facts (describeEvent (rename_input f i)) = ds_facts (describeEvent i) \<and>
         ds_ruled (describeEvent (rename_input f i)) = ds_ruled (describeEvent i)"
proof -
  have parts: "di_ctx (rename_input f i) = map_option (rename_ctx f) (di_ctx i)" "di_call (rename_input f i) = di_call i"
    "di_contractAddress (rename_input f i) = f (di_contractAddress i)"
    by (simp_all add: rename_input_def)
  have tail: "tail_phrase (map_option (rename_ctx f) ctx) = tail_phrase ctx" for ctx
    by (cases ctx) (simp_all add: tail_phrase_def fun_eq_iff)
  show ?thesis
    by (simp add: describeEvent_def Let_def parts facts_rename plain_rename [OF assms(1)] call_rename tail
        head_rename [OF assms] ruled_rename [OF assms])
qed

definition sample_input :: describe_input where
  "sample_input = \<lparr>di_contractName = ''usdc'', di_contractAddress = ''0x36'', di_eventName = ''Transfer'',
     di_transfer = Some \<lparr>tf_from = ''0xa'', tf_to = ''0xb'', tf_value = 5000000\<rparr>,
     di_token = Some \<lparr>tk_label = ''USDC'', tk_decimals = Some 6\<rparr>,
     di_ctx = Some \<lparr>tc_to = Some ''0x36'', tc_selector = ''0xa9059cbb'', tc_topics = [], tc_sender = ''0xa'', tc_emitters = [],
       tc_factories = [], tc_valueSent = Some False\<rparr>,
     di_parties = [(''0xa'', False)], di_call = None\<rparr>"

theorem describeEvent_anonymous_witness:
  "ds_sentence (describeEvent (rename_input (\<lambda>a. if a = ''0xa'' then ''0xb'' else if a = ''0xb'' then ''0xa'' else a) sample_input)) =
   ds_sentence (describeEvent sample_input)"
proof -
  let ?f = "\<lambda>a. if a = ''0xa'' then ''0xb'' else if a = ''0xb'' then ''0xa'' else a"
  have "inj ?f" by (rule injI) (auto split: if_splits)
  moreover have "?f ZERO_ADDRESS = ZERO_ADDRESS" by (simp add: ZERO_ADDRESS_def)
  ultimately show ?thesis using describeEvent_anonymous [of ?f sample_input] by blast
qed

subsection \<open>When the model is asked\<close>

text \<open>
  The model is only asked about a transaction that was read and that shows something: a transfer
  left to the model has a recognised fact, is a plain direct transfer or names the function called,
  is not a zero transfer with nothing beside it, and is no mint or burn outside a bridge; another
  event is left to the model only where money moved.
\<close>

theorem asked_about_something:
  assumes "ds_ruled (describeEvent i) = []"
  shows "\<exists>c. di_ctx i = Some c \<and>
     (case (di_transfer i, di_token i) of
        (Some t, Some _) \<Rightarrow>
          (ds_facts (describeEvent i) \<noteq> [] \<or> isPlain (di_ctx i) (ds_facts (describeEvent i)) (di_contractAddress i) \<or>
             callPhrase (di_ctx i) (di_call i) \<noteq> []) \<and>
          (tf_value t = 0 \<longrightarrow> (\<exists>f \<in> set (ds_facts (describeEvent i)). f \<noteq> SmartAccount \<and> f \<noteq> Fee)) \<and>
          (tf_from t = ZERO_ADDRESS \<or> tf_to t = ZERO_ADDRESS \<longrightarrow> Bridge \<in> set (ds_facts (describeEvent i)))
      | _ \<Rightarrow> tc_valueSent c = Some True \<or> (\<exists>t \<in> set (tc_topics c). t \<in> set MOVEMENT_TOPICS))"
proof -
  obtain c where c: "di_ctx i = Some c"
    using assms by (cases "di_ctx i") (simp_all add: describeEvent_def Let_def ruledLane_def)
  show ?thesis
    using assms by (cases "di_transfer i"; cases "di_token i")
      (auto simp: c describeEvent_def Let_def ruledLane_def list_all_iff list_ex_iff INCIDENTAL_def split: if_splits)
qed

theorem asked_about_something_witness:
  "ds_ruled (describeEvent sample_input) = [] \<and>
   list_ex (\<lambda>b. b) [ds_facts (describeEvent sample_input) \<noteq> [],
     isPlain (di_ctx sample_input) (ds_facts (describeEvent sample_input)) ''0x36'', callPhrase (di_ctx sample_input) (di_call sample_input) \<noteq> []]"
proof -
  have ruled: "ds_ruled (describeEvent sample_input) = []"
    by (simp add: describeEvent_def Let_def ruledLane_def isPlain_def sample_input_def PLAIN_SELECTORS_def ZERO_ADDRESS_def)
  from asked_about_something [OF ruled] ruled show ?thesis by (simp add: sample_input_def)
qed

end
