(* ===== verification/Laya.thy ===== *)
theory Laya
  imports Sentence
begin

text \<open>
  \<open>worker/src/laya.ts\<close>: the client of the model gate. Answers are kept per exact sentence, the least
  recently used first; what the gate answers to its \<open>n\<close>-th request is an input.
\<close>

subsection \<open>The header line\<close>

definition is_space :: "char \<Rightarrow> bool" where
  "is_space c \<longleftrightarrow> (9 \<le> (of_char c :: nat) \<and> (of_char c :: nat) \<le> 13) \<or> (of_char c :: nat) = 32 \<or> (of_char c :: nat) = 160"

definition trim :: "string \<Rightarrow> string" where
  "trim s = rev (dropWhile is_space (rev (dropWhile is_space s)))"

definition token_char :: "char \<Rightarrow> bool" where
  "token_char c \<longleftrightarrow> is_alnum c \<or> c \<in> set [CHR ''!'', CHR ''#'', CHR ''$'', CHR ''%'', CHR ''&'', CHR 0x27, CHR ''*'', CHR ''+'',
     CHR ''.'', CHR ''^'', CHR ''_'', CHR 0x60, CHR ''|'', CHR ''~'', CHR ''-'']"

definition value_char :: "char \<Rightarrow> bool" where
  "value_char c \<longleftrightarrow> (of_char c :: nat) = 9 \<or> (32 \<le> (of_char c :: nat) \<and> (of_char c :: nat) \<le> 126)"

datatype laya_error = LayaError string "int option"

fun laya_message :: "laya_error \<Rightarrow> string" where
  "laya_message (LayaError m st) = m"

text \<open>Before the first colon, and after it; without one the value is the whole line.\<close>

definition parseHeaderLine :: "string \<Rightarrow> laya_error + string \<times> string" where
  "parseHeaderLine line =
     (let pre = takeWhile (\<lambda>c. c \<noteq> CHR '':'') line;
          name = (if CHR '':'' \<in> set line \<and> pre \<noteq> [] then trim pre else []);
          val = trim (if CHR '':'' \<in> set line then drop (length pre + 1) line else line)
      in if name = [] \<or> \<not> list_all token_char name \<or> \<not> list_all value_char val
         then Inl (LayaError ''INSIGHTS_HEADER must be one header line, \"Name: value\", in printable ASCII'' None)
         else Inr (name, val))"

subsection \<open>Requests\<close>

text \<open>What became of an HTTP request; a body is what it parses to, or nothing when the schema refuses it.\<close>

datatype 'b http_outcome = Unreachable string "string option" | HttpStatus int | NotJsonBody | JsonBody 'b

definition laya_request :: "'b http_outcome \<Rightarrow> laya_error + 'b" where
  "laya_request res =
     (case res of
        Unreachable name code \<Rightarrow>
          Inl (LayaError (''gate unreachable ('' @ name @ (case code of Some c \<Rightarrow> '' '' @ c | None \<Rightarrow> []) @ '')'') None)
      | HttpStatus st \<Rightarrow> Inl (LayaError (''gate answered HTTP '' @ show_int st) (Some st))
      | NotJsonBody \<Rightarrow> Inl (LayaError ''gate answered a body that is not JSON'' None)
      | JsonBody b \<Rightarrow> Inr b)"

definition BATCH_MAX :: nat where "BATCH_MAX = 64"
definition MIN_CALL_INTERVAL_MS :: int where "MIN_CALL_INTERVAL_MS = 1000"
definition LAYA_CACHE_MAX :: nat where "LAYA_CACHE_MAX = 60000"

type_synonym laya_gate = "nat \<Rightarrow> string list \<Rightarrow> lane_answer list option http_outcome"

definition ask :: "laya_gate \<Rightarrow> nat \<Rightarrow> string list \<Rightarrow> laya_error + lane_answer list" where
  "ask gate n states =
     bindE (laya_request (gate n states)) (\<lambda>parsed.
       case parsed of
         None \<Rightarrow> Inl (LayaError ''gate answered an unexpected body'' None)
       | Some results \<Rightarrow> if length results \<noteq> length states then Inl (LayaError ''gate answered an unexpected body'' None) else Inr results)"

text \<open>Calls start at least a second apart: the wait before the next one.\<close>

definition laya_wait :: "int option \<Rightarrow> int \<Rightarrow> int" where
  "laya_wait lastCallAt now = (case lastCallAt of None \<Rightarrow> 0 | Some t \<Rightarrow> max 0 (t + MIN_CALL_INTERVAL_MS - now))"

definition identity :: "string option option http_outcome \<Rightarrow> string option" where
  "identity res = (case laya_request res of Inl _ \<Rightarrow> None | Inr body \<Rightarrow> (case body of Some m \<Rightarrow> m | None \<Rightarrow> None))"

subsection \<open>Classifying with a cache\<close>

record laya =
  ly_cache :: "(string \<times> lane_answer) list"
  ly_calls :: "string list list"       \<comment> \<open>the batches asked, in order\<close>

definition look_up :: "(string \<times> lane_answer) list \<times> (string \<times> lane_answer) list \<times> string list \<Rightarrow> string \<Rightarrow>
    (string \<times> lane_answer) list \<times> (string \<times> lane_answer) list \<times> string list" where
  "look_up = (\<lambda>(cache, out, unseen) s.
     (case map_of cache s of
        Some hit \<Rightarrow> (map_delete s cache @ [(s, hit)], map_set s hit out, unseen)
      | None \<Rightarrow> (cache, out, unseen @ [s])))"

fun ask_chunks :: "laya_gate \<Rightarrow> string list list \<Rightarrow> (string \<times> lane_answer) list \<Rightarrow> laya \<Rightarrow>
    (laya_error + (string \<times> lane_answer) list) \<times> laya" where
  "ask_chunks gate [] out st = (Inr out, st)"
| "ask_chunks gate (c # cs) out st =
     (case ask gate (length (ly_calls st)) c of
        Inl e \<Rightarrow> (Inl e, st\<lparr>ly_calls := ly_calls st @ [c]\<rparr>)
      | Inr answers \<Rightarrow>
          ask_chunks gate cs (foldl (\<lambda>m (s, a). map_set s a m) out (zip c answers))
            (st\<lparr>ly_cache := foldl (\<lambda>m (s, a). map_set s a m) (ly_cache st) (zip c answers), ly_calls := ly_calls st @ [c]\<rparr>))"

definition classify :: "laya_gate \<Rightarrow> string list \<Rightarrow> laya \<Rightarrow> (laya_error + (string \<times> lane_answer) list) \<times> laya" where
  "classify gate sentences st =
     (case foldl look_up (ly_cache st, [], []) (set_of_list sentences) of (cache, out, unseen) \<Rightarrow>
        (case ask_chunks gate (chunks_of BATCH_MAX unseen) out (st\<lparr>ly_cache := cache\<rparr>) of
           (Inl e, st') \<Rightarrow> (Inl e, st')
         | (Inr out', st') \<Rightarrow> (Inr out', st'\<lparr>ly_cache := drop (length (ly_cache st') - LAYA_CACHE_MAX) (ly_cache st')\<rparr>)))"

subsection \<open>A cached answer is the gate's answer\<close>

text \<open>The gate answers a sentence the same way whenever it answers: the question never changes.\<close>

definition gate_ok :: "laya_gate \<Rightarrow> (string \<Rightarrow> lane_answer) \<Rightarrow> bool" where
  "gate_ok gate truth \<longleftrightarrow> (\<forall>n states rs. gate n states = JsonBody (Some rs) \<and> length rs = length states \<longrightarrow> rs = map truth states)"

definition true_of :: "(string \<Rightarrow> lane_answer) \<Rightarrow> (string \<times> lane_answer) list \<Rightarrow> bool" where
  "true_of truth m \<longleftrightarrow> list_all (\<lambda>(s, a). a = truth s) m"

lemma true_of_set: "true_of truth m \<Longrightarrow> a = truth s \<Longrightarrow> true_of truth (map_set s a m)"
  by (induction m) (auto simp: true_of_def)

lemma true_of_sets: "true_of truth m \<Longrightarrow> true_of truth (foldl (\<lambda>m (s, a). map_set s a m) m (zip c (map truth c)))"
  by (induction c arbitrary: m) (auto simp: true_of_set)

lemma true_of_lookup: "true_of truth m \<Longrightarrow> map_of m s = Some a \<Longrightarrow> a = truth s"
  by (auto simp: true_of_def list_all_iff dest!: map_of_SomeD)

lemma keys_sets: "length as = length c \<Longrightarrow> set (map_keys (foldl (\<lambda>m (s, a). map_set s a m) m (zip c as))) = set (map_keys m) \<union> set c"
proof (induction c arbitrary: m as)
  case (Cons s c)
  then obtain a as' where "as = a # as'" by (cases as) auto
  with Cons show ?case by (auto simp: keys_map_set)
qed simp

lemma ask_Inr: "gate_ok gate truth \<Longrightarrow> ask gate n states = Inr rs \<Longrightarrow> rs = map truth states"
  by (auto simp: ask_def bindE_Inr laya_request_def gate_ok_def split: http_outcome.splits option.splits if_splits)

lemma look_up_all:
  "true_of truth cache \<Longrightarrow> true_of truth out \<Longrightarrow> foldl look_up (cache, out, unseen) ss = (cache', out', unseen') \<Longrightarrow>
   true_of truth cache' \<and> true_of truth out' \<and> set (map_keys cache') = set (map_keys cache) \<and>
   unseen' = unseen @ filter (\<lambda>s. \<not> map_has s cache) ss \<and>
   set (map_keys out') = set (map_keys out) \<union> (set ss \<inter> set (map_keys cache))"
proof (induction ss arbitrary: cache out unseen)
  case (Cons s ss)
  show ?case
  proof (cases "map_of cache s")
    case None
    then have "s \<notin> set (map_keys cache)" using map_has_iff by metis
    then show ?thesis using Cons.IH [of cache out "unseen @ [s]"] Cons.prems None by (simp add: look_up_def)
  next
    case (Some a)
    let ?cache = "map_delete s cache @ [(s, a)]"
    have a: "a = truth s" by (rule true_of_lookup [OF Cons.prems(1) Some])
    have s: "s \<in> set (map_keys cache)" using map_has_iff [of s cache] Some by simp
    have keys: "set (map_keys ?cache) = set (map_keys cache)" using s by (auto simp: AList.delete_eq)
    have "true_of truth ?cache" using Cons.prems(1) a by (auto simp: true_of_def list_all_iff AList.delete_eq)
    moreover have "true_of truth (map_set s a out)" using Cons.prems(2) a by (rule true_of_set)
    moreover have "foldl look_up (?cache, map_set s a out, unseen) ss = (cache', out', unseen')"
      using Cons.prems(3) Some by (simp add: look_up_def)
    ultimately have IH: "true_of truth cache' \<and> true_of truth out' \<and> set (map_keys cache') = set (map_keys ?cache) \<and>
       unseen' = unseen @ filter (\<lambda>s. \<not> map_has s ?cache) ss \<and>
       set (map_keys out') = set (map_keys (map_set s a out)) \<union> (set ss \<inter> set (map_keys ?cache))"
      by (rule Cons.IH)
    have "filter (\<lambda>s. \<not> map_has s ?cache) ss = filter (\<lambda>s. \<not> map_has s cache) (s # ss)"
      unfolding keys using s by simp
    moreover have "set (map_keys (map_set s a out)) \<union> (set ss \<inter> set (map_keys ?cache)) = set (map_keys out) \<union> (set (s # ss) \<inter> set (map_keys cache))"
      unfolding keys using s by (auto simp: keys_map_set)
    ultimately show ?thesis using IH unfolding keys by metis
  qed
qed simp

lemma ask_chunks_spec:
  assumes "gate_ok gate truth"
  shows "ask_chunks gate cs out st = (r, st') \<Longrightarrow> true_of truth out \<Longrightarrow> true_of truth (ly_cache st) \<Longrightarrow>
    true_of truth (ly_cache st') \<and> (\<exists>new rest. cs = new @ rest \<and> ly_calls st' = ly_calls st @ new) \<and>
    (case r of Inl _ \<Rightarrow> True | Inr out' \<Rightarrow> true_of truth out' \<and> set (map_keys out') = set (map_keys out) \<union> set (concat cs))"
proof (induction cs arbitrary: out st)
  case (Cons c cs)
  show ?case
  proof (cases "ask gate (length (ly_calls st)) c")
    case (Inl e)
    then have "r = Inl e" "st' = st\<lparr>ly_calls := ly_calls st @ [c]\<rparr>" using Cons.prems(1) by simp_all
    then show ?thesis using Cons.prems(3) by (auto intro: exI [of _ "[c]"])
  next
    case (Inr as)
    have as: "as = map truth c" by (rule ask_Inr [OF assms Inr])
    let ?put = "\<lambda>m. foldl (\<lambda>m (s, a). map_set s a m) m (zip c as)"
    let ?st = "st\<lparr>ly_cache := ?put (ly_cache st), ly_calls := ly_calls st @ [c]\<rparr>"
    have run: "ask_chunks gate cs (?put out) ?st = (r, st')" using Cons.prems(1) Inr by simp
    have "true_of truth (?put out)" "true_of truth (ly_cache ?st)"
      using Cons.prems(2,3) by (simp_all add: as true_of_sets)
    note IH = Cons.IH [OF run this]
    have keys: "set (map_keys (?put out)) = set (map_keys out) \<union> set c" by (rule keys_sets) (simp add: as)
    obtain new rest where "cs = new @ rest" "ly_calls st' = ly_calls ?st @ new" using IH by blast
    then have "c # cs = (c # new) @ rest \<and> ly_calls st' = ly_calls st @ (c # new)" by simp
    then have calls: "\<exists>new rest. c # cs = new @ rest \<and> ly_calls st' = ly_calls st @ new" by blast
    have "case r of Inl _ \<Rightarrow> True | Inr out' \<Rightarrow> true_of truth out' \<and> set (map_keys out') = set (map_keys out) \<union> set (concat (c # cs))"
    proof (cases r)
      case (Inr out')
      then have "true_of truth out'" "set (map_keys out') = set (map_keys (?put out)) \<union> set (concat cs)"
        using IH by simp_all
      then show ?thesis unfolding Inr keys concat.simps set_append by (simp add: Un_assoc)
    qed simp
    then show ?thesis using IH calls by blast
  qed
qed (cases r, auto)

lemma classify_spec:
  assumes gate: "gate_ok gate truth" and cache: "true_of truth (ly_cache st)" and run: "classify gate sentences st = (r, st')"
  shows "true_of truth (ly_cache st')"
    and "\<exists>new. ly_calls st' = ly_calls st @ new \<and> distinct (concat new) \<and>
           set (concat new) \<subseteq> set sentences - set (map_keys (ly_cache st)) \<and> list_all (\<lambda>c. length c \<le> BATCH_MAX) new"
    and "case r of Inl _ \<Rightarrow> True | Inr out \<Rightarrow> true_of truth out \<and> set (map_keys out) = set sentences \<and> length (ly_cache st') \<le> LAYA_CACHE_MAX"
proof -
  obtain cache' out unseen where look: "foldl look_up (ly_cache st, [], []) (set_of_list sentences) = (cache', out, unseen)"
    by (metis prod_cases3)
  let ?chunks = "chunks_of BATCH_MAX unseen"
  obtain r1 st1 where chunks: "ask_chunks gate ?chunks out (st\<lparr>ly_cache := cache'\<rparr>) = (r1, st1)" by fastforce
  have l: "true_of truth cache' \<and> true_of truth out \<and> set (map_keys cache') = set (map_keys (ly_cache st)) \<and>
     unseen = filter (\<lambda>s. \<not> map_has s (ly_cache st)) (set_of_list sentences) \<and>
     set (map_keys out) = set sentences \<inter> set (map_keys (ly_cache st))"
    using look_up_all [OF cache _ look] by (simp add: true_of_def)
  have cc: "concat ?chunks = unseen" by (rule concat_chunks_of) (simp add: BATCH_MAX_def)
  have c: "true_of truth (ly_cache st1) \<and> (\<exists>new rest. ?chunks = new @ rest \<and> ly_calls st1 = ly_calls st @ new) \<and>
    (case r1 of Inl _ \<Rightarrow> True | Inr out' \<Rightarrow> true_of truth out' \<and> set (map_keys out') = set (map_keys out) \<union> set unseen)"
    using ask_chunks_spec [OF gate chunks] l unfolding cc by simp
  have fin: "r = r1" "ly_calls st' = ly_calls st1" "ly_cache st' = (case r1 of Inl _ \<Rightarrow> ly_cache st1
      | Inr _ \<Rightarrow> drop (length (ly_cache st1) - LAYA_CACHE_MAX) (ly_cache st1))"
    using run by (auto simp: classify_def look chunks split: sum.splits)
  show "true_of truth (ly_cache st')"
    using c unfolding fin(3) by (cases r1) (auto simp: true_of_def list_all_iff dest: in_set_dropD)
  show "case r of Inl _ \<Rightarrow> True | Inr out \<Rightarrow> true_of truth out \<and> set (map_keys out) = set sentences \<and> length (ly_cache st') \<le> LAYA_CACHE_MAX"
    using c l unfolding fin by (cases r1) auto
  obtain new rest where new: "?chunks = new @ rest" "ly_calls st1 = ly_calls st @ new" using c by blast
  have u: "unseen = concat new @ concat rest" using arg_cong [OF new(1), of concat] cc by simp
  have "distinct unseen" using l by simp
  then have "distinct (concat new)" unfolding u by simp
  moreover have "set (concat new) \<subseteq> set unseen" unfolding u by simp
  then have "set (concat new) \<subseteq> set sentences - set (map_keys (ly_cache st))" using l by auto
  moreover have "list_all (\<lambda>c. length c \<le> BATCH_MAX) new"
    using chunks_of_length [of _ BATCH_MAX unseen] unfolding new(1) by (simp add: list_all_iff)
  ultimately show "\<exists>new. ly_calls st' = ly_calls st @ new \<and> distinct (concat new) \<and>
           set (concat new) \<subseteq> set sentences - set (map_keys (ly_cache st)) \<and> list_all (\<lambda>c. length c \<le> BATCH_MAX) new"
    using new(2) fin(2) by auto
qed

text \<open>
  C10: Classifying through the cache gives what asking the gate for every sentence would give: each
  sentence of the round, and no other, has its answer. Only sentences that are not cached are asked,
  each once, in batches the gate accepts; the cache stays true and, after a round, within its bound;
  a failing gate loses nothing that was learnt.
\<close>

theorem classify_exact:
  assumes "gate_ok gate truth" "true_of truth (ly_cache st)" "classify gate sentences st = (r, st')"
  shows "true_of truth (ly_cache st') \<and>
     (\<exists>new. ly_calls st' = ly_calls st @ new \<and> distinct (concat new) \<and>
        set (concat new) \<subseteq> set sentences - set (map_keys (ly_cache st)) \<and> list_all (\<lambda>c. length c \<le> BATCH_MAX) new) \<and>
     (case r of Inl _ \<Rightarrow> True
      | Inr out \<Rightarrow> map_of out = (\<lambda>s. if s \<in> set sentences then Some (truth s) else None) \<and> length (ly_cache st') \<le> LAYA_CACHE_MAX)"
proof -
  note spec = classify_spec [OF assms]
  have "map_of out = (\<lambda>s. if s \<in> set sentences then Some (truth s) else None)"
    if out: "true_of truth out" "set (map_keys out) = set sentences" for out
  proof
    fix s
    show "map_of out s = (if s \<in> set sentences then Some (truth s) else None)"
      using map_has_iff [of s out] true_of_lookup [OF out(1), of s] out(2) by (cases "map_of out s") simp_all
  qed
  note exact = this
  have "case r of Inl _ \<Rightarrow> True
      | Inr out \<Rightarrow> map_of out = (\<lambda>s. if s \<in> set sentences then Some (truth s) else None) \<and> length (ly_cache st') \<le> LAYA_CACHE_MAX"
  proof (cases r)
    case (Inr out)
    with spec(3) have "true_of truth out" "set (map_keys out) = set sentences" "length (ly_cache st') \<le> LAYA_CACHE_MAX" by simp_all
    with exact show ?thesis unfolding Inr by simp
  qed simp
  with spec(1,2) show ?thesis by blast
qed

definition sample_gate :: laya_gate where
  "sample_gate n states = JsonBody (Some (map (\<lambda>s. \<lparr>la_choice = ''swap'', la_probabilities = [(''swap'', 1)]\<rparr>) states))"

theorem classify_exact_witness:
  "\<exists>out st'. classify sample_gate [''a'', ''b'', ''a''] \<lparr>ly_cache = [], ly_calls = []\<rparr> = (Inr out, st') \<and>
     map_of out ''b'' = Some \<lparr>la_choice = ''swap'', la_probabilities = [(''swap'', 1)]\<rparr>"
proof -
  let ?c = "classify sample_gate [''a'', ''b'', ''a''] \<lparr>ly_cache = [], ly_calls = []\<rparr>"
  have "\<not> isl (fst ?c)"
    by (simp add: classify_def look_up_def set_of_list_def sample_gate_def ask_def laya_request_def chunks_of.simps BATCH_MAX_def bindE_def
        set_add_def)
  then obtain out where c: "?c = (Inr out, snd ?c)" by (metis prod.collapse sum.collapse(2))
  have "gate_ok sample_gate (\<lambda>_. \<lparr>la_choice = ''swap'', la_probabilities = [(''swap'', 1)]\<rparr>)"
    by (auto simp: gate_ok_def sample_gate_def)
  from classify_exact [OF this _ c] have "map_of out ''b'' = Some \<lparr>la_choice = ''swap'', la_probabilities = [(''swap'', 1)]\<rparr>"
    by (simp add: true_of_def)
  with c show ?thesis by blast
qed

text \<open>
  An accepted header is one header: its name is a non-empty HTTP token and its value is printable
  ASCII without line breaks; a refusal says the same whatever the line was.
\<close>

theorem parseHeaderLine_safe:
  "case parseHeaderLine line of
     Inr (name, val) \<Rightarrow> name \<noteq> [] \<and> list_all token_char name \<and> list_all value_char val \<and>
       CHR 0x0A \<notin> set val \<and> CHR 0x0D \<notin> set val \<and> CHR '':'' \<notin> set name
   | Inl e \<Rightarrow> e = LayaError ''INSIGHTS_HEADER must be one header line, \"Name: value\", in printable ASCII'' None"
proof -
  have "\<not> value_char (CHR 0x0A)" "\<not> value_char (CHR 0x0D)" "\<not> token_char (CHR '':'')"
    by (simp_all add: value_char_def token_char_def is_alnum_def is_lower_def is_upper_def is_digit_def)
  then show ?thesis
    by (auto simp: parseHeaderLine_def Let_def list_all_iff split: sum.split)
qed

end
