(* ===== verification/Ddl.thy ===== *)
theory Ddl
  imports Abi
begin

text \<open>
  \<open>core/src/ddl.ts\<close>: the tables of an indexer. An ABI type becomes a PostgreSQL type, an event's
  parameters become columns, and an event definition becomes the statements that create its
  partitioned table, its indexes and its readable view. The statements are modelled to the byte.
\<close>

definition STORAGE_LAYOUT :: string where
  "STORAGE_LAYOUT = ''2''"

record column_spec =
  cs_name :: string
  cs_pgType :: string
  cs_address :: bool

definition COMMON_COLUMNS :: "column_spec list" where
  "COMMON_COLUMNS =
     [\<lparr>cs_name = ''block_number'', cs_pgType = ''bigint'', cs_address = False\<rparr>,
      \<lparr>cs_name = ''tx_hash'', cs_pgType = ''bytea'', cs_address = False\<rparr>,
      \<lparr>cs_name = ''log_index'', cs_pgType = ''integer'', cs_address = False\<rparr>]"

definition BLOCK_COLUMNS :: "column_spec list" where
  "BLOCK_COLUMNS =
     [\<lparr>cs_name = ''block_number'', cs_pgType = ''bigint'', cs_address = False\<rparr>,
      \<lparr>cs_name = ''block_hash'', cs_pgType = ''bytea'', cs_address = False\<rparr>,
      \<lparr>cs_name = ''block_time'', cs_pgType = ''timestamptz'', cs_address = False\<rparr>]"

definition INGESTED_AT :: string where
  "INGESTED_AT = ''_ingested_at''"

definition RESERVED :: "string list" where
  "RESERVED = map cs_name COMMON_COLUMNS @ [''block_time'', ''tx_index'', INGESTED_AT]"

lemma RESERVED_eq:
  "RESERVED = [''block_number'', ''tx_hash'', ''log_index'', ''block_time'', ''tx_index'', ''_ingested_at'']"
  by (simp add: RESERVED_def COMMON_COLUMNS_def INGESTED_AT_def)

subsection \<open>Column types\<close>

definition WIDEST_PARTITION :: int where
  "WIDEST_PARTITION = 999999"

lemma show_widest [code_unfold]: "show_int WIDEST_PARTITION = ''999999''"
  by (simp add: WIDEST_PARTITION_def show_eval)

text \<open>\<open>/^bytes(\d+)?$/\<close> and \<open>/^u?int\d*$/\<close>.\<close>

definition is_bytes_type :: "string \<Rightarrow> bool" where
  "is_bytes_type t \<longleftrightarrow> startsWith ''bytes'' t \<and> list_all is_digit (drop 5 t)"

definition is_int_type :: "string \<Rightarrow> bool" where
  "is_int_type t \<longleftrightarrow>
     (startsWith ''int'' t \<and> list_all is_digit (drop 3 t)) \<or>
     (startsWith ''uint'' t \<and> list_all is_digit (drop 4 t))"

definition pgTypeFor :: "string \<Rightarrow> failure + string" where
  "pgTypeFor abiType =
     (if endsWith '']'' abiType then Inr ''jsonb''
      else if startsWith ''tuple'' abiType then Inr ''jsonb''
      else if abiType = ''address'' then Inr ''integer''
      else if abiType = ''bool'' then Inr ''boolean''
      else if abiType = ''string'' then Inr ''text''
      else if is_bytes_type abiType then Inr ''bytea''
      else if is_int_type abiType then Inr ''numeric(78,0)''
      else Inl (DdlError (''Unknown ABI type: '' @ abiType)))"

subsection \<open>Event columns\<close>

record event_column =
  ec_name :: string
  ec_abiType :: string
  ec_indexed :: bool
  ec_viewName :: string

definition event_column_of :: "nat \<Rightarrow> abi_param \<Rightarrow> event_column" where
  "event_column_of i param =
     (let name0 = (if p_name param \<noteq> [] then toSnakeCase (p_name param) else ''arg'' @ show_nat i);
          name = (if name0 \<in> set RESERVED then ''param_'' @ name0 else name0);
          isAddress = (p_type param = ''address'')
      in \<lparr>ec_name = (if isAddress then name @ ''_id'' else name), ec_abiType = p_type param,
          ec_indexed = p_indexed param, ec_viewName = name\<rparr>)"

definition eventColumns :: "abi_event \<Rightarrow> failure + event_column list" where
  "eventColumns event =
     (let cols = map (\<lambda>(i, param). event_column_of i param) (enumerate 0 (ev_inputs event))
      in case truthy (first_dup (map ec_name cols)) of
           Some dup \<Rightarrow> Inl (DdlError (ev_name event @ '': column name collision: '' @ dup))
         | None \<Rightarrow>
         (case truthy (first_dup (map ec_viewName cols)) of
           Some dupView \<Rightarrow> Inl (DdlError (ev_name event @ '': view column name collision: '' @ dupView))
         | None \<Rightarrow> Inr cols))"

subsection \<open>The view that readers see\<close>

definition hex_text :: "string \<Rightarrow> string" where
  "hex_text e = [CHR 0x27] @ ''0x'' @ [CHR 0x27] @ '' || encode('' @ e @ '', '' @ [CHR 0x27] @ ''hex'' @ [CHR 0x27] @ '')''"

text \<open>The select list and the joins of the parameters; \<open>n\<close> numbers the address joins.\<close>

fun view_params :: "string \<Rightarrow> nat \<Rightarrow> event_column list \<Rightarrow> failure + string list \<times> string list" where
  "view_params schema n [] = Inr ([], [])"
| "view_params schema n (c # cs) =
     (if ec_abiType c = ''address'' then
        (let a = ''a'' @ show_nat n
         in bindE (view_params schema (Suc n) cs) (\<lambda>(sel, joins). Inr
              ((hex_text (a @ ''.'' @ quote_id ''address'') @ '' AS '' @ quote_id (ec_viewName c)) # sel,
               (''LEFT JOIN '' @ quote_id schema @ ''.'' @ quote_id ''_addresses'' @ '' '' @ a @ '' ON '' @ a @ ''.'' @
                quote_id ''id'' @ '' = t.'' @ quote_id (ec_name c)) # joins)))
      else bindE (pgTypeFor (ec_abiType c)) (\<lambda>ty.
         bindE (view_params schema n cs) (\<lambda>(sel, joins). Inr
              ((if ty = ''bytea'' then hex_text (''t.'' @ quote_id (ec_name c)) @ '' AS '' @ quote_id (ec_name c)
                else ''t.'' @ quote_id (ec_name c)) # sel, joins))))"

definition hexView :: "string \<Rightarrow> string \<Rightarrow> event_column list \<Rightarrow> failure + string" where
  "hexView schema table params =
     bindE (assertPgIdentifier (table @ ''_hex'')) (\<lambda>view.
     bindE (view_params schema 0 params) (\<lambda>(sel, joins).
       (let select = [''t.'' @ quote_id ''block_number'', ''b.'' @ quote_id ''block_time'',
              hex_text (''t.'' @ quote_id ''tx_hash'') @ '' AS '' @ quote_id ''tx_hash'',
              ''t.'' @ quote_id ''log_index'', ''b.'' @ quote_id INGESTED_AT] @ sel
        in Inr (''CREATE OR REPLACE VIEW '' @ quote_id schema @ ''.'' @ quote_id view @ '' AS SELECT '' @
             join '', '' select @ '' FROM '' @ quote_id schema @ ''.'' @ quote_id table @ '' t LEFT JOIN '' @
             quote_id schema @ ''.'' @ quote_id ''_blocks'' @ '' b ON b.'' @ quote_id ''block_number'' @ '' = t.'' @
             quote_id ''block_number'' @ (if joins \<noteq> [] then '' '' @ join '' '' joins else [])))))"

subsection \<open>An event's table\<close>

record table_spec =
  ts_schema :: string
  ts_table :: string
  ts_columns :: "column_spec list"
  ts_statements :: "string list"

definition param_column :: "event_column \<Rightarrow> failure + column_spec" where
  "param_column c =
     bindE (pgTypeFor (ec_abiType c)) (\<lambda>ty.
       Inr \<lparr>cs_name = ec_name c, cs_pgType = ty, cs_address = (ec_abiType c = ''address'')\<rparr>)"

definition index_statement :: "string \<Rightarrow> string \<Rightarrow> bool \<Rightarrow> event_column \<Rightarrow> failure + string" where
  "index_statement t tableName addressIndexes c =
     (let name = tableName @ ''_'' @ ec_name c @ ''_idx''
      in if addressIndexes \<and> ec_abiType c = ''address'' then
           bindE (assertPgIdentifier name) (\<lambda>name. Inr
             (''CREATE INDEX IF NOT EXISTS '' @ quote_id name @ '' ON '' @ t @ '' ('' @ quote_id (ec_name c) @
              '', block_number, log_index)''))
         else Inr (''CREATE INDEX IF NOT EXISTS '' @ quote_id name @ '' ON '' @ t @ '' ('' @ quote_id (ec_name c) @ '')''))"

definition buildEventTable :: "string \<Rightarrow> event_def \<Rightarrow> bool \<Rightarrow> failure + table_spec" where
  "buildEventTable schema def addressIndexes =
     bindE (assertPgIdentifier (ed_tableName def @ ''_p'' @ show_int WIDEST_PARTITION)) (\<lambda>_.
     bindE (eventColumns (ed_event def)) (\<lambda>params.
     bindE (mapE param_column params) (\<lambda>paramColumns.
       (let columns = COMMON_COLUMNS @ paramColumns;
            t = quote_id schema @ ''.'' @ quote_id (ed_tableName def);
            lines = map (\<lambda>c. quote_id (cs_name c) @ '' '' @ cs_pgType c @ '' NOT NULL'') COMMON_COLUMNS @
                    map (\<lambda>c. quote_id (cs_name c) @ '' '' @ cs_pgType c) paramColumns @
                    [''PRIMARY KEY (block_number, log_index)'']
        in bindE (mapE (index_statement t (ed_tableName def) addressIndexes)
                   (filter (\<lambda>c. ec_indexed c \<or> (addressIndexes \<and> ec_abiType c = ''address'')) params)) (\<lambda>indexes.
           bindE (hexView schema (ed_tableName def) params) (\<lambda>view.
             Inr \<lparr>ts_schema = schema, ts_table = ed_tableName def, ts_columns = columns,
                  ts_statements =
                    [''CREATE TABLE IF NOT EXISTS '' @ t @ '' ('' @ nl @ ''  '' @ join ('','' @ nl @ ''  '') lines @ nl @
                       '') PARTITION BY RANGE (block_number)'',
                     ''CREATE INDEX IF NOT EXISTS '' @ quote_id (ed_tableName def @ ''_tx_hash_idx'') @ '' ON '' @ t @ '' (tx_hash)'']
                    @ indexes @ [view]\<rparr>))))))"

subsection \<open>Control tables\<close>

definition buildControlTables :: "string \<Rightarrow> string list" where
  "buildControlTables schema =
     [''CREATE SCHEMA IF NOT EXISTS '' @ quote_id schema,
      ''CREATE TABLE IF NOT EXISTS '' @ quote_id schema @ ''._cursor ('' @ nl @
      ''  id smallint PRIMARY KEY DEFAULT 1 CHECK (id = 1),'' @ nl @
      ''  last_block bigint NOT NULL,'' @ nl @
      ''  updated_at timestamptz NOT NULL DEFAULT now()'' @ nl @
      '')'',
      ''CREATE TABLE IF NOT EXISTS '' @ quote_id schema @ ''._meta ('' @ nl @
      ''  key text PRIMARY KEY,'' @ nl @
      ''  value text NOT NULL'' @ nl @
      '')'',
      ''CREATE TABLE IF NOT EXISTS '' @ quote_id schema @ ''._dead_letter ('' @ nl @
      ''  id bigserial PRIMARY KEY,'' @ nl @
      ''  block_number bigint,'' @ nl @
      ''  tx_hash text,'' @ nl @
      ''  log_index integer,'' @ nl @
      ''  address text,'' @ nl @
      ''  topics jsonb,'' @ nl @
      ''  data text,'' @ nl @
      ''  error text NOT NULL,'' @ nl @
      ''  received_at timestamptz NOT NULL DEFAULT now()'' @ nl @
      '')'',
      ''CREATE TABLE IF NOT EXISTS '' @ quote_id schema @ ''._blocks ('' @ nl @
      ''  block_number bigint NOT NULL,'' @ nl @
      ''  block_hash bytea NOT NULL,'' @ nl @
      ''  block_time timestamptz NOT NULL,'' @ nl @
      ''  _ingested_at timestamptz NOT NULL DEFAULT now(),'' @ nl @
      ''  PRIMARY KEY (block_number)'' @ nl @
      '') PARTITION BY RANGE (block_number)'',
      ''CREATE TABLE IF NOT EXISTS '' @ quote_id schema @ ''._addresses ('' @ nl @
      ''  id integer GENERATED ALWAYS AS IDENTITY PRIMARY KEY,'' @ nl @
      ''  address bytea NOT NULL UNIQUE'' @ nl @
      '')'']"

definition buildInsightsTables :: "string \<Rightarrow> string list" where
  "buildInsightsTables schema =
     [''CREATE TABLE IF NOT EXISTS '' @ quote_id schema @ ''._sentences ('' @ nl @
      ''  id integer GENERATED ALWAYS AS IDENTITY PRIMARY KEY,'' @ nl @
      ''  sentence text NOT NULL,'' @ nl @
      ''  model text NOT NULL DEFAULT '' @ [CHR 0x27] @ [CHR 0x27] @ '','' @ nl @
      ''  probabilities jsonb,'' @ nl @
      ''  UNIQUE (sentence, model)'' @ nl @
      '')'',
      ''CREATE TABLE IF NOT EXISTS '' @ quote_id schema @ ''._labels ('' @ nl @
      ''  id integer GENERATED ALWAYS AS IDENTITY PRIMARY KEY,'' @ nl @
      ''  lane text NOT NULL,'' @ nl @
      ''  lane_p real,'' @ nl @
      ''  ruled boolean NOT NULL,'' @ nl @
      ''  protocol text,'' @ nl @
      ''  facts text[] NOT NULL,'' @ nl @
      ''  sentence_id integer NOT NULL,'' @ nl @
      ''  UNIQUE NULLS NOT DISTINCT (lane, lane_p, ruled, protocol, facts, sentence_id)'' @ nl @
      '')'',
      ''CREATE TABLE IF NOT EXISTS '' @ quote_id schema @ ''.'' @ quote_id ''_insights'' @ '' ('' @ nl @
      ''  block_number bigint NOT NULL,'' @ nl @
      ''  log_index integer NOT NULL,'' @ nl @
      ''  lane text NOT NULL,'' @ nl @
      ''  label_id integer NOT NULL,'' @ nl @
      ''  PRIMARY KEY (block_number, log_index)'' @ nl @
      '') PARTITION BY RANGE (block_number)'',
      ''CREATE INDEX IF NOT EXISTS '' @ quote_id ''_insights_lane_idx'' @ '' ON '' @ quote_id schema @
      ''.'' @ quote_id ''_insights'' @ '' (lane, block_number)'',
      ''CREATE TABLE IF NOT EXISTS '' @ quote_id schema @ ''.'' @ quote_id ''_insights_cursor'' @ '' ('' @
      nl @
      ''  id smallint PRIMARY KEY DEFAULT 1 CHECK (id = 1),'' @ nl @
      ''  last_block bigint NOT NULL,'' @ nl @
      ''  updated_at timestamptz NOT NULL DEFAULT now()'' @ nl @
      '')'',
      ''CREATE OR REPLACE VIEW '' @ quote_id schema @ ''.'' @ quote_id ''_insights_full'' @ '' AS'' @
      nl @
      ''SELECT i.block_number, i.log_index, i.lane, l.lane_p, l.ruled, l.protocol, l.facts, l.sentence_id,'' @
      nl @
      ''       s.sentence, NULLIF(s.model, '' @ [CHR 0x27] @ [CHR 0x27] @ '') AS model, s.probabilities'' @
      nl @
      ''FROM '' @ quote_id schema @ ''.'' @ quote_id ''_insights'' @ '' i'' @ nl @
      ''JOIN '' @ quote_id schema @ ''._labels l ON l.id = i.label_id'' @ nl @
      ''JOIN '' @ quote_id schema @ ''._sentences s ON s.id = l.sentence_id'']"


subsection \<open>What the names promise\<close>

lemma last_id [simp]: "last (name @ ''_id'') = CHR ''d''"
  by simp

lemma id_not_reserved: "name @ ''_id'' \<notin> set RESERVED"
proof
  assume "name @ ''_id'' \<in> set RESERVED"
  then have "last (name @ ''_id'') \<in> last ` set RESERVED" by blast
  then show False by (simp add: RESERVED_eq)
qed

lemma param_not_reserved: "''param_'' @ name \<notin> set RESERVED"
  by (simp add: RESERVED_eq)

lemma reserved_prefix: "(if n0 \<in> set RESERVED then ''param_'' @ n0 else n0) \<notin> set RESERVED"
  using param_not_reserved [of n0] by (cases "n0 \<in> set RESERVED") simp_all

lemma event_column_of_not_reserved:
  "ec_name (event_column_of i p) \<notin> set RESERVED \<and> ec_viewName (event_column_of i p) \<notin> set RESERVED"
proof -
  let ?n0 = "if p_name p \<noteq> [] then toSnakeCase (p_name p) else ''arg'' @ show_nat i"
  let ?n = "if ?n0 \<in> set RESERVED then ''param_'' @ ?n0 else ?n0"
  have "?n \<notin> set RESERVED" by (rule reserved_prefix)
  moreover have "?n @ ''_id'' \<notin> set RESERVED" by (rule id_not_reserved)
  ultimately show ?thesis unfolding event_column_of_def Let_def by (cases "p_type p = ''address''") simp_all
qed

lemma truthy_None_first_dup:
  "truthy (first_dup xs) = None \<Longrightarrow> [] \<notin> set xs \<Longrightarrow> distinct xs"
  by (cases "first_dup xs") (auto simp: truthy_def dest: first_dup_Some split: list.splits)

lemma eventColumns_Inr:
  "eventColumns ev = Inr cols \<longleftrightarrow>
     cols = map (\<lambda>(i, p). event_column_of i p) (enumerate 0 (ev_inputs ev)) \<and>
     truthy (first_dup (map ec_name cols)) = None \<and> truthy (first_dup (map ec_viewName cols)) = None"
  by (auto simp: eventColumns_def Let_def split: option.splits)

lemma event_column_of_abiType [simp]: "ec_abiType (event_column_of i p) = p_type p"
  by (simp add: event_column_of_def Let_def)

text \<open>
  An event's columns are its parameters in order, with their ABI types; no column and no view
  column takes a reserved name, and, unless a parameter's name has no letter or digit at all,
  neither the columns nor the view columns repeat a name.
\<close>

theorem eventColumns_names:
  assumes "eventColumns ev = Inr cols"
  shows "map ec_abiType cols = map p_type (ev_inputs ev) \<and>
         (\<forall>c \<in> set cols. ec_name c \<notin> set RESERVED \<and> ec_viewName c \<notin> set RESERVED) \<and>
         ([] \<notin> set (map ec_name cols) \<longrightarrow> distinct (map ec_name cols)) \<and>
         ([] \<notin> set (map ec_viewName cols) \<longrightarrow> distinct (map ec_viewName cols))"
proof -
  have cols: "cols = map (\<lambda>(i, p). event_column_of i p) (enumerate 0 (ev_inputs ev))"
    using assms by (simp add: eventColumns_Inr)
  have "map ec_abiType cols = map (p_type \<circ> snd) (enumerate 0 (ev_inputs ev))"
    by (simp add: cols comp_def case_prod_beta)
  also have "\<dots> = map p_type (ev_inputs ev)" by (simp flip: map_map)
  finally have "map ec_abiType cols = map p_type (ev_inputs ev)" .
  moreover have "\<forall>c \<in> set cols. ec_name c \<notin> set RESERVED \<and> ec_viewName c \<notin> set RESERVED"
    by (auto simp: cols event_column_of_not_reserved)
  ultimately show ?thesis
    using assms truthy_None_first_dup by (auto simp: eventColumns_Inr)
qed

definition transfer_event :: abi_event where
  "transfer_event = \<lparr>ev_name = ''Transfer'', ev_inputs =
     [\<lparr>p_name = ''from'', p_type = ''address'', p_indexed = True\<rparr>,
      \<lparr>p_name = ''to'', p_type = ''address'', p_indexed = True\<rparr>,
      \<lparr>p_name = ''value'', p_type = ''uint256'', p_indexed = False\<rparr>]\<rparr>"

definition transfer_columns :: "event_column list" where
  "transfer_columns =
     [\<lparr>ec_name = ''from_id'', ec_abiType = ''address'', ec_indexed = True, ec_viewName = ''from''\<rparr>,
      \<lparr>ec_name = ''to_id'', ec_abiType = ''address'', ec_indexed = True, ec_viewName = ''to''\<rparr>,
      \<lparr>ec_name = ''value'', ec_abiType = ''uint256'', ec_indexed = False, ec_viewName = ''value''\<rparr>]"

lemma transfer_event_columns: "eventColumns transfer_event = Inr transfer_columns"
  by code_simp

theorem eventColumns_names_witness:
  "map ec_abiType transfer_columns = [''address'', ''address'', ''uint256''] \<and> distinct (map ec_name transfer_columns)"
  using eventColumns_names [OF transfer_event_columns] by (simp add: transfer_event_def transfer_columns_def)

text \<open>
  The collision check misses empty names: \<open>if (dup)\<close> is false for the empty string, so two
  parameters named \<open>_\<close> and \<open>__\<close> both become the empty column name and are accepted.
\<close>

theorem empty_columns_accepted:
  "map_sum id (map ec_name) (eventColumns \<lparr>ev_name = ''E'', ev_inputs =
      [\<lparr>p_name = ''_'', p_type = ''uint256'', p_indexed = False\<rparr>,
       \<lparr>p_name = ''__'', p_type = ''uint256'', p_indexed = False\<rparr>]\<rparr>) = Inr [[], []]"
  by code_simp

subsection \<open>What a table promises\<close>

lemma buildEventTable_Inr:
  assumes "buildEventTable schema def ai = Inr spec"
  obtains params paramColumns indexes view where
    "eventColumns (ed_event def) = Inr params"
    "list_all2 (\<lambda>c cs. param_column c = Inr cs) params paramColumns"
    "ts_columns spec = COMMON_COLUMNS @ paramColumns" "ts_table spec = ed_tableName def" "ts_schema spec = schema"
    "mapE (index_statement (quote_id schema @ ''.'' @ quote_id (ed_tableName def)) (ed_tableName def) ai)
       (filter (\<lambda>c. ec_indexed c \<or> (ai \<and> ec_abiType c = ''address'')) params) = Inr indexes"
    "hexView schema (ed_tableName def) params = Inr view"
    "\<exists>create idx. ts_statements spec =
       [''CREATE TABLE IF NOT EXISTS '' @ create, ''CREATE INDEX IF NOT EXISTS '' @ idx] @ indexes @ [view]"
    "byteLength (ed_tableName def @ ''_p'' @ show_int 999999) \<le> 63"
  using assms
  by (auto simp: buildEventTable_def bindE_Inr mapE_Inr Let_def assertPgIdentifier_Inr WIDEST_PARTITION_def)

lemma param_column_Inr [err_simps]:
  "param_column c = Inr cs \<longleftrightarrow> pgTypeFor (ec_abiType c) = Inr (cs_pgType cs) \<and> cs_name cs = ec_name c \<and>
     cs_address cs = (ec_abiType c = ''address'')"
  by (cases cs) (auto simp: param_column_def bindE_Inr)

definition rerunnable :: "string \<Rightarrow> bool" where
  "rerunnable s \<longleftrightarrow> startsWith ''CREATE SCHEMA IF NOT EXISTS '' s \<or> startsWith ''CREATE TABLE IF NOT EXISTS '' s \<or>
     startsWith ''CREATE INDEX IF NOT EXISTS '' s \<or> startsWith ''CREATE OR REPLACE VIEW '' s"

lemma rerunnable_create:
  "rerunnable (''CREATE TABLE IF NOT EXISTS '' @ s)" "rerunnable (''CREATE INDEX IF NOT EXISTS '' @ s)"
  "rerunnable (''CREATE OR REPLACE VIEW '' @ s)" "rerunnable (''CREATE SCHEMA IF NOT EXISTS '' @ s)"
  unfolding rerunnable_def by (simp_all only: startsWith_append simp_thms)

lemma index_statement_rerunnable: "index_statement t n ai c = Inr s \<Longrightarrow> rerunnable s"
  unfolding index_statement_def Let_def
  by (auto simp only: bindE_Inr rerunnable_create sum.inject split: if_splits)

lemma hexView_rerunnable: "hexView schema t ps = Inr s \<Longrightarrow> rerunnable s"
  unfolding hexView_def Let_def by (auto simp only: bindE_Inr case_prod_unfold rerunnable_create sum.inject)

lemma buildControlTables_rerunnable: "s \<in> set (buildControlTables schema) \<Longrightarrow> rerunnable s"
  unfolding buildControlTables_def by (auto simp only: set_simps insert_iff empty_iff rerunnable_create append_assoc)

lemma buildInsightsTables_rerunnable: "s \<in> set (buildInsightsTables schema) \<Longrightarrow> rerunnable s"
  unfolding buildInsightsTables_def by (auto simp only: set_simps insert_iff empty_iff rerunnable_create append_assoc)

text \<open>
  C24: A table that passes the bootstrap check has its three common columns followed by one column
  per parameter with that parameter's PostgreSQL type; every statement is safe to run again on a
  schema that has it; and no partition up to number 999,999 can ever be refused a name.
\<close>

theorem buildEventTable_correct:
  assumes "buildEventTable schema def ai = Inr spec"
  shows "\<exists>params. eventColumns (ed_event def) = Inr params \<and>
           map cs_name (ts_columns spec) = map cs_name COMMON_COLUMNS @ map ec_name params \<and>
           list_all2 (\<lambda>c cs. pgTypeFor (ec_abiType c) = Inr (cs_pgType cs) \<and> cs_address cs = (ec_abiType c = ''address''))
             params (drop 3 (ts_columns spec)) \<and>
           list_all rerunnable (ts_statements spec) \<and>
           (\<forall>n. 0 \<le> n \<and> n \<le> 999999 \<longrightarrow> partitionName (ts_table spec) n = Inr (ts_table spec @ ''_p'' @ show_nat (nat n)))"
  using assms
proof (rule buildEventTable_Inr)
  fix params paramColumns indexes view
  assume p: "eventColumns (ed_event def) = Inr params"
    and l2: "list_all2 (\<lambda>c cs. param_column c = Inr cs) params paramColumns"
    and cols: "ts_columns spec = COMMON_COLUMNS @ paramColumns" "ts_table spec = ed_tableName def"
    and idx: "mapE (index_statement (quote_id schema @ ''.'' @ quote_id (ed_tableName def)) (ed_tableName def) ai)
       (filter (\<lambda>c. ec_indexed c \<or> (ai \<and> ec_abiType c = ''address'')) params) = Inr indexes"
    and view: "hexView schema (ed_tableName def) params = Inr view"
    and st: "\<exists>create idx. ts_statements spec =
       [''CREATE TABLE IF NOT EXISTS '' @ create, ''CREATE INDEX IF NOT EXISTS '' @ idx] @ indexes @ [view]"
    and wide: "byteLength (ed_tableName def @ ''_p'' @ show_int 999999) \<le> 63"
  have "map cs_name paramColumns = map ec_name params"
    using l2 by (rule list_all2_induct) (simp_all add: param_column_Inr)
  moreover have "drop 3 (COMMON_COLUMNS @ paramColumns) = paramColumns" by (simp add: COMMON_COLUMNS_def)
  moreover have "list_all2 (\<lambda>c cs. pgTypeFor (ec_abiType c) = Inr (cs_pgType cs) \<and> cs_address cs = (ec_abiType c = ''address''))
             params paramColumns"
    using l2 by (rule list_all2_mono) (simp add: param_column_Inr)
  moreover have "list_all rerunnable (ts_statements spec)"
  proof -
    have "s \<in> set indexes \<Longrightarrow> rerunnable s" for s
      using idx index_statement_rerunnable
      by (auto simp: mapE_Inr list_all2_conv_all_nth in_set_conv_nth)
    then show ?thesis using st hexView_rerunnable [OF view] rerunnable_create(1,2)
      by (auto simp only: list_all_iff set_append set_simps Un_iff insert_iff empty_iff)
  qed
  ultimately show ?thesis using p cols partitionName_below [OF wide] by auto
qed

definition usdc_def :: event_def where
  "usdc_def = \<lparr>ed_contractName = ''usdc'', ed_address = ''0x3600000000000000000000000000000000000000'',
     ed_event = transfer_event, ed_topic0 = ''0xddf252ad'', ed_tableName = ''usdc_transfer''\<rparr>"

lemma usdc_table_built: "\<exists>spec. buildEventTable ''idx_usdc'' usdc_def True = Inr spec \<and> ts_table spec = ''usdc_transfer''"
proof -
  have "map_sum id ts_table (buildEventTable ''idx_usdc'' usdc_def True) = Inr ''usdc_transfer''"
    by code_simp
  then show ?thesis by (cases "buildEventTable ''idx_usdc'' usdc_def True") auto
qed

theorem buildEventTable_correct_witness:
  "\<exists>spec. buildEventTable ''idx_usdc'' usdc_def True = Inr spec \<and>
     partitionName ''usdc_transfer'' 41 = Inr ''usdc_transfer_p41''"
proof -
  obtain spec where s: "buildEventTable ''idx_usdc'' usdc_def True = Inr spec" "ts_table spec = ''usdc_transfer''"
    using usdc_table_built by blast
  have "partitionName (ts_table spec) 41 = Inr (ts_table spec @ ''_p'' @ show_nat (nat 41))"
    using buildEventTable_correct [OF s(1)] by auto
  moreover have "show_nat 41 = ''41''" by (simp add: show_eval)
  ultimately show ?thesis using s by simp
qed

end
