(* ===== verification/Decode.thy ===== *)
theory Decode
  imports Ddl "HOL-Library.Word"
begin

text \<open>
  \<open>core/src/decode.ts\<close>: from a raw log to the row that is written. Bytes travel as \<open>Buffer\<close>s
  (lists of 8-bit words), every other value as text or a scalar. viem's \<open>decodeEventLog\<close> is a
  parameter. The hexadecimal codec is shared with the explorer (\<open>explorer/lib/db.ts\<close>).
\<close>

subsection \<open>Hexadecimal\<close>

type_synonym bytes = "8 word list"

definition hex_val :: "char \<Rightarrow> nat option" where
  "hex_val c = (let n = of_char c :: nat in
     if 48 \<le> n \<and> n \<le> 57 then Some (n - 48)
     else if 97 \<le> n \<and> n \<le> 102 then Some (n - 87)
     else if 65 \<le> n \<and> n \<le> 70 then Some (n - 55)
     else None)"

definition hex_char :: "nat \<Rightarrow> char" where
  "hex_char n = (if n < 10 then char_of (48 + n) else char_of (87 + n))"

text \<open>\<open>Buffer.from(s, 'hex')\<close>: pairs of digits, up to the first that is no pair of digits.\<close>

fun hex_pairs :: "string \<Rightarrow> bytes" where
  "hex_pairs (a # b # s) =
     (case (hex_val a, hex_val b) of
        (Some x, Some y) \<Rightarrow> word_of_nat (16 * x + y) # hex_pairs s
      | _ \<Rightarrow> [])"
| "hex_pairs _ = []"

definition hexBytes :: "string \<Rightarrow> bytes" where
  "hexBytes hex = hex_pairs (drop 2 hex)"

definition byte_hex :: "8 word \<Rightarrow> string" where
  "byte_hex b = [hex_char (unat b div 16), hex_char (unat b mod 16)]"

definition bytesToHex :: "bytes \<Rightarrow> string" where
  "bytesToHex bs = ''0x'' @ concat (map byte_hex bs)"

lemma hex_val_char: "n < 16 \<Longrightarrow> hex_val (hex_char n) = Some n"
  by (auto simp: hex_val_def hex_char_def Let_def)

lemma hex_char_val: "hex_val c = Some n \<Longrightarrow> \<not> is_upper c \<Longrightarrow> n < 16 \<and> hex_char n = c"
  by (auto simp: hex_val_def hex_char_def Let_def is_upper_def split: if_splits)

lemma hex_pairs_concat: "hex_pairs (concat (map byte_hex bs)) = bs"
proof (induction bs)
  case (Cons b bs)
  have "unat b < 256" using unsigned_less [where 'a = nat, of b] by simp
  then have "unat b div 16 < 16" by (simp add: less_mult_imp_div_less)
  then show ?case using Cons by (simp add: byte_hex_def hex_val_char)
qed simp

definition hex_text_ok :: "string \<Rightarrow> bool" where
  "hex_text_ok h \<longleftrightarrow> startsWith ''0x'' h \<and> even (length h) \<and>
     list_all (\<lambda>c. hex_val c \<noteq> None \<and> \<not> is_upper c) (drop 2 h)"

lemma unat_byte: "n < 256 \<Longrightarrow> unat (word_of_nat n :: 8 word) = n"
  by (simp add: unsigned_of_nat take_bit_eq_mod)

lemma concat_hex_pairs:
  "even (length s) \<Longrightarrow> list_all (\<lambda>c. hex_val c \<noteq> None \<and> \<not> is_upper c) s \<Longrightarrow> concat (map byte_hex (hex_pairs s)) = s"
proof (induction s rule: hex_pairs.induct)
  case (1 a b s)
  then obtain x y where "hex_val a = Some x" "hex_val b = Some y" by auto
  moreover from this have xy: "x < 16" "y < 16" "hex_char x = a" "hex_char y = b"
    using 1 hex_char_val by auto
  moreover have "unat (word_of_nat (16 * x + y) :: 8 word) = 16 * x + y"
    using xy by (intro unat_byte) simp
  ultimately show ?case using 1 by (simp add: byte_hex_def)
qed simp_all

text \<open>
  Hexadecimal is lossless both ways: every buffer survives printing and reading back, and a
  lower-case 0x string of whole bytes (a hash, an address as readers see it) survives being
  stored as bytes and printed again.
\<close>

theorem hex_roundtrip:
  "hexBytes (bytesToHex bs) = bs \<and> (hex_text_ok h \<longrightarrow> bytesToHex (hexBytes h) = h)"
proof -
  have "bytesToHex (hexBytes h) = h" if "hex_text_ok h"
  proof -
    have "even (length (drop 2 h))" using that by (simp add: hex_text_ok_def)
    then have "concat (map byte_hex (hex_pairs (drop 2 h))) = drop 2 h"
      using that by (intro concat_hex_pairs) (simp_all add: hex_text_ok_def)
    moreover have "take 2 h = ''0x''"
      using that by (simp add: hex_text_ok_def startsWith_def numeral_2_eq_2)
    then have "''0x'' @ drop 2 h = h" by (metis append_take_drop_id)
    ultimately show ?thesis by (simp add: bytesToHex_def hexBytes_def)
  qed
  moreover have "hexBytes (bytesToHex bs) = bs" by (simp add: hexBytes_def bytesToHex_def hex_pairs_concat)
  ultimately show ?thesis by simp
qed

theorem hex_roundtrip_witness: "bytesToHex (hexBytes ''0x3600fe'') = ''0x3600fe''"
proof -
  have "hex_text_ok ''0x3600fe''" by code_simp
  then show ?thesis using hex_roundtrip [of "[]" "''0x3600fe''"] by simp
qed

subsection \<open>JavaScript values and JSON\<close>

datatype js_value =
    JBig int
  | JNum int
  | JStr string
  | JBool bool
  | JArr "js_value list"
  | JObj "(string \<times> js_value) list"

datatype sql_value =
    SText string
  | SBytes bytes
  | SNum int
  | SBool bool
  | SRaw js_value

definition json_char :: "char \<Rightarrow> string" where
  "json_char c =
     (if c = CHR 0x22 then [CHR 0x5C, CHR 0x22]
      else if c = CHR 0x5C then [CHR 0x5C, CHR 0x5C]
      else if c = CHR 0x08 then [CHR 0x5C, CHR ''b'']
      else if c = CHR 0x09 then [CHR 0x5C, CHR ''t'']
      else if c = CHR 0x0A then [CHR 0x5C, CHR ''n'']
      else if c = CHR 0x0C then [CHR 0x5C, CHR ''f'']
      else if c = CHR 0x0D then [CHR 0x5C, CHR ''r'']
      else if (of_char c :: nat) < 32
        then [CHR 0x5C, CHR ''u'', CHR ''0'', CHR ''0'', hex_char (of_char c div 16), hex_char (of_char c mod 16)]
      else [c])"

definition json_string :: "string \<Rightarrow> string" where
  "json_string s = [CHR 0x22] @ concat (map json_char s) @ [CHR 0x22]"

text \<open>\<open>JSON.stringify\<close> with the replacer that turns each \<open>bigint\<close> into its decimal string.\<close>

fun json_stringify :: "js_value \<Rightarrow> string" where
  "json_stringify (JBig i) = json_string (show_int i)"
| "json_stringify (JNum i) = show_int i"
| "json_stringify (JStr s) = json_string s"
| "json_stringify (JBool b) = (if b then ''true'' else ''false'')"
| "json_stringify (JArr vs) = ''['' @ join '','' (map json_stringify vs) @ '']''"
| "json_stringify (JObj kvs) = ''{'' @ join '','' (map (\<lambda>kv. json_string (fst kv) @ '':'' @ json_stringify (snd kv)) kvs) @ ''}''"

fun js_String :: "js_value \<Rightarrow> string" where
  "js_String (JBig i) = show_int i"
| "js_String (JNum i) = show_int i"
| "js_String (JStr s) = s"
| "js_String (JBool b) = (if b then ''true'' else ''false'')"
| "js_String (JArr vs) = join '','' (map js_String vs)"
| "js_String (JObj _) = ''[object Object]''"

definition toSqlValue :: "string \<Rightarrow> js_value \<Rightarrow> sql_value" where
  "toSqlValue abiType value =
     (if endsWith '']'' abiType \<or> startsWith ''tuple'' abiType then SText (json_stringify value)
      else if abiType = ''address'' then SBytes (hexBytes (js_String value))
      else if is_bytes_type abiType then SBytes (hexBytes (js_String value))
      else (case value of JBig i \<Rightarrow> SText (show_int i) | JNum i \<Rightarrow> SNum i | JStr s \<Rightarrow> SText s
            | JBool b \<Rightarrow> SBool b | v \<Rightarrow> SRaw v))"

subsection \<open>Logs and rows\<close>

record raw_log =
  lg_address :: string
  lg_topics :: "string list"
  lg_data :: string
  lg_blockNumber :: int
  lg_blockHash :: string
  lg_blockTimestamp :: "int option"   \<comment> \<open>seconds; some nodes leave it out\<close>
  lg_transactionHash :: string
  lg_transactionIndex :: int
  lg_logIndex :: int

record decoded_row =
  dr_tableName :: string
  dr_blockHash :: string
  dr_blockTime :: int                 \<comment> \<open>a \<open>Date\<close>, in milliseconds\<close>
  dr_columns :: "(string \<times> sql_value) list"

text \<open>What viem decodes: an object when every parameter is named, an array otherwise.\<close>

datatype decoded_args = Named "(string \<times> js_value) list" | Positional "js_value list"

type_synonym log_decoder = "abi_event \<Rightarrow> raw_log \<Rightarrow> decoded_args option"

definition arg_value :: "decoded_args \<Rightarrow> abi_param \<Rightarrow> nat \<Rightarrow> js_value option" where
  "arg_value args param i =
     (case args of
        Named kvs \<Rightarrow> map_of kvs (if p_name param \<noteq> [] then p_name param else show_nat i)
      | Positional vs \<Rightarrow>
          if p_name param \<noteq> []
          then (if p_name param = ''length'' then Some (JNum (int (length vs))) else None)
          else (if i < length vs then Some (vs ! i) else None))"

definition decode_column ::
  "event_def \<Rightarrow> decoded_args \<Rightarrow> (string \<times> sql_value) list \<Rightarrow> nat \<times> event_column \<times> abi_param \<Rightarrow>
   failure + (string \<times> sql_value) list" where
  "decode_column def args columns entry =
     (case entry of (i, col, param) \<Rightarrow>
        (case arg_value args param i of
           None \<Rightarrow> Inl (DecodeError (ed_tableName def @ '': parameter '' @ [CHR 0x27] @ ec_viewName col @ [CHR 0x27] @
                    '' missing from decode result''))
         | Some raw \<Rightarrow> Inr (map_set (ec_name col) (toSqlValue (ec_abiType col) raw) columns)))"

definition common_values :: "raw_log \<Rightarrow> (string \<times> sql_value) list" where
  "common_values log =
     [(''block_number'', SText (show_int (lg_blockNumber log))),
      (''tx_hash'', SBytes (hexBytes (lg_transactionHash log))),
      (''log_index'', SNum (lg_logIndex log))]"

definition decodeLogToRow :: "log_decoder \<Rightarrow> event_def \<Rightarrow> raw_log \<Rightarrow> int \<Rightarrow> failure + decoded_row" where
  "decodeLogToRow decodeEventLog def log blockTime =
     (case decodeEventLog (ed_event def) log of
        None \<Rightarrow> Inl (DecodeError (ed_tableName def @ '': failed to decode log''))
      | Some args \<Rightarrow>
          bindE (eventColumns (ed_event def)) (\<lambda>cols.
          bindE (foldE (decode_column def args) (common_values log) (enumerate 0 (zip cols (ev_inputs (ed_event def)))))
            (\<lambda>columns. Inr \<lparr>dr_tableName = ed_tableName def, dr_blockHash = lg_blockHash log,
               dr_blockTime = blockTime, dr_columns = columns\<rparr>)))"

subsection \<open>What a decoded row holds\<close>

lemma decode_column_Inr:
  "decode_column def args columns (i, col, param) = Inr columns' \<longleftrightarrow>
     (\<exists>raw. arg_value args param i = Some raw \<and> columns' = map_set (ec_name col) (toSqlValue (ec_abiType col) raw) columns)"
  by (auto simp: decode_column_def split: option.splits)

definition column_value :: "decoded_args \<Rightarrow> nat \<times> event_column \<times> abi_param \<Rightarrow> sql_value option" where
  "column_value args = (\<lambda>(i, col, param). map_option (toSqlValue (ec_abiType col)) (arg_value args param i))"

lemma foldE_decode_columns:
  "foldE (decode_column def args) columns entries = Inr columns' \<Longrightarrow>
   distinct (map (\<lambda>(i, col, param). ec_name col) entries) \<Longrightarrow>
   set (map (\<lambda>(i, col, param). ec_name col) entries) \<inter> set (map fst columns) = {} \<Longrightarrow>
   list_all2 (\<lambda>e kv. fst kv = (\<lambda>(i, col, param). ec_name col) e \<and> column_value args e = Some (snd kv))
     entries (drop (length columns) columns') \<and> take (length columns) columns' = columns"
proof (induction entries arbitrary: columns)
  case (Cons e entries)
  obtain i col param where e: "e = (i, col, param)" by (cases e) auto
  from Cons.prems(1) obtain raw where raw: "arg_value args param i = Some raw" and
    rest: "foldE (decode_column def args) (map_set (ec_name col) (toSqlValue (ec_abiType col) raw) columns) entries = Inr columns'"
    by (auto simp: bindE_Inr e decode_column_Inr)
  have new: "map_set (ec_name col) (toSqlValue (ec_abiType col) raw) columns = columns @ [(ec_name col, toSqlValue (ec_abiType col) raw)]"
    using Cons.prems(3) by (intro map_set_new) (auto simp: e)
  let ?c = "columns @ [(ec_name col, toSqlValue (ec_abiType col) raw)]"
  have IH: "list_all2 (\<lambda>e kv. fst kv = (\<lambda>(i, col, param). ec_name col) e \<and> column_value args e = Some (snd kv))
     entries (drop (length ?c) columns') \<and> take (length ?c) columns' = ?c"
    using Cons.prems rest unfolding new by (intro Cons.IH) (auto simp: e)
  then have c': "columns' = ?c @ drop (length ?c) columns'" by (metis append_take_drop_id)
  have "drop (length columns) columns' = (ec_name col, toSqlValue (ec_abiType col) raw) # drop (length ?c) columns'"
    by (subst c') simp
  moreover have "take (length columns) columns' = columns" by (subst c') simp
  ultimately show ?case using IH raw by (simp add: e column_value_def)
qed simp

lemma enumerate_names:
  "length cols = length ps \<Longrightarrow> map (\<lambda>(i, col, param). ec_name col) (enumerate n (zip cols ps)) = map ec_name cols"
  by (induction cols ps arbitrary: n rule: list_induct2) simp_all

text \<open>
  C22: A decoded row carries the log's block number, transaction hash and index, then exactly one
  value per event column, in column order, each the decoded parameter converted for its type; a
  log whose parameter is missing never yields a row.
\<close>

theorem decodeLogToRow_correct:
  assumes row: "decodeLogToRow dec def log t = Inr row"
    and cols: "eventColumns (ed_event def) = Inr cols" and named: "[] \<notin> set (map ec_name cols)"
  shows "\<exists>args. dec (ed_event def) log = Some args \<and>
           dr_tableName row = ed_tableName def \<and> dr_blockHash row = lg_blockHash log \<and> dr_blockTime row = t \<and>
           map fst (dr_columns row) = [''block_number'', ''tx_hash'', ''log_index''] @ map ec_name cols \<and>
           map snd (dr_columns row) =
             [SText (show_int (lg_blockNumber log)), SBytes (hexBytes (lg_transactionHash log)), SNum (lg_logIndex log)] @
             map (\<lambda>e. the (column_value args e)) (enumerate 0 (zip cols (ev_inputs (ed_event def)))) \<and>
           (\<forall>e \<in> set (enumerate 0 (zip cols (ev_inputs (ed_event def)))). column_value args e \<noteq> None)"
proof -
  let ?es = "enumerate 0 (zip cols (ev_inputs (ed_event def)))"
  obtain args where a: "dec (ed_event def) log = Some args" and
    f: "foldE (decode_column def args) (common_values log) ?es = Inr (dr_columns row)" and
    r: "dr_tableName row = ed_tableName def" "dr_blockHash row = lg_blockHash log" "dr_blockTime row = t"
    using row cols by (auto simp: decodeLogToRow_def bindE_Inr split: option.splits)
  have len: "length cols = length (ev_inputs (ed_event def))"
    using cols by (auto simp: eventColumns_Inr)
  have nm: "map (\<lambda>(i, col, param). ec_name col) ?es = map ec_name cols"
    using len by (simp add: enumerate_names)
  have dist: "distinct (map ec_name cols)"
    using cols truthy_None_first_dup [OF _ named] by (auto simp: eventColumns_Inr)
  have res: "ec_name c \<notin> set RESERVED" if "c \<in> set cols" for c
    using that cols event_column_of_not_reserved by (auto simp: eventColumns_Inr)
  have "set (map ec_name cols) \<inter> set (map fst (common_values log)) = {}"
    using res by (fastforce simp: common_values_def RESERVED_eq)
  moreover have "length (common_values log) = 3" by (simp add: common_values_def)
  ultimately have l2: "list_all2 (\<lambda>e kv. fst kv = (\<lambda>(i, col, param). ec_name col) e \<and> column_value args e = Some (snd kv))
     ?es (drop 3 (dr_columns row))" and tk: "take 3 (dr_columns row) = common_values log"
    using foldE_decode_columns [OF f, unfolded nm] dist by metis+
  have split: "dr_columns row = common_values log @ drop 3 (dr_columns row)"
    using tk by (metis append_take_drop_id)
  have "map fst (drop 3 (dr_columns row)) = map (\<lambda>(i, col, param). ec_name col) ?es"
    using l2 by (rule list_all2_induct) simp_all
  moreover have "map snd (drop 3 (dr_columns row)) = map (\<lambda>e. the (column_value args e)) ?es"
    using l2 by (rule list_all2_induct) simp_all
  moreover have "\<forall>e \<in> set ?es. column_value args e \<noteq> None"
    using l2 by (rule list_all2_induct) auto
  ultimately show ?thesis
    using a r nm by (intro exI [of _ args]) (subst (1 2) split, simp add: common_values_def)
qed

definition sample_log :: raw_log where
  "sample_log = \<lparr>lg_address = ''0x36'', lg_topics = [''0xddf252ad''], lg_data = ''0x01'', lg_blockNumber = 7,
     lg_blockHash = ''0xbb'', lg_blockTimestamp = Some 1000, lg_transactionHash = ''0xab'', lg_transactionIndex = 0, lg_logIndex = 3\<rparr>"

definition sample_decoder :: log_decoder where
  "sample_decoder ev log =
     (if lg_data log = ''0x'' then None
      else Some (Named [(''from'', JStr ''0x0a''), (''to'', JStr ''0x0b''), (''value'', JBig 5)]))"

definition sample_row :: decoded_row where
  "sample_row = \<lparr>dr_tableName = ''usdc_transfer'', dr_blockHash = ''0xbb'', dr_blockTime = 1000000,
     dr_columns = [(''block_number'', SText ''7''), (''tx_hash'', SBytes [171]), (''log_index'', SNum 3),
       (''from_id'', SBytes [10]), (''to_id'', SBytes [11]), (''value'', SText ''5'')]\<rparr>"

lemma sample_decodes: "decodeLogToRow sample_decoder usdc_def sample_log 1000000 = Inr sample_row"
  by code_simp

theorem decodeLogToRow_correct_witness:
  "map fst (dr_columns sample_row) = [''block_number'', ''tx_hash'', ''log_index'', ''from_id'', ''to_id'', ''value'']"
proof -
  have ev: "ed_event usdc_def = transfer_event" by (simp add: usdc_def_def)
  have "[] \<notin> set (map ec_name transfer_columns)" by (simp add: transfer_columns_def)
  then have "map fst (dr_columns sample_row) = [''block_number'', ''tx_hash'', ''log_index''] @ map ec_name transfer_columns"
    using decodeLogToRow_correct [OF sample_decodes transfer_event_columns [folded ev]] by blast
  then show ?thesis by (simp add: transfer_columns_def)
qed

end
