(* ===== verification/Rpc.thy ===== *)
theory Rpc
  imports Decode
begin

text \<open>
  \<open>worker/src/rpc.ts\<close>: what the worker asks of an RPC node and how it reads the answers. A client
  is a record of functions; the regular expressions that tell a provider's range cap from a rate
  limit are modelled as terms with a backtracking matcher.
\<close>

subsection \<open>Regular expressions\<close>

datatype re =
    Lit string
  | Dot
  | Many "char \<Rightarrow> bool"    \<comment> \<open>any number of characters of a class\<close>
  | Some1 "char \<Rightarrow> bool"   \<comment> \<open>one or more\<close>
  | Seq "re list"
  | Alt "re list"
  | Opt re

fun many :: "(char \<Rightarrow> bool) \<Rightarrow> string \<Rightarrow> string list" where
  "many p [] = [[]]"
| "many p (c # s) = (c # s) # (if p c then many p s else [])"

text \<open>All the rests a match can leave.\<close>

fun re_match :: "re \<Rightarrow> string \<Rightarrow> string list"
  and seq_match :: "re list \<Rightarrow> string \<Rightarrow> string list"
  and alt_match :: "re list \<Rightarrow> string \<Rightarrow> string list" where
  "re_match (Lit w) s = (if startsWith w s then [drop (length w) s] else [])"
| "re_match Dot s = (case s of [] \<Rightarrow> [] | c # t \<Rightarrow> if c = CHR 0x0A then [] else [t])"
| "re_match (Many p) s = many p s"
| "re_match (Some1 p) s = (case s of [] \<Rightarrow> [] | c # t \<Rightarrow> if p c then many p t else [])"
| "re_match (Seq rs) s = seq_match rs s"
| "re_match (Alt rs) s = alt_match rs s"
| "re_match (Opt r) s = s # re_match r s"
| "seq_match [] s = [s]"
| "seq_match (r # rs) s = concat (map (seq_match rs) (re_match r s))"
| "alt_match [] s = []"
| "alt_match (r # rs) s = re_match r s @ alt_match rs s"

text \<open>\<open>re.test(s)\<close> with the flag \<open>i\<close>, for a term in lower case.\<close>

fun re_search :: "re \<Rightarrow> string \<Rightarrow> bool" where
  "re_search r [] = (re_match r [] \<noteq> [])"
| "re_search r (c # s) = (re_match r (c # s) \<noteq> [] \<or> re_search r s)"

definition re_test :: "re \<Rightarrow> string \<Rightarrow> bool" where
  "re_test r s = re_search r (map to_lower s)"

definition is_word_char :: "char \<Rightarrow> bool" where
  "is_word_char c \<longleftrightarrow> is_alnum c \<or> c = CHR ''_''"

definition is_grouped_digit :: "char \<Rightarrow> bool" where
  "is_grouped_digit c \<longleftrightarrow> is_digit c \<or> c = CHR '',''"

definition RATE_LIMIT :: re where
  "RATE_LIMIT = Alt
     [Seq [Lit ''rate'', Opt Dot, Lit ''limit''],
      Lit ''too many requests'',
      Seq [Lit ''status'', Opt (Lit '':''), Lit '' 429''],
      Lit ''http 429'',
      Lit ''429 too many'']"

definition BODY_TOO_LARGE :: re where
  "BODY_TOO_LARGE = Lit ''response body exceeded the size limit''"

definition RANGE_CAP :: re where
  "RANGE_CAP = Alt
     [Seq [Lit ''block range '', Opt (Lit ''is ''), Lit ''too '', Alt [Lit ''large'', Lit ''wide'', Lit ''big'']],
      Lit ''block range limit'',
      Seq [Lit ''exceed'', Opt (Lit ''s''), Lit '' '', Opt (Lit ''the ''), Lit ''max'', Opt (Lit ''imum''), Lit '' '',
           Opt (Lit ''block ''), Lit ''range''],
      Seq [Lit ''range'', Opt (Lit ''s''), Lit '' over''],
      Seq [Lit ''range '', Opt (Lit ''is ''), Lit ''too '', Alt [Lit ''large'', Lit ''wide'', Lit ''big'']],
      Lit ''range limit'',
      Seq [Lit ''max'', Opt (Lit ''imum''), Lit '' '', Opt (Lit ''block ''), Lit ''range''],
      Seq [Lit ''exceed'', Opt (Lit ''s''), Lit '' '', Opt (Lit ''the ''), Lit ''max'', Opt (Lit ''imum''), Lit '' '',
           Opt (Lit ''number of ''), Lit ''results''],
      Seq [Lit ''max'', Opt (Lit ''imum''), Lit '' results''],
      Seq [Lit ''retry with '', Alt [Lit ''the'', Lit ''a''], Lit '' range''],
      Seq [Lit ''too many '', Alt [Lit ''blocks'', Lit ''logs'', Lit ''results'']],
      Seq [Lit ''more than '', Some1 is_digit, Lit '' '', Alt [Lit ''results'', Lit ''logs'', Lit ''blocks'']],
      Lit ''response size'',
      Lit ''query returned more than'',
      Seq [Lit ''limited to '', Opt (Lit ''a ''), Some1 is_grouped_digit, Lit '' '', Opt (Lit ''block ''), Lit ''range''],
      Seq [Lit ''up to '', Opt (Lit ''a ''), Some1 is_grouped_digit, Lit '' block range''],
      Seq [Lit ''block range '', Alt [Lit ''exceeds'', Lit ''should be'']],
      Seq [Lit ''max'', Opt (Lit ''imum''), Lit '' allowed '', Opt (Lit ''block ''), Lit ''range''],
      Seq [Lit ''reduc'', Many is_word_char, Lit '' '', Opt (Alt [Lit ''your '', Lit ''the '']), Opt (Lit ''block ''), Lit ''range'']]"

subsection \<open>Errors of a client\<close>

datatype js_error = JsError (er_isError: bool) (er_name: string) (er_message: string)
  (er_details: "string option") (er_cause: "js_error option")

definition plain_error :: "string \<Rightarrow> js_error" where
  "plain_error msg = JsError True ''Error'' msg None None"

text \<open>The chain of causes is followed five deep.\<close>

fun error_parts :: "nat \<Rightarrow> js_error option \<Rightarrow> string list" where
  "error_parts (Suc n) (Some e) =
     (if er_isError e then [er_message e] else []) @ (case er_details e of Some d \<Rightarrow> [d] | None \<Rightarrow> []) @
     error_parts n (er_cause e)"
| "error_parts _ _ = []"

definition errorText :: "js_error \<Rightarrow> string" where
  "errorText err = join '' | '' (error_parts 5 (Some err))"

fun named_in_chain :: "string \<Rightarrow> nat \<Rightarrow> js_error option \<Rightarrow> bool" where
  "named_in_chain name (Suc n) (Some e) = (er_name e = name \<or> named_in_chain name n (er_cause e))"
| "named_in_chain _ _ _ = False"

definition isRangeCapError :: "js_error \<Rightarrow> bool" where
  "isRangeCapError err =
     (let txt = errorText err
      in if re_test RATE_LIMIT txt then False
         else named_in_chain ''ResponseBodyTooLargeError'' 5 (Some err) \<or> re_test BODY_TOO_LARGE txt \<or> re_test RANGE_CAP txt)"

lemma drpc_cap: "isRangeCapError (plain_error ''ranges over 10000 blocks are not supported'')"
  by code_simp

lemma rate_limit_no_cap: "\<not> isRangeCapError (plain_error ''HTTP 429: more than 100 logs, rate-limit reached'')"
  by code_simp

subsection \<open>Endpoints\<close>

definition is_ws :: "string \<Rightarrow> bool" where
  "is_ws u \<longleftrightarrow> startsWith ''ws://'' u \<or> startsWith ''wss://'' u"

definition splitRpcUrls :: "string list \<Rightarrow> string list \<times> string list" where
  "splitRpcUrls urls = foldl (\<lambda>(h, w) u. if is_ws u then (h, w @ [u]) else (h @ [u], w)) ([], []) urls"

text \<open>The order in which queries try the endpoints: sockets first, each group in configured order.\<close>

definition createRpc :: "string list \<Rightarrow> string list" where
  "createRpc urls = (case splitRpcUrls urls of (httpUrls, wsUrls) \<Rightarrow> wsUrls @ httpUrls)"

text \<open>\<open>chainId\<close> answers the endpoint's chain, or nothing when asking failed.\<close>

definition filterHealthyRpcs :: "(string \<Rightarrow> int option) \<Rightarrow> string list \<Rightarrow> int \<Rightarrow> string list" where
  "filterHealthyRpcs chainId urls expectedChainId =
     concat (map (\<lambda>url. if chainId url = Some expectedChainId then [url] else []) urls)"

lemma splitRpcUrls_eq: "splitRpcUrls urls = (filter (\<lambda>u. \<not> is_ws u) urls, filter is_ws urls)"
  by (induction urls rule: rev_induct) (auto simp: splitRpcUrls_def)

lemma filterHealthyRpcs_eq: "filterHealthyRpcs chainId urls c = filter (\<lambda>u. chainId u = Some c) urls"
  by (induction urls) (auto simp: filterHealthyRpcs_def)

text \<open>
  Queries only ever go to configured endpoints that answered with the expected chain, each as
  often as configured, sockets before http and otherwise in the configured order.
\<close>

theorem query_endpoints:
  "createRpc (filterHealthyRpcs chainId urls c) =
     filter (\<lambda>u. is_ws u \<and> chainId u = Some c) urls @ filter (\<lambda>u. \<not> is_ws u \<and> chainId u = Some c) urls"
  by (simp add: createRpc_def splitRpcUrls_eq filterHealthyRpcs_eq filter_filter conj_commute)

text \<open>\<open>wsChainId\<close>: the first event settles the promise, later ones do nothing.\<close>

datatype socket_event = SocketTimeout | SocketMessage "int option" | SocketError

definition settle :: "string \<Rightarrow> socket_event \<Rightarrow> js_error + int" where
  "settle url e =
     (case e of
        SocketTimeout \<Rightarrow> Inl (plain_error (''ws chainId timed out: '' @ url))
      | SocketError \<Rightarrow> Inl (plain_error (''ws connection error: '' @ url))
      | SocketMessage (Some n) \<Rightarrow> Inr n
      | SocketMessage None \<Rightarrow> Inl (plain_error (''eth_chainId returned no result: '' @ url)))"

definition wsChainId :: "string \<Rightarrow> socket_event list \<Rightarrow> (js_error + int) option" where
  "wsChainId url events =
     foldl (\<lambda>settled e. case settled of Some r \<Rightarrow> Some r | None \<Rightarrow> Some (settle url e)) None events"

lemma wsChainId_first: "wsChainId url (e # es) = Some (settle url e)"
proof -
  have "foldl (\<lambda>settled e. case settled of Some r \<Rightarrow> Some r | None \<Rightarrow> Some (settle url e)) (Some r) es = Some r" for r
    by (induction es) simp_all
  then show ?thesis by (simp add: wsChainId_def)
qed

subsection \<open>Blocks and their times\<close>

definition getFinalizedBlockNumber :: "(string \<Rightarrow> js_error + int option) \<Rightarrow> string \<Rightarrow> js_error + int" where
  "getFinalizedBlockNumber getBlock tag =
     bindE (getBlock tag) (\<lambda>number. case number of
        None \<Rightarrow> Inl (plain_error (''block '' @ [CHR 0x27] @ tag @ [CHR 0x27] @ '' has no number (pending?)''))
      | Some n \<Rightarrow> Inr n)"

text \<open>\<open>getBlock\<close> answers a block's timestamp in seconds; times are kept in milliseconds.\<close>

definition getBlockTimes ::
  "(int \<Rightarrow> js_error + int) \<Rightarrow> int list \<Rightarrow> (int \<times> int) list \<Rightarrow> js_error + (int \<times> int) list" where
  "getBlockTimes getBlock blockNumbers known =
     (let numbers = set_of_list blockNumbers;
          found = concat (map (\<lambda>bn. case map_of known bn of Some t \<Rightarrow> [(bn, t)] | None \<Rightarrow> []) numbers);
          missing = filter (\<lambda>bn. map_of known bn = None) numbers
      in bindE (mapE (\<lambda>bn. bindE (getBlock bn) (\<lambda>ts. Inr (bn, ts * 1000))) missing) (\<lambda>fetched.
           Inr (foldl (\<lambda>m (bn, t). map_set bn t m) [] (found @ fetched))))"

fun times_of_logs :: "(int \<times> int) list \<Rightarrow> raw_log list \<Rightarrow> (int \<times> int) list option" where
  "times_of_logs tms [] = Some tms"
| "times_of_logs tms (l # ls) =
     (case lg_blockTimestamp l of
        None \<Rightarrow> None
      | Some ts \<Rightarrow> times_of_logs (map_set (lg_blockNumber l) (ts * 1000) tms) ls)"

definition blockTimesFromLogs :: "raw_log list \<Rightarrow> (int \<times> int) list option" where
  "blockTimesFromLogs logs = times_of_logs [] logs"

lemma map_has_fold_set: "map_has k (foldl (\<lambda>m (bn, t). map_set bn t m) m kvs) \<longleftrightarrow> k \<in> fst ` set kvs \<or> map_has k m"
proof (induction kvs arbitrary: m)
  case (Cons kv kvs)
  obtain a b where kv: "kv = (a, b)" by (cases kv)
  have "map_has k (map_set a b m) \<longleftrightarrow> k = a \<or> map_has k m" by (simp add: keys_map_set)
  with Cons.IH [of "map_set a b m"] show ?case by (auto simp: kv)
qed simp

lemma getBlockTimes_complete:
  assumes "getBlockTimes getBlock bns known = Inr tms" "b \<in> set bns"
  shows "map_has b tms"
proof -
  let ?missing = "filter (\<lambda>bn. map_of known bn = None) (set_of_list bns)"
  let ?found = "concat (map (\<lambda>bn. case map_of known bn of Some t \<Rightarrow> [(bn, t)] | None \<Rightarrow> []) (set_of_list bns))"
  from assms(1) obtain fetched where f: "list_all2 (\<lambda>bn y. bindE (getBlock bn) (\<lambda>ts. Inr (bn, ts * 1000)) = Inr y) ?missing fetched"
    and tms: "tms = foldl (\<lambda>m (bn, t). map_set bn t m) [] (?found @ fetched)"
    by (auto simp: getBlockTimes_def Let_def bindE_Inr mapE_Inr)
  have "map fst fetched = ?missing" using f by (rule list_all2_induct) (auto simp: bindE_Inr)
  then have keys: "fst ` set fetched = set ?missing" by (metis set_map)
  have "b \<in> fst ` set (?found @ fetched)"
  proof (cases "map_of known b")
    case None
    then have "b \<in> fst ` set fetched" using assms(2) unfolding keys by simp
    then show ?thesis by (simp add: image_Un)
  next
    case (Some t)
    then have "(b, t) \<in> set ?found" using assms(2) by force
    then show ?thesis by force
  qed
  then show ?thesis unfolding tms map_has_fold_set by blast
qed

lemma times_of_logs_keeps: "times_of_logs m logs = Some tms \<Longrightarrow> map_has b m \<Longrightarrow> map_has b tms"
  by (induction logs arbitrary: m) (auto simp: keys_map_set split: option.splits)

lemma times_of_logs_complete: "times_of_logs m logs = Some tms \<Longrightarrow> l \<in> set logs \<Longrightarrow> map_has (lg_blockNumber l) tms"
proof (induction logs arbitrary: m)
  case (Cons x logs)
  then obtain ts where run: "times_of_logs (map_set (lg_blockNumber x) (ts * 1000) m) logs = Some tms" by (auto split: option.splits)
  moreover have "map_has (lg_blockNumber x) (map_set (lg_blockNumber x) (ts * 1000) m)" by (simp add: keys_map_set)
  ultimately show ?case using Cons.IH [OF run] Cons.prems(2) times_of_logs_keeps [OF run] by (metis set_ConsD)
qed simp

end
