(* ===== verification/Config.thy ===== *)
theory Config
  imports Abi
begin

text \<open>
  \<open>core/src/config.ts\<close> and \<open>core/src/crd.ts\<close>: the worker's configuration and the Indexer resource it is
  rendered from. A zod schema is a check on the raw record (an omitted field is \<open>None\<close>) that
  answers the record with its defaults filled in. Whether a string parses as a URL at all
  (\<open>z.string().url()\<close>) is the parameter \<open>is_url\<close>.
\<close>

subsection \<open>Field checks\<close>

definition starts_ci :: "string list \<Rightarrow> string \<Rightarrow> bool" where
  "starts_ci prefixes s \<longleftrightarrow> list_ex (\<lambda>p. startsWith p (map to_lower s)) prefixes"

definition http_url :: "string \<Rightarrow> bool" where
  "http_url = starts_ci [''http://'', ''https://'']"

definition ws_url :: "string \<Rightarrow> bool" where
  "ws_url = starts_ci [''ws://'', ''wss://'']"

definition RpcUrlSchema :: "(string \<Rightarrow> bool) \<Rightarrow> string \<Rightarrow> bool" where
  "RpcUrlSchema is_url u \<longleftrightarrow> is_url u \<and> starts_ci [''http://'', ''https://'', ''ws://'', ''wss://''] u"

definition is_hex_digit :: "char \<Rightarrow> bool" where
  "is_hex_digit c \<longleftrightarrow> is_digit c \<or> (97 \<le> (of_char c :: nat) \<and> (of_char c :: nat) \<le> 102) \<or>
     (65 \<le> (of_char c :: nat) \<and> (of_char c :: nat) \<le> 70)"

definition evm_address :: "string \<Rightarrow> bool" where
  "evm_address s \<longleftrightarrow> startsWith ''0x'' s \<and> length s = 42 \<and> list_all is_hex_digit (drop 2 s)"

definition check :: "bool \<Rightarrow> string \<Rightarrow> failure + unit" where
  "check ok msg = (if ok then Inr () else Inl (PlainError msg))"

definition default_to :: "'a \<Rightarrow> 'a option \<Rightarrow> 'a" where
  "default_to a x = (case x of Some b \<Rightarrow> b | None \<Rightarrow> a)"

lemma check_Inr [err_simps]: "check ok msg = Inr u \<longleftrightarrow> ok"
  by (simp add: check_def)

subsection \<open>The worker's configuration\<close>

datatype finality = Finalized | Safe | Latest

record raw_contract =
  rc_name :: string
  rc_address :: string
  rc_abiPath :: "string option"
  rc_abiInline :: "abi_entry list option"
  rc_startBlock :: "int option"
  rc_events :: "string list option"

record raw_network =
  rn_chainId :: int
  rn_rpc :: "string list"
  rn_announceRpc :: "string list option"
  rn_explorerApi :: "string option"
  rn_finalityTag :: "finality option"

record raw_polling =
  rp_batchBlocks :: "int option"
  rp_intervalMs :: "int option"

record raw_storage =
  rs_partitionBlocks :: "int option"
  rs_addressIndexes :: "bool option"

record insights_config =
  ic_url :: string
  ic_rpc :: "string list option"
  ic_startBlock :: "int option"

record raw_config =
  rw_indexerName :: string
  rw_network :: raw_network
  rw_contracts :: "raw_contract list"
  rw_polling :: "raw_polling option"
  rw_storage :: "raw_storage option"
  rw_insights :: "insights_config option"

record network_config =
  nc_chainId :: int
  nc_rpc :: "string list"
  nc_announceRpc :: "string list"
  nc_explorerApi :: "string option"
  nc_finalityTag :: finality

record worker_config =
  wc_indexerName :: string
  wc_network :: network_config
  wc_contracts :: "contract_config list"
  wc_batchBlocks :: int
  wc_intervalMs :: int
  wc_partitionBlocks :: int
  wc_addressIndexes :: "bool option"
  wc_insights :: "insights_config option"

definition nonempty :: "string \<Rightarrow> bool" where
  "nonempty s \<longleftrightarrow> s \<noteq> []"

definition ContractConfigSchema :: "raw_contract \<Rightarrow> failure + contract_config" where
  "ContractConfigSchema c =
     bindE (check (nonempty (rc_name c)) ''name'') (\<lambda>_.
     bindE (check (evm_address (rc_address c)) ''invalid EVM address'') (\<lambda>_.
     bindE (check (case rc_abiPath c of Some p \<Rightarrow> nonempty p | None \<Rightarrow> True) ''abiPath'') (\<lambda>_.
     bindE (check (list_all nonempty (default_to [] (rc_events c))) ''events'') (\<lambda>_.
       Inr \<lparr>cc_name = rc_name c, cc_address = rc_address c, cc_abiPath = rc_abiPath c, cc_abiInline = rc_abiInline c,
            cc_startBlock = rc_startBlock c, cc_events = default_to [] (rc_events c)\<rparr>))))"

definition network_schema :: "(string \<Rightarrow> bool) \<Rightarrow> raw_network \<Rightarrow> failure + network_config" where
  "network_schema is_url n =
     bindE (check (rn_chainId n > 0) ''chainId'') (\<lambda>_.
     bindE (check (rn_rpc n \<noteq> [] \<and> list_all (RpcUrlSchema is_url) (rn_rpc n)) ''rpc URL scheme must be http(s):// or ws(s)://'') (\<lambda>_.
     bindE (check (list_all ws_url (default_to [] (rn_announceRpc n))) ''announceRpc must be ws(s):// only'') (\<lambda>_.
     bindE (check (case rn_explorerApi n of Some u \<Rightarrow> http_url u | None \<Rightarrow> True) ''explorerApi must be http(s)://'') (\<lambda>_.
       Inr \<lparr>nc_chainId = rn_chainId n, nc_rpc = rn_rpc n, nc_announceRpc = default_to [] (rn_announceRpc n),
            nc_explorerApi = rn_explorerApi n, nc_finalityTag = default_to Finalized (rn_finalityTag n)\<rparr>))))"

definition insights_schema :: "insights_config \<Rightarrow> failure + insights_config" where
  "insights_schema i =
     bindE (check (http_url (ic_url i)) ''insights.laya.url must be http(s)://'') (\<lambda>_.
     bindE (check (case ic_rpc i of Some us \<Rightarrow> list_all http_url us \<and> 1 \<le> length us \<and> length us \<le> 8 | None \<Rightarrow> True)
              ''insights.rpc entries must be http(s)://'') (\<lambda>_. Inr i))"

definition parseWorkerConfig :: "(string \<Rightarrow> bool) \<Rightarrow> raw_config \<Rightarrow> failure + worker_config" where
  "parseWorkerConfig is_url raw =
     bindE (check (nonempty (rw_indexerName raw)) ''indexerName'') (\<lambda>_.
     bindE (network_schema is_url (rw_network raw)) (\<lambda>network.
     bindE (check (rw_contracts raw \<noteq> []) ''contracts'') (\<lambda>_.
     bindE (mapE ContractConfigSchema (rw_contracts raw)) (\<lambda>contracts.
       (let batch = default_to 1000 (Option.bind (rw_polling raw) rp_batchBlocks);
            interval = default_to 2000 (Option.bind (rw_polling raw) rp_intervalMs);
            blocks = default_to 2000000 (Option.bind (rw_storage raw) rs_partitionBlocks)
        in bindE (check (batch > 0 \<and> interval > 0) ''polling'') (\<lambda>_.
           bindE (check (blocks \<ge> 10000) ''partitionBlocks'') (\<lambda>_.
           bindE (case rw_insights raw of Some i \<Rightarrow> bindE (insights_schema i) (\<lambda>i. Inr (Some i)) | None \<Rightarrow> Inr None) (\<lambda>insights.
             Inr \<lparr>wc_indexerName = rw_indexerName raw, wc_network = network, wc_contracts = contracts,
                  wc_batchBlocks = batch, wc_intervalMs = interval, wc_partitionBlocks = blocks,
                  wc_addressIndexes = Option.bind (rw_storage raw) rs_addressIndexes, wc_insights = insights\<rparr>))))))))"

subsection \<open>The Indexer resource\<close>

record abi_ref =
  ar_configMap :: "(string \<times> string) option"   \<comment> \<open>name and key, after the key's default\<close>
  ar_inline :: "abi_entry list option"

record spec_contract =
  sc_name :: string
  sc_address :: string
  sc_abi :: "abi_ref option"
  sc_startBlock :: "int option"
  sc_events :: "string list"

record spec_insights =
  si_url :: string
  si_header :: "(string \<times> string) option"
  si_rpc :: "string list option"
  si_startBlock :: "int option"

record indexer_spec =
  is_network :: network_config
  is_dsnSecret :: "string \<times> string"
  is_partitionBlocks :: int
  is_addressIndexes :: bool
  is_contracts :: "spec_contract list"
  is_batchBlocks :: int
  is_intervalMs :: int
  is_insights :: "spec_insights option"

text \<open>\<open>/^[a-z][a-z0-9-]{0,29}$/\<close>.\<close>

definition contract_name :: "string \<Rightarrow> bool" where
  "contract_name s \<longleftrightarrow> s \<noteq> [] \<and> is_lower (hd s) \<and> length s \<le> 30 \<and>
     list_all (\<lambda>c. is_lower c \<or> is_digit c \<or> c = CHR ''-'') (tl s)"

definition spec_contract_ok :: "spec_contract \<Rightarrow> bool" where
  "spec_contract_ok c \<longleftrightarrow> contract_name (sc_name c) \<and> evm_address (sc_address c) \<and>
     (case sc_abi c of Some a \<Rightarrow> (case ar_configMap a of Some (n, k) \<Rightarrow> nonempty n \<and> nonempty k | None \<Rightarrow> True) | None \<Rightarrow> True) \<and>
     list_all nonempty (sc_events c)"

definition network_ok :: "(string \<Rightarrow> bool) \<Rightarrow> network_config \<Rightarrow> bool" where
  "network_ok is_url n \<longleftrightarrow> nc_chainId n > 0 \<and> nc_rpc n \<noteq> [] \<and> list_all (RpcUrlSchema is_url) (nc_rpc n) \<and>
     list_all ws_url (nc_announceRpc n) \<and> (case nc_explorerApi n of Some u \<Rightarrow> http_url u | None \<Rightarrow> True)"

definition IndexerSpecSchema :: "(string \<Rightarrow> bool) \<Rightarrow> indexer_spec \<Rightarrow> bool" where
  "IndexerSpecSchema is_url s \<longleftrightarrow>
     network_ok is_url (is_network s) \<and> nonempty (fst (is_dsnSecret s)) \<and> nonempty (snd (is_dsnSecret s)) \<and>
     is_partitionBlocks s \<ge> 10000 \<and> is_contracts s \<noteq> [] \<and> list_all spec_contract_ok (is_contracts s) \<and>
     is_batchBlocks s > 0 \<and> is_intervalMs s > 0 \<and>
     (case is_insights s of None \<Rightarrow> True
      | Some i \<Rightarrow> http_url (si_url i) \<and>
          (case si_header i of Some (n, k) \<Rightarrow> nonempty n \<and> nonempty k | None \<Rightarrow> True) \<and>
          (case si_rpc i of Some us \<Rightarrow> list_all http_url us \<and> 1 \<le> length us \<and> length us \<le> 8 | None \<Rightarrow> True))"

definition ABI_MOUNT_DIR :: string where
  "ABI_MOUNT_DIR = ''/etc/arckive/abis''"

definition CONFIG_MOUNT_PATH :: string where
  "CONFIG_MOUNT_PATH = ''/etc/arckive/config/config.json''"

definition DEFAULT_EXPLORER_API :: "(int \<times> string) list" where
  "DEFAULT_EXPLORER_API = [(5042002, ''https://testnet.arcscan.app/api/v2'')]"

definition render_contract :: "spec_contract \<Rightarrow> raw_contract" where
  "render_contract c =
     \<lparr>rc_name = sc_name c, rc_address = sc_address c,
      rc_abiPath = (case Option.bind (sc_abi c) ar_configMap of
         Some (_, key) \<Rightarrow> Some (ABI_MOUNT_DIR @ ''/'' @ sc_name c @ ''/'' @ key) | None \<Rightarrow> None),
      rc_abiInline = Option.bind (sc_abi c) ar_inline,
      rc_startBlock = sc_startBlock c, rc_events = Some (sc_events c)\<rparr>"

definition explorer_of :: "network_config \<Rightarrow> string option" where
  "explorer_of n = truthy (case nc_explorerApi n of Some u \<Rightarrow> Some u | None \<Rightarrow> map_of DEFAULT_EXPLORER_API (nc_chainId n))"

definition renderWorkerConfig :: "(string \<Rightarrow> bool) \<Rightarrow> string \<Rightarrow> indexer_spec \<Rightarrow> failure + worker_config" where
  "renderWorkerConfig is_url crName spec =
     (let n = is_network spec
      in parseWorkerConfig is_url
        \<lparr>rw_indexerName = crName,
         rw_network = \<lparr>rn_chainId = nc_chainId n, rn_rpc = nc_rpc n, rn_announceRpc = Some (nc_announceRpc n),
           rn_explorerApi = (case explorer_of n of Some u \<Rightarrow> Some u | None \<Rightarrow> nc_explorerApi n),
           rn_finalityTag = Some (nc_finalityTag n)\<rparr>,
         rw_contracts = map render_contract (is_contracts spec),
         rw_polling = Some \<lparr>rp_batchBlocks = Some (is_batchBlocks spec), rp_intervalMs = Some (is_intervalMs spec)\<rparr>,
         rw_storage = Some \<lparr>rs_partitionBlocks = Some (is_partitionBlocks spec),
           rs_addressIndexes = (if is_addressIndexes spec then Some True else None)\<rparr>,
         rw_insights = map_option (\<lambda>i. \<lparr>ic_url = si_url i, ic_rpc = si_rpc i, ic_startBlock = si_startBlock i\<rparr>) (is_insights spec)\<rparr>)"

text \<open>\<open>digest\<close> is the hexadecimal SHA-256 of the configuration's JSON.\<close>

definition configHash :: "(worker_config \<Rightarrow> string) \<Rightarrow> worker_config \<Rightarrow> string" where
  "configHash digest config = take 16 (digest config)"

subsection \<open>A valid resource always renders\<close>

lemma render_contract_ok:
  assumes "spec_contract_ok c"
  shows "ContractConfigSchema (render_contract c) = Inr
     \<lparr>cc_name = sc_name c, cc_address = sc_address c,
      cc_abiPath = (case Option.bind (sc_abi c) ar_configMap of
         Some (_, key) \<Rightarrow> Some (ABI_MOUNT_DIR @ ''/'' @ sc_name c @ ''/'' @ key) | None \<Rightarrow> None),
      cc_abiInline = Option.bind (sc_abi c) ar_inline, cc_startBlock = sc_startBlock c, cc_events = sc_events c\<rparr>"
  using assms
  by (auto simp: ContractConfigSchema_def render_contract_def spec_contract_ok_def contract_name_def nonempty_def
      check_def default_to_def ABI_MOUNT_DIR_def split: option.split)

lemma default_explorer_http: "http_url ''https://testnet.arcscan.app/api/v2''"
  by code_simp

lemma explorer_of_http: "(case nc_explorerApi n of Some u \<Rightarrow> http_url u | None \<Rightarrow> True) \<Longrightarrow> explorer_of n = Some u \<Longrightarrow> http_url u"
  using default_explorer_http
  by (auto simp: explorer_of_def truthy_def DEFAULT_EXPLORER_API_def split: option.splits list.splits if_splits)

lemma explorer_of_some: "nc_explorerApi n = Some u \<Longrightarrow> http_url u \<Longrightarrow> explorer_of n = Some u"
  by (cases u) (auto simp: explorer_of_def truthy_def http_url_def starts_ci_def startsWith_def)

text \<open>
  C25: Every Indexer the API server admits renders to a configuration its worker accepts: same
  contracts in order, same polling and partition span, the default explorer only where none is
  given; and what the resource does not use does not appear, so it cannot change the config hash.
\<close>

theorem renderWorkerConfig_total:
  assumes "IndexerSpecSchema is_url spec" "crName \<noteq> []"
  shows "\<exists>cfg. renderWorkerConfig is_url crName spec = Inr cfg \<and>
     map cc_address (wc_contracts cfg) = map sc_address (is_contracts spec) \<and>
     map cc_events (wc_contracts cfg) = map sc_events (is_contracts spec) \<and>
     map cc_startBlock (wc_contracts cfg) = map sc_startBlock (is_contracts spec) \<and>
     wc_batchBlocks cfg = is_batchBlocks spec \<and> wc_partitionBlocks cfg = is_partitionBlocks spec \<and>
     nc_rpc (wc_network cfg) = nc_rpc (is_network spec) \<and> nc_explorerApi (wc_network cfg) = explorer_of (is_network spec) \<and>
     (wc_addressIndexes cfg = None \<longleftrightarrow> \<not> is_addressIndexes spec) \<and> (wc_insights cfg = None \<longleftrightarrow> is_insights spec = None)"
proof -
  note ok = assms(1) [unfolded IndexerSpecSchema_def network_ok_def]
  let ?cs = "map (\<lambda>c. \<lparr>cc_name = sc_name c, cc_address = sc_address c,
      cc_abiPath = (case Option.bind (sc_abi c) ar_configMap of
         Some (_, key) \<Rightarrow> Some (ABI_MOUNT_DIR @ ''/'' @ sc_name c @ ''/'' @ key) | None \<Rightarrow> None),
      cc_abiInline = Option.bind (sc_abi c) ar_inline, cc_startBlock = sc_startBlock c, cc_events = sc_events c\<rparr>) (is_contracts spec)"
  have "mapE (\<lambda>c. ContractConfigSchema (render_contract c)) (is_contracts spec) = Inr ?cs"
    by (rule mapE_total) (use ok render_contract_ok in \<open>auto simp: list_all_iff\<close>)
  moreover have "mapE ContractConfigSchema (map render_contract cs) = mapE (\<lambda>c. ContractConfigSchema (render_contract c)) cs" for cs
    by (induction cs) simp_all
  ultimately have contracts: "mapE ContractConfigSchema (map render_contract (is_contracts spec)) = Inr ?cs" by simp
  have expl: "(case explorer_of (is_network spec) of Some u \<Rightarrow> Some u | None \<Rightarrow> nc_explorerApi (is_network spec)) = explorer_of (is_network spec)"
    using ok explorer_of_some [of "is_network spec"] by (auto split: option.splits)
  have "case explorer_of (is_network spec) of Some u \<Rightarrow> http_url u | None \<Rightarrow> True"
    using ok explorer_of_http [of "is_network spec"] by (auto split: option.splits)
  then show ?thesis
    using ok contracts assms(2) unfolding renderWorkerConfig_def parseWorkerConfig_def Let_def network_schema_def insights_schema_def expl
    by (cases "is_insights spec") (simp_all add: check_def default_to_def nonempty_def comp_def)
qed

definition sample_spec :: indexer_spec where
  "sample_spec =
     \<lparr>is_network = \<lparr>nc_chainId = 5042002, nc_rpc = [''https://rpc.arc''], nc_announceRpc = [], nc_explorerApi = None,
        nc_finalityTag = Latest\<rparr>,
      is_dsnSecret = (''db'', ''url''), is_partitionBlocks = 2000000, is_addressIndexes = False,
      is_contracts = [\<lparr>sc_name = ''usdc'', sc_address = ''0x3600000000000000000000000000000000000000'', sc_abi = None,
        sc_startBlock = None, sc_events = [''Transfer'']\<rparr>],
      is_batchBlocks = 1000, is_intervalMs = 2000, is_insights = None\<rparr>"

theorem renderWorkerConfig_total_witness:
  "\<exists>cfg. renderWorkerConfig (\<lambda>_. True) ''arc'' sample_spec = Inr cfg \<and> wc_batchBlocks cfg = 1000"
proof -
  have "IndexerSpecSchema (\<lambda>_. True) sample_spec" by code_simp
  from renderWorkerConfig_total [OF this, of "''arc''"] show ?thesis by (auto simp: sample_spec_def)
qed

end
