(* ===== verification/Pool.thy ===== *)
theory Pool
  imports Complex_Main Rpc Config "HOL-Library.Multiset"
begin

text \<open>
  \<open>worker/src/pacer.ts\<close> and \<open>worker/src/rpcpool.ts\<close>: the insight loop's RPC reads. Calls go out in
  chunks, one request at a time, to endpoints tried in their order; what a request answers, call by
  call, and what the clock reads are inputs (functions of the request's and the reading's number).
  The result and the requests made are the outputs.
\<close>

subsection \<open>Errors of the RPC client\<close>

text \<open>One error of a chain of causes: which of viem's classes it is an instance of.\<close>

datatype err_kind = HttpRequestError "int option" | TimeoutError | SocketClosedError | WebSocketRequestError
  | LimitExceededRpcError | ResponseBodyTooLargeError | MalformedReplyError | OtherError

record err_node =
  en_kind :: err_kind
  en_viem :: bool                 \<comment> \<open>instance of viem's \<open>BaseError\<close>\<close>
  en_message :: string
  en_short :: "string option"     \<comment> \<open>viem's \<open>shortMessage\<close>\<close>

type_synonym rpc_error = "err_node list"   \<comment> \<open>outermost first\<close>

definition isRateLimited :: "rpc_error \<Rightarrow> bool" where
  "isRateLimited err \<longleftrightarrow>
     (case err of [] \<Rightarrow> False
      | e # _ \<Rightarrow> en_viem e \<and> list_ex (\<lambda>e. en_kind e = LimitExceededRpcError \<or> en_kind e = HttpRequestError (Some 429)) err)"

definition walk :: "rpc_error \<Rightarrow> (err_node \<Rightarrow> bool) \<Rightarrow> bool" where
  "walk err test \<longleftrightarrow> list_ex test (take 8 err)"

definition isTooLarge :: "rpc_error \<Rightarrow> bool" where
  "isTooLarge err \<longleftrightarrow> walk err (\<lambda>e. en_kind e = ResponseBodyTooLargeError)"

definition transport_kind :: "err_kind \<Rightarrow> bool" where
  "transport_kind k \<longleftrightarrow>
     (case k of HttpRequestError st \<Rightarrow> st \<noteq> Some 429 | TimeoutError \<Rightarrow> True | SocketClosedError \<Rightarrow> True
      | WebSocketRequestError \<Rightarrow> True | _ \<Rightarrow> False)"

definition isTransportFailure :: "rpc_error \<Rightarrow> bool" where
  "isTransportFailure err \<longleftrightarrow> walk err (\<lambda>e. transport_kind (en_kind e))"

subsection \<open>The pacer\<close>

record pace_limits =
  startMs :: rat
  minMs :: rat
  maxMs :: rat

definition INSIGHTS_RPC_PACE :: pace_limits where
  "INSIGHTS_RPC_PACE = \<lparr>startMs = 250, minMs = 50, maxMs = 8000\<rparr>"

record pacer =
  pc_limits :: pace_limits
  pc_interval :: rat
  pc_next :: rat

definition RELAX :: rat where
  "RELAX = 97 / 100"

definition new_pacer :: "pace_limits \<Rightarrow> pacer" where
  "new_pacer limits = \<lparr>pc_limits = limits, pc_interval = startMs limits, pc_next = 0\<rparr>"

definition pacer_backOff :: "rat \<Rightarrow> pacer \<Rightarrow> pacer" where
  "pacer_backOff now p =
     (let interval = min (maxMs (pc_limits p)) (pc_interval p * 2)
      in p\<lparr>pc_interval := interval, pc_next := now + interval\<rparr>)"

text \<open>
  One turn of the queue: how long it sleeps, its start once it reads the clock again, and its end.
\<close>

definition pacer_wait :: "rat \<Rightarrow> pacer \<Rightarrow> rat" where
  "pacer_wait now p = max 0 (pc_next p - now)"

definition pacer_start :: "rat \<Rightarrow> pacer \<Rightarrow> pacer" where
  "pacer_start now p = p\<lparr>pc_next := now + pc_interval p\<rparr>"

definition pacer_done :: "pacer \<Rightarrow> pacer" where
  "pacer_done p = p\<lparr>pc_interval := max (minMs (pc_limits p)) (pc_interval p * RELAX)\<rparr>"

definition pacer_failed :: "rat \<Rightarrow> rpc_error \<Rightarrow> pacer \<Rightarrow> pacer" where
  "pacer_failed now err p = (if isRateLimited err then pacer_backOff now p else p)"

subsection \<open>Checked replies\<close>

text \<open>A JSON value as far as \<open>checkedFetch\<close> looks into it; an absent field is \<open>None\<close>.\<close>

record rpc_object =
  ob_id :: "string option"
  ob_errorCode :: "int option"
  ob_errorMessage :: "string option"
  ob_code :: "int option"
  ob_message :: "string option"

datatype json_body = NotJson | Scalar | Object rpc_object | Array "string option list"   \<comment> \<open>of an array, the elements' ids\<close>

datatype request = Single "string option" | Batched "string option list"

record http_reply =
  hr_ok :: bool
  hr_status :: int
  hr_size :: nat
  hr_body :: json_body

datatype fetch_error = FHttp int | FTooLarge nat | FMalformed string

definition MAX_BODY_BYTES :: nat where
  "MAX_BODY_BYTES = 10485760"

definition says_limit :: "int option \<Rightarrow> string option \<Rightarrow> bool" where
  "says_limit c m \<longleftrightarrow> c = Some (-32005) \<or> c = Some 429 \<or> (case m of Some t \<Rightarrow> re_test RATE_LIMIT t | None \<Rightarrow> False)"

definition readsAsRateLimit :: "json_body \<Rightarrow> bool" where
  "readsAsRateLimit got \<longleftrightarrow>
     (case got of Object ob \<Rightarrow> says_limit (ob_errorCode ob) (ob_errorMessage ob) \<or> says_limit (ob_code ob) (ob_message ob) | _ \<Rightarrow> False)"

definition is_array :: "json_body \<Rightarrow> bool" where
  "is_array got \<longleftrightarrow> (case got of Array _ \<Rightarrow> True | _ \<Rightarrow> False)"

definition body_ids :: "json_body \<Rightarrow> string option list" where
  "body_ids got = (case got of Array ids \<Rightarrow> ids | Object ob \<Rightarrow> [ob_id ob] | _ \<Rightarrow> [None])"

definition request_ids :: "request \<Rightarrow> string option list" where
  "request_ids sent = (case sent of Single i \<Rightarrow> [i] | Batched ids \<Rightarrow> ids)"

definition is_batch :: "request \<Rightarrow> bool" where
  "is_batch sent \<longleftrightarrow> (case sent of Batched _ \<Rightarrow> True | Single _ \<Rightarrow> False)"

definition same_ids :: "string option list \<Rightarrow> string option list \<Rightarrow> bool" where
  "same_ids want have \<longleftrightarrow> length have = length want \<and> list_all (\<lambda>i. length (filter (\<lambda>h. h = i) have) = 1) want"

definition checkedFetch :: "request \<Rightarrow> http_reply \<Rightarrow> fetch_error + json_body" where
  "checkedFetch sent res =
     (if \<not> hr_ok res then Inl (FHttp (hr_status res))
      else if hr_size res > MAX_BODY_BYTES then Inl (FTooLarge (hr_size res))
      else if hr_body res = NotJson then Inl (FMalformed ''not JSON'')
      else if is_batch sent \<and> \<not> is_array (hr_body res) \<and> readsAsRateLimit (hr_body res) then Inl (FHttp 429)
      else if is_batch sent \<noteq> is_array (hr_body res) then Inl (FMalformed ''not shaped like the request'')
      else if \<not> same_ids (request_ids sent) (body_ids (hr_body res)) then Inl (FMalformed ''ids differ from the request'')
      else Inr (hr_body res))"

subsection \<open>The pool\<close>

definition CHUNK :: nat where "CHUNK = 20"
definition REST_START_MS :: int where "REST_START_MS = 5000"
definition REST_MAX_MS :: int where "REST_MAX_MS = 60000"

record slot =
  sl_label :: string
  sl_url :: string
  sl_shared :: bool
  sl_chunk :: nat
  sl_failures :: nat
  sl_restUntil :: rat
  sl_pacer :: pacer

text \<open>\<open>host\<close> is the URL parser: the host of a URL, or nothing.\<close>

definition endpointLabel :: "(string \<Rightarrow> string option) \<Rightarrow> nat \<Rightarrow> string \<Rightarrow> string" where
  "endpointLabel host index url = show_nat index @ '':'' @ (case host url of Some h \<Rightarrow> h | None \<Rightarrow> ''?'')"

fun split_at :: "string \<Rightarrow> string \<Rightarrow> string \<Rightarrow> string list" where
  "split_at sep acc [] = [acc]"
| "split_at sep acc (c # s) =
     (if sep \<noteq> [] \<and> startsWith sep (c # s) then acc # split_at sep [] (drop (length sep) (c # s)) else split_at sep (acc @ [c]) s)"

text \<open>The error a call is rejected with, wrapped: it names the endpoint by its label.\<close>

record insight_error =
  ie_endpoint :: string
  ie_message :: string
  ie_cause :: "rpc_error"   \<comment> \<open>what was wrapped: only read to classify, not kept by the source\<close>

definition InsightRpcError :: "string \<Rightarrow> string \<Rightarrow> rpc_error \<Rightarrow> insight_error" where
  "InsightRpcError endpoint url err =
     (let txt = (case err of [] \<Rightarrow> ''undefined'' | e # _ \<Rightarrow> (case en_short e of Some s \<Rightarrow> s | None \<Rightarrow> en_message e))
      in \<lparr>ie_endpoint = endpoint, ie_message = endpoint @ '': '' @ join endpoint (split_at url [] txt), ie_cause = err\<rparr>)"

datatype 'v outcome = Fulfilled 'v | Rejected insight_error

text \<open>What the outside answers: request \<open>r\<close> to endpoint \<open>s\<close>, for call \<open>i\<close>; and the clock's readings.\<close>

record 'v pool_env =
  pn_answer :: "nat \<Rightarrow> nat \<Rightarrow> nat \<Rightarrow> rpc_error + 'v"
  pn_clock :: "nat \<Rightarrow> rat"

record 'v pool =
  po_slots :: "slot list"
  po_out :: "nat \<Rightarrow> 'v outcome option"
  po_lastError :: "nat \<Rightarrow> insight_error option"
  po_log :: "(nat \<times> nat list) list"      \<comment> \<open>the requests made: endpoint and calls, in order\<close>
  po_reads :: nat                           \<comment> \<open>readings of the clock so far\<close>

definition rest_ms :: "nat \<Rightarrow> int" where
  "rest_ms failures = min (REST_START_MS * 2 ^ (failures - 1)) REST_MAX_MS"

definition rest_slot :: "rat \<Rightarrow> slot \<Rightarrow> slot" where
  "rest_slot now s = s\<lparr>sl_failures := Suc (sl_failures s), sl_restUntil := now + of_int (rest_ms (Suc (sl_failures s)))\<rparr>"

definition backOffShared :: "rat \<Rightarrow> slot list \<Rightarrow> slot list" where
  "backOffShared now slots = map (\<lambda>s. if sl_shared s then s\<lparr>sl_pacer := pacer_backOff now (sl_pacer s)\<rparr> else s) slots"

definition pick :: "rat \<Rightarrow> slot list \<Rightarrow> nat list \<Rightarrow> nat option" where
  "pick now slots tried =
     (let opens = filter (\<lambda>i. i \<notin> set tried) [0..<length slots]
      in case find (\<lambda>i. sl_restUntil (slots ! i) \<le> now) opens of
           Some i \<Rightarrow> Some i
         | None \<Rightarrow> (case sort_key (\<lambda>i. sl_restUntil (slots ! i)) opens of [] \<Rightarrow> None | i # _ \<Rightarrow> Some i))"

text \<open>Which calls of a settled request count as what.\<close>

definition call_error :: "'v pool_env \<Rightarrow> nat \<Rightarrow> nat \<Rightarrow> nat \<Rightarrow> rpc_error option" where
  "call_error env r s i = (case pn_answer env r s i of Inl e \<Rightarrow> Some e | Inr _ \<Rightarrow> None)"

definition is_big :: "'v pool_env \<Rightarrow> nat \<Rightarrow> nat \<Rightarrow> nat \<Rightarrow> bool" where
  "is_big env r s i \<longleftrightarrow> (case call_error env r s i of Some e \<Rightarrow> \<not> isRateLimited e \<and> isTooLarge e | None \<Rightarrow> False)"

definition is_failed :: "'v pool_env \<Rightarrow> nat \<Rightarrow> nat \<Rightarrow> nat \<Rightarrow> bool" where
  "is_failed env r s i \<longleftrightarrow> (case call_error env r s i of Some e \<Rightarrow> isRateLimited e \<or> \<not> isTooLarge e | None \<Rightarrow> False)"

definition rate_limited :: "'v pool_env \<Rightarrow> nat \<Rightarrow> nat \<Rightarrow> nat \<Rightarrow> bool" where
  "rate_limited env r s i \<longleftrightarrow> (case call_error env r s i of Some e \<Rightarrow> isRateLimited e | None \<Rightarrow> False)"

definition transport_failed :: "'v pool_env \<Rightarrow> nat \<Rightarrow> nat \<Rightarrow> nat \<Rightarrow> bool" where
  "transport_failed env r s i \<longleftrightarrow>
     (case call_error env r s i of Some e \<Rightarrow> \<not> isRateLimited e \<and> \<not> isTooLarge e \<and> isTransportFailure e | None \<Rightarrow> False)"

text \<open>A request and what it leaves behind, before any halving.\<close>

definition request :: "'v pool_env \<Rightarrow> nat \<Rightarrow> nat list \<Rightarrow> 'v pool \<Rightarrow> 'v pool" where
  "request env s idx p =
     (let r = length (po_log p); slot = po_slots p ! s;
          started = pacer_done (pacer_start (pn_clock env (po_reads p)) (sl_pacer slot));
          later = pn_clock env (Suc (po_reads p));
          slot' = (if list_ex (rate_limited env r s) idx
                   then rest_slot later (slot\<lparr>sl_pacer := pacer_backOff later started\<rparr>)
                   else if list_ex (transport_failed env r s) idx then rest_slot later (slot\<lparr>sl_pacer := started\<rparr>)
                   else slot\<lparr>sl_pacer := started, sl_failures := 0, sl_restUntil := 0\<rparr>)
      in \<lparr>po_slots = (po_slots p)[s := slot'],
          po_out = (\<lambda>i. if i \<in> set idx then (case pn_answer env r s i of Inr v \<Rightarrow> Some (Fulfilled v) | Inl _ \<Rightarrow> po_out p i) else po_out p i),
          po_lastError = (\<lambda>i. if i \<in> set idx
             then (case pn_answer env r s i of Inl e \<Rightarrow> Some (InsightRpcError (sl_label slot) (sl_url slot) e) | Inr _ \<Rightarrow> po_lastError p i)
             else po_lastError p i),
          po_log = po_log p @ [(s, idx)], po_reads = Suc (Suc (po_reads p))\<rparr>)"

text \<open>A too large answer is halved until it fits; one call that is too large alone is given up.\<close>

function (sequential) send :: "'v pool_env \<Rightarrow> nat \<Rightarrow> nat list \<Rightarrow> 'v pool \<Rightarrow> nat list \<times> 'v pool" where
  "send env s idx p =
     (let r = length (po_log p);
          p' = request env s idx p;
          failed = filter (is_failed env r s) idx;
          big = filter (is_big env r s) idx;
          half = (length big + 1) div 2
      in if big = [] then (failed, p')
         else if length big = 1
         then (failed, p'\<lparr>po_out := (po_out p')(hd big := map_option Rejected (po_lastError p' (hd big)))\<rparr>)
         else (case send env s (take half big) p' of (left1, p1) \<Rightarrow>
                 (case send env s (drop half big) p1 of (left2, p2) \<Rightarrow> (failed @ left1 @ left2, p2))))"
  by pat_completeness auto
termination
proof (relation "measure (\<lambda>(env, s, idx, p). length idx)")
  fix env :: "'v pool_env" and s idx p r p' failed big half
  assume defs: "r = length (po_log p)" "big = filter (is_big env r s) idx" "half = (length big + 1) div 2"
    and n: "big \<noteq> []" "length big \<noteq> 1"
  have le: "length big \<le> length idx" by (simp add: defs(2))
  have "2 \<le> length big" using n by (cases big) (auto simp: Suc_le_eq)
  then show "((env, s, take half big, p'), env, s, idx, p) \<in> measure (\<lambda>(env, s, idx, p). length idx)"
    "\<And>x left1 p1. ((env, s, drop half big, p1), env, s, idx, p) \<in> measure (\<lambda>(env, s, idx, p). length idx)"
    using le by (auto simp: defs(3))
qed simp

declare send.simps [simp del]

definition bigs :: "'v pool_env \<Rightarrow> nat \<Rightarrow> nat list \<Rightarrow> 'v pool \<Rightarrow> nat list" where
  "bigs env s idx p = filter (is_big env (length (po_log p)) s) idx"

definition faileds :: "'v pool_env \<Rightarrow> nat \<Rightarrow> nat list \<Rightarrow> 'v pool \<Rightarrow> nat list" where
  "faileds env s idx p = filter (is_failed env (length (po_log p)) s) idx"

definition half_of :: "'v pool_env \<Rightarrow> nat \<Rightarrow> nat list \<Rightarrow> 'v pool \<Rightarrow> nat" where
  "half_of env s idx p = (length (bigs env s idx p) + 1) div 2"

text \<open>The three ways a request can end.\<close>

lemma send_none: "bigs env s idx p = [] \<Longrightarrow> send env s idx p = (faileds env s idx p, request env s idx p)"
  by (subst send.simps) (simp add: bigs_def faileds_def Let_def)

lemma send_one: "bigs env s idx p = [b] \<Longrightarrow> send env s idx p =
   (faileds env s idx p, (request env s idx p)\<lparr>po_out := (po_out (request env s idx p))
      (b := map_option Rejected (po_lastError (request env s idx p) b))\<rparr>)"
  by (subst send.simps) (simp add: bigs_def faileds_def Let_def)

lemma send_halved:
  assumes "2 \<le> length (bigs env s idx p)"
    "send env s (take (half_of env s idx p) (bigs env s idx p)) (request env s idx p) = (left1, p1)"
    "send env s (drop (half_of env s idx p) (bigs env s idx p)) p1 = (left2, p2)"
  shows "send env s idx p = (faileds env s idx p @ left1 @ left2, p2)"
  using assms by (subst send.simps) (auto simp: bigs_def faileds_def half_of_def Let_def)

lemma send_induct [case_names none one halved]:
  assumes none: "\<And>idx p. bigs env s idx p = [] \<Longrightarrow> P idx p (faileds env s idx p) (request env s idx p)"
    and one: "\<And>idx p b. bigs env s idx p = [b] \<Longrightarrow> P idx p (faileds env s idx p)
      ((request env s idx p)\<lparr>po_out := (po_out (request env s idx p))(b := map_option Rejected (po_lastError (request env s idx p) b))\<rparr>)"
    and halved: "\<And>idx p left1 p1 left2 p2. 2 \<le> length (bigs env s idx p) \<Longrightarrow>
      P (take (half_of env s idx p) (bigs env s idx p)) (request env s idx p) left1 p1 \<Longrightarrow>
      P (drop (half_of env s idx p) (bigs env s idx p)) p1 left2 p2 \<Longrightarrow>
      P idx p (faileds env s idx p @ left1 @ left2) p2"
  shows "P idx p (fst (send env s idx p)) (snd (send env s idx p))"
proof (induction "length idx" arbitrary: idx p rule: less_induct)
  case less
  consider "bigs env s idx p = []" | b where "bigs env s idx p = [b]" | "2 \<le> length (bigs env s idx p)"
    by (cases "bigs env s idx p" rule: remdups_adj.cases) auto
  then show ?case
  proof cases
    case 1
    then show ?thesis using none by (simp add: send_none)
  next
    case 2
    then show ?thesis using one by (simp add: send_one)
  next
    case 3
    let ?b = "bigs env s idx p" and ?h = "half_of env s idx p"
    have le: "length ?b \<le> length idx" by (simp add: bigs_def)
    have h: "0 < ?h" "?h < length ?b" using 3 by (auto simp: half_of_def)
    obtain left1 p1 where 1: "send env s (take ?h ?b) (request env s idx p) = (left1, p1)" by fastforce
    obtain left2 p2 where 2: "send env s (drop ?h ?b) p1 = (left2, p2)" by fastforce
    have "P (take ?h ?b) (request env s idx p) left1 p1" using less [of "take ?h ?b" "request env s idx p"] h le 1 by simp
    moreover have "P (drop ?h ?b) p1 left2 p2" using less [of "drop ?h ?b" p1] h le 2 by simp
    ultimately show ?thesis using halved [OF 3] send_halved [OF 3 1 2] by simp
  qed
qed

text \<open>The pending calls go to one endpoint, cut to its size; what it leaves comes back.\<close>

fun send_all :: "'v pool_env \<Rightarrow> nat \<Rightarrow> nat list list \<Rightarrow> 'v pool \<Rightarrow> nat list \<times> 'v pool" where
  "send_all env s [] p = ([], p)"
| "send_all env s (c # cs) p =
     (case send env s c p of (left1, p1) \<Rightarrow> (case send_all env s cs p1 of (left2, p2) \<Rightarrow> (left1 @ left2, p2)))"

text \<open>The bookkeeping of one request reaches only its slot and its calls.\<close>

lemma request_slots [simp]: "length (po_slots (request env s idx p)) = length (po_slots p)"
  by (simp add: request_def Let_def)

lemma send_slots: "length (po_slots (snd (send env s idx p))) = length (po_slots p)"
  by (rule send_induct [where P = "\<lambda>idx p l p'. length (po_slots p') = length (po_slots p)"]) simp_all

lemma send_all_slots: "length (po_slots (snd (send_all env s cs p))) = length (po_slots p)"
proof (induction cs arbitrary: p)
  case (Cons c cs)
  obtain l1 p1 where 1: "send env s c p = (l1, p1)" by fastforce
  obtain l2 p2 where 2: "send_all env s cs p1 = (l2, p2)" by fastforce
  from Cons [of p1] send_slots [of env s c p] show ?case by (simp add: 1 2)
qed simp

lemma find_mem: "find P xs = Some x \<Longrightarrow> x \<in> set xs"
  by (induction xs) (auto split: if_splits)

lemma pick_cases:
  "pick now slots tried = Some i \<Longrightarrow> i \<in> set (filter (\<lambda>i. i \<notin> set tried) [0..<length slots])"
  "pick now slots tried = None \<Longrightarrow> filter (\<lambda>i. i \<notin> set tried) [0..<length slots] = []"
proof -
  define opens where "opens = filter (\<lambda>i. i \<notin> set tried) [0..<length slots]"
  define sorted where "sorted = sort_key (\<lambda>i. sl_restUntil (slots ! i)) opens"
  have eq: "pick now slots tried =
      (case find (\<lambda>i. sl_restUntil (slots ! i) \<le> now) opens of Some i \<Rightarrow> Some i
       | None \<Rightarrow> (case sorted of [] \<Rightarrow> None | i # _ \<Rightarrow> Some i))"
    by (simp only: pick_def opens_def sorted_def Let_def)
  have mem: "set sorted = set opens" by (simp add: sorted_def)
  show "pick now slots tried = Some i \<Longrightarrow> i \<in> set (filter (\<lambda>i. i \<notin> set tried) [0..<length slots])"
    using mem unfolding eq opens_def [symmetric] by (auto split: option.splits list.splits dest: find_mem)
  show "pick now slots tried = None \<Longrightarrow> filter (\<lambda>i. i \<notin> set tried) [0..<length slots] = []"
    using mem unfolding eq opens_def [symmetric] by (auto split: option.splits list.splits)
qed

lemma pick_Some: "pick now slots tried = Some i \<Longrightarrow> i < length slots \<and> i \<notin> set tried"
  using pick_cases(1) by fastforce

lemma pick_None: "pick now slots tried = None \<Longrightarrow> {..<length slots} \<subseteq> set tried"
  using pick_cases(2) by (fastforce simp: filter_empty_conv)

function (sequential) chunk_loop :: "'v pool_env \<Rightarrow> nat list \<Rightarrow> nat list \<Rightarrow> 'v pool \<Rightarrow> nat list \<times> 'v pool" where
  "chunk_loop env tried pending p =
     (if pending = [] then ([], p)
      else case pick (pn_clock env (po_reads p)) (po_slots p) tried of
        None \<Rightarrow> (pending, p)
      | Some s \<Rightarrow>
          (case send_all env s (chunks_of (sl_chunk (po_slots p ! s)) pending) (p\<lparr>po_reads := Suc (po_reads p)\<rparr>) of
             (left, p') \<Rightarrow> chunk_loop env (tried @ [s]) left p'))"
  by pat_completeness auto
termination
proof (relation "measure (\<lambda>(env, tried, pending, p). card ({..<length (po_slots p)} - set tried))")
  fix env :: "'v pool_env" and tried pending :: "nat list" and p :: "'v pool" and s left p'
  assume "pick (pn_clock env (po_reads p)) (po_slots p) tried = Some s"
    and x: "(left, p') = send_all env s (chunks_of (sl_chunk (po_slots p ! s)) pending) (p\<lparr>po_reads := Suc (po_reads p)\<rparr>)"
  then have s: "s < length (po_slots p)" "s \<notin> set tried" by (simp_all add: pick_Some)
  have "length (po_slots p') = length (po_slots p)"
    using send_all_slots [of env s "chunks_of (sl_chunk (po_slots p ! s)) pending" "p\<lparr>po_reads := Suc (po_reads p)\<rparr>"]
    by (simp add: x [symmetric])
  moreover have "card ({..<length (po_slots p)} - set (tried @ [s])) < card ({..<length (po_slots p)} - set tried)"
    by (rule psubset_card_mono) (use s in auto)
  ultimately show "((env, tried @ [s], left, p'), env, tried, pending, p) \<in>
      measure (\<lambda>(env, tried, pending, p). card ({..<length (po_slots p)} - set tried))" by simp
qed simp

declare chunk_loop.simps [simp del]

definition NO_ANSWER :: insight_error where
  "NO_ANSWER = \<lparr>ie_endpoint = [], ie_message = ''no endpoint answered'', ie_cause = []\<rparr>"

definition pool_chunk :: "'v pool_env \<Rightarrow> nat list \<Rightarrow> 'v pool \<Rightarrow> 'v pool" where
  "pool_chunk env idx p =
     (case chunk_loop env [] idx (p\<lparr>po_lastError := (\<lambda>_. None)\<rparr>) of
        (pending, p') \<Rightarrow> p'\<lparr>po_out := (\<lambda>i. if i \<in> set pending then Some (Rejected (default_to NO_ANSWER (po_lastError p' i))) else po_out p' i)\<rparr>)"

text \<open>\<open>all(calls)\<close>: call numbers in chunks of the first endpoint's size, one after the other.\<close>

definition pool_all :: "'v pool_env \<Rightarrow> nat \<Rightarrow> 'v pool \<Rightarrow> 'v pool" where
  "pool_all env n p =
     fold (pool_chunk env) (chunks_of (sl_chunk (po_slots p ! 0)) [0..<n]) (p\<lparr>po_out := (\<lambda>_. None)\<rparr>)"

subsection \<open>Building the pool\<close>

definition strip_slashes :: "string \<Rightarrow> string" where
  "strip_slashes u = rev (dropWhile (\<lambda>c. c = CHR ''/'') (rev u))"

definition sameUrl :: "string \<Rightarrow> string" where
  "sameUrl u = map to_lower (strip_slashes u)"

definition createRpcPool :: "(string \<Rightarrow> string option) \<Rightarrow> string list \<Rightarrow> string list \<Rightarrow> 'v pool" where
  "createRpcPool host urls ingestUrls =
     \<lparr>po_slots = map (\<lambda>(i, url).
         \<lparr>sl_label = endpointLabel host i url, sl_url = url, sl_shared = sameUrl url \<in> set (map sameUrl ingestUrls),
          sl_chunk = (if ws_url url then 1 else CHUNK), sl_failures = 0, sl_restUntil = 0, sl_pacer = new_pacer INSIGHTS_RPC_PACE\<rparr>)
         (enumerate 0 urls),
      po_out = (\<lambda>_. None), po_lastError = (\<lambda>_. None), po_log = [], po_reads = 0\<rparr>"

definition checkPoolChain :: "(string \<Rightarrow> int option) \<Rightarrow> string list \<Rightarrow> int \<Rightarrow> string list" where
  "checkPoolChain probe urls chainId =
     filter (\<lambda>url. case probe url of Some got \<Rightarrow> got = chainId | None \<Rightarrow> True) urls"

subsection \<open>Every call gets exactly one answer\<close>

text \<open>From request \<open>k\<close> on: endpoint \<open>s\<close> was asked for call \<open>i\<close>, call \<open>i\<close> was answered \<open>v\<close>, or was too large.\<close>

definition asked :: "nat \<Rightarrow> (nat \<times> nat list) list \<Rightarrow> nat \<Rightarrow> nat \<Rightarrow> bool" where
  "asked k tr s i \<longleftrightarrow> (\<exists>r \<ge> k. r < length tr \<and> fst (tr ! r) = s \<and> i \<in> set (snd (tr ! r)))"

definition got :: "nat \<Rightarrow> 'v pool_env \<Rightarrow> (nat \<times> nat list) list \<Rightarrow> nat \<Rightarrow> 'v \<Rightarrow> bool" where
  "got k env tr i v \<longleftrightarrow> (\<exists>r \<ge> k. r < length tr \<and> i \<in> set (snd (tr ! r)) \<and> pn_answer env r (fst (tr ! r)) i = Inr v)"

definition too_big :: "nat \<Rightarrow> 'v pool_env \<Rightarrow> (nat \<times> nat list) list \<Rightarrow> nat \<Rightarrow> bool" where
  "too_big k env tr i \<longleftrightarrow> (\<exists>r \<ge> k. r < length tr \<and> i \<in> set (snd (tr ! r)) \<and> is_big env r (fst (tr ! r)) i)"

definition ext :: "'a list \<Rightarrow> 'a list \<Rightarrow> bool" where
  "ext tr tr' \<longleftrightarrow> (\<exists>new. tr' = tr @ new)"

lemma ext_refl [simp]: "ext tr tr" and ext_trans: "ext a b \<Longrightarrow> ext b c \<Longrightarrow> ext a c"
  by (auto simp: ext_def)

lemma ext_nth: "ext tr tr' \<Longrightarrow> r < length tr \<Longrightarrow> r < length tr' \<and> tr' ! r = tr ! r"
  by (auto simp: ext_def nth_append)

lemma ext_length: "ext tr tr' \<Longrightarrow> length tr \<le> length tr'"
  by (auto simp: ext_def)

lemma trace_ext:
  assumes "ext tr tr'"
  shows "asked k tr s i \<Longrightarrow> asked k tr' s i" "got k env tr i v \<Longrightarrow> got k env tr' i v" "too_big k env tr i \<Longrightarrow> too_big k env tr' i"
  using ext_nth [OF assms] unfolding asked_def got_def too_big_def by metis+

lemma trace_from:
  assumes "k \<le> k'"
  shows "asked k' tr s i \<Longrightarrow> asked k tr s i" "got k' env tr i v \<Longrightarrow> got k env tr i v" "too_big k' env tr i \<Longrightarrow> too_big k env tr i"
  unfolding asked_def got_def too_big_def by (metis assms order_trans)+

definition settled :: "nat \<Rightarrow> 'v pool_env \<Rightarrow> 'v pool \<Rightarrow> nat \<Rightarrow> bool" where
  "settled k env p i \<longleftrightarrow>
     (case po_out p i of None \<Rightarrow> False
      | Some (Fulfilled v) \<Rightarrow> got k env (po_log p) i v
      | Some (Rejected e) \<Rightarrow> too_big k env (po_log p) i)"

lemma settled_mono: "ext (po_log p) (po_log p') \<Longrightarrow> po_out p' i = po_out p i \<Longrightarrow> settled k env p i \<Longrightarrow> settled k env p' i"
  by (auto simp: settled_def intro: trace_ext split: option.splits outcome.splits)

lemma settled_from: "k \<le> k' \<Longrightarrow> settled k' env p i \<Longrightarrow> settled k env p i"
  using trace_from [of k k'] by (auto simp: settled_def split: option.splits outcome.splits)

definition send_ok :: "'v pool_env \<Rightarrow> nat \<Rightarrow> nat list \<Rightarrow> 'v pool \<Rightarrow> nat list \<Rightarrow> 'v pool \<Rightarrow> bool" where
  "send_ok env s idx p left p' \<longleftrightarrow>
     ext (po_log p) (po_log p') \<and> set left \<subseteq> set idx \<and> distinct left \<and>
     (\<forall>i. i \<notin> set idx \<or> i \<in> set left \<longrightarrow> po_out p' i = po_out p i) \<and>
     (\<forall>i \<in> set idx - set left. settled (length (po_log p)) env p' i) \<and>
     (\<forall>i \<in> set idx. asked (length (po_log p)) (po_log p') s i) \<and>
     (\<forall>r. length (po_log p) \<le> r \<and> r < length (po_log p') \<longrightarrow> fst (po_log p' ! r) = s \<and> length (snd (po_log p' ! r)) \<le> length idx) \<and>
     map sl_chunk (po_slots p') = map sl_chunk (po_slots p)"

lemma request_log: "po_log (request env s idx p) = po_log p @ [(s, idx)]"
  by (simp add: request_def Let_def)

lemma request_chunks: "map sl_chunk (po_slots (request env s idx p)) = map sl_chunk (po_slots p)"
proof -
  have "map sl_chunk (xs[s := x]) = map sl_chunk xs" if "sl_chunk x = sl_chunk (xs ! s)" for xs :: "slot list" and x
  proof (cases "s < length xs")
    case True
    then have "(map sl_chunk xs)[s := map sl_chunk xs ! s] = map sl_chunk xs" by (intro list_update_id)
    with True show ?thesis by (simp add: map_update that)
  qed (simp add: list_update_beyond)
  then show ?thesis by (simp add: request_def Let_def rest_slot_def)
qed

lemma request_out:
  "po_out (request env s idx p) i =
     (if i \<in> set idx then (case pn_answer env (length (po_log p)) s i of Inr v \<Rightarrow> Some (Fulfilled v) | Inl _ \<Rightarrow> po_out p i) else po_out p i)"
  by (simp add: request_def Let_def)

lemma request_error:
  "i \<in> set idx \<Longrightarrow> pn_answer env (length (po_log p)) s i = Inl e \<Longrightarrow> po_lastError (request env s idx p) i \<noteq> None"
  by (simp add: request_def Let_def)

text \<open>One answered call of a request is settled by it; the others are big or failed, never both.\<close>

lemma request_split:
  assumes "i \<in> set idx"
  shows "i \<in> set (bigs env s idx p) \<or> i \<in> set (faileds env s idx p) \<or>
      (\<exists>v. pn_answer env (length (po_log p)) s i = Inr v)"
    "i \<in> set (bigs env s idx p) \<Longrightarrow> i \<notin> set (faileds env s idx p)"
    "i \<in> set (bigs env s idx p) \<union> set (faileds env s idx p) \<Longrightarrow> po_out (request env s idx p) i = po_out p i"
  using assms
  by (auto simp: bigs_def faileds_def is_big_def is_failed_def call_error_def request_out split: option.splits sum.splits)

lemma request_settled:
  assumes "i \<in> set idx" "i \<notin> set (bigs env s idx p)" "i \<notin> set (faileds env s idx p)"
  shows "settled (length (po_log p)) env (request env s idx p) i"
proof -
  obtain v where v: "pn_answer env (length (po_log p)) s i = Inr v"
    using request_split(1) [OF assms(1)] assms(2,3) by blast
  have "got (length (po_log p)) env (po_log (request env s idx p)) i v"
    unfolding got_def request_log by (rule exI [of _ "length (po_log p)"]) (simp add: assms(1) v)
  then show ?thesis by (simp add: settled_def request_out assms(1) v)
qed

lemma request_asked: "i \<in> set idx \<Longrightarrow> asked (length (po_log p)) (po_log (request env s idx p)) s i"
  unfolding asked_def request_log by (rule exI [of _ "length (po_log p)"]) simp

lemma bigs_sub: "set (bigs env s idx p) \<subseteq> set idx" "set (faileds env s idx p) \<subseteq> set idx"
    "distinct idx \<Longrightarrow> distinct (bigs env s idx p)" "distinct idx \<Longrightarrow> distinct (faileds env s idx p)"
    "length (bigs env s idx p) \<le> length idx"
  by (auto simp: bigs_def faileds_def)

lemma request_ok:
  assumes "distinct idx" "bigs env s idx p = []"
  shows "send_ok env s idx p (faileds env s idx p) (request env s idx p)"
  unfolding send_ok_def
proof (intro conjI)
  show "\<forall>i. i \<notin> set idx \<or> i \<in> set (faileds env s idx p) \<longrightarrow> po_out (request env s idx p) i = po_out p i"
    using request_split(3) [of _ idx env s p] bigs_sub(2) [where env = env and s = s and idx = idx and p = p] by (auto simp: request_out)
qed (use assms bigs_sub [where env = env and s = s and idx = idx and p = p] request_settled [of _ idx env s p] request_asked [of _ idx p env s] in
      \<open>auto simp: ext_def request_log request_chunks nth_append less_Suc_eq\<close>)

lemma request_one_ok:
  assumes "distinct idx" "bigs env s idx p = [b]"
  shows "send_ok env s idx p (faileds env s idx p)
     ((request env s idx p)\<lparr>po_out := (po_out (request env s idx p))(b := map_option Rejected (po_lastError (request env s idx p) b))\<rparr>)"
    (is "send_ok _ _ _ _ _ ?p")
proof -
  let ?q = "request env s idx p"
  have mem: "b \<in> set (bigs env s idx p)" by (simp add: assms(2))
  then have b: "b \<in> set idx" "is_big env (length (po_log p)) s b" by (auto simp: bigs_def)
  have nf: "b \<notin> set (faileds env s idx p)" using request_split(2) [OF b(1) mem] .
  from b(2) obtain e where "pn_answer env (length (po_log p)) s b = Inl e"
    by (auto simp: is_big_def call_error_def split: option.splits sum.splits)
  then obtain e' where e': "po_lastError ?q b = Some e'" using request_error [OF b(1)] by blast
  have "too_big (length (po_log p)) env (po_log ?q) b"
    unfolding too_big_def request_log by (rule exI [of _ "length (po_log p)"]) (simp add: b)
  then have sb: "settled (length (po_log p)) env ?p b" by (simp add: settled_def e')
  have settled: "settled (length (po_log p)) env ?p i" if "i \<in> set idx - set (faileds env s idx p)" for i
  proof (cases "i = b")
    case False
    then have "settled (length (po_log p)) env ?q i" using that assms(2) by (intro request_settled) auto
    then show ?thesis by (rule settled_mono [rotated 2]) (use False in simp_all)
  qed (use sb in simp)
  have out: "po_out ?p i = po_out p i" if "i \<notin> set idx \<or> i \<in> set (faileds env s idx p)" for i
    using that b(1) nf request_split(3) [of i idx env s p] bigs_sub(2) [where env = env and s = s and idx = idx and p = p] by (auto simp: request_out)
  show ?thesis
    unfolding send_ok_def
    using assms(1) bigs_sub [where env = env and s = s and idx = idx and p = p] settled out request_asked [of _ idx p env s]
    by (auto simp: ext_def request_log request_chunks nth_append less_Suc_eq)
qed

lemma send_okE:
  assumes "send_ok env s idx p left p'"
  shows "ext (po_log p) (po_log p')" "set left \<subseteq> set idx" "distinct left"
    "\<And>i. i \<notin> set idx \<or> i \<in> set left \<Longrightarrow> po_out p' i = po_out p i"
    "\<And>i. i \<in> set idx - set left \<Longrightarrow> settled (length (po_log p)) env p' i"
    "\<And>i. i \<in> set idx \<Longrightarrow> asked (length (po_log p)) (po_log p') s i"
    "\<And>r. length (po_log p) \<le> r \<Longrightarrow> r < length (po_log p') \<Longrightarrow> fst (po_log p' ! r) = s \<and> length (snd (po_log p' ! r)) \<le> length idx"
    "map sl_chunk (po_slots p') = map sl_chunk (po_slots p)"
  using assms unfolding send_ok_def by blast+

lemma halved_ok:
  assumes idx: "distinct idx" and parts: "bigs env s idx p = B1 @ B2"
    and 1: "send_ok env s B1 (request env s idx p) left1 p1" and 2: "send_ok env s B2 p1 left2 p2"
  shows "send_ok env s idx p (faileds env s idx p @ left1 @ left2) p2"
proof -
  let ?q = "request env s idx p" and ?F = "faileds env s idx p" and ?k = "length (po_log p)"
  note s1 = send_okE [OF 1] and s2 = send_okE [OF 2]
  have B: "set B1 \<union> set B2 \<subseteq> set idx" "set B1 \<inter> set B2 = {}" "distinct B1" "distinct B2" "length B1 \<le> length idx" "length B2 \<le> length idx"
    using bigs_sub(1) [of env s idx p] bigs_sub(3) [OF idx, of env s p] bigs_sub(5) [of env s idx p] by (auto simp: parts)
  have FB: "set ?F \<inter> (set B1 \<union> set B2) = {}" "set ?F \<subseteq> set idx" "distinct ?F"
    using request_split(2) [of _ idx env s p] bigs_sub(2) [of env s idx p] bigs_sub(4) [OF idx, of env s p] B(1) by (auto simp: parts)
  have e: "ext (po_log p) (po_log ?q)" "ext (po_log ?q) (po_log p1)" "ext (po_log p1) (po_log p2)"
    using s1(1) s2(1) by (auto simp: ext_def request_log)
  have len: "?k \<le> length (po_log ?q)" "?k \<le> length (po_log p1)" using e ext_length order_trans by blast+
  have qout: "po_out ?q i = po_out p i" if "i \<notin> set idx \<or> i \<in> set ?F \<or> i \<in> set B1 \<or> i \<in> set B2" for i
    using that request_split(3) [of i idx env s p] by (cases "i \<in> set idx") (auto simp: request_out parts)
  have out: "po_out p2 i = po_out p i" if "i \<notin> set idx \<or> i \<in> set (?F @ left1 @ left2)" for i
  proof -
    have "i \<notin> set B1 \<or> i \<in> set left1" "i \<notin> set B2 \<or> i \<in> set left2" "i \<notin> set idx \<or> i \<in> set ?F \<or> i \<in> set B1 \<or> i \<in> set B2"
      using that FB(1) B(1,2) s1(2) s2(2) by auto
    then show ?thesis using s1(4) s2(4) qout by simp
  qed
  have settled: "settled ?k env p2 i" if i: "i \<in> set idx - set (?F @ left1 @ left2)" for i
  proof -
    consider "i \<in> set B1" | "i \<in> set B2" | "i \<notin> set B1" "i \<notin> set B2" by blast
    then show ?thesis
    proof cases
      case 1
      then have "settled ?k env p1 i" using s1(5) i by (intro settled_from [OF len(1)]) simp
      moreover have "po_out p2 i = po_out p1 i" using 1 B(2) by (intro s2(4)) blast
      ultimately show ?thesis by (intro settled_mono [OF e(3)])
    next
      case 2
      then show ?thesis using s2(5) i by (intro settled_from [OF len(2)]) simp
    next
      case 3
      then have "settled ?k env ?q i" using i by (intro request_settled) (auto simp: parts)
      then have "settled ?k env p1 i" by (rule settled_mono [OF e(2) s1(4), rotated]) (use 3 in simp)
      then show ?thesis by (rule settled_mono [OF e(3) s2(4), rotated]) (use 3 in simp)
    qed
  qed
  have asked: "asked ?k (po_log p2) s i" if "i \<in> set idx" for i
    using request_asked [OF that] e by (meson trace_ext(1) ext_trans)
  have small: "fst (po_log p2 ! r) = s \<and> length (snd (po_log p2 ! r)) \<le> length idx" if r: "?k \<le> r" "r < length (po_log p2)" for r
  proof -
    consider "r = ?k" | "length (po_log ?q) \<le> r" "r < length (po_log p1)" | "length (po_log p1) \<le> r"
      using r(1) by (force simp: request_log)
    then show ?thesis
    proof cases
      case 1
      have "po_log p2 ! ?k = po_log ?q ! ?k" using ext_nth [OF ext_trans [OF e(2,3)], of ?k] by (simp add: request_log)
      with 1 show ?thesis by (simp add: request_log)
    next
      case 2
      then show ?thesis using s1(7) [of r] B(5) ext_nth [OF e(3), of r] by auto
    next
      case 3
      then show ?thesis using s2(7) [of r] r B(6) by auto
    qed
  qed
  show ?thesis
    unfolding send_ok_def
  proof (intro conjI)
    show "ext (po_log p) (po_log p2)" using e ext_trans by blast
    show "set (?F @ left1 @ left2) \<subseteq> set idx" using FB(2) s1(2) s2(2) B(1) by auto
    show "distinct (?F @ left1 @ left2)" using FB s1(2,3) s2(2,3) B(2) by auto
    show "map sl_chunk (po_slots p2) = map sl_chunk (po_slots p)" using s1(8) s2(8) request_chunks [of env s idx p] by simp
  qed (use out settled asked small in blast)+
qed

lemma send_spec:
  assumes "distinct idx"
  shows "send_ok env s idx p (fst (send env s idx p)) (snd (send env s idx p))"
proof -
  have "distinct idx \<longrightarrow> send_ok env s idx p (fst (send env s idx p)) (snd (send env s idx p))"
  proof (rule send_induct [where P = "\<lambda>idx p left p'. distinct idx \<longrightarrow> send_ok env s idx p left p'"])
    fix idx and p :: "'a pool" and left1 p1 left2 p2
    let ?B = "bigs env s idx p" and ?h = "half_of env s idx p"
    assume 1: "distinct (take ?h ?B) \<longrightarrow> send_ok env s (take ?h ?B) (request env s idx p) left1 p1"
      and 2: "distinct (drop ?h ?B) \<longrightarrow> send_ok env s (drop ?h ?B) p1 left2 p2"
    show "distinct idx \<longrightarrow> send_ok env s idx p (faileds env s idx p @ left1 @ left2) p2"
    proof
      assume d: "distinct idx"
      then have "distinct ?B" by (rule bigs_sub(3))
      then show "send_ok env s idx p (faileds env s idx p @ left1 @ left2) p2"
        using 1 2 by (intro halved_ok [OF d, where ?B1.0 = "take ?h ?B" and ?B2.0 = "drop ?h ?B"]) simp_all
    qed
  qed (use request_ok request_one_ok in blast)+
  with assms show ?thesis by blast
qed

subsection \<open>A chunk goes through the endpoints\<close>

text \<open>What one endpoint does with its share: like \<open>send_ok\<close>, over several requests of at most \<open>m\<close> calls.\<close>

definition served :: "'v pool_env \<Rightarrow> nat \<Rightarrow> nat \<Rightarrow> nat list \<Rightarrow> 'v pool \<Rightarrow> nat list \<Rightarrow> 'v pool \<Rightarrow> bool" where
  "served env s m idx p left p' \<longleftrightarrow>
     ext (po_log p) (po_log p') \<and> set left \<subseteq> set idx \<and> distinct left \<and>
     (\<forall>i. i \<notin> set idx \<or> i \<in> set left \<longrightarrow> po_out p' i = po_out p i) \<and>
     (\<forall>i \<in> set idx - set left. settled (length (po_log p)) env p' i) \<and>
     (\<forall>i \<in> set idx. asked (length (po_log p)) (po_log p') s i) \<and>
     (\<forall>r. length (po_log p) \<le> r \<and> r < length (po_log p') \<longrightarrow> fst (po_log p' ! r) = s \<and> length (snd (po_log p' ! r)) \<le> m) \<and>
     map sl_chunk (po_slots p') = map sl_chunk (po_slots p)"

lemma servedE:
  assumes "served env s m idx p left p'"
  shows "ext (po_log p) (po_log p')" "set left \<subseteq> set idx" "distinct left"
    "\<And>i. i \<notin> set idx \<or> i \<in> set left \<Longrightarrow> po_out p' i = po_out p i"
    "\<And>i. i \<in> set idx - set left \<Longrightarrow> settled (length (po_log p)) env p' i"
    "\<And>i. i \<in> set idx \<Longrightarrow> asked (length (po_log p)) (po_log p') s i"
    "\<And>r. length (po_log p) \<le> r \<Longrightarrow> r < length (po_log p') \<Longrightarrow> fst (po_log p' ! r) = s \<and> length (snd (po_log p' ! r)) \<le> m"
    "map sl_chunk (po_slots p') = map sl_chunk (po_slots p)"
  using assms unfolding served_def by blast+

lemma served_Nil: "served env s m [] p [] p"
  by (simp add: served_def)

lemma send_served:
  assumes "distinct idx" "length idx \<le> m" "send env s idx p = (left, p')"
  shows "served env s m idx p left p'"
proof -
  have ok: "send_ok env s idx p left p'" using send_spec [OF assms(1), of env s p] by (simp add: assms(3))
  note e = send_okE [OF ok]
  have "fst (po_log p' ! r) = s \<and> length (snd (po_log p' ! r)) \<le> m" if "length (po_log p) \<le> r" "r < length (po_log p')" for r
    using e(7) [OF that] assms(2) by simp
  with e show ?thesis unfolding served_def by blast
qed

lemma served_append:
  assumes 1: "served env s m a p left1 p1" and 2: "served env s m b p1 left2 p2" and disj: "set a \<inter> set b = {}"
  shows "served env s m (a @ b) p (left1 @ left2) p2"
proof -
  let ?k = "length (po_log p)"
  note s1 = servedE [OF 1] and s2 = servedE [OF 2]
  have len: "?k \<le> length (po_log p1)" by (rule ext_length [OF s1(1)])
  have out: "po_out p2 i = po_out p i" if "i \<notin> set (a @ b) \<or> i \<in> set (left1 @ left2)" for i
  proof -
    have "i \<notin> set a \<or> i \<in> set left1" "i \<notin> set b \<or> i \<in> set left2" using that disj s1(2) s2(2) by auto
    then show ?thesis using s1(4) s2(4) by simp
  qed
  have settled: "settled ?k env p2 i" if i: "i \<in> set (a @ b) - set (left1 @ left2)" for i
  proof (cases "i \<in> set b")
    case True
    then show ?thesis using s2(5) i by (intro settled_from [OF len]) simp
  next
    case False
    then have "settled ?k env p1 i" using s1(5) i by simp
    then show ?thesis by (rule settled_mono [OF s2(1) s2(4), rotated]) (use False in simp)
  qed
  have asked: "asked ?k (po_log p2) s i" if "i \<in> set (a @ b)" for i
  proof (cases "i \<in> set b")
    case True
    then show ?thesis by (intro trace_from(1) [OF len] s2(6))
  next
    case False
    then have "asked ?k (po_log p1) s i" using that by (intro s1(6)) simp
    then show ?thesis by (rule trace_ext(1) [OF s2(1)])
  qed
  have small: "fst (po_log p2 ! r) = s \<and> length (snd (po_log p2 ! r)) \<le> m" if r: "?k \<le> r" "r < length (po_log p2)" for r
  proof (cases "r < length (po_log p1)")
    case True
    then show ?thesis using s1(7) [OF r(1)] ext_nth [OF s2(1) True] by simp
  next
    case False
    then show ?thesis using s2(7) [of r] r by simp
  qed
  show ?thesis
    unfolding served_def
  proof (intro conjI)
    show "ext (po_log p) (po_log p2)" by (rule ext_trans [OF s1(1) s2(1)])
    show "set (left1 @ left2) \<subseteq> set (a @ b)" using s1(2) s2(2) by auto
    show "distinct (left1 @ left2)" using s1(2,3) s2(2,3) disj by auto
    show "map sl_chunk (po_slots p2) = map sl_chunk (po_slots p)" using s1(8) s2(8) by simp
  qed (use out settled asked small in blast)+
qed

lemma send_all_served:
  "distinct (concat cs) \<Longrightarrow> (\<And>c. c \<in> set cs \<Longrightarrow> length c \<le> m) \<Longrightarrow> send_all env s cs p = (left, p') \<Longrightarrow>
   served env s m (concat cs) p left p'"
proof (induction cs arbitrary: p left p')
  case (Cons c cs)
  obtain l1 p1 where 1: "send env s c p = (l1, p1)" by fastforce
  obtain l2 p2 where 2: "send_all env s cs p1 = (l2, p2)" by fastforce
  have "served env s m c p l1 p1" using Cons.prems by (intro send_served [OF _ _ 1]) auto
  moreover have "served env s m (concat cs) p1 l2 p2" using Cons.prems by (intro Cons.IH [OF _ _ 2]) auto
  ultimately have "served env s m (c @ concat cs) p (l1 @ l2) p2" using Cons.prems(1) by (intro served_append) auto
  moreover have "left = l1 @ l2" "p' = p2" using Cons.prems(3) by (simp_all add: 1 2)
  ultimately show ?case by simp
qed (simp add: served_Nil)

text \<open>The loop over the endpoints: whatever is pending at the end, every endpoint was asked for it.\<close>

definition requests_fit :: "nat \<Rightarrow> nat list \<Rightarrow> (nat \<times> nat list) list \<Rightarrow> bool" where
  "requests_fit k sizes tr \<longleftrightarrow> (\<forall>r \<ge> k. r < length tr \<longrightarrow> fst (tr ! r) < length sizes \<and> length (snd (tr ! r)) \<le> sizes ! fst (tr ! r))"

lemma chunk_loop_spec:
  assumes "distinct pending" "\<forall>c \<in> set sizes. 0 < c" "map sl_chunk (po_slots p) = sizes" "k \<le> length (po_log p)"
    "\<And>s i. s \<in> set tried \<Longrightarrow> i \<in> set pending \<Longrightarrow> asked k (po_log p) s i" "requests_fit k sizes (po_log p)"
    "chunk_loop env tried pending p = (left, p')"
  shows "ext (po_log p) (po_log p') \<and> set left \<subseteq> set pending \<and>
     (\<forall>i. i \<notin> set pending \<or> i \<in> set left \<longrightarrow> po_out p' i = po_out p i) \<and>
     (\<forall>i \<in> set pending - set left. settled k env p' i) \<and>
     (\<forall>i \<in> set left. \<forall>s < length sizes. asked k (po_log p') s i) \<and>
     requests_fit k sizes (po_log p') \<and> map sl_chunk (po_slots p') = sizes"
  using assms
proof (induction env tried pending p arbitrary: left p' rule: chunk_loop.induct)
  case (1 env tried pending p)
  note prems = "1.prems"
  show ?case
  proof (cases "pending = []")
    case True
    then show ?thesis using prems(3,6,7) by (simp add: chunk_loop.simps)
  next
    case nonempty: False
    show ?thesis
    proof (cases "pick (pn_clock env (po_reads p)) (po_slots p) tried")
      case None
      then have "left = pending" "p' = p" using prems(7) nonempty by (simp_all add: chunk_loop.simps)
      moreover have "length (po_slots p) = length sizes" using arg_cong [OF prems(3), of length] by simp
      ultimately show ?thesis using pick_None [OF None] prems(3,5,6) by (simp add: subset_eq)
    next
      case (Some s)
      let ?p = "p\<lparr>po_reads := Suc (po_reads p)\<rparr>" and ?n = "sl_chunk (po_slots p ! s)"
      obtain l1 p1 where run: "send_all env s (chunks_of ?n pending) ?p = (l1, p1)" by fastforce
      have s: "s < length (po_slots p)" using pick_Some [OF Some] by simp
      have sz: "sizes ! s = ?n" "s < length sizes" using s by (simp_all add: prems(3) [symmetric])
      then have n: "0 < ?n" using prems(2) by (metis nth_mem)
      have sv: "served env s ?n pending ?p l1 p1"
        using send_all_served [OF _ chunks_of_length run] prems(1) by (simp add: concat_chunks_of [OF n])
      note v = servedE [OF sv, simplified]
      have loop: "chunk_loop env (tried @ [s]) l1 p1 = (left, p')"
        using prems(7) nonempty by (subst (asm) chunk_loop.simps) (simp add: Some run)
      have k1: "k \<le> length (po_log p1)" using prems(4) ext_length [OF v(1)] by simp
      have as1: "asked k (po_log p1) s' i" if "s' \<in> set (tried @ [s])" "i \<in> set l1" for s' i
      proof (cases "s' = s")
        case True
        then show ?thesis using v(2,6) that(2) by (auto intro: trace_from(1) [OF prems(4)])
      next
        case False
        then show ?thesis using that v(2) prems(5) by (intro trace_ext(1) [OF v(1)]) auto
      qed
      have fit1: "requests_fit k sizes (po_log p1)"
        unfolding requests_fit_def
      proof (intro allI impI)
        fix r assume r: "k \<le> r" "r < length (po_log p1)"
        show "fst (po_log p1 ! r) < length sizes \<and> length (snd (po_log p1 ! r)) \<le> sizes ! fst (po_log p1 ! r)"
        proof (cases "r < length (po_log p)")
          case True
          then show ?thesis using prems(6) r(1) ext_nth [OF v(1) True] by (simp add: requests_fit_def)
        next
          case False
          then show ?thesis using v(7) [of r] r(2) sz by simp
        qed
      qed
      have ch1: "map sl_chunk (po_slots p1) = sizes" using v(8) prems(3) by simp
      have IH: "ext (po_log p1) (po_log p') \<and> set left \<subseteq> set l1 \<and>
         (\<forall>i. i \<notin> set l1 \<or> i \<in> set left \<longrightarrow> po_out p' i = po_out p1 i) \<and>
         (\<forall>i \<in> set l1 - set left. settled k env p' i) \<and>
         (\<forall>i \<in> set left. \<forall>s < length sizes. asked k (po_log p') s i) \<and>
         requests_fit k sizes (po_log p') \<and> map sl_chunk (po_slots p') = sizes"
        by (rule "1.IH" [OF nonempty Some run [symmetric]]) (use v(3) prems(2) ch1 k1 as1 fit1 loop in auto)
      have "settled k env p' i" if i: "i \<in> set pending - set left" for i
      proof (cases "i \<in> set l1")
        case True
        then show ?thesis using IH i by blast
      next
        case False
        then have "settled k env p1 i" using v(5) i by (intro settled_from [OF prems(4)]) simp
        moreover have "po_out p' i = po_out p1 i" using IH False by blast
        ultimately show ?thesis using IH settled_mono by blast
      qed
      moreover have "po_out p' i = po_out p i" if "i \<notin> set pending \<or> i \<in> set left" for i
        using that IH v(2,4) by (metis subsetD)
      moreover have "ext (po_log p) (po_log p')" using IH v(1) ext_trans by blast
      ultimately show ?thesis using IH v(2) by blast
    qed
  qed
qed

text \<open>A call's answer in the end: a value an endpoint gave for it, or a rejection after every endpoint
  was asked for it or after it alone was too large.\<close>

definition answered :: "nat \<Rightarrow> 'v pool_env \<Rightarrow> nat \<Rightarrow> 'v pool \<Rightarrow> nat \<Rightarrow> bool" where
  "answered k env n p i \<longleftrightarrow>
     (case po_out p i of
        None \<Rightarrow> False
      | Some (Fulfilled v) \<Rightarrow> got k env (po_log p) i v
      | Some (Rejected e) \<Rightarrow> too_big k env (po_log p) i \<or> (\<forall>s < n. asked k (po_log p) s i))"

lemma settled_answered: "settled k env p i \<Longrightarrow> answered k env n p i"
  by (auto simp: settled_def answered_def split: option.splits outcome.splits)

lemma answered_mono: "ext (po_log p) (po_log p') \<Longrightarrow> po_out p' i = po_out p i \<Longrightarrow> answered k env n p i \<Longrightarrow> answered k env n p' i"
  by (auto simp: answered_def intro: trace_ext split: option.splits outcome.splits)

lemma pool_chunk_spec:
  assumes "distinct idx" "\<forall>c \<in> set sizes. 0 < c" "map sl_chunk (po_slots p) = sizes" "k \<le> length (po_log p)"
    "requests_fit k sizes (po_log p)" "p' = pool_chunk env idx p"
  shows "ext (po_log p) (po_log p') \<and> (\<forall>i \<in> set idx. answered k env (length sizes) p' i) \<and>
     (\<forall>i. i \<notin> set idx \<longrightarrow> po_out p' i = po_out p i) \<and> requests_fit k sizes (po_log p') \<and> map sl_chunk (po_slots p') = sizes"
proof -
  let ?p = "p\<lparr>po_lastError := (\<lambda>_. None)\<rparr>"
  obtain left q where run: "chunk_loop env [] idx ?p = (left, q)" by fastforce
  have spec: "ext (po_log p) (po_log q) \<and> set left \<subseteq> set idx \<and>
     (\<forall>i. i \<notin> set idx \<or> i \<in> set left \<longrightarrow> po_out q i = po_out p i) \<and>
     (\<forall>i \<in> set idx - set left. settled k env q i) \<and>
     (\<forall>i \<in> set left. \<forall>s < length sizes. asked k (po_log q) s i) \<and>
     requests_fit k sizes (po_log q) \<and> map sl_chunk (po_slots q) = sizes"
    using chunk_loop_spec [OF assms(1,2) _ _ _ _ run] assms(3-5) by simp
  have p': "p' = q\<lparr>po_out := (\<lambda>i. if i \<in> set left then Some (Rejected (default_to NO_ANSWER (po_lastError q i))) else po_out q i)\<rparr>"
    by (simp add: assms(6) pool_chunk_def run)
  have "answered k env (length sizes) p' i" if i: "i \<in> set idx" for i
  proof (cases "i \<in> set left")
    case True
    then show ?thesis using spec by (simp add: answered_def p')
  next
    case False
    then have "answered k env (length sizes) q i" using spec i by (intro settled_answered) blast
    then show ?thesis by (rule answered_mono [rotated 2]) (use False in \<open>simp_all add: p'\<close>)
  qed
  moreover have "po_out p' i = po_out p i" if "i \<notin> set idx" for i
  proof -
    have "i \<notin> set left" using spec that by blast
    then show ?thesis using spec that by (simp add: p')
  qed
  ultimately show ?thesis using spec by (simp add: p')
qed

lemma pool_chunks_spec:
  assumes "\<forall>c \<in> set sizes. 0 < c"
  shows "distinct (concat cs) \<Longrightarrow> map sl_chunk (po_slots p) = sizes \<Longrightarrow> k \<le> length (po_log p) \<Longrightarrow> requests_fit k sizes (po_log p) \<Longrightarrow>
     p' = fold (pool_chunk env) cs p \<Longrightarrow>
     ext (po_log p) (po_log p') \<and> (\<forall>i \<in> set (concat cs). answered k env (length sizes) p' i) \<and>
     (\<forall>i. i \<notin> set (concat cs) \<longrightarrow> po_out p' i = po_out p i) \<and> requests_fit k sizes (po_log p')"
proof (induction cs arbitrary: p)
  case (Cons c cs)
  let ?q = "pool_chunk env c p"
  have 1: "ext (po_log p) (po_log ?q) \<and> (\<forall>i \<in> set c. answered k env (length sizes) ?q i) \<and>
     (\<forall>i. i \<notin> set c \<longrightarrow> po_out ?q i = po_out p i) \<and> requests_fit k sizes (po_log ?q) \<and> map sl_chunk (po_slots ?q) = sizes"
    using pool_chunk_spec [OF _ assms Cons.prems(2-4) refl] Cons.prems(1) by simp
  have 2: "ext (po_log ?q) (po_log p') \<and> (\<forall>i \<in> set (concat cs). answered k env (length sizes) p' i) \<and>
     (\<forall>i. i \<notin> set (concat cs) \<longrightarrow> po_out p' i = po_out ?q i) \<and> requests_fit k sizes (po_log p')"
    using 1 Cons.prems ext_length [of "po_log p" "po_log ?q"] by (intro Cons.IH) auto
  have "answered k env (length sizes) p' i" if "i \<in> set c" for i
  proof -
    have "i \<notin> set (concat cs)" using Cons.prems(1) that by auto
    then show ?thesis using 1 2 that answered_mono by blast
  qed
  then show ?case using 1 2 ext_trans by (simp add: ball_Un) blast
qed simp


definition sample_pool_env :: "int pool_env" where
  "sample_pool_env = \<lparr>pn_answer = (\<lambda>r s i.
       if s = 0 then Inl [\<lparr>en_kind = TimeoutError, en_viem = True, en_message = ''t'', en_short = None\<rparr>] else Inr (int i)),
     pn_clock = rat_of_nat\<rparr>"

definition sample_pool :: "int pool" where
  "sample_pool = createRpcPool (\<lambda>_. None) [''http://a'', ''wss://b''] [''http://a/'']"


subsection \<open>Accepted replies, resting endpoints, and the pace\<close>

lemma count_ids: "count (mset xs) i = length (filter (\<lambda>h. h = i) xs)"
  by (induction xs) auto

lemma same_ids_mset:
  assumes "distinct want"
  shows "same_ids want ids \<longleftrightarrow> mset ids = mset want"
proof
  assume h: "same_ids want ids"
  have "mset want \<subseteq># mset ids"
  proof (rule mset_subset_eqI)
    fix i
    show "count (mset want) i \<le> count (mset ids) i"
    proof (cases "i \<in> set want")
      case True
      then have "length (filter (\<lambda>h. h = i) ids) = 1" using h by (simp add: same_ids_def list_all_iff)
      then have "count (mset ids) i = 1" by (simp only: count_ids)
      moreover have "count (mset want) i \<le> 1" using assms by (simp add: distinct_count_atmost_1)
      ultimately show ?thesis by simp
    next
      case False
      then have "count (mset want) i = 0" by (simp only: count_mset_0_iff not_False_eq_True)
      then show ?thesis by (metis le0)
    qed
  qed
  moreover have "size (mset ids) = size (mset want)" using h by (simp add: same_ids_def)
  ultimately show "mset ids = mset want" by (metis mset_subset_size order_less_irrefl subset_mset.le_neq_trans)
next
  assume m: "mset ids = mset want"
  have "length (filter (\<lambda>h. h = i) ids) = 1" if "i \<in> set want" for i
  proof -
    have "length (filter (\<lambda>h. h = i) ids) = count (mset want) i" by (simp only: count_ids [symmetric] m)
    also have "\<dots> = 1" using assms that by (simp add: distinct_count_atmost_1)
    finally show ?thesis .
  qed
  then show "same_ids want ids" using mset_eq_length [OF m] by (simp add: same_ids_def list_all_iff)
qed

text \<open>
  C11: A reply reaches viem only if it is a success of acceptable size, is shaped like the request and
  carries exactly one answer per request id, in whatever order: no answer is lost, invented or
  doubled, so none can land on the wrong call unnoticed.
\<close>

theorem checkedFetch_accepts:
  assumes "distinct (request_ids sent)"
  shows "checkedFetch sent res = Inr body \<longleftrightarrow>
     hr_ok res \<and> hr_size res \<le> MAX_BODY_BYTES \<and> body = hr_body res \<and> body \<noteq> NotJson \<and>
     is_batch sent = is_array body \<and> mset (body_ids body) = mset (request_ids sent)"
  using same_ids_mset [OF assms] by (auto simp: checkedFetch_def)

theorem checkedFetch_accepts_witness:
  "checkedFetch (Batched [Some ''1'', Some ''2'']) \<lparr>hr_ok = True, hr_status = 200, hr_size = 10, hr_body = Array [Some ''2'', Some ''1'']\<rparr> =
     Inr (Array [Some ''2'', Some ''1''])"
proof -
  have "distinct (request_ids (Batched [Some ''1'', Some ''2'']))" by (simp add: request_ids_def)
  then show ?thesis
    by (subst checkedFetch_accepts) (simp_all add: MAX_BODY_BYTES_def is_batch_def is_array_def body_ids_def request_ids_def)
qed

interpretation endpoint_rest: doubling_backoff "\<lambda>n. rest_ms (Suc n)" REST_START_MS REST_MAX_MS
  by (rule doubling_backoff_closed) (simp_all add: rest_ms_def REST_START_MS_def REST_MAX_MS_def)

datatype pacer_event = Start rat | Done | BackOff rat

fun pacer_step :: "pacer_event \<Rightarrow> pacer \<Rightarrow> pacer" where
  "pacer_step (Start t) p = pacer_start t p"
| "pacer_step Done p = pacer_done p"
| "pacer_step (BackOff t) p = pacer_backOff t p"

text \<open>Events in the order of the clock; a call starts once the pacer's wait is over.\<close>

fun in_order :: "rat \<Rightarrow> pacer_event list \<Rightarrow> pacer \<Rightarrow> bool" where
  "in_order now [] p = True"
| "in_order now (e # es) p =
     (case e of
        Start t \<Rightarrow> now + pacer_wait now p \<le> t \<and> in_order t es (pacer_step e p)
      | Done \<Rightarrow> in_order now es (pacer_step e p)
      | BackOff t \<Rightarrow> now \<le> t \<and> in_order t es (pacer_step e p))"

fun starts :: "pacer_event list \<Rightarrow> rat list" where
  "starts [] = []"
| "starts (Start t # es) = t # starts es"
| "starts (_ # es) = starts es"

definition pacer_ok :: "pacer \<Rightarrow> bool" where
  "pacer_ok p \<longleftrightarrow> 0 < minMs (pc_limits p) \<and> minMs (pc_limits p) \<le> pc_interval p \<and> pc_interval p \<le> maxMs (pc_limits p)"

lemma pacer_step_limits [simp]: "pc_limits (pacer_step e p) = pc_limits p"
  by (cases e) (simp_all add: pacer_start_def pacer_done_def pacer_backOff_def Let_def)

lemma pacer_step_ok: "pacer_ok p \<Longrightarrow> pacer_ok (pacer_step e p)"
proof (cases e)
  case Done
  assume ok: "pacer_ok p"
  then have "pc_interval p * RELAX \<le> pc_interval p" by (simp add: pacer_ok_def RELAX_def)
  moreover have "pc_interval p \<le> maxMs (pc_limits p)" "minMs (pc_limits p) \<le> maxMs (pc_limits p)" using ok by (simp_all add: pacer_ok_def)
  ultimately have "pc_interval p * RELAX \<le> maxMs (pc_limits p)" by (meson order_trans)
  with ok Done show ?thesis by (simp add: pacer_ok_def pacer_done_def)
qed (auto simp: pacer_ok_def pacer_start_def pacer_backOff_def Let_def)

lemma pacer_run_paced:
  "pacer_ok p \<Longrightarrow> in_order now es p \<Longrightarrow>
   sorted_wrt (\<lambda>a b. a + minMs (pc_limits p) \<le> b) (starts es) \<and>
   (\<forall>t \<in> set (starts es). now \<le> t) \<and> (\<forall>t0. t0 \<le> now \<and> t0 + minMs (pc_limits p) \<le> max now (pc_next p) \<longrightarrow> (\<forall>t \<in> set (starts es). t0 + minMs (pc_limits p) \<le> t))"
proof (induction es arbitrary: now p)
  case (Cons e es)
  let ?m = "minMs (pc_limits p)"
  have m: "0 < ?m" "?m \<le> pc_interval p" using Cons.prems(1) by (simp_all add: pacer_ok_def)
  note ok = pacer_step_ok [OF Cons.prems(1), of e]
  show ?case
  proof (cases e)
    case (Start t)
    have t: "max now (pc_next p) \<le> t" and rest: "in_order t es (pacer_step e p)"
      using Cons.prems(2) by (auto simp: Start pacer_wait_def split: if_splits)
    note IH = Cons.IH [OF ok rest, unfolded pacer_step_limits]
    have "t + ?m \<le> max t (pc_next (pacer_step e p))" using m(2) by (simp add: Start pacer_start_def)
    then have after: "\<forall>s \<in> set (starts es). t + ?m \<le> s" using IH by blast
    have "now \<le> t" using t by simp
    then show ?thesis using IH after t m(1) by (auto simp: Start)
  next
    case Done
    have "pc_next (pacer_step e p) = pc_next p" by (simp add: Done pacer_done_def)
    with Cons.IH [OF ok, unfolded pacer_step_limits, of now] Cons.prems(2) show ?thesis by (simp add: Done)
  next
    case (BackOff t)
    have t: "now \<le> t" and rest: "in_order t es (pacer_step e p)" using Cons.prems(2) by (simp_all add: BackOff)
    note IH = Cons.IH [OF ok rest, unfolded pacer_step_limits]
    show ?thesis
    proof (intro conjI allI impI)
      show "sorted_wrt (\<lambda>a b. a + ?m \<le> b) (starts (e # es))" using IH by (simp add: BackOff)
      show "\<forall>s \<in> set (starts (e # es)). now \<le> s" using IH t by (auto simp: BackOff)
      fix t0 assume t0: "t0 \<le> now \<and> t0 + ?m \<le> max now (pc_next p)"
      have "pc_next (pacer_step e p) = t + pc_interval (pacer_step e p)"
        by (simp add: BackOff pacer_backOff_def Let_def)
      moreover have "?m \<le> pc_interval (pacer_step e p)" using ok by (simp add: pacer_ok_def)
      moreover have "t0 \<le> t" using t t0 by simp
      ultimately have "t0 \<le> t \<and> t0 + ?m \<le> max t (pc_next (pacer_step e p))" by (simp add: max.coboundedI2 add_mono)
      then show "\<forall>s \<in> set (starts (e # es)). t0 + ?m \<le> s" using IH by (simp add: BackOff)
    qed
  qed
qed simp

text \<open>
  C33: Whatever succeeds, fails or backs off, the requests of one endpoint start at least the shortest
  interval apart, and the interval stays within its limits.
\<close>

theorem pacer_paces:
  assumes "0 < minMs limits" "minMs limits \<le> startMs limits" "startMs limits \<le> maxMs limits" "in_order 0 es (new_pacer limits)"
  shows "sorted_wrt (\<lambda>a b. a + minMs limits \<le> b) (starts es) \<and> pacer_ok (fold pacer_step es (new_pacer limits))"
proof -
  have ok: "pacer_ok (new_pacer limits)" using assms by (simp add: pacer_ok_def new_pacer_def)
  have "pacer_ok (fold pacer_step es p)" if "pacer_ok p" for p
    using that by (induction es arbitrary: p) (simp_all add: pacer_step_ok)
  then show ?thesis using pacer_run_paced [OF ok assms(4)] ok by (simp add: new_pacer_def)
qed

theorem pacer_paces_witness:
  "sorted_wrt (\<lambda>a b. a + 50 \<le> b) (starts [Start 0, Done, Start 250, BackOff 300, Start 900])"
  using pacer_paces [of INSIGHTS_RPC_PACE "[Start 0, Done, Start 250, BackOff 300, Start 900]"]
  by (simp add: INSIGHTS_RPC_PACE_def new_pacer_def pacer_start_def pacer_wait_def pacer_done_def pacer_backOff_def RELAX_def Let_def)

end
