(* ===== verification/Context.thy ===== *)
theory Context
  imports Laya Pool
begin

text \<open>
  \<open>worker/src/txcontext.ts\<close>: what the insight loop reads about a transaction beyond its event. What
  the chain answers to a call is an input; contract codes and pool factories are kept in caches that
  forget the least recently used entry.
\<close>

subsection \<open>Small readings\<close>

text \<open>Code that only delegates (EIP-7702) is a wallet's: \<open>0xef0100\<close> and an address, 23 bytes.\<close>

definition isContractCode :: "string option \<Rightarrow> bool" where
  "isContractCode code =
     (case code of None \<Rightarrow> False
      | Some c \<Rightarrow> c \<noteq> [] \<and> c \<noteq> ''0x'' \<and> c \<noteq> ''0x0'' \<and>
          \<not> (startsWith ''0xef0100'' (map to_lower c) \<and> length c = 2 + 2 * 23))"

definition is_http :: "string \<Rightarrow> bool" where
  "is_http u \<longleftrightarrow> startsWith ''http://'' (map to_lower u) \<or> startsWith ''https://'' (map to_lower u)"

text \<open>The last of an empty list is \<open>undefined\<close>.\<close>

definition insightsRpc :: "string list \<Rightarrow> string option" where
  "insightsRpc rpcs =
     (let httpUrls = filter is_http rpcs; pool = (if httpUrls \<noteq> [] then httpUrls else rpcs)
      in if pool = [] then None else Some (List.last pool))"

definition ticker_char :: "char \<Rightarrow> bool" where
  "ticker_char c \<longleftrightarrow> is_alnum c \<or> c \<in> set [CHR ''$'', CHR ''.'', CHR ''_'', CHR ''-'']"

definition tokenLabel :: "string option \<Rightarrow> string \<Rightarrow> string" where
  "tokenLabel symbol fallback =
     (let s = (case symbol of Some x \<Rightarrow> trim x | None \<Rightarrow> [])
      in if 1 \<le> length s \<and> length s \<le> 16 \<and> list_all ticker_char s then s else fallback)"

subsection \<open>Reading a token once\<close>

text \<open>A failed call: an error of viem with the class names along its causes, or anything else.\<close>

datatype call_error = ViemError "string list" | OtherThrown

definition isDefiniteNo :: "call_error \<Rightarrow> bool" where
  "isDefiniteNo err =
     (case err of
        ViemError names \<Rightarrow> list_ex (\<lambda>n. n \<in> set [''ContractFunctionRevertedError'', ''ContractFunctionZeroDataError'',
          ''AbiDecodingZeroDataError'']) names
      | OtherThrown \<Rightarrow> False)"

text \<open>The loop over the attempts: the answer, and the waits between attempts.\<close>

function read_attempts :: "nat \<Rightarrow> (nat \<Rightarrow> call_error + 'v) \<Rightarrow> nat \<Rightarrow> 'v option \<times> int list" where
  "read_attempts attempts call i =
     (case call i of
        Inr v \<Rightarrow> (Some v, [])
      | Inl err \<Rightarrow>
          if isDefiniteNo err \<or> i + 1 \<ge> attempts then (None, [])
          else (case read_attempts attempts call (i + 1) of (r, ws) \<Rightarrow> (r, 1000 * 2 ^ i # ws)))"
  by pat_completeness auto
termination by (relation "measure (\<lambda>(attempts, call, i). attempts - i)") auto

declare read_attempts.simps [simp del]

text \<open>What \<open>symbol()\<close> and \<open>decimals()\<close> answer: a value of the expected type, or another one.\<close>

definition readTokenInfo :: "nat \<Rightarrow> (nat \<Rightarrow> call_error + string option) \<Rightarrow> (nat \<Rightarrow> call_error + nat option) \<Rightarrow> string \<Rightarrow>
    token_info \<times> int list" where
  "readTokenInfo attempts symbol_call decimals_call fallback =
     (case read_attempts attempts symbol_call 0 of (symbol, ws) \<Rightarrow>
       (case read_attempts attempts decimals_call 0 of (decimals, ws') \<Rightarrow>
         (\<lparr>tk_label = tokenLabel (Option.bind symbol id) fallback, tk_decimals = Option.bind decimals id\<rparr>, ws @ ws')))"

subsection \<open>A cache that forgets the least recently used\<close>

definition CACHE_MAX :: nat where "CACHE_MAX = 50000"

definition lru_get :: "'k \<Rightarrow> ('k \<times> 'v) list \<Rightarrow> 'v option \<times> ('k \<times> 'v) list" where
  "lru_get k m =
     (case map_of m k of Some v \<Rightarrow> (Some v, map_set k v (map_delete k m)) | None \<Rightarrow> (None, m))"

definition lru_set :: "nat \<Rightarrow> 'k \<Rightarrow> 'v \<Rightarrow> ('k \<times> 'v) list \<Rightarrow> ('k \<times> 'v) list" where
  "lru_set bound k v m =
     (let m = map_set k v (map_delete k m) in if length m > bound then drop_oldest m else m)"

text \<open>\<open>xs.filter((x) => cache.get(x) === undefined)\<close>, which touches what it finds.\<close>

fun unknown_keys :: "('k \<Rightarrow> bool) \<Rightarrow> 'k list \<Rightarrow> ('k \<times> 'v) list \<Rightarrow> 'k list \<times> ('k \<times> 'v) list" where
  "unknown_keys also_needed [] m = ([], m)"
| "unknown_keys also_needed (k # ks) m =
     (case lru_get k m of (hit, m') \<Rightarrow>
       (case unknown_keys also_needed ks m' of (rest, m'') \<Rightarrow>
         (if hit = None \<and> also_needed k then k # rest else rest, m'')))"

subsection \<open>Contexts of transactions\<close>

record tx_ref =
  xr_txHash :: string
  xr_blockNumber :: int

record chain_tx =
  ct_hash :: string
  ct_to :: "string option"
  ct_from :: string
  ct_input :: "string option"
  ct_value :: int

record receipt_log =
  rl_address :: string
  rl_topics :: "string list"

record receipt =
  re_transactionHash :: string
  re_logs :: "receipt_log list"

text \<open>What the pool answers to a call of the round (\<open>RpcPool.all\<close> settles every call).\<close>

record chain_reads =
  cr_block :: "int \<Rightarrow> chain_tx list outcome"
  cr_receipts :: "int \<Rightarrow> receipt list outcome"
  cr_factory :: "string \<Rightarrow> string option outcome"     \<comment> \<open>the data \<open>factory()\<close> returns\<close>
  cr_code :: "string \<Rightarrow> string option outcome"

record context_source =
  cx_codes :: "(string \<times> bool) list"
  cx_factories :: "(string \<times> string) list"
  cx_unreadable :: "(string \<times> int) list"

definition new_context_source :: context_source where
  "new_context_source = \<lparr>cx_codes = [], cx_factories = [], cx_unreadable = []\<rparr>"

definition FACTORY_RETRY_MS :: int where "FACTORY_RETRY_MS = 600000"

definition tx_of :: "chain_tx \<Rightarrow> receipt \<Rightarrow> tx_context" where
  "tx_of tx r =
     (let logs = filter (\<lambda>l. rl_topics l \<noteq> []) (re_logs r);
          input = default_to ''0x'' (ct_input tx)
      in \<lparr>tc_to = map_option (map to_lower) (truthy (ct_to tx)),
          tc_selector = (if length input \<ge> 10 then map to_lower (take 10 input) else ''0x''),
          tc_topics = map (\<lambda>l. map to_lower (hd (rl_topics l))) logs,
          tc_sender = map to_lower (ct_from tx),
          tc_emitters = map (\<lambda>l. map to_lower (rl_address l)) logs,
          tc_factories = [],
          tc_valueSent = Some (ct_value tx > 0)\<rparr>)"

definition by_hash :: "receipt list \<Rightarrow> (string \<times> receipt) list" where
  "by_hash receipts = foldl (\<lambda>m r. map_set (map to_lower (re_transactionHash r)) r m) [] receipts"

definition collect_tx :: "receipt list \<Rightarrow> string list \<Rightarrow> (string \<times> tx_context) list \<Rightarrow> chain_tx \<Rightarrow> (string \<times> tx_context) list" where
  "collect_tx receipts wanted out tx =
     (let hash = map to_lower (ct_hash tx)
      in case map_of (by_hash receipts) hash of
           None \<Rightarrow> out
         | Some r \<Rightarrow> if hash \<notin> set wanted then out else map_set hash (tx_of tx r) out)"

definition collect :: "chain_tx list \<Rightarrow> receipt list \<Rightarrow> string list \<Rightarrow> (string \<times> tx_context) list \<Rightarrow> (string \<times> tx_context) list" where
  "collect block receipts wanted out = foldl (collect_tx receipts wanted) out block"

definition by_block :: "tx_ref list \<Rightarrow> (int \<times> string list) list" where
  "by_block txs =
     foldl (\<lambda>m t. map_set (xr_blockNumber t)
       (set_add (default_to [] (map_of m (xr_blockNumber t))) (map to_lower (xr_txHash t))) m) [] txs"

definition read_block :: "chain_reads \<Rightarrow> (string \<times> tx_context) list \<Rightarrow> int \<times> string list \<Rightarrow> insight_error + (string \<times> tx_context) list" where
  "read_block env out = (\<lambda>(b, wanted).
     (case cr_block env b of Rejected e \<Rightarrow> Inl e
      | Fulfilled block \<Rightarrow>
          (case cr_receipts env b of Rejected e \<Rightarrow> Inl e
           | Fulfilled receipts \<Rightarrow> Inr (collect block receipts wanted out))))"

definition pools_in :: "tx_context \<Rightarrow> string list" where
  "pools_in c = set_of_list (map fst (filter (\<lambda>(e, t). e \<noteq> [] \<and> t \<in> set POOL_TOPICS) (zip (tc_emitters c) (tc_topics c))))"

definition factory_of :: "string \<Rightarrow> string" where
  "factory_of dat = ''0x'' @ map to_lower (drop (length dat - 40) dat)"

definition factory_answer :: "chain_reads \<Rightarrow> int \<Rightarrow> context_source \<Rightarrow> string \<Rightarrow> context_source" where
  "factory_answer env clock st p =
     (case (case cr_factory env p of Fulfilled d \<Rightarrow> d | Rejected _ \<Rightarrow> None) of
        Some dat \<Rightarrow>
          if length dat \<ge> 42
          then st\<lparr>cx_factories := lru_set CACHE_MAX p (factory_of dat) (cx_factories st),
                  cx_unreadable := map_delete p (cx_unreadable st)\<rparr>
          else st\<lparr>cx_unreadable := map_set p (clock + FACTORY_RETRY_MS) (cx_unreadable st)\<rparr>
      | None \<Rightarrow> st\<lparr>cx_unreadable := map_set p (clock + FACTORY_RETRY_MS) (cx_unreadable st)\<rparr>)"

definition forget_expired :: "int \<Rightarrow> context_source \<Rightarrow> context_source" where
  "forget_expired clock st =
     (if length (cx_unreadable st) > 10000
      then st\<lparr>cx_unreadable := filter (\<lambda>(p, until). \<not> until \<le> clock) (cx_unreadable st)\<rparr> else st)"

text \<open>Attaching the factories that are known by now; each lookup touches the cache.\<close>

fun attach_factories :: "string list \<Rightarrow> tx_context \<Rightarrow> (string \<times> string) list \<Rightarrow> tx_context \<times> (string \<times> string) list" where
  "attach_factories [] c m = (c, m)"
| "attach_factories (p # ps) c m =
     (case lru_get p m of (f, m') \<Rightarrow>
       attach_factories ps (case f of Some v \<Rightarrow> (if v \<noteq> [] then c\<lparr>tc_factories := map_set p v (tc_factories c)\<rparr> else c) | None \<Rightarrow> c) m')"

definition answer_tx :: "(string \<times> tx_context) list \<Rightarrow>
    (string \<times> tx_context option) list \<times> (string \<times> string) list \<Rightarrow> tx_ref \<Rightarrow> (string \<times> tx_context option) list \<times> (string \<times> string) list" where
  "answer_tx found = (\<lambda>(out, m) t.
     (case map_of found (map to_lower (xr_txHash t)) of
        None \<Rightarrow> (map_set (xr_txHash t) None out, m)
      | Some c \<Rightarrow> (case attach_factories (pools_in c) c m of (c', m') \<Rightarrow> (map_set (xr_txHash t) (Some c') out, m'))))"

definition contexts :: "chain_reads \<Rightarrow> int \<Rightarrow> tx_ref list \<Rightarrow> context_source \<Rightarrow>
    (insight_error + (string \<times> tx_context option) list) \<times> context_source" where
  "contexts env clock txs st =
     (case foldE (read_block env) [] (by_block txs) of
        Inl e \<Rightarrow> (Inl e, st)
      | Inr found \<Rightarrow>
          (case unknown_keys (\<lambda>p. default_to 0 (map_of (cx_unreadable st) p) \<le> clock)
                  (set_of_list (concat (map (\<lambda>(_, c). pools_in c) found))) (cx_factories st) of
             (pools, m) \<Rightarrow>
               (let st = forget_expired clock (foldl (factory_answer env clock) (st\<lparr>cx_factories := m\<rparr>) pools)
                in case foldl (answer_tx found) ([], cx_factories st) txs of
                     (out, m) \<Rightarrow> (Inr out, st\<lparr>cx_factories := m\<rparr>))))"

subsection \<open>Kinds of parties\<close>

definition code_answer :: "chain_reads \<Rightarrow> (string \<times> bool) list \<Rightarrow> string \<Rightarrow> insight_error + (string \<times> bool) list" where
  "code_answer env m a =
     (case cr_code env a of Rejected e \<Rightarrow> Inl e
      | Fulfilled code \<Rightarrow> Inr (lru_set CACHE_MAX a (isContractCode code) m))"

text \<open>What was learnt before the first rejected call stays in the cache.\<close>

fun code_answers :: "chain_reads \<Rightarrow> string list \<Rightarrow> (string \<times> bool) list \<Rightarrow> insight_error option \<times> (string \<times> bool) list" where
  "code_answers env [] m = (None, m)"
| "code_answers env (a # as) m =
     (case code_answer env m a of Inl e \<Rightarrow> (Some e, m) | Inr m' \<Rightarrow> code_answers env as m')"

definition known_kind :: "(string \<times> bool) list \<times> (string \<times> bool) list \<Rightarrow> string \<Rightarrow> (string \<times> bool) list \<times> (string \<times> bool) list" where
  "known_kind = (\<lambda>(out, m) a.
     (case lru_get a m of (Some v, m') \<Rightarrow> (map_set a v out, m') | (None, m') \<Rightarrow> (out, m')))"

definition partyKinds :: "chain_reads \<Rightarrow> string list \<Rightarrow> context_source \<Rightarrow>
    (insight_error + (string \<times> bool) list) \<times> context_source" where
  "partyKinds env addresses st =
     (let wanted = filter (\<lambda>a. a \<noteq> ZERO_ADDRESS) (set_of_list addresses)
      in case unknown_keys (\<lambda>_. True) wanted (cx_codes st) of
           (unknown, m) \<Rightarrow>
             (case code_answers env unknown m of
                (Some e, m) \<Rightarrow> (Inl e, st\<lparr>cx_codes := m\<rparr>)
              | (None, m) \<Rightarrow> (case foldl known_kind ([], m) wanted of (out, m) \<Rightarrow> (Inr out, st\<lparr>cx_codes := m\<rparr>))))"

subsection \<open>The cache keeps what was used last\<close>

lemma set_deleted: "map_set k v (map_delete k m) = map_delete k m @ [(k, v)]"
  by (rule map_set_new) (auto simp: AList.delete_eq)

lemma lru_get_eq:
  "lru_get k m = (case map_of m k of Some v \<Rightarrow> (Some v, map_delete k m @ [(k, v)]) | None \<Rightarrow> (None, m))"
  by (simp only: lru_get_def set_deleted)

lemma lru_get_hit: "fst (lru_get k m) = map_of m k"
  by (simp add: lru_get_def split: option.split)

lemma distinct_delete: "distinct (map_keys m) \<Longrightarrow> distinct (map_keys (map_delete k m))"
  by (simp add: AList.delete_eq distinct_map_filter)

lemma map_of_snoc_delete: "map_of (map_delete k m @ [(k, v)]) = (map_of m)(k \<mapsto> v)"
  by (auto simp: map_add_def AList.delete_eq map_of_filter_in fun_eq_iff delete_conv' [unfolded AList.delete_eq] split: option.split)

lemma lru_get_map_of: "map_of (snd (lru_get k m)) = map_of m"
  by (auto simp: lru_get_eq map_of_snoc_delete simp del: map_of_append split: option.split)

lemma length_delete_key: "distinct (map_keys m) \<Longrightarrow> map_has k m \<Longrightarrow> Suc (length (map_delete k m)) = length m"
proof (induction m)
  case (Cons kv m)
  obtain k0 v0 where "kv = (k0, v0)" by (cases kv)
  with Cons show ?case by (cases "k0 = k") (auto simp: map_delete_notin)
qed simp

lemma lru_set_eq:
  "lru_set bound k v m =
     (let m = map_delete k m @ [(k, v)] in if length m > bound then drop_oldest m else m)"
  by (simp only: lru_set_def set_deleted)

interpretation lru: bounded_map "lru_set bound" bound for bound
proof unfold_locales
  fix m :: "('k \<times> 'v) list" and k k' v
  let ?m = "map_delete k m @ [(k, v)]"
  have len: "length (map_delete k m) \<le> length m" by (simp add: AList.delete_eq)
  assume d: "distinct (map_keys m)"
  have keys: "distinct (map_keys ?m)" using distinct_delete [OF d] by (auto simp: AList.delete_eq)
  show "distinct (map_keys (lru_set bound k v m))"
    using keys distinct_drop_oldest [OF keys] by (simp only: lru_set_eq Let_def split: if_splits) simp
  show "map_of (lru_set bound k v m) k \<in> {None, Some v}"
    using map_of_drop_oldest [OF keys, of k] unfolding lru_set_eq Let_def map_of_snoc_delete
    by (cases "bound < length ?m") (auto simp only: if_True if_False map_of_snoc_delete fun_upd_same insert_iff)
  show "map_of (lru_set bound k v m) k' \<in> {None, map_of m k'}" if "k' \<noteq> k"
  proof -
    have "map_of ?m k' = map_of m k'" unfolding map_of_snoc_delete using that by simp
    moreover from this map_of_drop_oldest [OF keys, of k'] have "map_of (drop_oldest ?m) k' \<in> {None, map_of m k'}"
      by (simp only: insert_iff empty_iff simp_thms)
    ultimately show ?thesis unfolding lru_set_eq Let_def by (cases "bound < length ?m") (simp_all only: if_True if_False insert_iff empty_iff simp_thms)
  qed
next
  fix m :: "('k \<times> 'v) list" and k v
  assume "length m \<le> bound"
  moreover have "length (map_delete k m) \<le> length m" by (simp add: AList.delete_eq)
  ultimately show "length (lru_set bound k v m) \<le> bound" by (auto simp: lru_set_eq Let_def drop_oldest_def)
qed

text \<open>The keys used since some moment are the last ones of the cache, so that they go last.\<close>

definition recent :: "nat \<Rightarrow> 'k set \<Rightarrow> ('k \<times> 'v) list \<Rightarrow> bool" where
  "recent bound K m \<longleftrightarrow> distinct (map_keys m) \<and> length m \<le> bound \<and> (\<exists>old new. m = old @ new \<and> set (map_keys new) = K)"

lemma recentD:
  assumes "recent bound K m"
  shows "distinct (map_keys m)" "length m \<le> bound" "K \<subseteq> set (map_keys m)"
  using assms by (auto simp: recent_def)

lemma recent_empty: "distinct (map_keys m) \<Longrightarrow> length m \<le> bound \<Longrightarrow> recent bound {} m"
  unfolding recent_def by (intro conjI exI [of _ m] exI [of _ "[]"]) simp_all

lemma keys_delete: "set (map_keys (map_delete k m)) = set (map_keys m) - {k}"
  by (auto simp: AList.delete_eq)

lemma delete_append: "map_delete k (xs @ ys) = map_delete k xs @ map_delete k ys"
  by (simp add: AList.delete_eq)

lemma recent_get:
  assumes "recent bound K m" "map_has k m"
  shows "recent bound (insert k K) (snd (lru_get k m))"
proof -
  obtain old new where m: "m = old @ new" "set (map_keys new) = K" using assms(1) by (auto simp: recent_def)
  obtain v where v: "map_of m k = Some v" using assms(2) map_has_iff [of k m] by auto
  have get: "snd (lru_get k m) = map_delete k old @ (map_delete k new @ [(k, v)])"
  proof -
    have "snd (lru_get k m) = map_delete k m @ [(k, v)]" by (simp add: lru_get_eq v)
    then show ?thesis unfolding m(1) delete_append by simp
  qed
  have "length (snd (lru_get k m)) = length m"
    unfolding lru_get_eq v using length_delete_key [OF recentD(1) [OF assms(1)] assms(2)] by simp
  moreover have "distinct (map_keys (map_delete k m @ [(k, v)]))"
    using distinct_delete [OF recentD(1) [OF assms(1)], of k] keys_delete [of k m] by simp
  then have "distinct (map_keys (snd (lru_get k m)))" by (simp only: lru_get_eq v option.case snd_conv)
  moreover have "set (map_keys (map_delete k new @ [(k, v)])) = insert k K" using keys_delete [of k new] m(2) by auto
  ultimately show ?thesis unfolding recent_def using recentD(2) [OF assms(1)] get by metis
qed

lemma recent_set:
  assumes "recent bound K m" "finite K" "card (insert k K) \<le> bound"
  shows "recent bound (insert k K) (lru_set bound k v m)"
proof -
  obtain old new where m: "m = old @ new" "set (map_keys new) = K" using assms(1) by (auto simp: recent_def)
  let ?old = "map_delete k old" and ?new = "map_delete k new @ [(k, v)]"
  have d: "distinct (map_keys (map_delete k m @ [(k, v)]))"
    using distinct_delete [OF recentD(1) [OF assms(1)], of k] keys_delete [of k m] by simp
  have split: "map_delete k m @ [(k, v)] = ?old @ ?new" unfolding m(1) delete_append by simp
  have new: "set (map_keys ?new) = insert k K" using keys_delete [of k new] m(2) by auto
  show ?thesis
  proof (cases "bound < length (map_delete k m @ [(k, v)])")
    case True
    have "distinct (map_keys ?new)" using d unfolding split by simp
    then have "length ?new = card (insert k K)" unfolding new [symmetric] using distinct_card [of "map_keys ?new"] by simp
    then have "?old \<noteq> []" using True assms(3) unfolding split by auto
    then have set: "lru_set bound k v m = tl ?old @ ?new"
      using True unfolding lru_set_eq Let_def split by (simp add: drop_oldest_def)
    have "distinct (map_keys (lru_set bound k v m))" by (rule lru.put_distinct [OF recentD(1) [OF assms(1)]])
    moreover have "length (lru_set bound k v m) \<le> bound" by (rule lru.put_bound [OF recentD(2) [OF assms(1)]])
    ultimately show ?thesis unfolding recent_def using set new by metis
  next
    case False
    then have "lru_set bound k v m = ?old @ ?new" unfolding lru_set_eq Let_def split by simp
    then show ?thesis unfolding recent_def using False d new split by (metis not_le)
  qed
qed

lemma recent_set_keys:
  assumes "recent bound K m" "finite K" "card (insert k K) \<le> bound"
  shows "map_of (lru_set bound k v m) k = Some v"
proof -
  have "map_has k (lru_set bound k v m)" using recentD(3) [OF recent_set [OF assms]] by auto
  then have "map_of (lru_set bound k v m) k \<noteq> None" using map_has_iff [of k "lru_set bound k v m"] by simp
  with lru.put_same [OF recentD(1,2) [OF assms(1)], of k v] show ?thesis by (simp only: insert_iff) auto
qed

subsection \<open>Party kinds\<close>

lemma recent_lru_get:
  "recent bound K m \<Longrightarrow> recent bound (if map_has k m then insert k K else K) (snd (lru_get k m))"
proof (cases "map_has k m")
  case False
  assume r: "recent bound K m"
  from False have "snd (lru_get k m) = m" using map_has_iff [of k m] by (simp add: lru_get_def)
  with r False show ?thesis by (simp only: if_False)
qed (simp add: recent_get)

lemma has_lru_get: "map_has k' (snd (lru_get k m)) = map_has k' m"
  using map_has_iff [of k' m] map_has_iff [of k' "snd (lru_get k m)"] by (simp only: lru_get_map_of)

lemma unknown_keys_spec:
  assumes "unknown_keys P ks m = (u, m')" "recent bound K m"
  shows "u = filter (\<lambda>k. map_of m k = None \<and> P k) ks \<and> map_of m' = map_of m \<and>
    recent bound (K \<union> {k \<in> set ks. map_has k m}) m'"
  using assms
proof (induction ks arbitrary: m K u m')
  case (Cons k ks)
  let ?m = "snd (lru_get k m)"
  obtain u1 m1 where rest: "unknown_keys P ks ?m = (u1, m1)" by fastforce
  have u: "u = (if map_of m k = None \<and> P k then k # u1 else u1)" "m' = m1"
    using Cons.prems(1) rest lru_get_hit [of k m] by (auto split: prod.splits)
  note IH = Cons.IH [OF rest recent_lru_get [OF Cons.prems(2)], unfolded lru_get_map_of has_lru_get]
  have "(if map_has k m then insert k K else K) \<union> {k \<in> set ks. map_has k m} = K \<union> {k' \<in> set (k # ks). map_has k' m}"
    by auto
  with IH u show ?case by simp
qed simp

definition codes_true :: "(string \<Rightarrow> string option) \<Rightarrow> (string \<times> bool) list \<Rightarrow> bool" where
  "codes_true code m \<longleftrightarrow> (\<forall>a v. map_of m a = Some v \<longrightarrow> v = isContractCode (code a))"

definition codes_ok :: "(string \<Rightarrow> string option) \<Rightarrow> context_source \<Rightarrow> bool" where
  "codes_ok code st \<longleftrightarrow> recent CACHE_MAX {} (cx_codes st) \<and> codes_true code (cx_codes st)"

definition honest_codes :: "chain_reads \<Rightarrow> (string \<Rightarrow> string option) \<Rightarrow> bool" where
  "honest_codes env code \<longleftrightarrow> (\<forall>a c. cr_code env a = Fulfilled c \<longrightarrow> c = code a)"

lemma recent_weaken: "recent bound K m \<Longrightarrow> recent bound {} m"
  using recent_empty recentD by metis

lemma codes_true_set:
  assumes "codes_true code m" "recent bound K m"
  shows "codes_true code (lru_set bound a (isContractCode (code a)) m)"
  unfolding codes_true_def
proof (intro allI impI)
  fix b v
  assume b: "map_of (lru_set bound a (isContractCode (code a)) m) b = Some v"
  show "v = isContractCode (code b)"
  proof (cases "b = a")
    case True
    with b lru.put_same [OF recentD(1,2) [OF assms(2)], of a "isContractCode (code a)"] show ?thesis by auto
  next
    case False
    with b lru.put_other [OF recentD(1) [OF assms(2)] False, of bound "isContractCode (code a)"] assms(1)
    show ?thesis unfolding codes_true_def by auto
  qed
qed

lemma code_answers_spec:
  assumes "honest_codes env code" "code_answers env as m = (r, m')" "codes_true code m" "recent CACHE_MAX K m"
    "finite K" "card (K \<union> set as) \<le> CACHE_MAX"
  shows "codes_true code m' \<and> recent CACHE_MAX {} m' \<and>
    (case r of Some e \<Rightarrow> (\<exists>a \<in> set as. cr_code env a = Rejected e) | None \<Rightarrow> recent CACHE_MAX (K \<union> set as) m')"
  using assms(2-)
proof (induction as arbitrary: m K)
  case Nil
  then show ?case by (auto intro: recent_weaken)
next
  case (Cons a as)
  show ?case
  proof (cases "cr_code env a")
    case (Rejected e)
    then have "r = Some e" "m' = m" using Cons.prems(1) by (simp_all add: code_answer_def)
    with Rejected Cons.prems(2,3) show ?thesis by (auto intro: recent_weaken)
  next
    case (Fulfilled c)
    let ?m = "lru_set CACHE_MAX a (isContractCode (code a)) m"
    have c: "c = code a" using assms(1) Fulfilled by (simp add: honest_codes_def)
    then have run: "code_answers env as ?m = (r, m')" using Cons.prems(1) Fulfilled by (simp add: code_answer_def)
    have u: "insert a K \<union> set as = K \<union> set (a # as)" by simp
    have "card (insert a K) \<le> card (K \<union> set (a # as))" by (rule card_mono) (use Cons.prems(4) in auto)
    then have "card (insert a K) \<le> CACHE_MAX" using Cons.prems(5) by simp
    from recent_set [OF Cons.prems(3,4) this] have "recent CACHE_MAX (insert a K) ?m" .
    from Cons.IH [OF run codes_true_set [OF Cons.prems(2,3)] this] Cons.prems(4,5) show ?thesis
      unfolding u by (auto split: option.splits)
  qed
qed

lemma known_kind_all:
  assumes "foldl known_kind (out, m) ws = (out', m')" "recent bound K m"
  shows "map_of m' = map_of m \<and> recent bound {} m' \<and>
    (\<forall>a. map_of out' a = (if a \<in> set ws \<and> map_of m a \<noteq> None then map_of m a else map_of out a))"
  using assms
proof (induction ws arbitrary: out m K)
  case Nil
  then show ?case by (auto intro: recent_weaken)
next
  case (Cons w ws)
  let ?m = "snd (lru_get w m)"
  let ?out = "case map_of m w of Some v \<Rightarrow> map_set w v out | None \<Rightarrow> out"
  have step: "known_kind (out, m) w = (?out, ?m)"
    using lru_get_hit [of w m] by (auto simp: known_kind_def split: prod.split option.split)
  have "foldl known_kind (?out, ?m) ws = (out', m')" using Cons.prems(1) step by simp
  from Cons.IH [OF this recent_lru_get [OF Cons.prems(2)]] show ?case
    unfolding lru_get_map_of by (auto split: option.split)
qed

text \<open>
  The kinds of a round's parties are exact: every asked address but the zero address is answered,
  and by whether its code on the chain is a contract's, whatever the cache held and however it is
  crowded out, as long as one round asks about no more parties than the cache keeps. A rejected
  read fails the round and leaves the cache true.
\<close>

theorem partyKinds_exact:
  assumes "codes_ok code st" "honest_codes env code" "length (set_of_list addresses) \<le> CACHE_MAX"
    "partyKinds env addresses st = (r, st')"
  shows "codes_ok code st' \<and>
    (case r of
       Inl e \<Rightarrow> (\<exists>a \<in> set addresses. cr_code env a = Rejected e)
     | Inr out \<Rightarrow> map_of out = (\<lambda>a. if a \<in> set addresses \<and> a \<noteq> ZERO_ADDRESS then Some (isContractCode (code a)) else None))"
proof -
  let ?w = "filter (\<lambda>a. a \<noteq> ZERO_ADDRESS) (set_of_list addresses)"
  obtain u m where u: "unknown_keys (\<lambda>_. True) ?w (cx_codes st) = (u, m)" by fastforce
  obtain x m1 where a: "code_answers env u m = (x, m1)" by fastforce
  have st: "recent CACHE_MAX {} (cx_codes st)" "codes_true code (cx_codes st)" using assms(1) by (simp_all add: codes_ok_def)
  note us = unknown_keys_spec [OF u st(1), simplified]
  let ?K = "{k \<in> set ?w. map_has k (cx_codes st)}"
  have K: "?K \<union> set u = set ?w" using us map_has_iff [of _ "cx_codes st"] by auto
  have card: "card (set ?w) \<le> CACHE_MAX"
    using le_trans [OF length_filter_le assms(3)] distinct_card [of ?w] by simp
  have m: "codes_true code m" using us st(2) by (simp add: codes_true_def)
  have rm: "recent CACHE_MAX ?K m" using us by simp
  have "card (?K \<union> set u) \<le> CACHE_MAX" unfolding K by (rule card)
  from code_answers_spec [OF assms(2) a m rm _ this] have
    ans: "codes_true code m1" "recent CACHE_MAX {} m1"
      "case x of Some e \<Rightarrow> (\<exists>a \<in> set u. cr_code env a = Rejected e) | None \<Rightarrow> recent CACHE_MAX (set ?w) m1"
    unfolding K by simp_all
  show ?thesis
  proof (cases x)
    case (Some e)
    then have r: "r = Inl e" "st' = st\<lparr>cx_codes := m1\<rparr>" using assms(4) u a by (simp_all add: partyKinds_def)
    have "set u \<subseteq> set addresses" using us by auto
    with ans Some show ?thesis unfolding r by (auto simp: codes_ok_def)
  next
    case None
    obtain out m2 where o: "foldl known_kind ([], m1) ?w = (out, m2)" by fastforce
    then have r: "r = Inr out" "st' = st\<lparr>cx_codes := m2\<rparr>" using assms(4) u a None by (simp_all add: partyKinds_def)
    have all: "recent CACHE_MAX (set ?w) m1" using ans(3) None by simp
    note k = known_kind_all [OF o all]
    have "map_of m1 b = Some (isContractCode (code b))" if "b \<in> set ?w" for b
    proof -
      from recentD(3) [OF all] that have "map_has b m1" by blast
      then obtain v where "map_of m1 b = Some v" using map_has_iff [of b m1] by auto
      with ans(1) show ?thesis by (simp add: codes_true_def)
    qed
    then have "map_of out = (\<lambda>a. if a \<in> set addresses \<and> a \<noteq> ZERO_ADDRESS then Some (isContractCode (code a)) else None)"
      using k by (auto simp: fun_eq_iff)
    moreover have "codes_ok code st'" unfolding r codes_ok_def codes_true_def using k ans(1) by (simp add: codes_true_def)
    ultimately show ?thesis unfolding r by simp
  qed
qed

definition sample_reads :: chain_reads where
  "sample_reads = \<lparr>cr_block = (\<lambda>_. Fulfilled []), cr_receipts = (\<lambda>_. Fulfilled []),
     cr_factory = (\<lambda>p. Fulfilled (Some (''0x'' @ replicate 64 (CHR ''A'')))),
     cr_code = (\<lambda>a. Fulfilled (if a = ''c'' then Some ''0x6080'' else None))\<rparr>"

theorem partyKinds_exact_witness:
  "\<exists>out st'. partyKinds sample_reads [''c'', ''w'', ''c'', ZERO_ADDRESS] new_context_source = (Inr out, st') \<and>
     map_of out ''c'' = Some True \<and> map_of out ''w'' = Some False"
proof -
  let ?code = "\<lambda>a. if a = ''c'' then Some ''0x6080'' else None"
  let ?as = "[''c'', ''w'', ''c'', ZERO_ADDRESS]"
  obtain r st' where run: "partyKinds sample_reads ?as new_context_source = (r, st')" by fastforce
  have "codes_ok ?code new_context_source"
    by (simp add: codes_ok_def new_context_source_def recent_empty codes_true_def)
  moreover have "honest_codes sample_reads ?code" by (simp add: honest_codes_def sample_reads_def)
  moreover have "length (set_of_list ?as) \<le> CACHE_MAX"
    by (simp add: set_of_list_def set_add_def ZERO_ADDRESS_def CACHE_MAX_def)
  ultimately have "case r of
       Inl e \<Rightarrow> (\<exists>a \<in> set ?as. cr_code sample_reads a = Rejected e)
     | Inr out \<Rightarrow> map_of out = (\<lambda>a. if a \<in> set ?as \<and> a \<noteq> ZERO_ADDRESS then Some (isContractCode (?code a)) else None)"
    using partyKinds_exact [OF _ _ _ run] by blast
  moreover have "\<not> (\<exists>a \<in> set ?as. cr_code sample_reads a = Rejected e)" for e by (simp add: sample_reads_def)
  ultimately obtain out where out: "r = Inr out"
    "map_of out = (\<lambda>a. if a \<in> set ?as \<and> a \<noteq> ZERO_ADDRESS then Some (isContractCode (?code a)) else None)"
    by (cases r) simp_all
  have kinds: "isContractCode (?code ''c'')" "\<not> isContractCode (?code ''w'')"
    by (simp_all add: isContractCode_def startsWith_def)
  have "''c'' \<noteq> ZERO_ADDRESS" "''w'' \<noteq> ZERO_ADDRESS" by (simp_all add: ZERO_ADDRESS_def)
  with kinds have "map_of out ''c'' = Some True \<and> map_of out ''w'' = Some False" unfolding out(2) by simp
  with run out(1) show ?thesis by blast
qed

subsection \<open>Contexts\<close>

text \<open>What a block and its receipts say about the transaction with a hash, without the factories.\<close>

definition block_context :: "chain_tx list \<Rightarrow> receipt list \<Rightarrow> string \<Rightarrow> tx_context option" where
  "block_context block receipts hash =
     (case (map_of (rev (map (\<lambda>t. (map to_lower (ct_hash t), t)) block)) hash, map_of (by_hash receipts) hash) of
        (Some t, Some r) \<Rightarrow> Some (tx_of t r)
      | _ \<Rightarrow> None)"

lemma map_of_collect:
  "map_of (collect block receipts wanted out) h =
     (if h \<in> set wanted \<and> block_context block receipts h \<noteq> None then block_context block receipts h else map_of out h)"
proof (induction block arbitrary: out rule: rev_induct)
  case Nil
  then show ?case by (simp add: collect_def block_context_def)
next
  case (snoc t block)
  have "collect (block @ [t]) receipts wanted out = collect_tx receipts wanted (collect block receipts wanted out) t"
    by (simp add: collect_def)
  with snoc.IH [of out] show ?case by (auto simp: block_context_def collect_tx_def Let_def split: option.splits)
qed

definition wanted_in :: "tx_ref list \<Rightarrow> int \<Rightarrow> string set" where
  "wanted_in txs b = {map to_lower (xr_txHash t) | t. t \<in> set txs \<and> xr_blockNumber t = b}"

lemma by_block_spec:
  "(\<forall>b. set (default_to [] (map_of (by_block txs) b)) = wanted_in txs b) \<and>
   set (map_keys (by_block txs)) = xr_blockNumber ` set txs \<and> distinct (map_keys (by_block txs))"
proof (induction txs rule: rev_induct)
  case Nil
  then show ?case by (simp add: by_block_def wanted_in_def default_to_def)
next
  case (snoc t txs)
  let ?b = "xr_blockNumber t" and ?h = "map to_lower (xr_txHash t)" and ?m = "by_block txs"
  let ?ws = "set_add (default_to [] (map_of ?m ?b)) ?h"
  have m: "by_block (txs @ [t]) = map_set ?b ?ws ?m" by (simp add: by_block_def)
  have new: "wanted_in (txs @ [t]) b = (if b = ?b then insert ?h (wanted_in txs b) else wanted_in txs b)" for b
    by (auto simp: wanted_in_def)
  have "set ?ws = insert ?h (wanted_in txs ?b)" using snoc.IH by (auto simp: set_add_def)
  moreover have "default_to [] (map_of (map_set ?b ?ws ?m) b) = (if b = ?b then ?ws else default_to [] (map_of ?m b))" for b
    by (simp add: default_to_def)
  ultimately have "set (default_to [] (map_of (by_block (txs @ [t])) b)) = wanted_in (txs @ [t]) b" for b
    using snoc.IH unfolding m new by (cases "b = ?b") (simp_all only: if_True if_False simp_thms)
  moreover have "set (map_keys (by_block (txs @ [t]))) = xr_blockNumber ` set (txs @ [t])"
    using snoc.IH unfolding m by (simp add: keys_map_set)
  moreover have "distinct (map_keys (by_block (txs @ [t])))" using snoc.IH unfolding m by (simp add: distinct_update)
  ultimately show ?case by blast
qed

definition context_at :: "chain_reads \<Rightarrow> int \<Rightarrow> string \<Rightarrow> tx_context option" where
  "context_at env b hash =
     (case (cr_block env b, cr_receipts env b) of
        (Fulfilled block, Fulfilled receipts) \<Rightarrow> block_context block receipts hash
      | _ \<Rightarrow> None)"

lemma read_block_Inr: "read_block env out (b, ws) = Inr out' \<longleftrightarrow>
    (\<exists>block receipts. cr_block env b = Fulfilled block \<and> cr_receipts env b = Fulfilled receipts \<and> out' = collect block receipts ws out)"
  by (auto simp: read_block_def split: outcome.splits)

lemma read_blocks:
  assumes "foldE (read_block env) out bs = Inr found" "distinct (map_keys bs)"
    "\<And>b ws b' ws' h. (b, ws) \<in> set bs \<Longrightarrow> (b', ws') \<in> set bs \<Longrightarrow> h \<in> set ws \<Longrightarrow> h \<in> set ws' \<Longrightarrow> b = b'"
  shows "(\<forall>(b, ws) \<in> set bs. \<forall>h \<in> set ws. map_of found h = (case context_at env b h of None \<Rightarrow> map_of out h | c \<Rightarrow> c)) \<and>
    (\<forall>h. (\<forall>(b, ws) \<in> set bs. h \<notin> set ws) \<longrightarrow> map_of found h = map_of out h)"
  using assms
proof (induction bs arbitrary: out)
  case (Cons bw bs)
  obtain b ws where bw: "bw = (b, ws)" by (cases bw)
  obtain block receipts where r: "cr_block env b = Fulfilled block" "cr_receipts env b = Fulfilled receipts"
    and run: "foldE (read_block env) (collect block receipts ws out) bs = Inr found"
    using Cons.prems(1) unfolding bw foldE.simps bindE_Inr read_block_Inr by blast
  have at: "context_at env b h = block_context block receipts h" for h by (simp add: context_at_def r)
  have disj: "h \<notin> set ws'" if "h \<in> set ws" "(b', ws') \<in> set bs" for h b' ws'
  proof
    assume "h \<in> set ws'"
    with that have "b = b'" using Cons.prems(3) [of b ws b' ws' h] bw by simp
    with Cons.prems(2) that(2) show False unfolding bw by (force simp: image_iff)
  qed
  have "distinct (map_keys bs)" using Cons.prems(2) by simp
  have IH: "(\<forall>(b', ws') \<in> set bs. \<forall>h \<in> set ws'. map_of found h =
        (case context_at env b' h of None \<Rightarrow> map_of (collect block receipts ws out) h | c \<Rightarrow> c)) \<and>
    (\<forall>h. (\<forall>(b', ws') \<in> set bs. h \<notin> set ws') \<longrightarrow> map_of found h = map_of (collect block receipts ws out) h)"
    by (rule Cons.IH [OF run \<open>distinct (map_keys bs)\<close>]) (rule Cons.prems(3); simp)
  show ?case unfolding bw
  proof (intro conjI ballI allI impI)
    fix x assume x: "x \<in> set ((b, ws) # bs)"
    show "case x of (b, ws) \<Rightarrow> \<forall>h \<in> set ws. map_of found h = (case context_at env b h of None \<Rightarrow> map_of out h | c \<Rightarrow> c)"
    proof (clarify)
      fix b' ws' h assume x': "x = (b', ws')" and h: "h \<in> set ws'"
      show "map_of found h = (case context_at env b' h of None \<Rightarrow> map_of out h | c \<Rightarrow> c)"
      proof (cases "(b', ws') \<in> set bs")
        case True
        then have "h \<notin> set ws" using disj h by blast
        with IH True h show ?thesis by (auto simp: map_of_collect split: option.split)
      next
        case False
        then have eq: "b' = b" "ws' = ws" using x x' by auto
        then have "\<forall>(b', ws') \<in> set bs. h \<notin> set ws'" using disj h by auto
        with IH have "map_of found h = map_of (collect block receipts ws out) h" by blast
        with h show ?thesis unfolding eq at map_of_collect by (simp split: option.split)
      qed
    qed
  next
    fix h assume "\<forall>(b', ws') \<in> set ((b, ws) # bs). h \<notin> set ws'"
    with IH show "map_of found h = map_of out h" by (auto simp: map_of_collect)
  qed
qed simp

lemma read_blocks_Inl:
  "foldE (read_block env) out bs = Inl e \<Longrightarrow> \<exists>b \<in> set (map_keys bs). cr_block env b = Rejected e \<or> cr_receipts env b = Rejected e"
  by (induction bs arbitrary: out) (auto simp: bindE_Inl read_block_def split: outcome.splits)

text \<open>Attaching factories, with the cache read as a plain map.\<close>

fun with_factories :: "(string \<Rightarrow> string option) \<Rightarrow> string list \<Rightarrow> tx_context \<Rightarrow> tx_context" where
  "with_factories f [] c = c"
| "with_factories f (p # ps) c =
     with_factories f ps (case f p of Some v \<Rightarrow> (if v \<noteq> [] then c\<lparr>tc_factories := map_set p v (tc_factories c)\<rparr> else c) | None \<Rightarrow> c)"

lemma with_factories_cong: "(\<And>p. p \<in> set ps \<Longrightarrow> f p = g p) \<Longrightarrow> with_factories f ps c = with_factories g ps c"
  by (induction ps arbitrary: c) simp_all

lemma attach_factories_eq:
  "attach_factories ps c m = (with_factories (map_of m) ps c, snd (attach_factories ps c m)) \<and>
   map_of (snd (attach_factories ps c m)) = map_of m"
proof (induction ps arbitrary: c m)
  case (Cons p ps)
  obtain f m' where g: "lru_get p m = (f, m')" by fastforce
  then have "f = map_of m p" "map_of m' = map_of m" using lru_get_hit [of p m] lru_get_map_of [of p m] by simp_all
  with Cons [of _ m'] g show ?case by simp
qed simp

lemma answer_all:
  assumes "foldl (answer_tx found) (out, m) txs = (out', m')"
  shows "map_of m' = map_of m \<and> (\<forall>h. map_of out' h = (if h \<in> xr_txHash ` set txs
      then Some (map_option (\<lambda>c. with_factories (map_of m) (pools_in c) c) (map_of found (map to_lower h))) else map_of out h))"
  using assms
proof (induction txs arbitrary: out m)
  case (Cons t txs)
  obtain out1 m1 where step: "answer_tx found (out, m) t = (out1, m1)" by fastforce
  have one: "map_of m1 = map_of m" "map_of out1 = (map_of out)(xr_txHash t \<mapsto>
      map_option (\<lambda>c. with_factories (map_of m) (pools_in c) c) (map_of found (map to_lower (xr_txHash t))))"
    using step attach_factories_eq [of _ _ m]
    by (auto simp: answer_tx_def fun_eq_iff split: option.splits prod.splits) (metis prod.inject snd_conv)+
  have "foldl (answer_tx found) (out1, m1) txs = (out', m')" using Cons.prems step by simp
  from Cons.IH [OF this] one show ?case by auto
qed simp

text \<open>What the factory call of a pool tells: its factory, or nothing.\<close>

definition told_factory :: "chain_reads \<Rightarrow> string \<Rightarrow> string option" where
  "told_factory env p =
     (case cr_factory env p of
        Fulfilled (Some dat) \<Rightarrow> if length dat \<ge> 42 then Some (factory_of dat) else None
      | _ \<Rightarrow> None)"

lemma factory_answer_factories:
  "cx_factories (factory_answer env clock st p) =
     (case told_factory env p of Some f \<Rightarrow> lru_set CACHE_MAX p f (cx_factories st) | None \<Rightarrow> cx_factories st)"
  "cx_codes (factory_answer env clock st p) = cx_codes st"
  by (auto simp: factory_answer_def told_factory_def split: outcome.split option.split)

lemma factory_answers:
  assumes "recent CACHE_MAX K (cx_factories st)" "K \<subseteq> P" "set ps \<subseteq> P" "finite P" "card P \<le> CACHE_MAX"
  shows "recent CACHE_MAX {} (cx_factories (foldl (factory_answer env clock) st ps)) \<and>
    cx_codes (foldl (factory_answer env clock) st ps) = cx_codes st \<and>
    (\<forall>p. p \<in> K \<or> map_of (cx_factories st) p = None \<longrightarrow>
       map_of (cx_factories (foldl (factory_answer env clock) st ps)) p =
         (if p \<in> set ps \<and> told_factory env p \<noteq> None then told_factory env p else map_of (cx_factories st) p))"
  using assms
proof (induction ps arbitrary: st K)
  case Nil
  then show ?case by (auto intro: recent_weaken)
next
  case (Cons q ps)
  let ?st = "factory_answer env clock st q"
  show ?case
  proof (cases "told_factory env q")
    case None
    then have same: "cx_factories ?st = cx_factories st" "cx_codes ?st = cx_codes st"
      by (simp_all add: factory_answer_factories)
    have "recent CACHE_MAX K (cx_factories ?st)" using Cons.prems(1) same by simp
    from Cons.IH [OF this Cons.prems(2) _ Cons.prems(4,5)] Cons.prems(3) None same show ?thesis by auto
  next
    case (Some f)
    let ?m = "cx_factories st"
    have new: "cx_factories ?st = lru_set CACHE_MAX q f ?m" "cx_codes ?st = cx_codes st"
      using Some by (simp_all add: factory_answer_factories)
    have K: "insert q K \<subseteq> P" "finite K" using Cons.prems(2,3,4) finite_subset by auto
    have card: "card (insert q K) \<le> CACHE_MAX"
      using card_mono [OF Cons.prems(4) K(1)] Cons.prems(5) by simp
    have r: "recent CACHE_MAX (insert q K) (cx_factories ?st)"
      unfolding new by (rule recent_set [OF Cons.prems(1) K(2) card])
    have q: "map_of (cx_factories ?st) q = Some f" unfolding new by (rule recent_set_keys [OF Cons.prems(1) K(2) card])
    have other: "map_of (cx_factories ?st) p = map_of ?m p" if "p \<noteq> q" "p \<in> K \<or> map_of ?m p = None" for p
    proof -
      have put: "map_of (cx_factories ?st) p \<in> {None, map_of ?m p}"
        unfolding new by (rule lru.put_other [OF recentD(1) [OF Cons.prems(1)] that(1)])
      show ?thesis
      proof (cases "p \<in> K")
        case True
        then have "map_has p (cx_factories ?st)" using recentD(3) [OF r] by auto
        then show ?thesis using put map_has_iff [of p "cx_factories ?st"] by auto
      next
        case False
        with that put show ?thesis by auto
      qed
    qed
    have "set ps \<subseteq> P" using Cons.prems(3) by simp
    note IH = Cons.IH [OF r K(1) this Cons.prems(4,5)]
    have "map_of (cx_factories (foldl (factory_answer env clock) ?st ps)) p =
        (if p \<in> set (q # ps) \<and> told_factory env p \<noteq> None then told_factory env p else map_of ?m p)"
      if p: "p \<in> K \<or> map_of ?m p = None" for p
    proof (cases "p = q")
      case True
      with IH Some q show ?thesis by auto
    next
      case False
      have "p \<in> insert q K \<or> map_of (cx_factories ?st) p = None" using other [OF False p] p by auto
      with IH other [OF False p] False show ?thesis by auto
    qed
    with IH new show ?thesis by simp
  qed
qed

lemma forget_expired_simps [simp]:
  "cx_factories (forget_expired clock st) = cx_factories st" "cx_codes (forget_expired clock st) = cx_codes st"
  by (simp_all add: forget_expired_def)

text \<open>The factory of a pool as a round knows it: from the cache, or told now unless it is left alone.\<close>

definition known_factory :: "chain_reads \<Rightarrow> int \<Rightarrow> context_source \<Rightarrow> string \<Rightarrow> string option" where
  "known_factory env clock st p =
     (case map_of (cx_factories st) p of
        Some f \<Rightarrow> Some f
      | None \<Rightarrow> if default_to 0 (map_of (cx_unreadable st) p) \<le> clock then told_factory env p else None)"

definition round_pools :: "chain_reads \<Rightarrow> tx_ref list \<Rightarrow> string set" where
  "round_pools env txs =
     (\<Union>t \<in> set txs. case context_at env (xr_blockNumber t) (map to_lower (xr_txHash t)) of
        None \<Rightarrow> {} | Some c \<Rightarrow> set (pools_in c))"

definition one_block_each :: "tx_ref list \<Rightarrow> bool" where
  "one_block_each txs \<longleftrightarrow> (\<forall>t \<in> set txs. \<forall>u \<in> set txs.
     map to_lower (xr_txHash t) = map to_lower (xr_txHash u) \<longrightarrow> xr_blockNumber t = xr_blockNumber u)"

lemma found_contexts:
  assumes "foldE (read_block env) [] (by_block txs) = Inr found" "one_block_each txs"
  shows "t \<in> set txs \<Longrightarrow> map_of found (map to_lower (xr_txHash t)) = context_at env (xr_blockNumber t) (map to_lower (xr_txHash t))"
    and "map_of found h = Some c \<Longrightarrow> \<exists>t \<in> set txs. h = map to_lower (xr_txHash t)"
proof -
  have bs: "distinct (map_keys (by_block txs))" using by_block_spec [of txs] by simp
  have ws: "set ws = wanted_in txs b" if "(b, ws) \<in> set (by_block txs)" for b ws
  proof -
    have "map_of (by_block txs) b = Some ws" using bs that by simp
    then show ?thesis using by_block_spec [of txs] by (auto simp: default_to_def dest: spec [of _ b])
  qed
  have disj: "b = b'" if "(b, ws) \<in> set (by_block txs)" "(b', ws') \<in> set (by_block txs)" "h \<in> set ws" "h \<in> set ws'" for b ws b' ws' h
    using that assms(2) ws unfolding one_block_each_def wanted_in_def by (auto; metis)
  have r: "(\<forall>(b, ws) \<in> set (by_block txs). \<forall>h \<in> set ws. map_of found h = (case context_at env b h of None \<Rightarrow> map_of [] h | c \<Rightarrow> c)) \<and>
    (\<forall>h. (\<forall>(b, ws) \<in> set (by_block txs). h \<notin> set ws) \<longrightarrow> map_of found h = map_of [] h)"
    by (rule read_blocks [OF assms(1) bs]) (rule disj)
  show "map_of found (map to_lower (xr_txHash t)) = context_at env (xr_blockNumber t) (map to_lower (xr_txHash t))"
    if t: "t \<in> set txs" for t
  proof -
    have "map_has (xr_blockNumber t) (by_block txs)" using by_block_spec [of txs] t by auto
    then obtain ws0 where mem: "(xr_blockNumber t, ws0) \<in> set (by_block txs)" by auto
    moreover have "map to_lower (xr_txHash t) \<in> set ws0" unfolding ws [OF mem] wanted_in_def using t by blast
    ultimately have "map_of found (map to_lower (xr_txHash t)) =
        (case context_at env (xr_blockNumber t) (map to_lower (xr_txHash t)) of None \<Rightarrow> map_of [] (map to_lower (xr_txHash t)) | c \<Rightarrow> c)"
      using r by blast
    then show ?thesis by (simp split: option.splits)
  qed
  show "\<exists>t \<in> set txs. h = map to_lower (xr_txHash t)" if f: "map_of found h = Some c"
  proof (rule ccontr)
    assume no: "\<not> ?thesis"
    have "h \<notin> set ws" if "(b, ws) \<in> set (by_block txs)" for b ws
      unfolding ws [OF that] wanted_in_def using no by auto
    with r have "map_of found h = map_of [] h" by blast
    with f show False by simp
  qed
qed

definition honest_factories :: "chain_reads \<Rightarrow> (string \<Rightarrow> string) \<Rightarrow> bool" where
  "honest_factories env truth \<longleftrightarrow> (\<forall>p f. told_factory env p = Some f \<longrightarrow> f = truth p)"

text \<open>The cached factories are those the chain tells; the cache is in order.\<close>

definition factories_ok :: "(string \<Rightarrow> string) \<Rightarrow> context_source \<Rightarrow> bool" where
  "factories_ok truth st \<longleftrightarrow> recent CACHE_MAX {} (cx_factories st) \<and>
     (\<forall>p f. map_of (cx_factories st) p = Some f \<longrightarrow> f = truth p)"

lemma factories_true_answers:
  assumes "factories_ok truth st" "\<And>p f. told_factory env p = Some f \<Longrightarrow> f = truth p"
  shows "factories_ok truth (foldl (factory_answer env clock) st ps)"
  using assms(1)
proof (induction ps arbitrary: st)
  case (Cons q ps)
  have "factories_ok truth (factory_answer env clock st q)"
  proof (cases "told_factory env q")
    case None
    with Cons.prems show ?thesis by (simp add: factories_ok_def factory_answer_factories)
  next
    case (Some f)
    let ?m = "lru_set CACHE_MAX q f (cx_factories st)"
    have r: "recent CACHE_MAX {} (cx_factories st)" and t: "\<And>p f. map_of (cx_factories st) p = Some f \<Longrightarrow> f = truth p"
      using Cons.prems by (simp_all add: factories_ok_def)
    have "recent CACHE_MAX {} ?m"
      by (rule recent_empty) (rule lru.put_distinct [OF recentD(1) [OF r]], rule lru.put_bound [OF recentD(2) [OF r]])
    moreover have "g = truth p" if g: "map_of ?m p = Some g" for p g
    proof (cases "p = q")
      case True
      with g lru.put_same [OF recentD(1,2) [OF r], of q f] assms(2) [OF Some] show ?thesis by auto
    next
      case False
      with g lru.put_other [OF recentD(1) [OF r] False, of CACHE_MAX f] t show ?thesis by auto
    qed
    ultimately show ?thesis using Some by (simp add: factories_ok_def factory_answer_factories)
  qed
  with Cons.IH show ?case by simp
qed simp

lemma recent_attach: "recent bound {} m \<Longrightarrow> recent bound {} (snd (attach_factories ps c m))"
proof (induction ps arbitrary: c m)
  case (Cons p ps)
  have "recent bound {} (snd (lru_get p m))" using recent_lru_get [OF Cons.prems, of p] by (rule recent_weaken)
  with Cons.IH show ?case by (cases "lru_get p m") simp
qed simp

lemma recent_answer_all:
  "foldl (answer_tx found) (out, m) txs = (out', m') \<Longrightarrow> recent bound {} m \<Longrightarrow> recent bound {} m'"
proof (induction txs arbitrary: out m)
  case (Cons t txs)
  obtain out1 m1 where step: "answer_tx found (out, m) t = (out1, m1)" by fastforce
  have "recent bound {} m1"
    using step Cons.prems(2) recent_attach [OF Cons.prems(2)]
    by (auto simp: answer_tx_def split: option.splits prod.splits) (metis snd_conv)
  with Cons step show ?case by simp
qed simp

lemma distinct_found: "foldE (read_block env) out bs = Inr found \<Longrightarrow> distinct (map_keys out) \<Longrightarrow> distinct (map_keys found)"
proof (induction bs arbitrary: out)
  case (Cons bw bs)
  have "distinct (map_keys (collect block rs ws out))" for block rs ws
    using Cons.prems(2) unfolding collect_def
    by (induction block arbitrary: out) (auto simp: collect_tx_def Let_def distinct_update split: option.split)
  with Cons show ?case by (cases bw) (auto simp: bindE_Inr read_block_Inr)
qed simp

text \<open>
  C29: The contexts of a round are exact: each transaction is answered with what its block and its
  receipt say, or with nothing when the block does not hold it, and its pools carry the factory
  the chain tells, from the cache or asked now; a pool that could not tell is left alone for a
  while. A round only fails when a read was rejected, and then changes nothing.
\<close>

theorem contexts_exact:
  assumes "factories_ok truth st" "honest_factories env truth" "one_block_each txs" "card (round_pools env txs) \<le> CACHE_MAX"
    "contexts env clock txs st = (r, st')"
  shows "case r of
      Inl e \<Rightarrow> st' = st \<and> (\<exists>t \<in> set txs. cr_block env (xr_blockNumber t) = Rejected e \<or> cr_receipts env (xr_blockNumber t) = Rejected e)
    | Inr out \<Rightarrow> cx_codes st' = cx_codes st \<and> factories_ok truth st' \<and>
        map_of out = (\<lambda>h. if h \<in> xr_txHash ` set txs
          then Some (map_option (\<lambda>c. with_factories (known_factory env clock st) (pools_in c) c)
                 (context_at env (xr_blockNumber (hd (filter (\<lambda>t. xr_txHash t = h) txs))) (map to_lower h)))
          else None)"
proof (cases "foldE (read_block env) [] (by_block txs)")
  case (Inl e)
  then have "r = Inl e" "st' = st" using assms(5) by (simp_all add: contexts_def)
  moreover have "\<exists>t \<in> set txs. cr_block env (xr_blockNumber t) = Rejected e \<or> cr_receipts env (xr_blockNumber t) = Rejected e"
  proof -
    obtain b where b: "b \<in> set (map_keys (by_block txs))" "cr_block env b = Rejected e \<or> cr_receipts env b = Rejected e"
      using read_blocks_Inl [OF Inl] by blast
    then have "b \<in> xr_blockNumber ` set txs" using by_block_spec [of txs] by (simp only:)
    with b(2) show ?thesis by blast
  qed
  ultimately show ?thesis by simp
next
  case (Inr found)
  let ?all = "set_of_list (concat (map (\<lambda>(_, c). pools_in c) found))"
  obtain pools m where u: "unknown_keys (\<lambda>p. default_to 0 (map_of (cx_unreadable st) p) \<le> clock) ?all (cx_factories st) = (pools, m)"
    by fastforce
  let ?st = "foldl (factory_answer env clock) (st\<lparr>cx_factories := m\<rparr>) pools"
  obtain out m2 where o: "foldl (answer_tx found) ([], cx_factories ?st) txs = (out, m2)" by fastforce
  have run: "r = Inr out" "cx_codes st' = cx_codes ?st" "cx_factories st' = m2" using assms(5) Inr u o by (auto simp: contexts_def Let_def)
  have rec: "recent CACHE_MAX {} (cx_factories st)" using assms(1) by (simp add: factories_ok_def)
  note us = unknown_keys_spec [OF u rec, simplified]
  note fc = found_contexts [OF Inr assms(3)]
  have all: "set ?all = round_pools env txs"
  proof -
    have d: "distinct (map_keys found)" by (rule distinct_found [OF Inr]) simp
    have "set ?all \<subseteq> round_pools env txs"
    proof
      fix p assume "p \<in> set ?all"
      then obtain h c where hc: "(h, c) \<in> set found" "p \<in> set (pools_in c)" by auto
      then have f: "map_of found h = Some c" using d by simp
      obtain t where t: "t \<in> set txs" "h = map to_lower (xr_txHash t)" using fc(2) [OF f] by blast
      then have "context_at env (xr_blockNumber t) (map to_lower (xr_txHash t)) = Some c" using fc(1) f by simp
      then show "p \<in> round_pools env txs" unfolding round_pools_def using t(1) hc(2) by force
    qed
    moreover have "round_pools env txs \<subseteq> set ?all"
    proof
      fix p assume "p \<in> round_pools env txs"
      then obtain t c where t: "t \<in> set txs" "context_at env (xr_blockNumber t) (map to_lower (xr_txHash t)) = Some c" "p \<in> set (pools_in c)"
        unfolding round_pools_def by (auto split: option.splits)
      then have "map_of found (map to_lower (xr_txHash t)) = Some c" using fc(1) by simp
      then have "(map to_lower (xr_txHash t), c) \<in> set found" by (rule map_of_SomeD)
      with t(3) show "p \<in> set ?all" by force
    qed
    ultimately show ?thesis by (rule equalityI)
  qed
  define A where "A = set ?all"
  define K where "K = {k \<in> A. map_has k (cx_factories st)}"
  have m: "map_of m = map_of (cx_factories st)" "recent CACHE_MAX K m" using us unfolding K_def A_def by simp_all
  have pools: "p \<in> set pools \<longleftrightarrow> p \<in> A \<and> map_of (cx_factories st) p = None \<and> default_to 0 (map_of (cx_unreadable st) p) \<le> clock" for p
    using us unfolding A_def by auto
  have card: "card A \<le> CACHE_MAX" unfolding A_def all by (rule assms(4))
  have fin: "finite A" unfolding A_def by (rule List.finite_set)
  have sub: "K \<subseteq> A" "set pools \<subseteq> A" using pools by (auto simp: K_def)
  have sel: "cx_factories (st\<lparr>cx_factories := m\<rparr>) = m" "cx_codes (st\<lparr>cx_factories := m\<rparr>) = cx_codes st" by simp_all
  note fa = factory_answers [of K "st\<lparr>cx_factories := m\<rparr>" A pools env clock, unfolded sel, OF m(2) sub fin card]
  have f: "cx_codes ?st = cx_codes st"
    "p \<in> K \<or> map_of m p = None \<Longrightarrow> map_of (cx_factories ?st) p =
       (if p \<in> set pools \<and> told_factory env p \<noteq> None then told_factory env p else map_of m p)" for p
    using fa by blast+
  have known: "map_of (cx_factories ?st) p = known_factory env clock st p" if p: "p \<in> A" for p
  proof -
    have "p \<in> K \<or> map_of m p = None" using p m(1) map_has_iff [of p "cx_factories st"] by (auto simp: K_def)
    from f(2) [OF this] show ?thesis using pools [of p] p unfolding m(1) by (auto simp: known_factory_def split: option.split)
  qed
  have ctx: "map_of found (map to_lower h) = context_at env (xr_blockNumber (hd (filter (\<lambda>t. xr_txHash t = h) txs))) (map to_lower h)"
    if h: "h \<in> xr_txHash ` set txs" for h
  proof -
    let ?t = "hd (filter (\<lambda>t. xr_txHash t = h) txs)"
    have "filter (\<lambda>t. xr_txHash t = h) txs \<noteq> []" using h by (auto simp: filter_empty_conv)
    then have "?t \<in> set (filter (\<lambda>t. xr_txHash t = h) txs)" by (rule hd_in_set)
    then have "?t \<in> set txs" "xr_txHash ?t = h" by simp_all
    with fc(1) [of ?t] show ?thesis by simp
  qed
  have "with_factories (map_of (cx_factories ?st)) (pools_in c) c = with_factories (known_factory env clock st) (pools_in c) c"
    if "map_of found h = Some c" for h c
  proof (rule with_factories_cong)
    fix p assume "p \<in> set (pools_in c)"
    moreover have "(h, c) \<in> set found" using that by (rule map_of_SomeD)
    ultimately have "p \<in> A" unfolding A_def by force
    then show "map_of (cx_factories ?st) p = known_factory env clock st p" by (rule known)
  qed
  then have "map_of out = (\<lambda>h. if h \<in> xr_txHash ` set txs
      then Some (map_option (\<lambda>c. with_factories (known_factory env clock st) (pools_in c) c) (map_of found (map to_lower h))) else None)"
    using answer_all [OF o] by (auto simp: fun_eq_iff intro!: option.map_cong0 dest: sym)
  moreover have "factories_ok truth (st\<lparr>cx_factories := m\<rparr>)"
    using assms(1) m recent_weaken [OF m(2)] by (simp add: factories_ok_def)
  then have fst: "factories_ok truth ?st" by (rule factories_true_answers) (use assms(2) in \<open>auto simp: honest_factories_def\<close>)
  then have "recent CACHE_MAX {} m2" unfolding factories_ok_def by (intro recent_answer_all [OF o]) simp
  then have "factories_ok truth st'" using fst answer_all [OF o] run(3) by (simp add: factories_ok_def)
  ultimately show ?thesis using run f(1) ctx by (simp add: fun_eq_iff)
qed

theorem contexts_exact_witness:
  "\<exists>out st'. contexts (sample_reads\<lparr>cr_block := (\<lambda>_. Fulfilled [\<lparr>ct_hash = ''0xA'', ct_to = None, ct_from = ''0xF'', ct_input = None, ct_value = 0\<rparr>]),
       cr_receipts := (\<lambda>_. Fulfilled [\<lparr>re_transactionHash = ''0xa'', re_logs = []\<rparr>])\<rparr>) 0
     [\<lparr>xr_txHash = ''0xa'', xr_blockNumber = 7\<rparr>] new_context_source = (Inr out, st') \<and>
     map_of out ''0xa'' = Some (Some \<lparr>tc_to = None, tc_selector = ''0x'', tc_topics = [], tc_sender = ''0xf'', tc_emitters = [],
       tc_factories = [], tc_valueSent = Some False\<rparr>)"
proof -
  let ?env = "sample_reads\<lparr>cr_block := (\<lambda>_. Fulfilled [\<lparr>ct_hash = ''0xA'', ct_to = None, ct_from = ''0xF'', ct_input = None, ct_value = 0\<rparr>]),
       cr_receipts := (\<lambda>_. Fulfilled [\<lparr>re_transactionHash = ''0xa'', re_logs = []\<rparr>])\<rparr>"
  let ?txs = "[\<lparr>xr_txHash = ''0xa'', xr_blockNumber = 7\<rparr>]"
  let ?c = "\<lparr>tc_to = None, tc_selector = ''0x'', tc_topics = [], tc_sender = ''0xf'', tc_emitters = [],
       tc_factories = [], tc_valueSent = Some False\<rparr>"
  obtain r st' where run: "contexts ?env 0 ?txs new_context_source = (r, st')" by fastforce
  have at: "context_at ?env b (map to_lower ''0xa'') = Some ?c" for b
  proof -
    have "block_context [\<lparr>ct_hash = ''0xA'', ct_to = None, ct_from = ''0xF'', ct_input = None, ct_value = 0\<rparr>]
        [\<lparr>re_transactionHash = ''0xa'', re_logs = []\<rparr>] (map to_lower ''0xa'') = Some ?c" by code_simp
    then show ?thesis by (simp add: context_at_def)
  qed
  have none: "pools_in ?c = []" by (simp add: pools_in_def set_of_list_def)
  then have pools: "round_pools ?env ?txs = {}" using at by (simp add: round_pools_def)
  have "factories_ok (\<lambda>_. ''0x'' @ replicate 40 (CHR ''a'')) new_context_source"
    by (simp add: factories_ok_def new_context_source_def recent_empty)
  moreover have "told_factory ?env p = Some (''0x'' @ replicate 40 (CHR ''a''))" for p
    by (simp add: told_factory_def sample_reads_def factory_of_def) code_simp
  then have "honest_factories ?env (\<lambda>_. ''0x'' @ replicate 40 (CHR ''a''))" by (simp add: honest_factories_def)
  moreover have "one_block_each ?txs" by (simp add: one_block_each_def)
  moreover have "card (round_pools ?env ?txs) \<le> CACHE_MAX" unfolding pools by simp
  ultimately have "case r of
      Inl e \<Rightarrow> st' = new_context_source \<and> (\<exists>t \<in> set ?txs. cr_block ?env (xr_blockNumber t) = Rejected e \<or> cr_receipts ?env (xr_blockNumber t) = Rejected e)
    | Inr out \<Rightarrow> cx_codes st' = cx_codes new_context_source \<and>
        factories_ok (\<lambda>_. ''0x'' @ replicate 40 (CHR ''a'')) st' \<and>
        map_of out = (\<lambda>h. if h \<in> xr_txHash ` set ?txs
          then Some (map_option (\<lambda>c. with_factories (known_factory ?env 0 new_context_source) (pools_in c) c)
                 (context_at ?env (xr_blockNumber (hd (filter (\<lambda>t. xr_txHash t = h) ?txs))) (map to_lower h)))
          else None)"
    by (rule contexts_exact [OF _ _ _ _ run])
  then obtain out where out: "r = Inr out" "map_of out ''0xa'' = Some (Some ?c)"
    using at none by (cases r) simp_all
  with run show ?thesis by blast
qed

subsection \<open>Tokens\<close>

lemma read_attempts_spec:
  "case read_attempts attempts call i of (r, ws) \<Rightarrow>
     ws = map (\<lambda>j. 1000 * 2 ^ j) [i..<i + length ws] \<and>
     list_all (\<lambda>j. case call j of Inl e \<Rightarrow> \<not> isDefiniteNo e \<and> j + 1 < attempts | Inr _ \<Rightarrow> False) [i..<i + length ws] \<and>
     (case call (i + length ws) of Inr v \<Rightarrow> r = Some v | Inl e \<Rightarrow> r = None \<and> (isDefiniteNo e \<or> i + length ws + 1 \<ge> attempts))"
proof (induction attempts call i rule: read_attempts.induct)
  case (1 attempts call i)
  show ?case
  proof (cases "call i")
    case (Inr v)
    then show ?thesis by (simp add: read_attempts.simps [of attempts call i])
  next
    case (Inl e)
    show ?thesis
    proof (cases "isDefiniteNo e \<or> i + 1 \<ge> attempts")
      case True
      with Inl show ?thesis by (simp add: read_attempts.simps [of attempts call i])
    next
      case False
      obtain r ws where rest: "read_attempts attempts call (i + 1) = (r, ws)" by fastforce
      then have run: "read_attempts attempts call i = (r, 1000 * 2 ^ i # ws)"
        using Inl False by (simp add: read_attempts.simps [of attempts call i])
      have "[i..<i + length (1000 * 2 ^ i # ws)] = i # [i + 1..<i + 1 + length ws]" by (simp add: upt_rec)
      moreover have "i + length (1000 * 2 ^ i # ws) = i + 1 + length ws" by simp
      ultimately show ?thesis
        using "1.IH" [OF Inl False] Inl False unfolding rest run prod.case
        by (simp del: upt_Suc split: sum.splits)
    qed
  qed
qed

text \<open>
  C30: Reading a token's symbol or decimals gives up only on the contract's own no or after the last
  attempt: until then every error was of the endpoint, each retry waited a second doubled, and an
  answer that came is the one returned.
\<close>

theorem read_attempts_patient:
  "case read_attempts attempts call 0 of (r, ws) \<Rightarrow>
     ws = map (\<lambda>j. 1000 * 2 ^ j) [0..<length ws] \<and> length ws < max attempts 1 \<and>
     list_all (\<lambda>j. case call j of Inl e \<Rightarrow> \<not> isDefiniteNo e | Inr _ \<Rightarrow> False) [0..<length ws] \<and>
     (case call (length ws) of Inr v \<Rightarrow> r = Some v | Inl e \<Rightarrow> r = None \<and> (isDefiniteNo e \<or> length ws + 1 = max attempts 1))"
proof -
  obtain r ws where run: "read_attempts attempts call 0 = (r, ws)" by fastforce
  note spec = read_attempts_spec [where attempts = attempts and call = call and i = 0, unfolded run prod.case add_0]
  have len: "length ws < max attempts 1"
  proof (cases ws)
    case (Cons w ws')
    then have "length ws' \<in> set [0..<length ws]" by simp
    with spec have "case call (length ws') of Inl e \<Rightarrow> \<not> isDefiniteNo e \<and> length ws' + 1 < attempts | Inr _ \<Rightarrow> False"
      unfolding list_all_iff by blast
    then show ?thesis using Cons by (simp split: sum.splits)
  qed simp
  have "list_all (\<lambda>j. case call j of Inl e \<Rightarrow> \<not> isDefiniteNo e | Inr _ \<Rightarrow> False) [0..<length ws]"
    using spec unfolding list_all_iff by (fastforce split: sum.splits)
  moreover have "case call (length ws) of Inr v \<Rightarrow> r = Some v | Inl e \<Rightarrow> r = None \<and> (isDefiniteNo e \<or> length ws + 1 = max attempts 1)"
    using spec len by (auto split: sum.splits)
  ultimately show ?thesis using spec len unfolding run by simp
qed

end
