(* ===== verification/Transaction.thy ===== *)
theory Transaction
  imports Prelude
begin

text \<open>
  Transactions on a connection that may break before any statement and may lose the
  acknowledgement of \<open>COMMIT\<close>, over any state: the tables of the indexer (\<open>Database\<close>) and those
  of the insight loop (\<open>InsightsDb\<close>) are two of them.
\<close>

subsection \<open>Transactions on a connection that may fail\<close>

datatype fault = NoFault | FailAt nat | AckLost

record 's conn =
  cn_db :: 's
  cn_sent :: nat

type_synonym ('s, 'a) txs = "fault \<Rightarrow> 's conn \<Rightarrow> (failure + 'a) \<times> 's conn"

definition connection_lost :: failure where
  "connection_lost = PlainError ''Connection terminated unexpectedly''"

definition query :: "('s \<Rightarrow> (failure + 'a) \<times> 's) \<Rightarrow> ('s, 'a) txs" where
  "query op flt c =
     (if flt = FailAt (cn_sent c) then (Inl connection_lost, c)
      else (case op (cn_db c) of (r, d) \<Rightarrow> (r, c\<lparr>cn_db := d, cn_sent := Suc (cn_sent c)\<rparr>)))"

definition returnT :: "'a \<Rightarrow> ('s, 'a) txs" where
  "returnT a flt c = (Inr a, c)"

definition throwT :: "failure \<Rightarrow> ('s, 'a) txs" where
  "throwT e flt c = (Inl e, c)"

definition bindT :: "('s, 'a) txs \<Rightarrow> ('a \<Rightarrow> ('s, 'b) txs) \<Rightarrow> ('s, 'b) txs" where
  "bindT m f flt c = (case m flt c of (Inl e, c') \<Rightarrow> (Inl e, c') | (Inr a, c') \<Rightarrow> f a flt c')"

fun mapT :: "('a \<Rightarrow> ('s, 'b) txs) \<Rightarrow> 'a list \<Rightarrow> ('s, 'b list) txs" where
  "mapT f [] = returnT []"
| "mapT f (x # xs) = bindT (f x) (\<lambda>y. bindT (mapT f xs) (\<lambda>ys. returnT (y # ys)))"

text \<open>
  \<open>BEGIN\<close>, the body, then \<open>COMMIT\<close>, or \<open>ROLLBACK\<close> and the error. \<open>undo before work\<close> is what a
  rollback leaves: the state before, and what the server keeps outside transactions.
\<close>

definition transaction_with :: "('s \<Rightarrow> 's \<Rightarrow> 's) \<Rightarrow> fault \<Rightarrow> ('s, 'a) txs \<Rightarrow> 's \<Rightarrow> (failure + 'a) \<times> 's" where
  "transaction_with undo flt body d =
     (if flt = FailAt 0 then (Inl connection_lost, d)
      else (case body flt \<lparr>cn_db = d, cn_sent = 1\<rparr> of
          (Inl e, c) \<Rightarrow> (Inl e, undo d (cn_db c))
        | (Inr a, c) \<Rightarrow>
            if flt = FailAt (cn_sent c) then (Inl connection_lost, undo d (cn_db c))
            else if flt = AckLost then (Inl connection_lost, cn_db c)
            else (Inr a, cn_db c)))"

subsection \<open>Reasoning about transactions\<close>

lemma bindT_Inr [err_simps]:
  "bindT m f flt c = (Inr b, c') \<longleftrightarrow> (\<exists>a c1. m flt c = (Inr a, c1) \<and> f a flt c1 = (Inr b, c'))"
  by (auto simp: bindT_def split: prod.splits sum.splits)

lemma bindT_Inl:
  "bindT m f flt c = (Inl e, c') \<longleftrightarrow>
     m flt c = (Inl e, c') \<or> (\<exists>a c1. m flt c = (Inr a, c1) \<and> f a flt c1 = (Inl e, c'))"
  by (auto simp: bindT_def split: prod.splits sum.splits)

lemma returnT_eq [err_simps]: "returnT a flt c = (r, c') \<longleftrightarrow> r = Inr a \<and> c' = c"
  by (auto simp: returnT_def)

lemma throwT_eq [err_simps]: "throwT e flt c = (r, c') \<longleftrightarrow> r = Inl e \<and> c' = c"
  by (auto simp: throwT_def)

lemma query_Inr [err_simps]:
  "query op flt c = (Inr a, c') \<longleftrightarrow>
     flt \<noteq> FailAt (cn_sent c) \<and> (\<exists>d. op (cn_db c) = (Inr a, d) \<and> c' = \<lparr>cn_db = d, cn_sent = Suc (cn_sent c)\<rparr>)"
  by (cases c) (auto simp: query_def split: prod.splits)

text \<open>A body that got through met no fault: without faults it does the same.\<close>

definition fault_free :: "('s, 'a) txs \<Rightarrow> bool" where
  "fault_free m \<longleftrightarrow> (\<forall>flt c a c'. m flt c = (Inr a, c') \<longrightarrow> m NoFault c = (Inr a, c'))"

lemma fault_free_query [intro, simp]: "fault_free (query op)"
  by (auto simp: fault_free_def query_Inr)

lemma fault_free_return [intro, simp]: "fault_free (returnT a)"
  by (auto simp: fault_free_def returnT_eq)

lemma fault_free_throw [intro, simp]: "fault_free (throwT e)"
  by (auto simp: fault_free_def throwT_eq)

lemma fault_free_bind [intro]: "fault_free m \<Longrightarrow> (\<And>a. fault_free (f a)) \<Longrightarrow> fault_free (bindT m f)"
  unfolding fault_free_def bindT_Inr by blast

lemma fault_free_mapT [intro]: "(\<And>x. fault_free (f x)) \<Longrightarrow> fault_free (mapT f xs)"
  by (induction xs) (auto intro!: fault_free_bind)

lemma mapT_Cons_Inr [err_simps]:
  "mapT f (x # xs) flt c = (Inr ys, c'') \<longleftrightarrow>
     (\<exists>b bs c'. f x flt c = (Inr b, c') \<and> mapT f xs flt c' = (Inr bs, c'') \<and> ys = b # bs)"
  by (auto simp: bindT_Inr returnT_eq)

lemma mapT_Nil_Inr [err_simps]: "mapT f [] flt c = (Inr ys, c') \<longleftrightarrow> ys = [] \<and> c' = c"
  by (auto simp: returnT_eq)

lemma mapT_invariant:
  assumes "mapT f xs flt c = (Inr ys, c')" "P (cn_db c)"
    "\<And>x c b c'. x \<in> set xs \<Longrightarrow> P (cn_db c) \<Longrightarrow> f x flt c = (Inr b, c') \<Longrightarrow> P (cn_db c')"
  shows "P (cn_db c')"
  using assms
proof (induction xs arbitrary: c ys)
  case (Cons x xs)
  then obtain b bs c1 where "f x flt c = (Inr b, c1)" "mapT f xs flt c1 = (Inr bs, c')"
    by (auto simp: mapT_Cons_Inr simp del: mapT.simps)
  moreover from this have "P (cn_db c1)" using Cons.prems by (meson list.set_intros(1))
  ultimately show ?case using Cons.IH Cons.prems(3) by (meson list.set_intros(2))
qed (simp add: mapT_Nil_Inr returnT_eq)

lemma mapT_progress:
  assumes "P (cn_db c)"
    "\<And>x c. x \<in> set xs \<Longrightarrow> P (cn_db c) \<Longrightarrow> \<exists>b c'. f x NoFault c = (Inr b, c') \<and> P (cn_db c')"
  shows "\<exists>bs c'. mapT f xs NoFault c = (Inr bs, c') \<and> P (cn_db c')"
  using assms
proof (induction xs arbitrary: c)
  case (Cons x xs)
  obtain b c1 where 1: "f x NoFault c = (Inr b, c1)" "P (cn_db c1)"
    using Cons.prems(2) [of x c] Cons.prems(1) by auto
  obtain bs c2 where "mapT f xs NoFault c1 = (Inr bs, c2)" "P (cn_db c2)"
    using Cons.IH [OF 1(2)] Cons.prems(2) by auto
  with 1 show ?case by (auto simp: bindT_def returnT_def)
qed (auto simp: returnT_eq)

text \<open>What a body does to the tables whether or not it gets through.\<close>

definition tx_rel :: "('s \<Rightarrow> 's \<Rightarrow> bool) \<Rightarrow> ('s, 'a) txs \<Rightarrow> bool" where
  "tx_rel R m \<longleftrightarrow> (\<forall>flt c r c'. m flt c = (r, c') \<longrightarrow> R (cn_db c) (cn_db c'))"

lemma tx_relD: "tx_rel R m \<Longrightarrow> m flt c = (r, c') \<Longrightarrow> R (cn_db c) (cn_db c')"
  by (auto simp: tx_rel_def)

lemma tx_rel_query: "reflp R \<Longrightarrow> (\<And>d r d'. op d = (r, d') \<Longrightarrow> R d d') \<Longrightarrow> tx_rel R (query op)"
  by (auto simp: tx_rel_def query_def reflpD split: prod.splits if_splits)

lemma tx_rel_return [simp]: "reflp R \<Longrightarrow> tx_rel R (returnT a)"
  by (auto simp: tx_rel_def returnT_def reflpD)

lemma tx_rel_throw [simp]: "reflp R \<Longrightarrow> tx_rel R (throwT e)"
  by (auto simp: tx_rel_def throwT_def reflpD)

lemma tx_rel_bind: "transp R \<Longrightarrow> tx_rel R m \<Longrightarrow> (\<And>a. tx_rel R (f a)) \<Longrightarrow> tx_rel R (bindT m f)"
  unfolding tx_rel_def bindT_def
  by (fastforce split: prod.splits sum.splits dest: transpD)

lemma tx_rel_mapT: "reflp R \<Longrightarrow> transp R \<Longrightarrow> (\<And>x. tx_rel R (f x)) \<Longrightarrow> tx_rel R (mapT f xs)"
  by (induction xs) (auto intro!: tx_rel_bind)

lemmas tx_rel_intros = tx_rel_bind tx_rel_mapT tx_rel_return tx_rel_throw

text \<open>All or nothing, whatever the fault: a transaction ends in one of three ways.\<close>

lemma transaction_with_outcome:
  assumes "fault_free body" "transaction_with undo flt body d = (r, d')" and undo: "undo d d = d"
  obtains (committed) a c where "body NoFault \<lparr>cn_db = d, cn_sent = 1\<rparr> = (Inr a, c)" "r = Inr a" "d' = cn_db c"
      "transaction_with undo NoFault body d = (Inr a, d')" "flt \<noteq> AckLost"
    | (lost) a c e where "body NoFault \<lparr>cn_db = d, cn_sent = 1\<rparr> = (Inr a, c)" "r = Inl e" "d' = cn_db c"
      "transaction_with undo NoFault body d = (Inr a, d')" "flt = AckLost"
    | (rolled_back) e work where "r = Inl e" "d' = undo d work" "\<And>R. tx_rel R body \<Longrightarrow> reflp R \<Longrightarrow> R d work"
proof (cases "flt = FailAt 0")
  case True
  then have "r = Inl connection_lost" "d' = undo d d"
    using assms(2) undo by (simp_all add: transaction_with_def)
  then show thesis by (rule rolled_back) (simp_all add: reflpD)
next
  case False
  obtain res c where b: "body flt \<lparr>cn_db = d, cn_sent = 1\<rparr> = (res, c)" by (meson prod.exhaust_sel)
  have rel: "R d (cn_db c)" if "tx_rel R body" for R using tx_relD [OF that b] by simp
  show thesis
  proof (cases res)
    case (Inl e)
    then have "r = Inl e" "d' = undo d (cn_db c)" using assms(2) False b by (auto simp: transaction_with_def)
    then show thesis by (rule rolled_back) (rule rel)
  next
    case (Inr a)
    then have nf: "body NoFault \<lparr>cn_db = d, cn_sent = 1\<rparr> = (Inr a, c)"
      using assms(1) b by (auto simp: fault_free_def)
    then have nt: "transaction_with undo NoFault body d = (Inr a, cn_db c)" by (simp add: transaction_with_def)
    from assms(2) False b Inr have
      "(if flt = FailAt (cn_sent c) then (Inl connection_lost, undo d (cn_db c))
        else if flt = AckLost then (Inl connection_lost, cn_db c) else (Inr a, cn_db c)) = (r, d')"
      by (simp add: transaction_with_def)
    then show thesis
      using committed [OF nf] lost [OF nf] rolled_back [of _ "cn_db c"] rel nt by (auto split: if_splits)
  qed
qed

end
