(* ===== verification/Database.thy ===== *)
theory Database
  imports Decode Transaction
begin

text \<open>
  What the worker's SQL does to one schema. A statement is an operation on the record of the
  schema's tables that answers a result or an SQL error; a transaction runs on a working copy and
  either becomes the database or is dropped. The connection may break before any statement, and
  the acknowledgement of COMMIT may be lost after the server has done it.
\<close>

subsection \<open>The tables of a schema\<close>

record stored_row =
  sr_key :: "int \<times> int"                            \<comment> \<open>block_number, log_index\<close>
  sr_values :: "(string \<times> sql_value option) list"  \<comment> \<open>None is NULL\<close>

record dead_letter =
  dl_blockNumber :: "int option"
  dl_txHash :: "string option"
  dl_logIndex :: "int option"
  dl_address :: "string option"
  dl_topics :: "string list"
  dl_data :: "string option"
  dl_error :: string

record db =
  db_ddl :: "string list"                             \<comment> \<open>statements run: they tell which relations exist\<close>
  db_meta :: "(string \<times> string) list"
  db_cursor :: "int option"
  db_parts :: "(string \<times> string \<times> int \<times> int) list"  \<comment> \<open>name, table, bounds\<close>
  db_blocks :: "(int \<times> bytes \<times> int) list"
  db_addresses :: "(bytes \<times> int) list"
  db_nextId :: int                                    \<comment> \<open>the identity sequence, outside transactions\<close>
  db_rows :: "string \<Rightarrow> stored_row list"
  db_dead :: "dead_letter list"

definition empty_db :: db where
  "empty_db = \<lparr>db_ddl = [], db_meta = [], db_cursor = None, db_parts = [], db_blocks = [], db_addresses = [],
     db_nextId = 1, db_rows = (\<lambda>_. []), db_dead = []\<rparr>"

definition creates :: "string \<Rightarrow> string \<Rightarrow> string \<Rightarrow> bool" where
  "creates schema table s \<longleftrightarrow>
     startsWith (''CREATE TABLE IF NOT EXISTS '' @ quote_id schema @ ''.'' @ table @ '' ('') s \<or>
     startsWith (''CREATE TABLE IF NOT EXISTS '' @ quote_id schema @ ''.'' @ quote_id table @ '' ('') s"

text \<open>\<open>to_regclass(...) IS NOT NULL\<close>.\<close>

definition relation_exists :: "string \<Rightarrow> string \<Rightarrow> db \<Rightarrow> bool" where
  "relation_exists schema table d \<longleftrightarrow> list_ex (creates schema table) (db_ddl d)"

subsection \<open>Statements\<close>

type_synonym 'a statement = "db \<Rightarrow> (failure + 'a) \<times> db"

text \<open>A statement of the schema's own DDL; each can be run again (\<open>IF NOT EXISTS\<close>, \<open>OR REPLACE\<close>).\<close>

definition run_ddl :: "string \<Rightarrow> unit statement" where
  "run_ddl s d = (Inr (), d\<lparr>db_ddl := db_ddl d @ [s]\<rparr>)"

definition create_partition :: "string \<Rightarrow> string \<Rightarrow> string \<Rightarrow> int \<Rightarrow> int \<Rightarrow> unit statement" where
  "create_partition schema name table lo hi d =
     (if map_has name (db_parts d) then (Inr (), d)
      else if \<not> relation_exists schema table d then (Inl (SqlError ''42P01''), d)
      else if list_ex (\<lambda>(_, t, l, h). t = table \<and> l < hi \<and> lo < h) (db_parts d) then (Inl (SqlError ''42P17''), d)
      else (Inr (), d\<lparr>db_parts := db_parts d @ [(name, table, lo, hi)]\<rparr>))"

definition has_partition :: "db \<Rightarrow> string \<Rightarrow> int \<Rightarrow> bool" where
  "has_partition d table b \<longleftrightarrow> list_ex (\<lambda>(_, t, lo, hi). t = table \<and> lo \<le> b \<and> b < hi) (db_parts d)"

text \<open>Insert the unknown addresses; an identity value is consumed per inserted row.\<close>

fun insert_addresses :: "bytes list \<Rightarrow> unit statement" where
  "insert_addresses [] d = (Inr (), d)"
| "insert_addresses (a # as) d =
     (if map_has a (db_addresses d) then insert_addresses as d
      else if db_nextId d > 2147483647 then (Inl (SqlError ''2200H''), d)
      else insert_addresses as (d\<lparr>db_addresses := db_addresses d @ [(a, db_nextId d)], db_nextId := db_nextId d + 1\<rparr>))"

definition select_ids :: "bytes list \<Rightarrow> (bytes \<times> int) list statement" where
  "select_ids as d = (Inr (filter (\<lambda>(a, _). a \<in> set as) (db_addresses d)), d)"

text \<open>Reading an integer from text, as \<open>BigInt(s)\<close> and PostgreSQL's cast both do.\<close>

definition parse_int :: "string \<Rightarrow> int option" where
  "parse_int s =
     (case s of [] \<Rightarrow> None
      | c # cs \<Rightarrow>
          if c = CHR ''-'' then (if cs \<noteq> [] \<and> list_all is_digit cs then Some (- int (read_nat cs)) else None)
          else if list_all is_digit s then Some (int (read_nat s)) else None)"

definition cast_int :: "sql_value option \<Rightarrow> int option" where
  "cast_int v = (case v of Some (SText s) \<Rightarrow> parse_int s | Some (SNum i) \<Rightarrow> Some i | _ \<Rightarrow> None)"

definition insert_block :: "string \<times> bytes \<times> int \<Rightarrow> unit statement" where
  "insert_block blk d =
     (case blk of (text, hash, time) \<Rightarrow>
       (case parse_int text of
          None \<Rightarrow> (Inl (SqlError ''22P02''), d)
        | Some b \<Rightarrow>
            if \<not> has_partition d ''_blocks'' b then (Inl (SqlError ''23514''), d)
            else if map_has b (db_blocks d) then (Inr (), d)
            else (Inr (), d\<lparr>db_blocks := db_blocks d @ [(b, hash, time)]\<rparr>)))"

definition row_values :: "column_spec list \<Rightarrow> (string \<times> sql_value) list \<Rightarrow> (string \<times> sql_value option) list" where
  "row_values columns r = map (\<lambda>c. (cs_name c, map_of r (cs_name c))) columns"

text \<open>One row; the answer says whether it was new.\<close>

definition insert_row :: "string \<Rightarrow> string \<Rightarrow> column_spec list \<Rightarrow> (string \<times> sql_value) list \<Rightarrow> nat statement" where
  "insert_row schema table columns r d =
     (if \<not> relation_exists schema table d then (Inl (SqlError ''42P01''), d)
      else if \<not> map_has ''tx_hash'' r then (Inl (SqlError ''23502''), d)
      else (case (cast_int (map_of r ''block_number''), cast_int (map_of r ''log_index'')) of
         (Some b, Some l) \<Rightarrow>
           if \<not> has_partition d table b then (Inl (SqlError ''23514''), d)
           else if (b, l) \<in> set (map sr_key (db_rows d table)) then (Inr 0, d)
           else (Inr 1, d\<lparr>db_rows := (db_rows d)(table := db_rows d table @
                    [\<lparr>sr_key = (b, l), sr_values = row_values columns r\<rparr>])\<rparr>)
       | _ \<Rightarrow> (Inl (SqlError ''22P02''), d)))"

text \<open>A multi-row statement: row by row, all or nothing.\<close>

fun each_row :: "('a \<Rightarrow> 'b statement) \<Rightarrow> 'a list \<Rightarrow> 'b list statement" where
  "each_row f [] d = (Inr [], d)"
| "each_row f (x # xs) d =
     (case f x d of
        (Inl e, d') \<Rightarrow> (Inl e, d')
      | (Inr b, d') \<Rightarrow> (case each_row f xs d' of (Inl e, d'') \<Rightarrow> (Inl e, d'') | (Inr bs, d'') \<Rightarrow> (Inr (b # bs), d'')))"

definition insert_dead :: "dead_letter list \<Rightarrow> unit statement" where
  "insert_dead ds d = (Inr (), d\<lparr>db_dead := db_dead d @ ds\<rparr>)"

definition set_cursor :: "int \<Rightarrow> unit statement" where
  "set_cursor n d = (Inr (), d\<lparr>db_cursor := map_option (\<lambda>_. n) (db_cursor d)\<rparr>)"

subsection \<open>Transactions\<close>

type_synonym 'a tx = "(db, 'a) txs"

text \<open>A rollback drops the working copy; the identity sequence keeps what was consumed.\<close>

definition rolled_back :: "db \<Rightarrow> db \<Rightarrow> db" where
  "rolled_back before work = before\<lparr>db_nextId := db_nextId work\<rparr>"

definition transaction :: "fault \<Rightarrow> 'a tx \<Rightarrow> db \<Rightarrow> (failure + 'a) \<times> db" where
  "transaction flt body d = transaction_with rolled_back flt body d"

text \<open>All or nothing, whatever the fault: a transaction ends in one of three ways.\<close>

lemmas transaction_unfold = transaction_def transaction_with_def

lemma transaction_outcome:
  assumes "fault_free body" "transaction flt body d = (r, d')"
  obtains (committed) a c where "body NoFault \<lparr>cn_db = d, cn_sent = 1\<rparr> = (Inr a, c)" "r = Inr a" "d' = cn_db c"
      "transaction NoFault body d = (Inr a, d')" "flt \<noteq> AckLost"
    | (lost) a c e where "body NoFault \<lparr>cn_db = d, cn_sent = 1\<rparr> = (Inr a, c)" "r = Inl e" "d' = cn_db c"
      "transaction NoFault body d = (Inr a, d')" "flt = AckLost"
    | (rolled_back) e work where "r = Inl e" "d' = rolled_back d work" "\<And>R. tx_rel R body \<Longrightarrow> reflp R \<Longrightarrow> R d work"
proof -
  have undo: "Database.rolled_back d d = d" by (simp add: rolled_back_def)
  show thesis
  proof (cases rule: transaction_with_outcome [OF assms(1) assms(2) [unfolded transaction_def] undo])
    case (1 a c)
    then show thesis by (intro committed) (simp_all add: transaction_def)
  next
    case (2 a c e)
    then show thesis by (intro lost) (simp_all add: transaction_def)
  next
    case (3 e work)
    then show thesis by (intro rolled_back) simp_all
  qed
qed

subsection \<open>Reasoning about statements\<close>

lemma each_row_Inr_Cons [err_simps]:
  "each_row f (x # xs) d = (Inr ys, d'') \<longleftrightarrow>
     (\<exists>b bs d'. f x d = (Inr b, d') \<and> each_row f xs d' = (Inr bs, d'') \<and> ys = b # bs)"
  by (auto split: prod.splits sum.splits)

lemma each_row_invariant:
  assumes "each_row f xs d = (Inr ys, d')" "P d" "\<And>x d b d'. x \<in> set xs \<Longrightarrow> P d \<Longrightarrow> f x d = (Inr b, d') \<Longrightarrow> P d'"
  shows "P d'"
  using assms
proof (induction xs arbitrary: d ys)
  case (Cons x xs)
  then obtain b bs d1 where "f x d = (Inr b, d1)" "each_row f xs d1 = (Inr bs, d')"
    by (auto simp: each_row_Inr_Cons simp del: each_row.simps(2))
  moreover from this have "P d1" using Cons.prems by (meson list.set_intros(1))
  ultimately show ?case using Cons.IH Cons.prems(3) by (meson list.set_intros(2))
qed simp

lemma each_row_progress:
  assumes "P d" "\<And>x d. x \<in> set xs \<Longrightarrow> P d \<Longrightarrow> \<exists>b d'. f x d = (Inr b, d') \<and> P d'"
  shows "\<exists>bs d'. each_row f xs d = (Inr bs, d') \<and> P d'"
  using assms
proof (induction xs arbitrary: d)
  case (Cons x xs)
  obtain b d1 where 1: "f x d = (Inr b, d1)" "P d1" using Cons.prems(2) [of x d] Cons.prems(1) by auto
  obtain bs d2 where "each_row f xs d1 = (Inr bs, d2)" "P d2" using Cons.IH [OF 1(2)] Cons.prems(2) by auto
  with 1 show ?case by auto
qed simp

lemma show_nat_digit_list: "list_all is_digit (show_nat n)"
  by (simp add: list_all_iff show_nat_digits)

lemma parse_show_int [simp]: "parse_int (show_int i) = Some i"
proof (cases "i < 0")
  case True
  then show ?thesis by (simp add: show_int_def parse_int_def show_nat_digit_list)
next
  case False
  obtain c cs where cs: "show_nat (nat i) = c # cs" by (cases "show_nat (nat i)") simp_all
  with show_nat_digit_list [of "nat i"] have "is_digit c" by simp
  then have "c \<noteq> CHR ''-''" by (auto simp: is_digit_def)
  with False cs show_nat_digit_list [of "nat i"] show ?thesis
    using read_show_nat [of "nat i"] by (simp add: show_int_def parse_int_def del: read_show_nat)
qed

lemma has_partition_iff:
  "has_partition d t b \<longleftrightarrow> (\<exists>name lo hi. (name, t, lo, hi) \<in> set (db_parts d) \<and> lo \<le> b \<and> b < hi)"
  by (auto simp: has_partition_def list_ex_iff)

text \<open>
  The address table: every address and every id once, every id already handed out.
\<close>

definition addresses_ok :: "db \<Rightarrow> bool" where
  "addresses_ok d \<longleftrightarrow> distinct (map_keys (db_addresses d)) \<and> distinct (map snd (db_addresses d)) \<and>
     (\<forall>i \<in> set (map snd (db_addresses d)). i < db_nextId d)"

definition add_address :: "bytes \<Rightarrow> db \<Rightarrow> db" where
  "add_address a d = d\<lparr>db_addresses := db_addresses d @ [(a, db_nextId d)], db_nextId := db_nextId d + 1\<rparr>"

lemma add_address_simps [simp]:
  "db_addresses (add_address a d) = db_addresses d @ [(a, db_nextId d)]"
  "db_nextId (add_address a d) = db_nextId d + 1"
  "(add_address a d)\<lparr>db_addresses := x, db_nextId := y\<rparr> = d\<lparr>db_addresses := x, db_nextId := y\<rparr>"
  by (simp_all add: add_address_def)

lemma insert_addresses_Cons:
  "insert_addresses (a # as) d = (Inr u, d') \<longleftrightarrow>
     (if map_has a (db_addresses d) then insert_addresses as d = (Inr u, d')
      else db_nextId d \<le> 2147483647 \<and> insert_addresses as (add_address a d) = (Inr u, d'))"
  by (auto simp: add_address_def)

lemma addresses_ok_add: "addresses_ok d \<Longrightarrow> \<not> map_has a (db_addresses d) \<Longrightarrow> addresses_ok (add_address a d)"
  by (fastforce simp: addresses_ok_def)

lemma insert_addresses_ok: "insert_addresses as d = (Inr u, d') \<Longrightarrow> addresses_ok d \<Longrightarrow> addresses_ok d'"
proof (induction as arbitrary: d)
  case (Cons a as)
  then show ?case
    by (auto simp: insert_addresses_Cons addresses_ok_add simp del: insert_addresses.simps(2) split: if_splits)
qed simp

lemma insert_addresses_Inr:
  "insert_addresses as d = (Inr u, d') \<Longrightarrow>
     \<exists>new. db_addresses d' = db_addresses d @ new \<and> set (map fst new) = set as - set (map_keys (db_addresses d)) \<and>
       d' = d\<lparr>db_addresses := db_addresses d @ new, db_nextId := db_nextId d + int (length new)\<rparr>"
proof (induction as arbitrary: d)
  case Nil
  then show ?case by (intro exI [of _ "[]"]) simp
next
  case (Cons a as)
  show ?case
  proof (cases "map_has a (db_addresses d)")
    case True
    then have "insert_addresses as d = (Inr u, d')" using Cons.prems by simp
    from Cons.IH [OF this] True show ?thesis by (simp add: insert_Diff_if)
  next
    case False
    then have "insert_addresses as (add_address a d) = (Inr u, d')"
      using Cons.prems by (simp only: insert_addresses_Cons if_False)
    from Cons.IH [OF this] obtain new where
      new: "db_addresses d' = db_addresses d @ (a, db_nextId d) # new"
        "set (map fst new) = set as - set (map_keys (db_addresses d @ [(a, db_nextId d)]))"
        "d' = d\<lparr>db_addresses := db_addresses d @ (a, db_nextId d) # new, db_nextId := db_nextId d + 1 + int (length new)\<rparr>"
      by auto
    show ?thesis
    proof (intro exI [of _ "(a, db_nextId d) # new"] conjI)
      show "set (map fst ((a, db_nextId d) # new)) = set (a # as) - set (map_keys (db_addresses d))"
        using new(2) False by auto
      show "d' = d\<lparr>db_addresses := db_addresses d @ (a, db_nextId d) # new,
          db_nextId := db_nextId d + int (length ((a, db_nextId d) # new))\<rparr>" using new(3) by simp
    qed (rule new(1))
  qed
qed

end
