(* ===== verification/Partitions.thy ===== *)
theory Partitions
  imports Naming "HOL-Library.Char_ord" "HOL-Library.List_Lexorder"
begin

text \<open>
  The partition book-keeping of \<open>worker/src/db.ts\<close> (class \<open>Partitions\<close>): a batch's missing
  partitions are planned in one lock order, remembered only after the commit, and a partition
  that ingest has moved past is reported as finished, to have its indexes rebuilt.
\<close>

subsection \<open>Planning partitions\<close>

text \<open>The one lock order of every writer: by table, then by number.\<close>

datatype partition_id = Part (pt_table: string) (pt_n: int)

instantiation partition_id :: linorder
begin

definition less_eq_partition_id :: "partition_id \<Rightarrow> partition_id \<Rightarrow> bool" where
  "less_eq_partition_id a b \<longleftrightarrow> pt_table a < pt_table b \<or> (pt_table a = pt_table b \<and> pt_n a \<le> pt_n b)"

definition less_partition_id :: "partition_id \<Rightarrow> partition_id \<Rightarrow> bool" where
  "less_partition_id a b \<longleftrightarrow> pt_table a < pt_table b \<or> (pt_table a = pt_table b \<and> pt_n a < pt_n b)"

instance
proof
  fix a b c :: partition_id
  show "a < b \<longleftrightarrow> a \<le> b \<and> \<not> b \<le> a" by (auto simp: less_eq_partition_id_def less_partition_id_def)
  show "a \<le> a" by (simp add: less_eq_partition_id_def)
  show "a \<le> b \<Longrightarrow> b \<le> c \<Longrightarrow> a \<le> c" by (auto simp: less_eq_partition_id_def)
  show "a \<le> b \<Longrightarrow> b \<le> a \<Longrightarrow> a = b" by (auto simp: less_eq_partition_id_def intro: partition_id.expand)
  show "a \<le> b \<or> b \<le> a" by (auto simp: less_eq_partition_id_def)
qed

end

record planned_partition =
  pp_key :: string
  pp_id :: partition_id
  pp_name :: string
  pp_sql :: string

record partitions =
  ps_schema :: string
  ps_size :: int
  ps_made :: "string list"
  ps_lastSeen :: "(string \<times> int) list"
  ps_finished :: "partition_id list"   \<comment> \<open>the calls of \<open>onFinished\<close>, in order\<close>

definition new_partitions :: "string \<Rightarrow> int \<Rightarrow> partitions" where
  "new_partitions schema width =
     \<lparr>ps_schema = schema, ps_size = width, ps_made = [], ps_lastSeen = [], ps_finished = []\<rparr>"

definition partition_key :: "string \<Rightarrow> int \<Rightarrow> string" where
  "partition_key table n = table @ '':'' @ show_int n"

definition plan_partition :: "partitions \<Rightarrow> string \<times> int \<Rightarrow> failure + planned_partition" where
  "plan_partition ps = (\<lambda>(table, n).
     bindE (partitionDdl (ps_schema ps) table n (ps_size ps)) (\<lambda>sql.
     bindE (partitionName table n) (\<lambda>name.
       Inr \<lparr>pp_key = partition_key table n, pp_id = Part table n, pp_name = name, pp_sql = sql\<rparr>)))"

definition partitions_plan :: "partitions \<Rightarrow> string list \<Rightarrow> int list \<Rightarrow> failure + planned_partition list" where
  "partitions_plan ps tables blocks =
     (let ns = set_of_list (map (\<lambda>b. partitionOf b (ps_size ps)) blocks);
          wanted = filter (\<lambda>(table, n). partition_key table n \<notin> set (ps_made ps)) (List.product tables ns)
      in bindE (mapE (plan_partition ps) wanted) (\<lambda>out. Inr (sort_key pp_id out)))"

definition highest_partition :: "int \<Rightarrow> int list \<Rightarrow> int option" where
  "highest_partition width blocks =
     foldl (\<lambda>m b. let n = partitionOf b width
        in case m of None \<Rightarrow> Some n | Some k \<Rightarrow> if n > k then Some n else m) None blocks"

definition finish_table :: "int \<Rightarrow> partitions \<Rightarrow> string \<Rightarrow> partitions" where
  "finish_table m ps table =
     (case map_of (ps_lastSeen ps) table of
        None \<Rightarrow> ps\<lparr>ps_lastSeen := map_set table m (ps_lastSeen ps)\<rparr>
      | Some seen \<Rightarrow>
          if m \<le> seen then ps
          else ps\<lparr>ps_lastSeen := map_set table m (ps_lastSeen ps),
                  ps_finished := ps_finished ps @
                    map (Part table) (filter (\<lambda>k. partition_key table k \<in> set (ps_made ps)) [seen..m - 1])\<rparr>)"

definition partitions_committed :: "partitions \<Rightarrow> string list \<Rightarrow> int list \<Rightarrow> planned_partition list \<Rightarrow> partitions" where
  "partitions_committed ps tables blocks planned =
     (let ps = ps\<lparr>ps_made := foldl set_add (ps_made ps) (map pp_key planned)\<rparr>
      in case highest_partition (ps_size ps) blocks of
           None \<Rightarrow> ps
         | Some m \<Rightarrow> foldl (finish_table m) ps tables)"

subsection \<open>The book-keeping is exact\<close>

lemma takeWhile_digits_rev_colon: "takeWhile is_digit (rev (show_nat n) @ CHR '':'' # xs) = rev (show_nat n)"
  by (rule takeWhile_tail [THEN trans])
     (auto simp: is_digit_def takeWhile_eq_all_conv dest: show_nat_digits)

lemma partition_key_inj:
  assumes "partition_key t m = partition_key t' n" "0 \<le> m" "0 \<le> n"
  shows "t = t' \<and> m = n"
proof -
  have eq: "rev (show_nat (nat m)) @ CHR '':'' # rev t = rev (show_nat (nat n)) @ CHR '':'' # rev t'"
    using arg_cong [OF assms(1), of rev] assms(2,3) by (simp add: partition_key_def show_int_def)
  then have "rev (show_nat (nat m)) = rev (show_nat (nat n))" by (metis takeWhile_digits_rev_colon)
  then have "show_nat (nat m) = show_nat (nat n)" by simp
  with assms show ?thesis by (simp add: partition_key_def show_int_def eq_nat_nat_iff)
qed

lemma plan_partition_Inr:
  "plan_partition ps (t, n) = Inr p \<Longrightarrow>
     pp_id p = Part t n \<and> pp_key p = partition_key t n \<and> partitionName t n = Inr (pp_name p) \<and>
     partitionDdl (ps_schema ps) t n (ps_size ps) = Inr (pp_sql p)"
  by (auto simp: plan_partition_def bindE_Inr)

definition missing_partitions :: "partitions \<Rightarrow> string list \<Rightarrow> int list \<Rightarrow> (string \<times> int) list" where
  "missing_partitions ps tables blocks =
     filter (\<lambda>(t, n). partition_key t n \<notin> set (ps_made ps))
       (List.product tables (set_of_list (map (\<lambda>b. partitionOf b (ps_size ps)) blocks)))"

lemma partitions_plan_Inr:
  assumes "partitions_plan ps tables blocks = Inr out"
  obtains ps' where "list_all2 (\<lambda>x p. plan_partition ps x = Inr p) (missing_partitions ps tables blocks) ps'"
    "out = sort_key pp_id ps'"
  using assms by (auto simp: partitions_plan_def missing_partitions_def Let_def bindE_Inr mapE_Inr)

lemma planned_ids:
  assumes "partitions_plan ps tables blocks = Inr out"
  shows "set (map pp_id out) = (\<lambda>(t, n). Part t n) ` set (missing_partitions ps tables blocks)"
    and "distinct tables \<Longrightarrow> distinct (map pp_id out)"
    and "p \<in> set out \<Longrightarrow> \<exists>t n. plan_partition ps (t, n) = Inr p \<and> (t, n) \<in> set (missing_partitions ps tables blocks)"
proof -
  obtain ps' where l2: "list_all2 (\<lambda>x p. plan_partition ps x = Inr p) (missing_partitions ps tables blocks) ps'"
    and out: "out = sort_key pp_id ps'"
    by (rule partitions_plan_Inr [OF assms])
  have ids: "map pp_id ps' = map (\<lambda>(t, n). Part t n) (missing_partitions ps tables blocks)"
    using l2 by (rule list_all2_induct) (auto dest: plan_partition_Inr)
  then show "set (map pp_id out) = (\<lambda>(t, n). Part t n) ` set (missing_partitions ps tables blocks)"
    unfolding out by (metis set_map set_sort)
  have "inj_on (\<lambda>(t, n). Part t n) A" for A by (auto intro: inj_onI)
  then have "distinct tables \<Longrightarrow> distinct (map pp_id ps')"
    unfolding ids missing_partitions_def by (simp add: distinct_map distinct_product)
  then show "distinct tables \<Longrightarrow> distinct (map pp_id out)"
    unfolding out by (simp add: distinct_map)
  assume "p \<in> set out"
  then have "p \<in> set ps'" by (simp add: out)
  then show "\<exists>t n. plan_partition ps (t, n) = Inr p \<and> (t, n) \<in> set (missing_partitions ps tables blocks)"
    using l2 by (auto simp: list_all2_conv_all_nth in_set_conv_nth) (metis surj_pair)
qed

text \<open>
  A batch's plan is sorted in the one lock order, plans nothing twice, and holds exactly the
  partitions its blocks need, for every table it writes, that are not already known to exist.
\<close>

theorem plan_correct:
  assumes "partitions_plan ps tables blocks = Inr out" "distinct tables"
  shows "sorted (map pp_id out) \<and> distinct (map pp_id out) \<and>
         set (map pp_id out) = {Part t (partitionOf b (ps_size ps)) | t b.
            t \<in> set tables \<and> b \<in> set blocks \<and> partition_key t (partitionOf b (ps_size ps)) \<notin> set (ps_made ps)}"
proof -
  have "sorted (map pp_id out)" by (rule partitions_plan_Inr [OF assms(1)]) simp
  moreover have "set (map pp_id out) = {Part t (partitionOf b (ps_size ps)) | t b.
      t \<in> set tables \<and> b \<in> set blocks \<and> partition_key t (partitionOf b (ps_size ps)) \<notin> set (ps_made ps)}"
    unfolding planned_ids(1) [OF assms(1)] missing_partitions_def by auto
  ultimately show ?thesis using planned_ids(2) [OF assms] by blast
qed

theorem plan_correct_witness:
  "\<exists>out. partitions_plan (new_partitions ''s'' 3) [''b'', ''a''] [7, 8, 1] = Inr out \<and>
     map pp_id out = [Part ''a'' 0, Part ''a'' 2, Part ''b'' 0, Part ''b'' 2] \<and>
     sorted (map pp_id out)"
proof -
  let ?plan = "partitions_plan (new_partitions ''s'' 3) [''b'', ''a''] [7, 8, 1]"
  have "map_sum id (map pp_id) ?plan =
      Inr [Part ''a'' 0, Part ''a'' 2, Part ''b'' 0, Part ''b'' 2]"
    by code_simp
  then obtain out where out: "?plan = Inr out"
    "map pp_id out = [Part ''a'' 0, Part ''a'' 2, Part ''b'' 0, Part ''b'' 2]"
    by (rule map_sum_Inr)
  have "distinct [''b'', ''a'']" by simp
  from plan_correct [OF out(1) this] have "sorted (map pp_id out)" by (rule conjunct1)
  with out show ?thesis by (intro exI [of _ out] conjI)
qed

text \<open>The history of a process: the calls of \<open>committed\<close> in order.\<close>

definition after_commits :: "partitions \<Rightarrow> (string list \<times> int list \<times> planned_partition list) list \<Rightarrow> partitions" where
  "after_commits ps calls = foldl (\<lambda>ps (tables, blocks, planned). partitions_committed ps tables blocks planned) ps calls"

definition finished_ok :: "partitions \<Rightarrow> bool" where
  "finished_ok ps \<longleftrightarrow> distinct (ps_finished ps) \<and>
     (\<forall>p \<in> set (ps_finished ps). partition_key (pt_table p) (pt_n p) \<in> set (ps_made ps) \<and>
        (\<exists>l. map_of (ps_lastSeen ps) (pt_table p) = Some l \<and> pt_n p < l))"

lemma finish_table_ok: "finished_ok ps \<Longrightarrow> finished_ok (finish_table m ps table)"
proof (cases "map_of (ps_lastSeen ps) table")
  case None
  assume ok: "finished_ok ps"
  then have "\<forall>p \<in> set (ps_finished ps). pt_table p \<noteq> table" using None by (fastforce simp: finished_ok_def)
  with ok None show ?thesis by (auto simp: finish_table_def finished_ok_def)
next
  case (Some seen)
  assume ok: "finished_ok ps"
  show ?thesis
  proof (cases "m \<le> seen")
    case False
    let ?new = "map (Part table) (filter (\<lambda>k. partition_key table k \<in> set (ps_made ps)) [seen..m - 1])"
    have old: "pt_n p < seen" if "p \<in> set (ps_finished ps)" "pt_table p = table" for p
      using ok that Some by (auto simp: finished_ok_def)
    have "distinct ?new" by (simp add: distinct_map inj_on_def)
    moreover have "set (ps_finished ps) \<inter> set ?new = {}" using old by fastforce
    moreover have "\<exists>l. map_of (map_set table m (ps_lastSeen ps)) (pt_table p) = Some l \<and> pt_n p < l"
      if "p \<in> set (ps_finished ps @ ?new)" for p
    proof (cases "pt_table p = table")
      case True
      from that have "p \<in> set (ps_finished ps) \<or> pt_n p < m" by auto
      then have "pt_n p < m" using old [OF _ True] False by linarith
      with True show ?thesis by simp
    next
      case other: False
      then have "p \<in> set (ps_finished ps)" using that by auto
      with other ok show ?thesis by (simp add: finished_ok_def)
    qed
    ultimately show ?thesis using ok Some False by (auto simp: finish_table_def finished_ok_def)
  qed (use ok Some in \<open>simp add: finish_table_def\<close>)
qed

lemma partitions_committed_ok: "finished_ok ps \<Longrightarrow> finished_ok (partitions_committed ps tables blocks planned)"
proof -
  assume ok: "finished_ok ps"
  have base: "finished_ok (ps\<lparr>ps_made := foldl set_add (ps_made ps) (map pp_key planned)\<rparr>)"
    using ok by (auto simp: finished_ok_def foldl_set_add)
  have "finished_ok (foldl (finish_table m) ps' tables)" if "finished_ok ps'" for m ps'
    using that by (induction tables arbitrary: ps') (auto simp: finish_table_ok)
  with base show ?thesis by (simp add: partitions_committed_def Let_def split: option.split)
qed

text \<open>
  However a process's commits go, a partition is reported finished at most once, only when it
  was created by this process, and only after ingest has written past it.
\<close>

theorem finished_once:
  "distinct (ps_finished (after_commits (new_partitions schema width) calls)) \<and>
   list_all (\<lambda>p. partition_key (pt_table p) (pt_n p) \<in> set (ps_made (after_commits (new_partitions schema width) calls)) \<and>
      (case map_of (ps_lastSeen (after_commits (new_partitions schema width) calls)) (pt_table p) of
         Some l \<Rightarrow> pt_n p < l | None \<Rightarrow> False))
     (ps_finished (after_commits (new_partitions schema width) calls))"
proof -
  have "finished_ok (after_commits ps calls)" if "finished_ok ps" for ps
    using that unfolding after_commits_def by (induction calls arbitrary: ps) (auto simp: partitions_committed_ok)
  then have "finished_ok (after_commits (new_partitions schema width) calls)"
    by (simp add: finished_ok_def new_partitions_def)
  then show ?thesis by (auto simp: finished_ok_def list_all_iff split: option.splits)
qed

lemma finish_table_made [simp]: "ps_made (finish_table m ps t) = ps_made ps" "ps_size (finish_table m ps t) = ps_size ps"
    "ps_schema (finish_table m ps t) = ps_schema ps"
  by (auto simp: finish_table_def split: option.split)

lemma partitions_committed_made:
  "set (ps_made (partitions_committed ps tables blocks planned)) = set (ps_made ps) \<union> set (map pp_key planned)"
  "ps_size (partitions_committed ps tables blocks planned) = ps_size ps"
  "ps_schema (partitions_committed ps tables blocks planned) = ps_schema ps"
proof -
  have "ps_made (foldl (finish_table m) ps' tables) = ps_made ps' \<and> ps_size (foldl (finish_table m) ps' tables) = ps_size ps' \<and>
      ps_schema (foldl (finish_table m) ps' tables) = ps_schema ps'" for m ps'
    by (induction tables arbitrary: ps') simp_all
  then show "set (ps_made (partitions_committed ps tables blocks planned)) = set (ps_made ps) \<union> set (map pp_key planned)"
    "ps_size (partitions_committed ps tables blocks planned) = ps_size ps"
    "ps_schema (partitions_committed ps tables blocks planned) = ps_schema ps"
    by (auto simp: partitions_committed_def Let_def foldl_set_add split: option.split)
qed

end
