(* ===== verification/Store.thy ===== *)
theory Store
  imports Database Partitions
begin

text \<open>
  \<open>worker/src/db.ts\<close>: the worker's one writer. \<open>bootstrap\<close> creates a schema or refuses it;
  \<open>commitBatch\<close> writes a round of rows, dead letters and the new cursor in one transaction.
\<close>

subsection \<open>Bootstrap\<close>

definition LEGACY_META :: "(string \<times> string) list" where
  "LEGACY_META = [(''address_indexes'', ''false'')]"

definition has_relation :: "string \<Rightarrow> string \<Rightarrow> bool tx" where
  "has_relation schema table = query (\<lambda>d. (Inr (relation_exists schema table d), d))"

definition select_meta :: "string \<Rightarrow> string option tx" where
  "select_meta key = query (\<lambda>d. (Inr (map_of (db_meta d) key), d))"

definition insert_meta :: "string \<Rightarrow> string \<Rightarrow> unit statement" where
  "insert_meta key v d = (Inr (), if map_has key (db_meta d) then d else d\<lparr>db_meta := db_meta d @ [(key, v)]\<rparr>)"

definition assertLayout :: "string \<Rightarrow> bool tx" where
  "assertLayout schema =
     bindT (query (\<lambda>d. (Inr (relation_exists schema ''_cursor'' d, relation_exists schema ''_meta'' d), d))) (\<lambda>(has_cursor, has_meta).
       if \<not> has_cursor then returnT False
       else bindT (if has_meta then select_meta ''layout'' else returnT None) (\<lambda>layout.
         if layout \<noteq> Some STORAGE_LAYOUT
         then throwT (LayoutError (''schema '' @ schema @ '' uses storage layout '' @
                (case layout of Some l \<Rightarrow> l | None \<Rightarrow> ''1'') @ ''; drop the schema or rename the Indexer to re-index''))
         else returnT True))"

definition record_meta :: "string \<Rightarrow> bool \<Rightarrow> string \<times> string \<Rightarrow> unit tx" where
  "record_meta schema existed = (\<lambda>(key, v).
     bindT (query (insert_meta key (case map_of LEGACY_META key of Some legacy \<Rightarrow> if existed then legacy else v | None \<Rightarrow> v))) (\<lambda>_.
     bindT (select_meta key) (\<lambda>stored.
       if stored \<noteq> Some v
       then throwT (LayoutError (''schema '' @ schema @ '' has '' @ key @ '' = '' @ (case stored of Some s \<Rightarrow> s | None \<Rightarrow> ''undefined'') @
              '', this Indexer has '' @ v @ ''; drop the schema or rename the Indexer to re-index''))
       else returnT ())))"

text \<open>\<open>{ ...meta, layout: STORAGE_LAYOUT }\<close>.\<close>

definition with_layout :: "(string \<times> string) list \<Rightarrow> (string \<times> string) list" where
  "with_layout meta = map_set ''layout'' STORAGE_LAYOUT meta"

definition bootstrap :: "fault \<Rightarrow> string \<Rightarrow> string list \<Rightarrow> table_spec list \<Rightarrow> (string \<times> string) list \<Rightarrow> db \<Rightarrow> (failure + unit) \<times> db" where
  "bootstrap flt schema controlStatements tables meta d =
     transaction flt
       (bindT (assertLayout schema) (\<lambda>existed.
        bindT (mapT (\<lambda>s. query (run_ddl s)) controlStatements) (\<lambda>_.
        bindT (mapT (record_meta schema existed) (with_layout meta)) (\<lambda>_.
        bindT (mapT (\<lambda>s. query (run_ddl s)) (concat (map ts_statements tables))) (\<lambda>_. returnT ()))))) d"

definition getCursor :: "db \<Rightarrow> int option" where
  "getCursor d = db_cursor d"

definition initCursor :: "int \<Rightarrow> db \<Rightarrow> db" where
  "initCursor lastBlock d = (case db_cursor d of Some _ \<Rightarrow> d | None \<Rightarrow> d\<lparr>db_cursor := Some lastBlock\<rparr>)"

text \<open>What a bootstrap does to the tables: it adds statements and missing keys, and nothing else.\<close>

definition extends_meta :: "db \<Rightarrow> db \<Rightarrow> bool" where
  "extends_meta d d' \<longleftrightarrow>
     (\<exists>ss kvs. d' = d\<lparr>db_ddl := db_ddl d @ ss, db_meta := db_meta d @ kvs\<rparr> \<and>
        (\<forall>(k, v) \<in> set kvs. \<not> map_has k (db_meta d)))"

lemma extends_metaI:
  "d' = d\<lparr>db_ddl := db_ddl d @ ss, db_meta := db_meta d @ kvs\<rparr> \<Longrightarrow> (\<And>k v. (k, v) \<in> set kvs \<Longrightarrow> \<not> map_has k (db_meta d)) \<Longrightarrow>
   extends_meta d d'"
  unfolding extends_meta_def by blast

lemma extends_meta_refl: "reflp extends_meta"
  by (rule reflpI) (rule extends_metaI [where ss = "[]" and kvs = "[]"], simp_all)

lemma extends_meta_trans: "transp extends_meta"
proof (rule transpI)
  fix a b c :: db
  assume "extends_meta a b" "extends_meta b c"
  then obtain ss kvs ss' kvs' where b: "b = a\<lparr>db_ddl := db_ddl a @ ss, db_meta := db_meta a @ kvs\<rparr>"
    "\<And>k v. (k, v) \<in> set kvs \<Longrightarrow> \<not> map_has k (db_meta a)"
    and c: "c = b\<lparr>db_ddl := db_ddl b @ ss', db_meta := db_meta b @ kvs'\<rparr>"
    "\<And>k v. (k, v) \<in> set kvs' \<Longrightarrow> \<not> map_has k (db_meta b)"
    unfolding extends_meta_def by blast
  show "extends_meta a c"
  proof (rule extends_metaI)
    show "c = a\<lparr>db_ddl := db_ddl a @ (ss @ ss'), db_meta := db_meta a @ (kvs @ kvs')\<rparr>"
      using b(1) c(1) by simp
    show "\<not> map_has k (db_meta a)" if "(k, v) \<in> set (kvs @ kvs')" for k v
    proof (cases "(k, v) \<in> set kvs")
      case False
      then have "\<not> map_has k (db_meta b)" using that c(2) by simp
      then show ?thesis unfolding b(1) by simp
    qed (rule b(2))
  qed
qed

lemma extends_meta_lookup:
  "extends_meta d d' \<Longrightarrow> map_of (db_meta d) k = Some v \<Longrightarrow> map_of (db_meta d') k = Some v"
  by (auto simp: extends_meta_def map_add_def split: option.splits)

lemma extends_meta_seq: "extends_meta d d' \<Longrightarrow> rolled_back d d' = d"
  by (auto simp: extends_meta_def rolled_back_def)

lemmas extends_meta_intros = tx_rel_bind [OF extends_meta_trans] tx_rel_mapT [OF extends_meta_refl extends_meta_trans]
  tx_rel_return [OF extends_meta_refl] tx_rel_throw [OF extends_meta_refl]

lemma run_ddl_extends: "tx_rel extends_meta (query (run_ddl s))"
  by (rule tx_rel_query [OF extends_meta_refl])
     (auto simp: run_ddl_def intro!: extends_metaI [where ss = "[s]" and kvs = "[]"])

lemma select_extends: "tx_rel extends_meta (query (\<lambda>d. (f d, d)))"
  by (rule tx_rel_query [OF extends_meta_refl]) (auto intro: reflpD [OF extends_meta_refl])

lemma insert_meta_extends: "tx_rel extends_meta (query (insert_meta k v))"
proof (rule tx_rel_query [OF extends_meta_refl])
  fix d r d'
  assume "insert_meta k v d = (r, d')"
  then have d': "d' = (if map_has k (db_meta d) then d else d\<lparr>db_meta := db_meta d @ [(k, v)]\<rparr>)"
    by (simp add: insert_meta_def)
  show "extends_meta d d'"
  proof (cases "map_has k (db_meta d)")
    case True
    with d' show ?thesis using reflpD [OF extends_meta_refl, of d] by simp
  next
    case False
    with d' show ?thesis by (intro extends_metaI [where ss = "[]" and kvs = "[(k, v)]"]) simp_all
  qed
qed

lemma record_meta_extends: "tx_rel extends_meta (record_meta schema existed kv)"
  by (auto simp: record_meta_def select_meta_def split: prod.split
      intro!: extends_meta_intros insert_meta_extends select_extends)

lemma assertLayout_extends: "tx_rel extends_meta (assertLayout schema)"
  by (auto simp: assertLayout_def select_meta_def split: prod.split
      intro!: extends_meta_intros select_extends)

definition bootstrap_body :: "string \<Rightarrow> string list \<Rightarrow> table_spec list \<Rightarrow> (string \<times> string) list \<Rightarrow> unit tx" where
  "bootstrap_body schema controlStatements tables meta =
     bindT (assertLayout schema) (\<lambda>existed.
     bindT (mapT (\<lambda>s. query (run_ddl s)) controlStatements) (\<lambda>_.
     bindT (mapT (record_meta schema existed) (with_layout meta)) (\<lambda>_.
     bindT (mapT (\<lambda>s. query (run_ddl s)) (concat (map ts_statements tables))) (\<lambda>_. returnT ()))))"

lemma bootstrap_body_extends: "tx_rel extends_meta (bootstrap_body schema control tables meta)"
  unfolding bootstrap_body_def
  by (intro extends_meta_intros assertLayout_extends run_ddl_extends record_meta_extends)

lemma bootstrap_body_fault_free: "fault_free (bootstrap_body schema control tables meta)"
  unfolding bootstrap_body_def assertLayout_def record_meta_def select_meta_def
  by (auto intro!: fault_free_bind fault_free_mapT split: prod.split)

lemma mapT_run_ddl:
  "mapT (\<lambda>s. query (run_ddl s)) ss flt c = (Inr u, c') \<Longrightarrow>
   cn_db c' = (cn_db c)\<lparr>db_ddl := db_ddl (cn_db c) @ ss\<rparr>"
proof (induction ss arbitrary: c u)
  case (Cons s ss)
  then obtain us c1 where 1: "query (run_ddl s) flt c = (Inr (), c1)"
    and 2: "mapT (\<lambda>s. query (run_ddl s)) ss flt c1 = (Inr us, c')"
    by (auto simp: mapT_Cons_Inr simp del: mapT.simps)
  have "cn_db c1 = (cn_db c)\<lparr>db_ddl := db_ddl (cn_db c) @ [s]\<rparr>" using 1 by (auto simp: query_Inr run_ddl_def)
  with Cons.IH [OF 2] show ?case by simp
qed (simp add: mapT_Nil_Inr returnT_eq)

lemma record_meta_Inr:
  assumes "record_meta schema existed (k, v) flt c = (Inr u, c')"
  shows "map_of (db_meta (cn_db c')) k = Some v \<and> db_ddl (cn_db c') = db_ddl (cn_db c) \<and>
         (\<forall>k' v'. map_of (db_meta (cn_db c)) k' = Some v' \<longrightarrow> map_of (db_meta (cn_db c')) k' = Some v')"
  using assms extends_meta_lookup [OF tx_relD [OF record_meta_extends assms]]
  by (auto simp: record_meta_def select_meta_def bindT_Inr query_Inr returnT_eq throwT_eq insert_meta_def split: if_splits)

lemma mapT_record_meta:
  "mapT (record_meta schema existed) kvs flt c = (Inr us, c') \<Longrightarrow>
     (\<forall>(k, v) \<in> set kvs. map_of (db_meta (cn_db c')) k = Some v) \<and> db_ddl (cn_db c') = db_ddl (cn_db c) \<and>
     (\<forall>k' v'. map_of (db_meta (cn_db c)) k' = Some v' \<longrightarrow> map_of (db_meta (cn_db c')) k' = Some v')"
proof (induction kvs arbitrary: c us)
  case (Cons kv kvs)
  obtain k v where kv: "kv = (k, v)" by (cases kv)
  from Cons.prems obtain u us' c1 where 1: "record_meta schema existed (k, v) flt c = (Inr u, c1)"
    and 2: "mapT (record_meta schema existed) kvs flt c1 = (Inr us', c')"
    by (auto simp: mapT_Cons_Inr kv simp del: mapT.simps)
  from record_meta_Inr [OF 1] Cons.IH [OF 2] show ?case by (auto simp: kv)
qed (simp add: mapT_Nil_Inr returnT_eq)

lemma assertLayout_Inr:
  assumes "assertLayout schema flt c = (Inr existed, c')"
  shows "cn_db c' = cn_db c \<and> existed = relation_exists schema ''_cursor'' (cn_db c) \<and>
         (existed \<longrightarrow> map_of (db_meta (cn_db c)) ''layout'' = Some STORAGE_LAYOUT)"
  using assms
  by (auto simp: assertLayout_def select_meta_def bindT_Inr query_Inr returnT_eq throwT_eq split: if_splits)

lemma bootstrap_body_Inr:
  assumes "bootstrap_body schema control tables meta flt c = (Inr u, c')"
  shows "(\<forall>(k, v) \<in> set (with_layout meta). map_of (db_meta (cn_db c')) k = Some v) \<and>
         (\<forall>k v. map_of (db_meta (cn_db c)) k = Some v \<longrightarrow> map_of (db_meta (cn_db c')) k = Some v) \<and>
         db_ddl (cn_db c') = db_ddl (cn_db c) @ control @ concat (map ts_statements tables) \<and>
         (relation_exists schema ''_cursor'' (cn_db c) \<longrightarrow> map_of (db_meta (cn_db c)) ''layout'' = Some STORAGE_LAYOUT)"
proof -
  from assms obtain existed c1 us c2 ms c3 ts c4 where
    1: "assertLayout schema flt c = (Inr existed, c1)" and
    2: "mapT (\<lambda>s. query (run_ddl s)) control flt c1 = (Inr us, c2)" and
    3: "mapT (record_meta schema existed) (with_layout meta) flt c2 = (Inr ms, c3)" and
    4: "mapT (\<lambda>s. query (run_ddl s)) (concat (map ts_statements tables)) flt c3 = (Inr ts, c4)" and "c' = c4"
    unfolding bootstrap_body_def by (auto simp: bindT_Inr returnT_eq)
  with assertLayout_Inr [OF 1] mapT_run_ddl [OF 2] mapT_record_meta [OF 3] mapT_run_ddl [OF 4]
  show ?thesis by auto
qed

lemma mapT_record_meta_legacy:
  assumes "mapT (record_meta schema existed) kvs flt c = (Inr us, c')" "existed"
    "map_of (db_meta (cn_db c)) ''address_indexes'' = None" "(''address_indexes'', ''true'') \<in> set kvs"
  shows False
  using assms(1,3,4)
proof (induction kvs arbitrary: c us)
  case (Cons kv kvs)
  obtain k v where kv: "kv = (k, v)" by (cases kv)
  from Cons.prems obtain u us' c1 where 1: "record_meta schema existed (k, v) flt c = (Inr u, c1)"
    and 2: "mapT (record_meta schema existed) kvs flt c1 = (Inr us', c')"
    by (auto simp: mapT_Cons_Inr kv simp del: mapT.simps)
  show ?case
  proof (cases "k = ''address_indexes''")
    case True
    with 1 Cons.prems(2) assms(2) have "v = ''false''" "map_of (db_meta (cn_db c1)) ''address_indexes'' = Some ''false''"
      by (auto simp: record_meta_def select_meta_def bindT_Inr query_Inr returnT_eq throwT_eq insert_meta_def LEGACY_META_def
          map_has_iff split: if_splits)
    moreover from this have "map_of (db_meta (cn_db c')) ''address_indexes'' = Some ''false''"
      using mapT_record_meta [OF 2] by simp
    moreover have "(''address_indexes'', ''true'') \<in> set kvs" using Cons.prems(3) kv \<open>v = ''false''\<close> by auto
    ultimately show False using mapT_record_meta [OF 2] by fastforce
  next
    case False
    with 1 Cons.prems(2) have "map_of (db_meta (cn_db c1)) ''address_indexes'' = None"
      by (auto simp: record_meta_def select_meta_def bindT_Inr query_Inr returnT_eq throwT_eq insert_meta_def split: if_splits)
    then show False using Cons.IH [OF 2] Cons.prems(3) False kv by auto
  qed
qed (simp add: mapT_Nil_Inr)

text \<open>
  C23: A schema is taken over only as it is: on success every setting has the wanted value, the
  layout included, no stored setting was changed, and every statement has run; on refusal or a
  broken connection nothing was changed, unless only the answer to COMMIT was lost.
\<close>

theorem bootstrap_correct:
  "case bootstrap flt schema control tables meta d of (r, d') \<Rightarrow>
     (if r = Inr () then
        list_all (\<lambda>(k, v). map_of (db_meta d') k = Some v) (with_layout meta) \<and>
        map_of (db_meta d) \<subseteq>\<^sub>m map_of (db_meta d') \<and>
        db_ddl d' = db_ddl d @ control @ concat (map ts_statements tables) \<and>
        (\<not> relation_exists schema ''_cursor'' d \<or> map_of (db_meta d) ''layout'' = Some STORAGE_LAYOUT)
      else d' = d \<or> flt = AckLost \<and> bootstrap NoFault schema control tables meta d = (Inr (), d'))"
proof -
  obtain r d' where run: "transaction flt (bootstrap_body schema control tables meta) d = (r, d')"
    by (meson prod.exhaust_sel)
  have eq: "bootstrap flt' schema control tables meta d = transaction flt' (bootstrap_body schema control tables meta) d" for flt'
    by (simp add: bootstrap_def bootstrap_body_def)
  show ?thesis
  proof (cases rule: transaction_outcome [OF bootstrap_body_fault_free run])
    case (1 a c)
    with bootstrap_body_Inr [OF 1(1)] show ?thesis
      by (auto simp: eq run list_all_iff map_le_def dom_def split_beta)
  next
    case (2 a c e)
    then show ?thesis using run by (simp add: eq del: One_nat_def)
  next
    case (3 e work)
    then have "d' = d" using extends_meta_seq [OF 3(3) [OF bootstrap_body_extends extends_meta_refl]] by simp
    with 3 show ?thesis by (simp add: eq run)
  qed
qed

theorem bootstrap_correct_witness:
  "case bootstrap NoFault ''s'' [''CREATE SCHEMA IF NOT EXISTS s''] [] [(''partition_blocks'', ''9'')] empty_db of (r, d') \<Rightarrow>
     r = Inr () \<and> map_of (db_meta d') ''layout'' = Some STORAGE_LAYOUT"
proof -
  let ?b = "bootstrap NoFault ''s'' [''CREATE SCHEMA IF NOT EXISTS s''] [] [(''partition_blocks'', ''9'')] empty_db"
  have "fst ?b = Inr ()"
    by (simp add: bootstrap_def transaction_unfold bindT_def assertLayout_def query_def returnT_def throwT_def run_ddl_def
        record_meta_def select_meta_def insert_meta_def with_layout_def STORAGE_LAYOUT_def empty_db_def
        relation_exists_def LEGACY_META_def)
  moreover have "list_all (\<lambda>(k, v). map_of (db_meta (snd ?b)) k = Some v) (with_layout [(''partition_blocks'', ''9'')])"
    using bootstrap_correct [where flt = NoFault and schema = "''s''" and control = "[''CREATE SCHEMA IF NOT EXISTS s'']"
        and tables = "[]" and meta = "[(''partition_blocks'', ''9'')]" and d = empty_db]
      \<open>fst ?b = Inr ()\<close> by (simp only: split_beta simp_thms if_True)
  ultimately show ?thesis by (simp add: split_beta with_layout_def)
qed

text \<open>
  A schema of another layout, or one built before address indexes for an indexer that now
  wants them, is refused with the schema unchanged.
\<close>

theorem bootstrap_refuses:
  assumes "relation_exists schema ''_cursor'' d"
    "map_of (db_meta d) ''layout'' \<noteq> Some STORAGE_LAYOUT \<or>
     map_of (db_meta d) ''address_indexes'' = None \<and> map_of (with_layout meta) ''address_indexes'' = Some ''true''"
  shows "\<exists>e. bootstrap flt schema control tables meta d = (Inl e, d)"
proof -
  obtain r d' where run: "transaction flt (bootstrap_body schema control tables meta) d = (r, d')"
    by (meson prod.exhaust_sel)
  have "False" if "bootstrap_body schema control tables meta NoFault \<lparr>cn_db = d, cn_sent = 1\<rparr> = (Inr a, c)" for a c
  proof -
    from that obtain existed c1 us c2 ms c3 where
      1: "assertLayout schema NoFault \<lparr>cn_db = d, cn_sent = 1\<rparr> = (Inr existed, c1)" and
      2: "mapT (\<lambda>s. query (run_ddl s)) control NoFault c1 = (Inr us, c2)" and
      3: "mapT (record_meta schema existed) (with_layout meta) NoFault c2 = (Inr ms, c3)"
      unfolding bootstrap_body_def by (auto simp: bindT_Inr)
    have ex: "existed" "map_of (db_meta d) ''layout'' = Some STORAGE_LAYOUT" "cn_db c1 = d"
      using assertLayout_Inr [OF 1] assms(1) by auto
    then have no: "map_of (db_meta (cn_db c2)) ''address_indexes'' = None"
      and want: "(''address_indexes'', ''true'') \<in> set (with_layout meta)"
      using assms(2) mapT_run_ddl [OF 2] by (auto dest: map_of_SomeD)
    show False using mapT_record_meta_legacy [OF 3 ex(1) no want] .
  qed
  note refused = this
  have eq: "bootstrap flt schema control tables meta d = (r, d')"
    using run by (simp add: bootstrap_def bootstrap_body_def)
  show ?thesis
  proof (cases rule: transaction_outcome [OF bootstrap_body_fault_free run])
    case (3 e work)
    then show ?thesis using eq extends_meta_seq [OF 3(3) [OF bootstrap_body_extends extends_meta_refl]] by simp
  qed (use refused in blast)+
qed

subsection \<open>The store\<close>

record store =
  st_schema :: string
  st_tables :: "(string \<times> table_spec) list"
  st_partitions :: partitions
  st_addressIndexes :: bool

definition createStore :: "string \<Rightarrow> event_def list \<Rightarrow> int \<Rightarrow> bool \<Rightarrow> failure + store" where
  "createStore schema defs partitionBlocks addressIndexes =
     bindE (mapE (\<lambda>d. buildEventTable schema d addressIndexes) defs) (\<lambda>specs.
       Inr \<lparr>st_schema = schema, st_tables = foldl (\<lambda>m s. map_set (ts_table s) s m) [] specs,
            st_partitions = new_partitions schema partitionBlocks, st_addressIndexes = addressIndexes\<rparr>)"

definition contractMeta :: "event_def list \<Rightarrow> (string \<times> string) list" where
  "contractMeta defs = foldl (\<lambda>m d. map_set (''contract:'' @ ed_tableName d) (map to_lower (ed_address d)) m) [] defs"

definition unnestInsert :: "string \<Rightarrow> column_spec list \<Rightarrow> string \<Rightarrow> string" where
  "unnestInsert qualifiedTable columns conflict =
     ''INSERT INTO '' @ qualifiedTable @ '' ('' @ join '', '' (map (\<lambda>c. quote_id (cs_name c)) columns) @
     '') SELECT * FROM unnest('' @
     join '', '' (map (\<lambda>(i, c). ''$'' @ show_nat (i + 1) @ ''::'' @ cs_pgType c @ ''[]'') (enumerate 0 columns)) @
     '') ON CONFLICT '' @ conflict @ '' DO NOTHING''"

theorem bootstrap_refuses_witness:
  "\<exists>e. bootstrap NoFault ''s'' [] [] [] (empty_db\<lparr>db_ddl := [''CREATE TABLE IF NOT EXISTS '' @ quote_id ''s'' @ ''._cursor ('']\<rparr>) =
     (Inl e, empty_db\<lparr>db_ddl := [''CREATE TABLE IF NOT EXISTS '' @ quote_id ''s'' @ ''._cursor ('']\<rparr>)"
proof (rule bootstrap_refuses)
  show "relation_exists ''s'' ''_cursor'' (empty_db\<lparr>db_ddl := [''CREATE TABLE IF NOT EXISTS '' @ quote_id ''s'' @ ''._cursor ('']\<rparr>)"
    by (simp add: relation_exists_def creates_def startsWith_def quote_id_def)
qed (simp add: empty_db_def STORAGE_LAYOUT_def)

end
