(* ===== verification/Commit.thy ===== *)
theory Commit
  imports Store
begin

text \<open>
  \<open>commitBatch\<close> of \<open>worker/src/db.ts\<close>: one transaction per round of ingest. The proofs show that
  it is all or nothing, that readers see exactly the decoded rows, each once, and that what the
  process believes to exist does exist.
\<close>

subsection \<open>Committing a batch\<close>

type_synonym row_columns = "(string \<times> sql_value) list"
type_synonym row_groups = "(string \<times> row_columns list) list"

definition add_to_group :: "row_groups \<Rightarrow> decoded_row \<Rightarrow> row_groups" where
  "add_to_group m r =
     map_set (dr_tableName r) ((case map_of m (dr_tableName r) of Some g \<Rightarrow> g | None \<Rightarrow> []) @ [dr_columns r]) m"

definition group_rows :: "decoded_row list \<Rightarrow> row_groups" where
  "group_rows rows = foldl add_to_group [] rows"

fun sql_String :: "sql_value option \<Rightarrow> string" where
  "sql_String None = ''undefined''"
| "sql_String (Some (SText s)) = s"
| "sql_String (Some (SNum i)) = show_int i"
| "sql_String (Some (SBool b)) = (if b then ''true'' else ''false'')"
| "sql_String (Some (SBytes bs)) = map (\<lambda>b. char_of (unat b)) bs"
| "sql_String (Some (SRaw v)) = js_String v"

definition batch_blocks :: "decoded_row list \<Rightarrow> (string \<times> bytes \<times> int) list" where
  "batch_blocks rows =
     foldl (\<lambda>m r. map_set (sql_String (map_of (dr_columns r) ''block_number'')) (hexBytes (dr_blockHash r), dr_blockTime r) m) [] rows"

definition BigInt :: "string \<Rightarrow> failure + int" where
  "BigInt s = (case parse_int s of Some i \<Rightarrow> Inr i | None \<Rightarrow> Inl (PlainError (''Cannot convert '' @ s @ '' to a BigInt'')))"

definition spec_columns :: "store \<Rightarrow> string \<Rightarrow> column_spec list" where
  "spec_columns store table = (case map_of (st_tables store) table of Some spec \<Rightarrow> ts_columns spec | None \<Rightarrow> [])"

definition cell_buffers :: "string \<Rightarrow> row_columns \<Rightarrow> bytes list" where
  "cell_buffers name r = (case map_of r name of Some (SBytes v) \<Rightarrow> [v] | _ \<Rightarrow> [])"

text \<open>The distinct buffers of the address columns; a buffer's hex text is as good as the buffer.\<close>

definition wanted_addresses :: "store \<Rightarrow> row_groups \<Rightarrow> bytes list" where
  "wanted_addresses store byTable = set_of_list
     (concat (map (\<lambda>(table, group). concat (map (\<lambda>c. concat (map (cell_buffers (cs_name c)) group))
        (filter cs_address (spec_columns store table)))) byTable))"

definition resolve_cell :: "(bytes \<times> int) list \<Rightarrow> row_columns \<Rightarrow> column_spec \<Rightarrow> row_columns" where
  "resolve_cell ids r c =
     (if cs_address c then
        (case map_of r (cs_name c) of
           Some (SBytes v) \<Rightarrow> map_set (cs_name c) (SNum (case map_of ids v of Some i \<Rightarrow> i | None \<Rightarrow> 0)) r
         | _ \<Rightarrow> r)
      else r)"

definition resolve_row :: "(bytes \<times> int) list \<Rightarrow> column_spec list \<Rightarrow> row_columns \<Rightarrow> row_columns" where
  "resolve_row ids columns r = foldl (resolve_cell ids) r columns"

definition resolveAddresses :: "store \<Rightarrow> row_groups \<Rightarrow> row_groups tx" where
  "resolveAddresses store byTable =
     (let all = wanted_addresses store byTable
      in if all = [] then returnT byTable
         else bindT (query (insert_addresses all)) (\<lambda>_.
              bindT (query (select_ids all)) (\<lambda>ids.
                returnT (map (\<lambda>(table, group). (table, map (resolve_row ids (spec_columns store table)) group)) byTable))))"

definition create_planned :: "partitions \<Rightarrow> planned_partition \<Rightarrow> unit tx" where
  "create_planned ps p =
     query (create_partition (ps_schema ps) (pp_name p) (pt_table (pp_id p))
       (pt_n (pp_id p) * ps_size ps) ((pt_n (pp_id p) + 1) * ps_size ps))"

definition require_spec :: "store \<Rightarrow> string \<times> row_columns list \<Rightarrow> unit tx" where
  "require_spec store = (\<lambda>(table, _).
     if map_has table (st_tables store) then returnT () else throwT (PlainError (''no table spec for '' @ table)))"

definition insert_group :: "store \<Rightarrow> string \<times> row_columns list \<Rightarrow> nat tx" where
  "insert_group store = (\<lambda>(table, group).
     bindT (query (each_row (insert_row (st_schema store) table (spec_columns store table)) group))
       (\<lambda>counts. returnT (sum_list counts)))"

definition commit_body ::
  "store \<Rightarrow> row_groups \<Rightarrow> (string \<times> bytes \<times> int) list \<Rightarrow> planned_partition list \<Rightarrow> dead_letter list \<Rightarrow> int \<Rightarrow> nat tx" where
  "commit_body store byTable blocks planned deadLetters newCursor =
     bindT (mapT (create_planned (st_partitions store)) planned) (\<lambda>_.
     bindT (mapT (require_spec store) byTable) (\<lambda>_.
     bindT (resolveAddresses store byTable) (\<lambda>byTable.
     bindT (if blocks \<noteq> [] then query (each_row insert_block blocks) else returnT []) (\<lambda>_.
     bindT (mapT (insert_group store) byTable) (\<lambda>counts.
     bindT (if deadLetters \<noteq> [] then query (insert_dead deadLetters) else returnT ()) (\<lambda>_.
     bindT (query (set_cursor newCursor)) (\<lambda>_. returnT (sum_list counts))))))))"

definition commitBatch ::
  "fault \<Rightarrow> store \<Rightarrow> decoded_row list \<Rightarrow> dead_letter list \<Rightarrow> int \<Rightarrow> db \<Rightarrow> (failure + nat) \<times> db \<times> store" where
  "commitBatch flt store rows deadLetters newCursor d =
     (let byTable = group_rows rows;
          blocks = batch_blocks rows;
          written = (if byTable \<noteq> [] then ''_blocks'' # map_keys byTable else [])
      in case bindE (mapE BigInt (map_keys blocks)) (\<lambda>blockNumbers.
                bindE (partitions_plan (st_partitions store) written blockNumbers) (\<lambda>planned. Inr (blockNumbers, planned))) of
           Inl e \<Rightarrow> (Inl e, d, store)
         | Inr (blockNumbers, planned) \<Rightarrow>
             (case transaction flt (commit_body store byTable blocks planned deadLetters newCursor) d of
                (Inl e, d') \<Rightarrow> (Inl e, d', store)
              | (Inr inserted, d') \<Rightarrow>
                  (Inr inserted, d', store\<lparr>st_partitions := partitions_committed (st_partitions store) written blockNumbers planned\<rparr>)))"

subsection \<open>What readers see\<close>

text \<open>The abstraction of a table: its rows with address ids turned back into addresses, as the
  joins of the \<open>_hex\<close> view and of every reader do.\<close>

definition address_of :: "db \<Rightarrow> int \<Rightarrow> bytes option" where
  "address_of d i = map_of (map (\<lambda>(a, j). (j, a)) (db_addresses d)) i"

definition cell_view :: "db \<Rightarrow> column_spec \<Rightarrow> sql_value option \<Rightarrow> sql_value option" where
  "cell_view d c v =
     (if cs_address c then (case v of Some (SNum i) \<Rightarrow> map_option SBytes (address_of d i) | _ \<Rightarrow> v) else v)"

definition row_view :: "db \<Rightarrow> column_spec list \<Rightarrow> stored_row \<Rightarrow> (string \<times> sql_value option) list" where
  "row_view d columns row = map2 (\<lambda>c (n, v). (n, cell_view d c v)) columns (sr_values row)"

definition table_view :: "store \<Rightarrow> db \<Rightarrow> string \<Rightarrow> (string \<times> sql_value option) list list" where
  "table_view store d table = map (row_view d (spec_columns store table)) (db_rows d table)"

definition row_key :: "row_columns \<Rightarrow> int option \<times> int option" where
  "row_key r = (cast_int (map_of r ''block_number''), cast_int (map_of r ''log_index''))"

definition the_key :: "row_columns \<Rightarrow> int \<times> int" where
  "the_key r = (the (fst (row_key r)), the (snd (row_key r)))"

text \<open>The rows of a batch that are new, each key once.\<close>

fun fresh_rows :: "(int \<times> int) list \<Rightarrow> row_columns list \<Rightarrow> row_columns list" where
  "fresh_rows seen [] = []"
| "fresh_rows seen (r # rs) =
     (if the_key r \<in> set seen then fresh_rows seen rs else r # fresh_rows (seen @ [the_key r]) rs)"

definition rows_for :: "string \<Rightarrow> decoded_row list \<Rightarrow> row_columns list" where
  "rows_for table rows = map dr_columns (filter (\<lambda>r. dr_tableName r = table) rows)"

text \<open>What a caller owes: an address column holds a buffer, as \<open>toSqlValue\<close> makes it.\<close>

definition row_typed :: "column_spec list \<Rightarrow> row_columns \<Rightarrow> bool" where
  "row_typed columns r = list_all (\<lambda>c. \<not> cs_address c \<or>
     (case map_of r (cs_name c) of None \<Rightarrow> True | Some (SBytes _) \<Rightarrow> True | _ \<Rightarrow> False)) columns"

definition columns_ok :: "column_spec list \<Rightarrow> bool" where
  "columns_ok columns \<longleftrightarrow> distinct (map cs_name columns) \<and>
     list_all (\<lambda>c. \<not> cs_address c \<or> cs_name c \<notin> {''block_number'', ''tx_hash'', ''log_index''}) columns"

definition store_ok :: "store \<Rightarrow> bool" where
  "store_ok store \<longleftrightarrow> list_all (\<lambda>(_, spec). columns_ok (ts_columns spec)) (st_tables store)"

lemma store_ok_columns: "store_ok store \<Longrightarrow> columns_ok (spec_columns store t)"
  by (auto simp: store_ok_def spec_columns_def list_all_iff columns_ok_def split: option.split dest!: map_of_SomeD)

subsection \<open>Grouping\<close>

lemma group_rows_snoc: "group_rows (rows @ [r]) = add_to_group (group_rows rows) r"
  by (simp add: group_rows_def)

lemma map_of_group_rows:
  "map_of (group_rows rows) t = (if rows_for t rows = [] then None else Some (rows_for t rows))"
proof (induction rows rule: rev_induct)
  case (snoc r rows)
  then show ?case
    by (cases "dr_tableName r = t") (auto simp: group_rows_snoc add_to_group_def rows_for_def)
qed (simp add: group_rows_def rows_for_def)

lemma distinct_group_rows: "distinct (map_keys (group_rows rows))"
  by (induction rows rule: rev_induct)
     (auto simp: group_rows_snoc add_to_group_def distinct_update group_rows_def)

lemma group_rows_Nil_iff: "group_rows rows = [] \<longleftrightarrow> rows = []"
proof
  assume e: "group_rows rows = []"
  show "rows = []"
  proof (rule ccontr)
    assume "rows \<noteq> []"
    then obtain r where "r \<in> set rows" by (meson list.set_sel(1))
    then have "rows_for (dr_tableName r) rows \<noteq> []" by (auto simp: rows_for_def filter_empty_conv)
    then show False using map_of_group_rows [of rows "dr_tableName r"] e by simp
  qed
qed (simp add: group_rows_def)

subsection \<open>Inserting rows\<close>

definition stored :: "column_spec list \<Rightarrow> row_columns \<Rightarrow> stored_row" where
  "stored columns r = \<lparr>sr_key = the_key r, sr_values = row_values columns r\<rparr>"

lemma stored_key [simp]: "sr_key (stored columns r) = the_key r"
  by (simp add: stored_def)

definition row_placed :: "db \<Rightarrow> string \<Rightarrow> row_columns \<Rightarrow> bool" where
  "row_placed d t r \<longleftrightarrow> has_partition d t (fst (the_key r)) \<and> row_key r = (Some (fst (the_key r)), Some (snd (the_key r)))"

lemma insert_row_Inr:
  assumes "insert_row schema table columns r d = (Inr n, d')"
  shows "row_placed d table r \<and>
     (if the_key r \<in> set (map sr_key (db_rows d table)) then n = 0 \<and> d' = d
      else n = 1 \<and> d' = d\<lparr>db_rows := (db_rows d)(table := db_rows d table @ [stored columns r])\<rparr>)"
  using assms
  by (auto simp: insert_row_def row_placed_def row_key_def the_key_def stored_def split: if_splits option.splits)

lemma each_row_insert_row:
  "each_row (insert_row schema table columns) grp d = (Inr ns, d') \<Longrightarrow>
     d' = d\<lparr>db_rows := (db_rows d)(table := db_rows d table @
            map (stored columns) (fresh_rows (map sr_key (db_rows d table)) grp))\<rparr> \<and>
     sum_list ns = length (fresh_rows (map sr_key (db_rows d table)) grp) \<and>
     (\<forall>r \<in> set grp. row_placed d table r)"
proof (induction grp arbitrary: d ns)
  case (Cons r rs)
  then obtain n ns' d1 where 1: "insert_row schema table columns r d = (Inr n, d1)"
    and 2: "each_row (insert_row schema table columns) rs d1 = (Inr ns', d')" and ns: "ns = n # ns'"
    by (auto simp: each_row_Inr_Cons simp del: each_row.simps(2))
  note ins = insert_row_Inr [OF 1]
  show ?case
  proof (cases "the_key r \<in> set (map sr_key (db_rows d table))")
    case True
    with ins have "d1 = d" "n = 0" by simp_all
    with Cons.IH [OF 2] True ins ns show ?thesis by simp
  next
    case False
    with ins have d1: "d1 = d\<lparr>db_rows := (db_rows d)(table := db_rows d table @ [stored columns r])\<rparr>" and "n = 1" by simp_all
    have part: "row_placed d1 t r = row_placed d t r" for t r by (simp add: d1 has_partition_def row_placed_def)
    from Cons.IH [OF 2] show ?thesis
      using False ins ns \<open>n = 1\<close> unfolding part by (simp add: d1 cong: if_cong)
  qed
qed simp

lemma fresh_rows_keys:
  "set (fresh_rows seen rs) \<subseteq> set rs"
  "distinct seen \<Longrightarrow> distinct (seen @ map the_key (fresh_rows seen rs))"
  "the_key ` set rs \<subseteq> set seen \<union> the_key ` set (fresh_rows seen rs)"
proof (induction rs arbitrary: seen)
  case (Cons r rs)
  { case 1 with Cons.IH(1) show ?case by auto }
  { case 2
    show ?case
    proof (cases "the_key r \<in> set seen")
      case False
      then have "distinct (seen @ [the_key r])" using 2 by simp
      from Cons.IH(2) [OF this] False show ?thesis by simp
    qed (use Cons.IH(2) [OF 2] in simp) }
  { case 3 with Cons.IH(3) [of "seen @ [the_key r]"] Cons.IH(3) [of seen] show ?case by auto }
qed simp_all

lemma fresh_rows_new: "distinct (map the_key rs) \<Longrightarrow> set seen \<inter> the_key ` set rs = {} \<Longrightarrow> fresh_rows seen rs = rs"
  by (induction rs arbitrary: seen) auto

lemma insert_groups:
  "mapT (insert_group store) gs flt c = (Inr ns, c') \<Longrightarrow> distinct (map_keys gs) \<Longrightarrow>
     cn_db c' = (cn_db c)\<lparr>db_rows := (\<lambda>t. db_rows (cn_db c) t @
        (case map_of gs t of None \<Rightarrow> []
         | Some g \<Rightarrow> map (stored (spec_columns store t)) (fresh_rows (map sr_key (db_rows (cn_db c) t)) g)))\<rparr> \<and>
     (\<forall>(t, g) \<in> set gs. \<forall>r \<in> set g. row_placed (cn_db c) t r)"
proof (induction gs arbitrary: c ns)
  case (Cons tg gs)
  obtain t g where tg: "tg = (t, g)" by (cases tg)
  from Cons.prems(1) obtain n ns' c1 where 1: "insert_group store (t, g) flt c = (Inr n, c1)"
    and 2: "mapT (insert_group store) gs flt c1 = (Inr ns', c')"
    by (auto simp: mapT_Cons_Inr tg simp del: mapT.simps)
  from 1 obtain ms where "each_row (insert_row (st_schema store) t (spec_columns store t)) g (cn_db c) = (Inr ms, cn_db c1)"
    by (auto simp: insert_group_def bindT_Inr query_Inr returnT_eq)
  note ins = each_row_insert_row [OF this]
  have part: "row_placed (cn_db c1) t' r = row_placed (cn_db c) t' r" for t' r
    using ins by (simp add: has_partition_def row_placed_def)
  have t: "map_of gs t = None" "distinct (map_keys gs)"
    using Cons.prems(2) by (auto simp: tg map_of_eq_None_iff)
  from Cons.IH [OF 2 t(2)] ins show ?case
    using t(1) unfolding part by (auto simp: tg fun_eq_iff split: option.split)
qed (auto simp: returnT_eq)

subsection \<open>Resolving addresses\<close>

lemma map_of_resolve_row:
  "map_of (resolve_row ids columns r) n =
     (if \<exists>c \<in> set columns. cs_name c = n \<and> cs_address c then
        (case map_of r n of Some (SBytes v) \<Rightarrow> Some (SNum (case map_of ids v of Some i \<Rightarrow> i | None \<Rightarrow> 0)) | x \<Rightarrow> x)
      else map_of r n)"
proof (induction columns arbitrary: r)
  case (Cons c columns)
  have "resolve_row ids (c # columns) r = resolve_row ids columns (resolve_cell ids r c)"
    by (simp add: resolve_row_def)
  then show ?case
    by (auto simp: Cons.IH resolve_cell_def split: option.splits sql_value.splits)
qed (simp add: resolve_row_def)

lemma resolve_row_key:
  "columns_ok columns \<Longrightarrow> row_key (resolve_row ids columns r) = row_key r"
  by (auto simp: row_key_def map_of_resolve_row columns_ok_def list_all_iff)

lemma resolve_row_the_key: "columns_ok columns \<Longrightarrow> the_key (resolve_row ids columns r) = the_key r"
  by (simp add: the_key_def resolve_row_key)

lemma resolve_row_id:
  assumes "\<And>c v. c \<in> set columns \<Longrightarrow> cs_address c \<Longrightarrow> map_of r (cs_name c) \<noteq> Some (SBytes v)"
  shows "resolve_row ids columns r = r"
  using assms
proof (induction columns arbitrary: r)
  case (Cons c columns)
  have "resolve_cell ids r c = r"
    using Cons.prems [of c] by (auto simp: resolve_cell_def split: option.split sql_value.split)
  then have "resolve_row ids (c # columns) r = resolve_row ids columns r" by (simp add: resolve_row_def)
  with Cons.IH [of r] Cons.prems show ?case by (metis list.set_intros(2))
qed (simp add: resolve_row_def)

lemma wanted_addresses_mem:
  assumes "(t, g) \<in> set byTable" "r \<in> set g" "c \<in> set (spec_columns store t)" "cs_address c"
    "map_of r (cs_name c) = Some (SBytes v)"
  shows "v \<in> set (wanted_addresses store byTable)"
proof -
  have "v \<in> set (cell_buffers (cs_name c) r)" using assms(5) by (simp add: cell_buffers_def)
  with assms(1-4) show ?thesis unfolding wanted_addresses_def by fastforce
qed

definition resolve_groups :: "store \<Rightarrow> (bytes \<times> int) list \<Rightarrow> row_groups \<Rightarrow> row_groups" where
  "resolve_groups store ids byTable = map (\<lambda>(t, g). (t, map (resolve_row ids (spec_columns store t)) g)) byTable"

lemma resolveAddresses_Inr:
  assumes "resolveAddresses store byTable flt c = (Inr byTable', c')"
  obtains ids new where "byTable' = resolve_groups store ids byTable"
    "\<And>a. a \<in> set (wanted_addresses store byTable) \<Longrightarrow> \<exists>i. map_of ids a = Some i \<and> (a, i) \<in> set (db_addresses (cn_db c'))"
    "cn_db c' = (cn_db c)\<lparr>db_addresses := db_addresses (cn_db c) @ new, db_nextId := db_nextId (cn_db c) + int (length new)\<rparr>"
    "addresses_ok (cn_db c) \<Longrightarrow> addresses_ok (cn_db c')"
    "set (map fst new) = set (wanted_addresses store byTable) - set (map_keys (db_addresses (cn_db c)))"
proof (cases "wanted_addresses store byTable = []")
  case True
  have "resolve_groups store [] byTable = byTable"
    unfolding resolve_groups_def
  proof (rule map_idI)
    fix tg assume tg: "tg \<in> set byTable"
    obtain t g where e: "tg = (t, g)" by (cases tg)
    have "map (resolve_row [] (spec_columns store t)) g = g"
      by (rule map_idI, rule resolve_row_id) (use wanted_addresses_mem [OF tg [unfolded e]] True in fastforce)
    then show "(\<lambda>(t, g). (t, map (resolve_row [] (spec_columns store t)) g)) tg = tg" by (simp add: e)
  qed
  with assms True show thesis by (intro that [of "[]" "[]"]) (auto simp: resolveAddresses_def returnT_eq)
next
  case False
  let ?all = "wanted_addresses store byTable"
  from assms False obtain u d1 where ins: "insert_addresses ?all (cn_db c) = (Inr u, d1)" and d1: "cn_db c' = d1"
    and bt: "byTable' = resolve_groups store (filter (\<lambda>(a, _). a \<in> set ?all) (db_addresses d1)) byTable"
    by (auto simp: resolveAddresses_def Let_def bindT_Inr query_Inr returnT_eq select_ids_def resolve_groups_def)
  from insert_addresses_Inr [OF ins] obtain new where new:
    "db_addresses d1 = db_addresses (cn_db c) @ new" "set (map fst new) = set ?all - set (map_keys (db_addresses (cn_db c)))"
    "d1 = (cn_db c)\<lparr>db_addresses := db_addresses (cn_db c) @ new, db_nextId := db_nextId (cn_db c) + int (length new)\<rparr>"
    by blast
  show thesis
  proof (rule that [OF bt])
    fix a assume a: "a \<in> set ?all"
    then have "a \<in> set (map_keys (db_addresses d1))" unfolding new(1) map_append set_append new(2) by blast
    then have "a \<in> set (map_keys (filter (\<lambda>(a, _). a \<in> set ?all) (db_addresses d1)))" using a by force
    then obtain i where "map_of (filter (\<lambda>(a, _). a \<in> set ?all) (db_addresses d1)) a = Some i"
      by (metis map_has_iff not_None_eq)
    moreover from this have "(a, i) \<in> set (db_addresses d1)" by (auto dest: map_of_SomeD)
    ultimately show "\<exists>i. map_of (filter (\<lambda>(a, _). a \<in> set ?all) (db_addresses d1)) a = Some i \<and> (a, i) \<in> set (db_addresses (cn_db c'))"
      unfolding d1 by blast
  next
    show "cn_db c' = (cn_db c)\<lparr>db_addresses := db_addresses (cn_db c) @ new, db_nextId := db_nextId (cn_db c) + int (length new)\<rparr>"
      using new(3) d1 by simp
    show "addresses_ok (cn_db c')" if "addresses_ok (cn_db c)" using insert_addresses_ok [OF ins that] d1 by simp
    show "set (map fst new) = set ?all - set (map_keys (db_addresses (cn_db c)))" by (rule new(2))
  qed
qed

lemma address_of_eq: "addresses_ok d \<Longrightarrow> (a, i) \<in> set (db_addresses d) \<Longrightarrow> address_of d i = Some a"
proof -
  assume ok: "addresses_ok d" and mem: "(a, i) \<in> set (db_addresses d)"
  have "distinct (map fst (map (\<lambda>(a, j). (j, a)) (db_addresses d)))"
    using ok by (simp add: addresses_ok_def comp_def case_prod_beta)
  moreover have "(i, a) \<in> set (map (\<lambda>(a, j). (j, a)) (db_addresses d))" using mem by force
  ultimately show ?thesis unfolding address_of_def by (rule map_of_is_SomeI)
qed

text \<open>A row stored with ids is seen as it was decoded.\<close>

lemma row_view_resolved:
  assumes ok: "addresses_ok d" and cols: "columns_ok columns" and typed: "row_typed columns r"
    and ids: "\<And>c v. c \<in> set columns \<Longrightarrow> cs_address c \<Longrightarrow> map_of r (cs_name c) = Some (SBytes v) \<Longrightarrow>
                \<exists>i. map_of ids v = Some i \<and> (v, i) \<in> set (db_addresses d)"
  shows "row_view d columns (stored columns (resolve_row ids columns r)) = row_values columns r"
proof -
  have "cell_view d c (map_of (resolve_row ids columns r) (cs_name c)) = map_of r (cs_name c)" if c: "c \<in> set columns" for c
  proof (cases "cs_address c")
    case False
    then have "\<not> (\<exists>c' \<in> set columns. cs_name c' = cs_name c \<and> cs_address c')"
      using cols c by (auto simp: columns_ok_def distinct_map inj_on_def)
    then have "map_of (resolve_row ids columns r) (cs_name c) = map_of r (cs_name c)"
      unfolding map_of_resolve_row by (rule if_not_P)
    then show ?thesis using False by (simp add: cell_view_def)
  next
    case True
    then show ?thesis
    proof (cases "map_of r (cs_name c)")
      case (Some x)
      then obtain v where v: "map_of r (cs_name c) = Some (SBytes v)"
        using typed c True by (auto simp: row_typed_def list_all_iff split: sql_value.splits)
      from ids [OF c True this] obtain i where "map_of ids v = Some i" "(v, i) \<in> set (db_addresses d)" by blast
      with v True c address_of_eq [OF ok] show ?thesis by (auto simp: cell_view_def map_of_resolve_row)
    qed (use c in \<open>auto simp: cell_view_def map_of_resolve_row\<close>)
  qed
  then show ?thesis
    by (simp add: row_view_def stored_def row_values_def zip_map2 comp_def zip_same_conv_map)
qed

subsection \<open>The other statements of a batch\<close>

lemma insert_block_Inr:
  assumes "insert_block (text, hash, time) d = (Inr u, d')"
  obtains b where "parse_int text = Some b" "has_partition d ''_blocks'' b"
    "d' = (if map_has b (db_blocks d) then d else d\<lparr>db_blocks := db_blocks d @ [(b, hash, time)]\<rparr>)"
  using assms by (auto simp: insert_block_def split: option.splits if_splits)

definition block_entry :: "string \<times> bytes \<times> int \<Rightarrow> int \<times> bytes \<times> int" where
  "block_entry = (\<lambda>(text, x). (the (parse_int text), x))"

lemma each_row_insert_block:
  "each_row insert_block blks d = (Inr us, d') \<Longrightarrow>
     (\<exists>new. d' = d\<lparr>db_blocks := db_blocks d @ new\<rparr>) \<and>
     map_of (db_blocks d') = (map_of (map block_entry blks)) ++ map_of (db_blocks d) \<and>
     (distinct (map_keys (db_blocks d)) \<longrightarrow> distinct (map_keys (db_blocks d')))"
proof (induction blks arbitrary: d us)
  case Nil
  then show ?case by (auto intro!: exI [of _ "[]"])
next
  case (Cons blk blks)
  obtain bn hash time where blk: "blk = (bn, hash, time)" by (metis prod_cases3)
  from Cons.prems obtain u us' d1 where 1: "insert_block (bn, hash, time) d = (Inr u, d1)"
    and 2: "each_row insert_block blks d1 = (Inr us', d')"
    by (auto simp: each_row_Inr_Cons blk simp del: each_row.simps(2))
  obtain b where b: "parse_int bn = Some b" "has_partition d ''_blocks'' b"
    "d1 = (if map_has b (db_blocks d) then d else d\<lparr>db_blocks := db_blocks d @ [(b, hash, time)]\<rparr>)"
    using 1 by (rule insert_block_Inr)
  have e: "block_entry blk = (b, hash, time)" by (simp add: block_entry_def blk b(1))
  show ?case
  proof (cases "map_has b (db_blocks d)")
    case True
    then obtain x where "map_of (db_blocks d) b = Some x" by (meson map_has_iff not_None_eq)
    then have eq: "map_of (map block_entry (blk # blks)) ++ map_of (db_blocks d) = map_of (map block_entry blks) ++ map_of (db_blocks d)"
      by (auto simp: e fun_eq_iff map_add_def split: option.split)
    show ?thesis unfolding eq using Cons.IH [OF 2] True b(3) by simp
  next
    case False
    then have none: "map_of (db_blocks d) b = None" by (simp add: map_of_eq_None_iff)
    have "map_of (db_blocks d1) = (map_of (db_blocks d))(b \<mapsto> (hash, time))"
      using False b(3) none by (auto simp: fun_eq_iff map_add_def split: option.split)
    then have eq: "map_of (map block_entry (blk # blks)) ++ map_of (db_blocks d) = map_of (map block_entry blks) ++ map_of (db_blocks d1)"
      using none by (auto simp: e fun_eq_iff map_add_def split: option.split)
    show ?thesis unfolding eq using Cons.IH [OF 2] False b(3) by (auto simp: image_iff)
  qed
qed

lemma create_planned_Inr:
  assumes "create_planned ps p flt c = (Inr u, c')"
  obtains new where "cn_db c' = (cn_db c)\<lparr>db_parts := db_parts (cn_db c) @ new\<rparr>"
    "map_has (pp_name p) (db_parts (cn_db c'))"
    "set new \<subseteq> {(pp_name p, pt_table (pp_id p), pt_n (pp_id p) * ps_size ps, (pt_n (pp_id p) + 1) * ps_size ps)}"
proof (cases "map_has (pp_name p) (db_parts (cn_db c))")
  case True
  with assms show thesis by (intro that [of "[]"]) (auto simp: create_planned_def query_Inr create_partition_def)
next
  case False
  with assms show thesis
    by (intro that [of "[(pp_name p, pt_table (pp_id p), pt_n (pp_id p) * ps_size ps, (pt_n (pp_id p) + 1) * ps_size ps)]"])
       (auto simp: create_planned_def query_Inr create_partition_def split: if_splits)
qed

lemma mapT_create_planned:
  "mapT (create_planned ps) planned flt c = (Inr us, c') \<Longrightarrow>
     (\<exists>new. cn_db c' = (cn_db c)\<lparr>db_parts := db_parts (cn_db c) @ new\<rparr> \<and>
        set new \<subseteq> (\<lambda>p. (pp_name p, pt_table (pp_id p), pt_n (pp_id p) * ps_size ps, (pt_n (pp_id p) + 1) * ps_size ps)) ` set planned) \<and>
     (\<forall>p \<in> set planned. map_has (pp_name p) (db_parts (cn_db c')))"
proof (induction planned arbitrary: c us)
  case Nil
  then show ?case by (auto simp: returnT_eq intro!: exI [of _ "[]"])
next
  case (Cons p planned)
  from Cons.prems obtain u us' c1 where 1: "create_planned ps p flt c = (Inr u, c1)"
    and 2: "mapT (create_planned ps) planned flt c1 = (Inr us', c')"
    by (auto simp: mapT_Cons_Inr simp del: mapT.simps)
  obtain new1 where new1: "cn_db c1 = (cn_db c)\<lparr>db_parts := db_parts (cn_db c) @ new1\<rparr>"
    "map_has (pp_name p) (db_parts (cn_db c1))"
    "set new1 \<subseteq> {(pp_name p, pt_table (pp_id p), pt_n (pp_id p) * ps_size ps, (pt_n (pp_id p) + 1) * ps_size ps)}"
    by (rule create_planned_Inr [OF 1])
  from Cons.IH [OF 2] obtain new2 where new2: "cn_db c' = (cn_db c1)\<lparr>db_parts := db_parts (cn_db c1) @ new2\<rparr>"
    "set new2 \<subseteq> (\<lambda>p. (pp_name p, pt_table (pp_id p), pt_n (pp_id p) * ps_size ps, (pt_n (pp_id p) + 1) * ps_size ps)) ` set planned"
    "\<forall>p \<in> set planned. map_has (pp_name p) (db_parts (cn_db c'))" by blast
  have "map_has (pp_name p) (db_parts (cn_db c'))" using new1(2) new2(1) by auto
  moreover have "cn_db c' = (cn_db c)\<lparr>db_parts := db_parts (cn_db c) @ (new1 @ new2)\<rparr>" using new1(1) new2(1) by simp
  ultimately show ?case using new1(3) new2(2,3) by (intro conjI exI [of _ "new1 @ new2"]) auto
qed

lemma mapT_require_spec:
  "mapT (require_spec store) gs flt c = (Inr us, c') \<Longrightarrow> c' = c \<and> (\<forall>(t, _) \<in> set gs. map_has t (st_tables store))"
  by (induction gs arbitrary: us)
     (auto simp: mapT_Cons_Inr returnT_eq require_spec_def throwT_eq simp del: mapT.simps(2) split: if_splits)

subsection \<open>The effect of a whole batch\<close>

definition db_ok :: "store \<Rightarrow> db \<Rightarrow> bool" where
  "db_ok store d \<longleftrightarrow> addresses_ok d \<and> distinct (map_keys (db_blocks d)) \<and>
     (\<forall>t. distinct (map sr_key (db_rows d t)) \<and>
       (\<forall>row \<in> set (db_rows d t). has_partition d t (fst (sr_key row)) \<and> map_has (fst (sr_key row)) (db_blocks d) \<and>
          (\<forall>(c, n, v) \<in> set (zip (spec_columns store t) (sr_values row)).
             cs_address c \<longrightarrow> (case v of Some (SNum i) \<Rightarrow> i \<in> snd ` set (db_addresses d) | _ \<Rightarrow> True))))"

lemma db_ok_empty: "db_ok store empty_db"
  by (simp add: db_ok_def empty_db_def addresses_ok_def)

lemma commit_body_Inr:
  assumes body: "commit_body store byTable blocks planned dead cur flt c = (Inr n, c')"
    and dist: "distinct (map_keys byTable)"
  obtains parts new ids nblocks where
    "cn_db c' = (cn_db c)\<lparr>db_parts := db_parts (cn_db c) @ parts, db_addresses := db_addresses (cn_db c) @ new,
       db_nextId := db_nextId (cn_db c) + int (length new), db_blocks := db_blocks (cn_db c) @ nblocks,
       db_rows := (\<lambda>t. db_rows (cn_db c) t @ (case map_of (resolve_groups store ids byTable) t of None \<Rightarrow> []
          | Some g \<Rightarrow> map (stored (spec_columns store t)) (fresh_rows (map sr_key (db_rows (cn_db c) t)) g))),
       db_dead := db_dead (cn_db c) @ dead, db_cursor := map_option (\<lambda>_. cur) (db_cursor (cn_db c))\<rparr>"
    "set parts \<subseteq> (\<lambda>p. (pp_name p, pt_table (pp_id p), pt_n (pp_id p) * ps_size (st_partitions store),
        (pt_n (pp_id p) + 1) * ps_size (st_partitions store))) ` set planned"
    "\<And>p. p \<in> set planned \<Longrightarrow> map_has (pp_name p) (db_parts (cn_db c'))"
    "\<And>a. a \<in> set (wanted_addresses store byTable) \<Longrightarrow> \<exists>i. map_of ids a = Some i \<and> (a, i) \<in> set (db_addresses (cn_db c'))"
    "addresses_ok (cn_db c) \<Longrightarrow> addresses_ok (cn_db c')"
    "set (map fst new) = set (wanted_addresses store byTable) - set (map_keys (db_addresses (cn_db c)))"
    "\<And>t g r. (t, g) \<in> set (resolve_groups store ids byTable) \<Longrightarrow> r \<in> set g \<Longrightarrow> row_placed (cn_db c') t r"
    "map_of (db_blocks (cn_db c')) = map_of (map block_entry blocks) ++ map_of (db_blocks (cn_db c))"
    "distinct (map_keys (db_blocks (cn_db c))) \<Longrightarrow> distinct (map_keys (db_blocks (cn_db c')))"
    "\<And>t. t \<in> set (map_keys byTable) \<Longrightarrow> map_has t (st_tables store)"
proof -
  from body obtain us1 c1 us2 c2 bt c3 us4 c4 ns c5 u6 c6 u7 where
    1: "mapT (create_planned (st_partitions store)) planned flt c = (Inr us1, c1)" and
    2: "mapT (require_spec store) byTable flt c1 = (Inr us2, c2)" and
    3: "resolveAddresses store byTable flt c2 = (Inr bt, c3)" and
    4: "(if blocks \<noteq> [] then query (each_row insert_block blocks) else returnT []) flt c3 = (Inr us4, c4)" and
    5: "mapT (insert_group store) bt flt c4 = (Inr ns, c5)" and
    6: "(if dead \<noteq> [] then query (insert_dead dead) else returnT ()) flt c5 = (Inr u6, c6)" and
    7: "query (set_cursor cur) flt c6 = (Inr u7, c')"
    unfolding commit_body_def bindT_Inr returnT_eq by blast
  from mapT_create_planned [OF 1] obtain parts where parts: "cn_db c1 = (cn_db c)\<lparr>db_parts := db_parts (cn_db c) @ parts\<rparr>"
    "set parts \<subseteq> (\<lambda>p. (pp_name p, pt_table (pp_id p), pt_n (pp_id p) * ps_size (st_partitions store),
        (pt_n (pp_id p) + 1) * ps_size (st_partitions store))) ` set planned"
    "\<forall>p \<in> set planned. map_has (pp_name p) (db_parts (cn_db c1))" by blast
  from mapT_require_spec [OF 2] have c2: "c2 = c1" "\<forall>(t, _) \<in> set byTable. map_has t (st_tables store)" by auto
  obtain ids new where addr: "bt = resolve_groups store ids byTable"
    "\<And>a. a \<in> set (wanted_addresses store byTable) \<Longrightarrow> \<exists>i. map_of ids a = Some i \<and> (a, i) \<in> set (db_addresses (cn_db c3))"
    "cn_db c3 = (cn_db c2)\<lparr>db_addresses := db_addresses (cn_db c2) @ new, db_nextId := db_nextId (cn_db c2) + int (length new)\<rparr>"
    "addresses_ok (cn_db c2) \<Longrightarrow> addresses_ok (cn_db c3)"
    "set (map fst new) = set (wanted_addresses store byTable) - set (map_keys (db_addresses (cn_db c2)))"
    by (rule resolveAddresses_Inr [OF 3]) blast
  have "each_row insert_block blocks (cn_db c3) = (Inr us4, cn_db c4)"
    using 4 by (cases "blocks = []") (auto simp: returnT_eq query_Inr)
  from each_row_insert_block [OF this] obtain nblocks where blk: "cn_db c4 = (cn_db c3)\<lparr>db_blocks := db_blocks (cn_db c3) @ nblocks\<rparr>"
    "map_of (db_blocks (cn_db c4)) = map_of (map block_entry blocks) ++ map_of (db_blocks (cn_db c3))"
    "distinct (map_keys (db_blocks (cn_db c3))) \<Longrightarrow> distinct (map_keys (db_blocks (cn_db c4)))" by blast
  have "map_keys bt = map_keys byTable" unfolding addr(1) resolve_groups_def by (simp add: comp_def case_prod_beta)
  then have grp: "cn_db c5 = (cn_db c4)\<lparr>db_rows := (\<lambda>t. db_rows (cn_db c4) t @ (case map_of bt t of None \<Rightarrow> []
         | Some g \<Rightarrow> map (stored (spec_columns store t)) (fresh_rows (map sr_key (db_rows (cn_db c4) t)) g)))\<rparr>"
    "\<forall>(t, g) \<in> set bt. \<forall>r \<in> set g. row_placed (cn_db c4) t r"
    using insert_groups [OF 5] dist by auto
  have c6: "cn_db c6 = (cn_db c5)\<lparr>db_dead := db_dead (cn_db c5) @ dead\<rparr>"
    using 6 by (cases "dead = []") (auto simp: returnT_eq query_Inr insert_dead_def)
  have c': "cn_db c' = (cn_db c6)\<lparr>db_cursor := map_option (\<lambda>_. cur) (db_cursor (cn_db c6))\<rparr>"
    using 7 by (auto simp: query_Inr set_cursor_def)
  have hp: "row_placed (cn_db c4) t r = row_placed (cn_db c') t r" for t r
    by (simp add: row_placed_def has_partition_def c' c6 grp(1))
  have ad: "addresses_ok (cn_db c') = addresses_ok (cn_db c3)" "db_addresses (cn_db c') = db_addresses (cn_db c3)"
    by (simp_all add: addresses_ok_def c' c6 grp(1) blk(1))
  show thesis
  proof (rule that [where parts = parts and new = new and ids = ids and nblocks = nblocks])
    show "cn_db c' = (cn_db c)\<lparr>db_parts := db_parts (cn_db c) @ parts, db_addresses := db_addresses (cn_db c) @ new,
       db_nextId := db_nextId (cn_db c) + int (length new), db_blocks := db_blocks (cn_db c) @ nblocks,
       db_rows := (\<lambda>t. db_rows (cn_db c) t @ (case map_of (resolve_groups store ids byTable) t of None \<Rightarrow> []
          | Some g \<Rightarrow> map (stored (spec_columns store t)) (fresh_rows (map sr_key (db_rows (cn_db c) t)) g))),
       db_dead := db_dead (cn_db c) @ dead, db_cursor := map_option (\<lambda>_. cur) (db_cursor (cn_db c))\<rparr>"
      by (simp add: c' c6 grp(1) blk(1) addr(3) c2 parts(1) addr(1) [symmetric] cong: option.case_cong)
    show "set parts \<subseteq> (\<lambda>p. (pp_name p, pt_table (pp_id p), pt_n (pp_id p) * ps_size (st_partitions store),
        (pt_n (pp_id p) + 1) * ps_size (st_partitions store))) ` set planned" by (rule parts(2))
    show "map_has (pp_name p) (db_parts (cn_db c'))" if "p \<in> set planned" for p
      using parts(3) that by (simp add: c' c6 grp(1) blk(1) addr(3) c2)
    show "\<exists>i. map_of ids a = Some i \<and> (a, i) \<in> set (db_addresses (cn_db c'))"
      if "a \<in> set (wanted_addresses store byTable)" for a using addr(2) [OF that] ad(2) by simp
    show "addresses_ok (cn_db c')" if "addresses_ok (cn_db c)"
    proof -
      have "addresses_ok (cn_db c2)" using that by (simp add: addresses_ok_def c2 parts(1))
      then show ?thesis unfolding ad(1) by (rule addr(4))
    qed
    show "set (map fst new) = set (wanted_addresses store byTable) - set (map_keys (db_addresses (cn_db c)))"
      using addr(5) by (simp add: c2 parts(1))
    show "row_placed (cn_db c') t r" if "(t, g) \<in> set (resolve_groups store ids byTable)" "r \<in> set g" for t g r
      using that grp(2) unfolding hp addr(1) by fast
    show "map_of (db_blocks (cn_db c')) = map_of (map block_entry blocks) ++ map_of (db_blocks (cn_db c))"
      using blk(2) by (simp add: c' c6 grp(1) addr(3) c2 parts(1))
    show "distinct (map_keys (db_blocks (cn_db c')))" if "distinct (map_keys (db_blocks (cn_db c)))"
      using blk(3) that by (simp add: c' c6 grp(1) addr(3) c2 parts(1))
    show "map_has t (st_tables store)" if "t \<in> set (map_keys byTable)" for t
      using that c2(2) by auto
  qed
qed

lemma fresh_rows_map:
  "(\<And>r. the_key (f r) = the_key r) \<Longrightarrow> fresh_rows seen (map f rs) = map f (fresh_rows seen rs)"
  by (induction rs arbitrary: seen) auto

lemma map_of_resolve_groups:
  "map_of (resolve_groups store ids gs) t = map_option (map (resolve_row ids (spec_columns store t))) (map_of gs t)"
  by (induction gs) (auto simp: resolve_groups_def)

text \<open>The rows a batch adds to a table, in the shape they are stored.\<close>

definition new_rows :: "store \<Rightarrow> (bytes \<times> int) list \<Rightarrow> decoded_row list \<Rightarrow> db \<Rightarrow> string \<Rightarrow> stored_row list" where
  "new_rows store ids rows d t =
     map (\<lambda>r. stored (spec_columns store t) (resolve_row ids (spec_columns store t) r))
       (fresh_rows (map sr_key (db_rows d t)) (rows_for t rows))"

lemma resolved_group_rows:
  assumes "store_ok store"
  shows "(case map_of (resolve_groups store ids (group_rows rows)) t of None \<Rightarrow> []
          | Some g \<Rightarrow> map (stored (spec_columns store t)) (fresh_rows seen g)) =
     map (\<lambda>r. stored (spec_columns store t) (resolve_row ids (spec_columns store t) r)) (fresh_rows seen (rows_for t rows))"
  using resolve_row_the_key [OF store_ok_columns [OF assms]]
  by (simp add: map_of_resolve_groups map_of_group_rows fresh_rows_map comp_def)

lemma commitBatch_transaction:
  assumes "commitBatch flt store rows dead cur d = (r, d', store')"
  obtains (early) e where "r = Inl e" "d' = d" "store' = store"
      "\<And>flt'. commitBatch flt' store rows dead cur d = (Inl e, d, store)"
    | (tried) ns planned written where
      "written = (if rows \<noteq> [] then ''_blocks'' # map_keys (group_rows rows) else [])"
      "mapE BigInt (map_keys (batch_blocks rows)) = Inr ns"
      "partitions_plan (st_partitions store) written ns = Inr planned"
      "transaction flt (commit_body store (group_rows rows) (batch_blocks rows) planned dead cur) d = (r, d')"
      "store' = (if isl r then store
         else store\<lparr>st_partitions := partitions_committed (st_partitions store) written ns planned\<rparr>)"
      "\<And>flt'. commitBatch flt' store rows dead cur d =
         (case transaction flt' (commit_body store (group_rows rows) (batch_blocks rows) planned dead cur) d of
            (Inl e, d') \<Rightarrow> (Inl e, d', store)
          | (Inr n, d') \<Rightarrow> (Inr n, d', store\<lparr>st_partitions := partitions_committed (st_partitions store) written ns planned\<rparr>))"
proof -
  let ?written = "if rows \<noteq> [] then ''_blocks'' # map_keys (group_rows rows) else []"
  let ?prep = "bindE (mapE BigInt (map_keys (batch_blocks rows))) (\<lambda>ns.
     bindE (partitions_plan (st_partitions store) ?written ns) (\<lambda>planned. Inr (ns, planned)))"
  have eq: "commitBatch flt' store rows dead cur d = (case ?prep of Inl e \<Rightarrow> (Inl e, d, store)
       | Inr (ns, planned) \<Rightarrow>
         (case transaction flt' (commit_body store (group_rows rows) (batch_blocks rows) planned dead cur) d of
            (Inl e, d') \<Rightarrow> (Inl e, d', store)
          | (Inr n, d') \<Rightarrow> (Inr n, d', store\<lparr>st_partitions := partitions_committed (st_partitions store) ?written ns planned\<rparr>)))" for flt'
    by (simp add: commitBatch_def Let_def group_rows_Nil_iff)
  show thesis
  proof (cases ?prep)
    case (Inl e)
    then show thesis using assms early [of e] unfolding eq by simp
  next
    case (Inr x)
    obtain ns planned where x: "x = (ns, planned)" by (cases x)
    have prep: "mapE BigInt (map_keys (batch_blocks rows)) = Inr ns" "partitions_plan (st_partitions store) ?written ns = Inr planned"
      using Inr by (auto simp: bindE_Inr x)
    obtain r1 d1 where t: "transaction flt (commit_body store (group_rows rows) (batch_blocks rows) planned dead cur) d = (r1, d1)"
      by (meson prod.exhaust_sel)
    have "r1 = r \<and> d1 = d' \<and> store' = (if isl r then store
        else store\<lparr>st_partitions := partitions_committed (st_partitions store) ?written ns planned\<rparr>)"
      using assms unfolding eq Inr by (cases r1) (auto simp: x t)
    then show thesis using tried [OF refl prep] t unfolding eq Inr x by auto
  qed
qed

lemma commit_body_fault_free: "fault_free (commit_body store byTable blocks planned dead cur)"
  unfolding commit_body_def create_planned_def require_spec_def resolveAddresses_def insert_group_def Let_def
  by (auto intro!: fault_free_bind fault_free_mapT split: prod.split)

definition sequence_le :: "db \<Rightarrow> db \<Rightarrow> bool" where
  "sequence_le d d' \<longleftrightarrow> db_nextId d \<le> db_nextId d'"

lemma sequence_le_refl: "reflp sequence_le" and sequence_le_trans: "transp sequence_le"
  by (auto simp: sequence_le_def intro!: reflpI transpI)

lemma insert_addresses_le: "insert_addresses as d = (r, d') \<Longrightarrow> sequence_le d d'"
proof (induction as arbitrary: d)
  case (Cons a as)
  let ?d = "d\<lparr>db_addresses := db_addresses d @ [(a, db_nextId d)], db_nextId := db_nextId d + 1\<rparr>"
  consider "insert_addresses as d = (r, d')" | "d' = d" | "insert_addresses as ?d = (r, d')"
    using Cons.prems by (auto split: if_splits)
  then show ?case
  proof cases
    case 3
    from Cons.IH [OF this] show ?thesis by (simp add: sequence_le_def)
  qed (use Cons.IH in \<open>auto simp: sequence_le_def\<close>)
qed (simp add: sequence_le_def)

lemma each_row_le:
  "(\<And>x d r d'. f x d = (r, d') \<Longrightarrow> sequence_le d d') \<Longrightarrow> each_row f xs d = (r, d') \<Longrightarrow> sequence_le d d'"
proof (induction xs arbitrary: d r d')
  case (Cons x xs)
  obtain r1 d1 where 1: "f x d = (r1, d1)" by (meson prod.exhaust_sel)
  obtain r2 d2 where 2: "each_row f xs d1 = (r2, d2)" by (meson prod.exhaust_sel)
  have "sequence_le d d1" "sequence_le d1 d2" using Cons 1 2 by blast+
  then show ?case using Cons.prems(2) 1 2 transpD [OF sequence_le_trans] by (auto split: sum.splits)
qed (simp add: sequence_le_def)

lemma insert_row_le: "insert_row schema t cols x d = (r, d') \<Longrightarrow> sequence_le d d'"
  by (auto simp: insert_row_def sequence_le_def split: if_splits option.splits)

lemma insert_block_le: "insert_block x d = (r, d') \<Longrightarrow> sequence_le d d'"
  by (auto simp: insert_block_def sequence_le_def split: if_splits option.splits prod.splits)

lemma commit_body_le: "tx_rel sequence_le (commit_body store byTable blocks planned dead cur)"
proof -
  note [intro!] = tx_rel_bind [OF sequence_le_trans] tx_rel_mapT [OF sequence_le_refl sequence_le_trans]
    tx_rel_query [OF sequence_le_refl]
  note [simp] = tx_rel_return [OF sequence_le_refl] tx_rel_throw [OF sequence_le_refl]
  have "tx_rel sequence_le (create_planned ps p)" for ps p
    unfolding create_planned_def by (auto simp: create_partition_def sequence_le_def split: if_splits)
  moreover have "tx_rel sequence_le (require_spec store p)" for p
    by (auto simp: require_spec_def split: prod.split)
  moreover have "tx_rel sequence_le (resolveAddresses store byTable)"
    by (auto simp: resolveAddresses_def Let_def select_ids_def insert_addresses_le sequence_le_def [of d d for d])
  moreover have "tx_rel sequence_le (insert_group store g)" for g
    by (auto simp: insert_group_def split: prod.split intro: each_row_le [OF insert_row_le])
  moreover have "tx_rel sequence_le (query (each_row insert_block blocks))"
    by (auto intro: each_row_le [OF insert_block_le])
  ultimately show ?thesis
    unfolding commit_body_def by (auto simp: insert_dead_def set_cursor_def sequence_le_def)
qed

subsection \<open>All or nothing\<close>

lemma commitBatch_outcome:
  assumes "commitBatch flt store rows dead cur d = (r, d', store')"
  shows "(\<exists>n final. commitBatch NoFault store rows dead cur d = (Inr n, d', final) \<and>
            (r = Inr n \<and> store' = final \<or> flt = AckLost \<and> isl r \<and> store' = store)) \<or>
         (isl r \<and> store' = store \<and> db_nextId d \<le> db_nextId d' \<and> d' = d\<lparr>db_nextId := db_nextId d'\<rparr>)"
  using assms
proof (cases rule: commitBatch_transaction)
  case (tried ns planned written)
  let ?body = "commit_body store (group_rows rows) (batch_blocks rows) planned dead cur"
  show ?thesis
  proof (cases rule: transaction_outcome [OF commit_body_fault_free tried(4)])
    case (3 e work)
    have "sequence_le d work" by (rule 3(3) [OF commit_body_le sequence_le_refl])
    then show ?thesis using 3 tried(5) by (simp add: rolled_back_def sequence_le_def)
  qed (use tried(5,6) in auto)
qed simp

text \<open>
  C5: A batch is written whole or not at all. If \<open>commitBatch\<close> answers, the database is what the
  batch makes of it without faults; if it throws, the database is unchanged up to consumed
  identity values, unless only the acknowledgement of COMMIT was lost; and the process believes
  in new partitions only after it has seen the commit.
\<close>

theorem commitBatch_atomic:
  assumes "commitBatch flt store rows dead cur d = (r, d', store')"
  shows "(\<exists>n final. commitBatch NoFault store rows dead cur d = (Inr n, d', final) \<and>
            (r = Inr n \<and> store' = final \<or> flt = AckLost \<and> isl r \<and> store' = store)) \<or>
         (isl r \<and> store' = store \<and> db_nextId d \<le> db_nextId d' \<and> d' = d\<lparr>db_nextId := db_nextId d'\<rparr>)"
  using assms by (rule commitBatch_outcome)

subsection \<open>What readers see after a batch\<close>

definition block_text :: "decoded_row \<Rightarrow> string" where
  "block_text r = sql_String (map_of (dr_columns r) ''block_number'')"

lemma batch_blocks_keys: "set (map_keys (batch_blocks rows)) = block_text ` set rows"
proof -
  let ?add = "\<lambda>m r. map_set (sql_String (map_of (dr_columns r) ''block_number'')) (hexBytes (dr_blockHash r), dr_blockTime r) m"
  have "set (map_keys (foldl ?add m rows)) = set (map_keys m) \<union> block_text ` set rows" for m
    by (induction rows arbitrary: m) (auto simp: keys_map_set block_text_def)
  then show ?thesis unfolding batch_blocks_def by simp
qed

lemma cast_int_parse: "cast_int v = Some b \<Longrightarrow> parse_int (sql_String v) = Some b"
  by (auto simp: cast_int_def split: option.splits sql_value.splits)

lemma rows_for_group: "r \<in> set rows \<Longrightarrow> \<exists>g. (dr_tableName r, g) \<in> set (group_rows rows) \<and> dr_columns r \<in> set g"
proof -
  assume r: "r \<in> set rows"
  then have m: "dr_columns r \<in> set (rows_for (dr_tableName r) rows)" by (auto simp: rows_for_def)
  then have "map_of (group_rows rows) (dr_tableName r) = Some (rows_for (dr_tableName r) rows)"
    by (auto simp: map_of_group_rows)
  with m show ?thesis by (blast dest: map_of_SomeD)
qed

lemma group_rows_row:
  "(t, g) \<in> set (group_rows rows) \<Longrightarrow> c \<in> set g \<Longrightarrow> \<exists>r \<in> set rows. dr_tableName r = t \<and> dr_columns r = c"
proof -
  assume tg: "(t, g) \<in> set (group_rows rows)" "c \<in> set g"
  then have "map_of (group_rows rows) t = Some g" using distinct_group_rows by (simp add: map_of_is_SomeI)
  then have "g = rows_for t rows" by (auto simp: map_of_group_rows split: if_splits)
  with tg(2) show ?thesis by (auto simp: rows_for_def)
qed

text \<open>What the proof of a commit delivers: the tables before and after, seen through the ids.\<close>

lemma commitBatch_effect:
  assumes run: "commitBatch flt store rows dead cur d = (Inr n, d', store')"
    and st: "store_ok store" and ok: "db_ok store d"
    and typed: "\<And>r. r \<in> set rows \<Longrightarrow> row_typed (spec_columns store (dr_tableName r)) (dr_columns r)"
  shows "table_view store d' t = table_view store d t @
           map (row_values (spec_columns store t)) (fresh_rows (map sr_key (db_rows d t)) (rows_for t rows))"
    and "map sr_key (db_rows d' t) = map sr_key (db_rows d t) @
           map the_key (fresh_rows (map sr_key (db_rows d t)) (rows_for t rows))"
    and "db_cursor d' = map_option (\<lambda>_. cur) (db_cursor d)" "db_dead d' = db_dead d @ dead"
    and "db_ddl d' = db_ddl d" "db_meta d' = db_meta d" "db_ok store d'"
proof -
  obtain ns planned written where tr: "transaction flt (commit_body store (group_rows rows) (batch_blocks rows) planned dead cur) d = (Inr n, d')"
    using run by (cases rule: commitBatch_transaction) auto
  obtain c where body: "commit_body store (group_rows rows) (batch_blocks rows) planned dead cur NoFault \<lparr>cn_db = d, cn_sent = 1\<rparr> = (Inr n, c)"
    and c: "cn_db c = d'"
    using tr by (cases rule: transaction_outcome [OF commit_body_fault_free tr]) auto
  obtain parts new ids nblocks where e:
    "d' = d\<lparr>db_parts := db_parts d @ parts, db_addresses := db_addresses d @ new,
       db_nextId := db_nextId d + int (length new), db_blocks := db_blocks d @ nblocks,
       db_rows := (\<lambda>t. db_rows d t @ (case map_of (resolve_groups store ids (group_rows rows)) t of None \<Rightarrow> []
          | Some g \<Rightarrow> map (stored (spec_columns store t)) (fresh_rows (map sr_key (db_rows d t)) g))),
       db_dead := db_dead d @ dead, db_cursor := map_option (\<lambda>_. cur) (db_cursor d)\<rparr>"
    and ids: "\<And>a. a \<in> set (wanted_addresses store (group_rows rows)) \<Longrightarrow> \<exists>i. map_of ids a = Some i \<and> (a, i) \<in> set (db_addresses d')"
    and aok: "addresses_ok d \<Longrightarrow> addresses_ok d'"
    and hp: "\<And>t g r. (t, g) \<in> set (resolve_groups store ids (group_rows rows)) \<Longrightarrow> r \<in> set g \<Longrightarrow> row_placed d' t r"
    and blk: "map_of (db_blocks d') = map_of (map block_entry (batch_blocks rows)) ++ map_of (db_blocks d)"
    and bdist: "distinct (map_keys (db_blocks d)) \<Longrightarrow> distinct (map_keys (db_blocks d'))"
    by (rule commit_body_Inr [OF body distinct_group_rows, unfolded c conn.simps(1)]) (rule that)
  have rows': "db_rows d' t = db_rows d t @ new_rows store ids rows d t" for t
    unfolding e new_rows_def resolved_group_rows [OF st] by simp
  have a': "addresses_ok d'" using aok ok by (simp add: db_ok_def)
  have fr: "r \<in> set (fresh_rows (map sr_key (db_rows d t)) (rows_for t rows)) \<Longrightarrow>
      \<exists>r' \<in> set rows. dr_tableName r' = t \<and> dr_columns r' = r" for t r
    using fresh_rows_keys(1) by (fastforce simp: rows_for_def)
  have idr: "\<exists>i. map_of ids v = Some i \<and> (v, i) \<in> set (db_addresses d')"
    if "r \<in> set rows" "cc \<in> set (spec_columns store (dr_tableName r))" "cs_address cc" "map_of (dr_columns r) (cs_name cc) = Some (SBytes v)" for r cc v
  proof -
    from rows_for_group [OF that(1)] obtain g where "(dr_tableName r, g) \<in> set (group_rows rows)" "dr_columns r \<in> set g" by blast
    from ids [OF wanted_addresses_mem [OF this that(2-4)]] show ?thesis .
  qed
  have view_new: "row_view d' (spec_columns store t) (stored (spec_columns store t) (resolve_row ids (spec_columns store t) r)) = row_values (spec_columns store t) r"
    if r: "r \<in> set (fresh_rows (map sr_key (db_rows d t)) (rows_for t rows))" for t r
  proof -
    obtain r' where r': "r' \<in> set rows" "dr_tableName r' = t" "dr_columns r' = r" using fr [OF r] by blast
    show ?thesis
    proof (rule row_view_resolved [OF a' store_ok_columns [OF st]])
      show "row_typed (spec_columns store t) r" using typed [OF r'(1)] r' by simp
      show "\<exists>i. map_of ids v = Some i \<and> (v, i) \<in> set (db_addresses d')"
        if "cc \<in> set (spec_columns store t)" "cs_address cc" "map_of r (cs_name cc) = Some (SBytes v)" for cc v
        using idr [OF r'(1)] r'(2,3) that by blast
    qed
  qed
  have view_old: "row_view d' (spec_columns store t) row = row_view d (spec_columns store t) row" if row: "row \<in> set (db_rows d t)" for t row
  proof -
    have "cell_view d' cc v = cell_view d cc v" if "(cc, nm, v) \<in> set (zip (spec_columns store t) (sr_values row))" for cc nm v
    proof (cases "cs_address cc")
      case True
      have known: "case v of Some (SNum i) \<Rightarrow> i \<in> snd ` set (db_addresses d) | _ \<Rightarrow> True"
        using ok row that True unfolding db_ok_def by fast
      have "address_of d' i = address_of d i" if "i \<in> snd ` set (db_addresses d)" for i
      proof -
        obtain a where "(a, i) \<in> set (db_addresses d)" using \<open>i \<in> snd ` set (db_addresses d)\<close> by auto
        moreover from this have "(a, i) \<in> set (db_addresses d')" by (simp add: e)
        ultimately show ?thesis using address_of_eq a' ok unfolding db_ok_def by metis
      qed
      with known show ?thesis by (auto simp: cell_view_def split: option.split sql_value.split)
    qed (simp add: cell_view_def)
    then show ?thesis unfolding row_view_def by (auto intro!: map_cong)
  qed
  show "table_view store d' t = table_view store d t @
      map (row_values (spec_columns store t)) (fresh_rows (map sr_key (db_rows d t)) (rows_for t rows))"
    using view_old view_new by (simp add: table_view_def rows' new_rows_def comp_def)
  have keys: "map sr_key (db_rows d' t) = map sr_key (db_rows d t) @
      map the_key (fresh_rows (map sr_key (db_rows d t)) (rows_for t rows))" for t
    by (simp add: rows' new_rows_def comp_def resolve_row_the_key [OF store_ok_columns [OF st]])
  then show "map sr_key (db_rows d' t) = map sr_key (db_rows d t) @
      map the_key (fresh_rows (map sr_key (db_rows d t)) (rows_for t rows))" .
  show "db_cursor d' = map_option (\<lambda>_. cur) (db_cursor d)" "db_dead d' = db_dead d @ dead"
    "db_ddl d' = db_ddl d" "db_meta d' = db_meta d" by (simp_all add: e)
  have part_old: "has_partition d t b \<Longrightarrow> has_partition d' t b" for t b by (auto simp: has_partition_iff e)
  have blk_old: "map_has b (db_blocks d) \<Longrightarrow> map_has b (db_blocks d')" for b by (auto simp: e)
  have new_row_ok: "has_partition d' t (fst (the_key r)) \<and> map_has (fst (the_key r)) (db_blocks d')"
    if r: "r \<in> set (fresh_rows (map sr_key (db_rows d t)) (rows_for t rows))" for t r
  proof -
    obtain r' where r': "r' \<in> set rows" "dr_tableName r' = t" "dr_columns r' = r" using fr [OF r] by blast
    from rows_for_group [OF r'(1)] obtain g where "(t, g) \<in> set (group_rows rows)" "r \<in> set g" using r' by blast
    then have "(t, map (resolve_row ids (spec_columns store t)) g) \<in> set (resolve_groups store ids (group_rows rows))"
      "resolve_row ids (spec_columns store t) r \<in> set (map (resolve_row ids (spec_columns store t)) g)"
      by (force simp: resolve_groups_def)+
    then have "row_placed d' t (resolve_row ids (spec_columns store t) r)" by (rule hp)
    then have pl: "row_placed d' t r"
      by (simp add: row_placed_def resolve_row_the_key [OF store_ok_columns [OF st]] resolve_row_key [OF store_ok_columns [OF st]])
    then have "parse_int (sql_String (map_of r ''block_number'')) = Some (fst (the_key r))"
      by (intro cast_int_parse) (simp add: row_placed_def row_key_def)
    moreover have "sql_String (map_of r ''block_number'') \<in> set (map_keys (batch_blocks rows))"
      using r'(1,3) unfolding batch_blocks_keys block_text_def by auto
    ultimately have "fst (the_key r) \<in> set (map_keys (map block_entry (batch_blocks rows)))"
      by (force simp: block_entry_def)
    then have "map_of (map block_entry (batch_blocks rows)) (fst (the_key r)) \<noteq> None"
      by (rule map_has_iff [THEN iffD1])
    then have "map_of (db_blocks d') (fst (the_key r)) \<noteq> None" unfolding blk map_add_None by blast
    then have "map_has (fst (the_key r)) (db_blocks d')" by (rule map_has_iff [THEN iffD2])
    with pl show ?thesis by (simp add: row_placed_def)
  qed
  have new_ids: "case v of Some (SNum i) \<Rightarrow> i \<in> snd ` set (db_addresses d') | _ \<Rightarrow> True"
    if r: "r \<in> set (fresh_rows (map sr_key (db_rows d t)) (rows_for t rows))"
      and z: "(cc, nm, v) \<in> set (zip (spec_columns store t) (sr_values (stored (spec_columns store t) (resolve_row ids (spec_columns store t) r))))"
      and ad: "cs_address cc" for t r cc nm v
  proof -
    obtain r' where r': "r' \<in> set rows" "dr_tableName r' = t" "dr_columns r' = r" using fr [OF r] by blast
    have cc: "cc \<in> set (spec_columns store t)" "v = map_of (resolve_row ids (spec_columns store t) r) (cs_name cc)"
      using z by (auto simp: stored_def row_values_def in_set_zip)
    have "row_typed (spec_columns store t) r" using typed [OF r'(1)] r' by simp
    with cc(1) ad have "case map_of r (cs_name cc) of None \<Rightarrow> True | Some (SBytes _) \<Rightarrow> True | _ \<Rightarrow> False"
      unfolding row_typed_def list_all_iff by fast
    then have "map_of r (cs_name cc) = None \<or> (\<exists>a. map_of r (cs_name cc) = Some (SBytes a))"
      by (auto split: option.splits sql_value.splits)
    then show ?thesis
    proof (elim disjE exE)
      fix a assume a: "map_of r (cs_name cc) = Some (SBytes a)"
      from idr [OF r'(1), of cc a] r'(2,3) cc(1) ad a obtain i where "map_of ids a = Some i" "(a, i) \<in> set (db_addresses d')" by auto
      with a cc ad show ?thesis by (force simp: map_of_resolve_row)
    qed (use cc ad in \<open>simp add: map_of_resolve_row\<close>)
  qed
  show "db_ok store d'"
    unfolding db_ok_def
  proof (intro conjI allI ballI)
    fix t
    show "addresses_ok d'" by (rule a')
    show "distinct (map_keys (db_blocks d'))" using bdist ok by (simp add: db_ok_def)
    have "distinct (map sr_key (db_rows d t))" using ok by (simp add: db_ok_def)
    then show "distinct (map sr_key (db_rows d' t))" unfolding keys by (rule fresh_rows_keys(2))
    fix row assume "row \<in> set (db_rows d' t)"
    then consider (old) "row \<in> set (db_rows d t)"
      | (new) r where "r \<in> set (fresh_rows (map sr_key (db_rows d t)) (rows_for t rows))"
        "row = stored (spec_columns store t) (resolve_row ids (spec_columns store t) r)"
      unfolding rows' new_rows_def by auto
    then have "has_partition d' t (fst (sr_key row)) \<and> map_has (fst (sr_key row)) (db_blocks d') \<and>
       (\<forall>(cc, nm, v) \<in> set (zip (spec_columns store t) (sr_values row)). cs_address cc \<longrightarrow>
          (case v of Some (SNum i) \<Rightarrow> i \<in> snd ` set (db_addresses d') | _ \<Rightarrow> True))"
    proof cases
      case old
      have "\<And>i. i \<in> snd ` set (db_addresses d) \<Longrightarrow> i \<in> snd ` set (db_addresses d')" by (auto simp: e)
      then show ?thesis using ok old part_old blk_old unfolding db_ok_def
        by (auto split: option.splits sql_value.splits) fastforce
    next
      case new
      then show ?thesis
        using new_row_ok [OF new(1)] new_ids [OF new(1)] by (auto simp: resolve_row_the_key [OF store_ok_columns [OF st]])
    qed
    then show "has_partition d' t (fst (sr_key row))" "map_has (fst (sr_key row)) (db_blocks d')"
      "\<And>x. x \<in> set (zip (spec_columns store t) (sr_values row)) \<Longrightarrow>
        (case x of (cc, nm, v) \<Rightarrow> cs_address cc \<longrightarrow> (case v of Some (SNum i) \<Rightarrow> i \<in> snd ` set (db_addresses d') | _ \<Rightarrow> True))"
      by blast+
  qed
qed

text \<open>
  C4: What readers see of a table after a batch is what they saw before, followed by the batch's
  rows of that table exactly as decoded (each address column showing the decoded address, whatever
  its id), a row whose key is already there left out; the cursor and the dead letters follow, and
  the tables stay well formed: keys unique, every row in a partition, every row's block recorded,
  every id resolvable.
\<close>

theorem commitBatch_view:
  assumes "commitBatch flt store rows dead cur d = (Inr n, d', store')" "store_ok store" "db_ok store d"
    "list_all (\<lambda>r. row_typed (spec_columns store (dr_tableName r)) (dr_columns r)) rows"
  shows "table_view store d' t = table_view store d t @
           map (row_values (spec_columns store t)) (fresh_rows (map sr_key (db_rows d t)) (rows_for t rows)) \<and>
         map sr_key (db_rows d' t) = map sr_key (db_rows d t) @
           map the_key (fresh_rows (map sr_key (db_rows d t)) (rows_for t rows)) \<and>
         db_cursor d' = map_option (\<lambda>_. cur) (db_cursor d) \<and> db_dead d' = db_dead d @ dead \<and> db_ok store d'"
proof -
  have "\<And>r. r \<in> set rows \<Longrightarrow> row_typed (spec_columns store (dr_tableName r)) (dr_columns r)"
    using assms(4) by (simp add: list_all_iff)
  note effect = commitBatch_effect [OF assms(1,2,3) this]
  show ?thesis by (intro conjI effect)
qed

subsection \<open>A batch never lacks a partition\<close>

definition parts_aligned :: "int \<Rightarrow> db \<Rightarrow> bool" where
  "parts_aligned width d \<longleftrightarrow> (\<forall>(name, t, lo, hi) \<in> set (db_parts d).
     \<exists>n \<ge> 0. partitionName t n = Inr name \<and> lo = n * width \<and> hi = (n + 1) * width)"

definition parts_synced :: "partitions \<Rightarrow> db \<Rightarrow> bool" where
  "parts_synced ps d \<longleftrightarrow> 0 < ps_size ps \<and> parts_aligned (ps_size ps) d \<and>
     (\<forall>key \<in> set (ps_made ps). \<exists>t n name. 0 \<le> n \<and> key = partition_key t n \<and>
        (name, t, n * ps_size ps, (n + 1) * ps_size ps) \<in> set (db_parts d))"

lemma partitionName_inj:
  "partitionName t m = Inr p \<Longrightarrow> partitionName t' n = Inr p \<Longrightarrow> 0 \<le> m \<Longrightarrow> 0 \<le> n \<Longrightarrow> t = t' \<and> m = n"
  using partition_suffix_unique [of t "nat m" t' "nat n"]
  by (auto simp: partitionName_def assertPgIdentifier_Inr show_int_def eq_nat_nat_iff)

lemma aligned_named:
  assumes "parts_aligned width d" "map_has name (db_parts d)" "partitionName t n = Inr name" "0 \<le> n"
  shows "(name, t, n * width, (n + 1) * width) \<in> set (db_parts d)"
proof -
  obtain t' lo hi where e: "(name, t', lo, hi) \<in> set (db_parts d)" using assms(2) by auto
  then obtain k where "0 \<le> k" "partitionName t' k = Inr name" "lo = k * width" "hi = (k + 1) * width"
    using assms(1) unfolding parts_aligned_def by fast
  moreover from partitionName_inj [OF this(2) assms(3) this(1) assms(4)] have "t' = t" "k = n" by simp_all
  ultimately show ?thesis using e by simp
qed

lemma create_partition_aligned:
  assumes "parts_aligned width d" "partitionName t n = Inr name" "0 \<le> n" "0 < width" "relation_exists schema t d"
  obtains new where "create_partition schema name t (n * width) ((n + 1) * width) d = (Inr (), d\<lparr>db_parts := db_parts d @ new\<rparr>)"
    "parts_aligned width (d\<lparr>db_parts := db_parts d @ new\<rparr>)"
proof (cases "map_has name (db_parts d)")
  case True
  then show thesis using that [of "[]"] assms(1) by (simp add: create_partition_def)
next
  case False
  have "\<not> (l < (n + 1) * width \<and> n * width < h)" if mem: "(nm, t, l, h) \<in> set (db_parts d)" for nm l h
  proof
    assume o: "l < (n + 1) * width \<and> n * width < h"
    obtain k where k: "0 \<le> k" "partitionName t k = Inr nm" "l = k * width" "h = (k + 1) * width"
      using assms(1) mem unfolding parts_aligned_def by fast
    have "k < n + 1" "n < k + 1" using o k(3,4) assms(4) by (simp_all add: mult_less_cancel_right)
    then have "k = n" by simp
    with k(2) assms(2) have "nm = name" by simp
    with mem False show False by force
  qed
  then have no: "\<not> list_ex (\<lambda>(_, t', l, h). t' = t \<and> l < (n + 1) * width \<and> n * width < h) (db_parts d)"
    by (auto simp: list_ex_iff)
  have "create_partition schema name t (n * width) ((n + 1) * width) d =
      (Inr (), d\<lparr>db_parts := db_parts d @ [(name, t, n * width, (n + 1) * width)]\<rparr>)"
    using False no assms(5) unfolding create_partition_def by (simp only: if_False simp_thms)
  moreover have "parts_aligned width (d\<lparr>db_parts := db_parts d @ [(name, t, n * width, (n + 1) * width)]\<rparr>)"
    using assms(1-3) by (auto simp: parts_aligned_def)
  ultimately show thesis by (rule that)
qed

lemma planned_pp:
  assumes "partitions_plan ps tables blocks = Inr out" "p \<in> set out"
    "\<And>b. b \<in> set blocks \<Longrightarrow> 0 \<le> b" "0 < ps_size ps"
  shows "\<exists>t n. 0 \<le> n \<and> t \<in> set tables \<and> pp_id p = Part t n \<and> pp_key p = partition_key t n \<and> partitionName t n = Inr (pp_name p)"
proof -
  obtain t n where tn: "plan_partition ps (t, n) = Inr p" "(t, n) \<in> set (missing_partitions ps tables blocks)"
    using planned_ids(3) [OF assms(1,2)] by blast
  from tn(2) obtain b where "b \<in> set blocks" "n = partitionOf b (ps_size ps)" "t \<in> set tables" by (auto simp: missing_partitions_def)
  then have "0 \<le> n" "t \<in> set tables" using assms(3,4) by (simp_all add: partitionOf_nonneg pos_imp_zdiv_nonneg_iff)
  with plan_partition_Inr [OF tn(1)] show ?thesis by blast
qed

definition batch_nonneg :: "decoded_row list \<Rightarrow> bool" where
  "batch_nonneg rows = list_all (\<lambda>r. case parse_int (block_text r) of Some b \<Rightarrow> 0 \<le> b | None \<Rightarrow> True) rows"

lemma BigInt_Inr [err_simps]: "BigInt s = Inr i \<longleftrightarrow> parse_int s = Some i"
  by (auto simp: BigInt_def split: option.split)

lemma block_numbers:
  assumes "mapE BigInt (map_keys (batch_blocks rows)) = Inr ns"
  shows "set ns = {b. \<exists>r \<in> set rows. parse_int (block_text r) = Some b}"
proof -
  have l2: "list_all2 (\<lambda>x y. parse_int x = Some y) (map_keys (batch_blocks rows)) ns"
    using assms by (simp add: mapE_Inr BigInt_Inr)
  then have ns: "ns = map (the \<circ> parse_int) (map_keys (batch_blocks rows))" by (rule list_all2_induct) simp_all
  have "\<forall>x \<in> set (map_keys (batch_blocks rows)). parse_int x \<noteq> None"
    using l2 by (rule list_all2_induct) simp_all
  then have some: "\<forall>x \<in> block_text ` set rows. parse_int x \<noteq> None" unfolding batch_blocks_keys .
  have "set ns = (the \<circ> parse_int) ` set (map_keys (batch_blocks rows))" unfolding ns by (rule set_map)
  then have "set ns = (the \<circ> parse_int) ` block_text ` set rows" unfolding batch_blocks_keys .
  also have "\<dots> = {b. \<exists>r \<in> set rows. parse_int (block_text r) = Some b}"
  proof (intro set_eqI iffI)
    fix b assume "b \<in> (the \<circ> parse_int) ` block_text ` set rows"
    then obtain r where "r \<in> set rows" "b = the (parse_int (block_text r))" by auto
    moreover from this(1) some have "parse_int (block_text r) \<noteq> None" by simp
    ultimately show "b \<in> {b. \<exists>r \<in> set rows. parse_int (block_text r) = Some b}" by auto
  next
    fix b assume "b \<in> {b. \<exists>r \<in> set rows. parse_int (block_text r) = Some b}"
    then obtain r where "r \<in> set rows" "parse_int (block_text r) = Some b" by auto
    then show "b \<in> (the \<circ> parse_int) ` block_text ` set rows" by (metis comp_apply imageI option.sel)
  qed
  finally show ?thesis .
qed

lemma parts_synced_mono:
  assumes "parts_synced ps d" "set (db_parts d) \<subseteq> set (db_parts d')" "parts_aligned (ps_size ps) d'"
  shows "parts_synced ps d'"
proof -
  have "\<exists>t n name. 0 \<le> n \<and> key = partition_key t n \<and> (name, t, n * ps_size ps, (n + 1) * ps_size ps) \<in> set (db_parts d')"
    if "key \<in> set (ps_made ps)" for key
    using assms(1,2) that unfolding parts_synced_def by (meson subsetD)
  with assms show ?thesis unfolding parts_synced_def by blast
qed

lemma commitBatch_synced:
  assumes run: "commitBatch flt store rows dead cur d = (r, d', store')"
    and synced: "parts_synced (st_partitions store) d" and nonneg: "batch_nonneg rows"
  shows "parts_synced (st_partitions store') d'"
  using run
proof (cases rule: commitBatch_transaction)
  case early
  with synced show ?thesis by simp
next
  case (tried ns planned written)
  let ?ps = "st_partitions store"
  have nn: "\<And>b. b \<in> set ns \<Longrightarrow> 0 \<le> b"
    using nonneg unfolding block_numbers [OF tried(2)] batch_nonneg_def list_all_iff by fastforce
  have sz: "0 < ps_size ?ps" and al: "parts_aligned (ps_size ?ps) d" using synced by (simp_all add: parts_synced_def)
  note pp = planned_pp [OF tried(3) _ nn sz]
  have body: "parts_aligned (ps_size ?ps) (cn_db c) \<and> set (db_parts d) \<subseteq> set (db_parts (cn_db c)) \<and>
      parts_synced (partitions_committed ?ps written ns planned) (cn_db c)"
    if b: "commit_body store (group_rows rows) (batch_blocks rows) planned dead cur NoFault \<lparr>cn_db = d, cn_sent = 1\<rparr> = (Inr n, c)" for n c
  proof -
    obtain parts where p: "db_parts (cn_db c) = db_parts d @ parts"
      "set parts \<subseteq> (\<lambda>p. (pp_name p, pt_table (pp_id p), pt_n (pp_id p) * ps_size ?ps, (pt_n (pp_id p) + 1) * ps_size ?ps)) ` set planned"
      "\<And>p. p \<in> set planned \<Longrightarrow> map_has (pp_name p) (db_parts (cn_db c))"
      by (rule commit_body_Inr [OF b distinct_group_rows, unfolded conn.simps(1)]) (rule that, simp_all)
    have "\<exists>k \<ge> 0. partitionName t k = Inr nm \<and> lo = k * ps_size ?ps \<and> hi = (k + 1) * ps_size ?ps"
      if new: "(nm, t, lo, hi) \<in> set parts" for nm t lo hi
    proof -
      obtain q where q: "q \<in> set planned" "nm = pp_name q" "t = pt_table (pp_id q)" "lo = pt_n (pp_id q) * ps_size ?ps"
        "hi = (pt_n (pp_id q) + 1) * ps_size ?ps" using p(2) new by auto
      from pp [OF q(1)] q show ?thesis by (intro exI [of _ "pt_n (pp_id q)"]) auto
    qed
    then have aligned: "parts_aligned (ps_size ?ps) (cn_db c)"
      using al unfolding parts_aligned_def p(1) set_append by blast
    have planned_exists: "\<exists>t n name. 0 \<le> n \<and> pp_key q = partition_key t n \<and>
        (name, t, n * ps_size ?ps, (n + 1) * ps_size ?ps) \<in> set (db_parts (cn_db c))" if q: "q \<in> set planned" for q
    proof -
      obtain t n where tn: "0 \<le> n" "pp_key q = partition_key t n" "partitionName t n = Inr (pp_name q)" using pp [OF q] by blast
      from aligned_named [OF aligned p(3) [OF q] tn(3,1)] tn(1,2) show ?thesis by blast
    qed
    have sub: "set (db_parts d) \<subseteq> set (db_parts (cn_db c))" by (simp add: p(1))
    have "parts_synced ?ps (cn_db c)" by (rule parts_synced_mono [OF synced sub aligned])
    then have "parts_synced (partitions_committed ?ps written ns planned) (cn_db c)"
      using planned_exists unfolding parts_synced_def partitions_committed_made by auto
    with aligned sub show ?thesis by blast
  qed
  show ?thesis
  proof (cases rule: transaction_outcome [OF commit_body_fault_free tried(4)])
    case (1 a c)
    with body [OF 1(1)] tried(5) show ?thesis by simp
  next
    case (2 a c e)
    with body [OF 2(1)] parts_synced_mono [OF synced] tried(5) show ?thesis by simp
  next
    case (3 e work)
    with tried(5) synced show ?thesis by (simp add: rolled_back_def parts_synced_def parts_aligned_def)
  qed
qed

text \<open>
  What the process believes about partitions stays true whatever happens to a batch: every
  partition it remembers exists, and every partition has the bounds of its number, after success,
  refusal, a lost connection or a lost acknowledgement.
\<close>

theorem commitBatch_keeps_sync:
  assumes "commitBatch flt store rows dead cur d = (r, d', store')" "parts_synced (st_partitions store) d" "batch_nonneg rows"
  shows "parts_synced (st_partitions store') d'"
  using assms by (rule commitBatch_synced)

lemma commitBatch_no_fault_Inr:
  assumes "mapE BigInt (map_keys (batch_blocks rows)) = Inr ns"
    "partitions_plan (st_partitions store) (if rows \<noteq> [] then ''_blocks'' # map_keys (group_rows rows) else []) ns = Inr planned"
    "commit_body store (group_rows rows) (batch_blocks rows) planned dead cur NoFault \<lparr>cn_db = d, cn_sent = 1\<rparr> = (Inr n, c)"
  shows "\<exists>store'. commitBatch NoFault store rows dead cur d = (Inr n, cn_db c, store')"
  using assms by (auto simp: commitBatch_def Let_def group_rows_Nil_iff transaction_unfold)

lemma insert_addresses_progress:
  "db_nextId d + int (length as) \<le> 2147483648 \<Longrightarrow> \<exists>d'. insert_addresses as d = (Inr (), d') \<and> db_parts d' = db_parts d \<and> db_ddl d' = db_ddl d"
proof (induction as arbitrary: d)
  case (Cons a as)
  let ?d = "d\<lparr>db_addresses := db_addresses d @ [(a, db_nextId d)], db_nextId := db_nextId d + 1\<rparr>"
  show ?case using Cons.IH [of d] Cons.IH [of ?d] Cons.prems by auto
qed simp

text \<open>What a batch needs: tables and specs that exist, keyed rows, nameable partitions, free ids.\<close>

definition batch_ready :: "store \<Rightarrow> decoded_row list \<Rightarrow> db \<Rightarrow> bool" where
  "batch_ready store rows d \<longleftrightarrow>
     parts_synced (st_partitions store) d \<and> ps_schema (st_partitions store) = st_schema store \<and> batch_nonneg rows \<and>
     relation_exists (st_schema store) ''_blocks'' d \<and>
     list_all (\<lambda>r. map_has (dr_tableName r) (st_tables store) \<and> relation_exists (st_schema store) (dr_tableName r) d \<and>
        map_has ''tx_hash'' (dr_columns r) \<and> cast_int (map_of (dr_columns r) ''block_number'') \<noteq> None \<and>
        cast_int (map_of (dr_columns r) ''log_index'') \<noteq> None) rows \<and>
     (\<forall>r \<in> set rows. \<forall>t \<in> set (''_blocks'' # map dr_tableName rows). \<forall>b. parse_int (block_text r) = Some b \<longrightarrow>
        isl (partitionName t (partitionOf b (ps_size (st_partitions store)))) = False) \<and>
     db_nextId d + int (length (wanted_addresses store (group_rows rows))) \<le> 2147483648"

lemma group_rows_keys: "set (map_keys (group_rows rows)) = dr_tableName ` set rows"
proof -
  have "t \<in> set (map_keys (group_rows rows)) \<longleftrightarrow> rows_for t rows \<noteq> []" for t
    unfolding map_has_iff map_of_group_rows by simp
  then have "t \<in> set (map_keys (group_rows rows)) \<longleftrightarrow> t \<in> dr_tableName ` set rows" for t
    unfolding rows_for_def by (auto simp only: filter_empty_conv map_is_Nil_conv)
  then show ?thesis by blast
qed

lemma mapE_progress: "(\<And>x. x \<in> set xs \<Longrightarrow> \<exists>y. f x = Inr y) \<Longrightarrow> \<exists>ys. mapE f xs = Inr ys"
proof (induction xs)
  case (Cons x xs)
  obtain y where "f x = Inr y" using Cons.prems [of x] by auto
  moreover obtain ys where "mapE f xs = Inr ys" using Cons.IH Cons.prems by auto
  ultimately show ?case by simp
qed simp

lemma plan_progress:
  assumes "\<And>t b. t \<in> set tables \<Longrightarrow> b \<in> set blocks \<Longrightarrow> \<not> isl (partitionName t (partitionOf b (ps_size ps)))"
  shows "\<exists>out. partitions_plan ps tables blocks = Inr out"
proof -
  have "\<exists>p. plan_partition ps x = Inr p" if x: "x \<in> set (missing_partitions ps tables blocks)" for x
  proof -
    obtain t n where tn: "x = (t, n)" by (cases x)
    with x obtain b where "t \<in> set tables" "b \<in> set blocks" "n = partitionOf b (ps_size ps)" by (auto simp: missing_partitions_def)
    with assms have "\<not> isl (partitionName t n)" by blast
    then obtain name where "partitionName t n = Inr name" by (cases "partitionName t n") auto
    then show ?thesis by (simp add: tn plan_partition_def partitionDdl_def)
  qed
  then obtain ys where "mapE (plan_partition ps) (missing_partitions ps tables blocks) = Inr ys" using mapE_progress by metis
  then show ?thesis by (simp add: partitions_plan_def missing_partitions_def Let_def)
qed

lemma commitBatch_progress:
  assumes ready: "batch_ready store rows d" and st: "store_ok store"
  shows "\<exists>n d' store'. commitBatch NoFault store rows dead cur d = (Inr n, d', store')"
proof -
  let ?ps = "st_partitions store" and ?w = "ps_size (st_partitions store)"
  let ?written = "if rows \<noteq> [] then ''_blocks'' # map_keys (group_rows rows) else []"
  note R = ready [unfolded batch_ready_def list_all_iff]
  have sz: "0 < ?w" and al: "parts_aligned ?w d" using R by (simp_all add: parts_synced_def)
  have "\<exists>b. BigInt x = Inr b" if "x \<in> set (map_keys (batch_blocks rows))" for x
  proof -
    obtain r where r: "r \<in> set rows" "x = block_text r" using \<open>x \<in> _\<close> unfolding batch_blocks_keys by auto
    with R obtain b where "cast_int (map_of (dr_columns r) ''block_number'') = Some b" by blast
    then show ?thesis using cast_int_parse r(2) by (auto simp: BigInt_def block_text_def)
  qed
  then obtain ns where ns: "mapE BigInt (map_keys (batch_blocks rows)) = Inr ns" using mapE_progress by metis
  have nn: "\<And>b. b \<in> set ns \<Longrightarrow> 0 \<le> b"
    using R unfolding block_numbers [OF ns] batch_nonneg_def list_all_iff by fastforce
  have wr: "t \<in> set ?written \<Longrightarrow> t \<in> set (''_blocks'' # map dr_tableName rows)" for t
    by (auto simp: group_rows_keys [unfolded set_map] split: if_splits)
  have "\<not> isl (partitionName t (partitionOf b ?w))" if t: "t \<in> set ?written" and b: "b \<in> set ns" for t b
    using R wr [OF t] b unfolding block_numbers [OF ns] by blast
  then obtain planned where plan: "partitions_plan ?ps ?written ns = Inr planned" using plan_progress by metis
  note pp = planned_pp [OF plan _ nn sz]
  have exists: "relation_exists (ps_schema ?ps) t d" if "t \<in> set ?written" for t using R wr [OF that] by auto

  let ?c0 = "\<lparr>cn_db = d, cn_sent = 1\<rparr>"
  let ?P1 = "\<lambda>d'. \<exists>new. d' = d\<lparr>db_parts := db_parts d @ new\<rparr> \<and> parts_aligned ?w d'"
  have step1: "\<exists>b c'. create_planned ?ps p NoFault c = (Inr b, c') \<and> ?P1 (cn_db c')" if p: "p \<in> set planned" and c: "?P1 (cn_db c)" for p c
  proof -
    obtain new where new: "cn_db c = d\<lparr>db_parts := db_parts d @ new\<rparr>" "parts_aligned ?w (cn_db c)" using c by blast
    obtain t n where tn: "0 \<le> n" "t \<in> set ?written" "pp_id p = Part t n" "partitionName t n = Inr (pp_name p)" using pp [OF p] by blast
    have "relation_exists (ps_schema ?ps) t (cn_db c)" using exists [OF tn(2)] new(1) by (simp add: relation_exists_def)
    from create_partition_aligned [OF new(2) tn(4,1) sz this] obtain more where
      "create_partition (ps_schema ?ps) (pp_name p) t (n * ?w) ((n + 1) * ?w) (cn_db c) = (Inr (), (cn_db c)\<lparr>db_parts := db_parts (cn_db c) @ more\<rparr>)"
      "parts_aligned ?w ((cn_db c)\<lparr>db_parts := db_parts (cn_db c) @ more\<rparr>)" .
    then show ?thesis using new(1) by (auto simp: create_planned_def query_def tn(3))
  qed
  have "?P1 (cn_db ?c0)" using al by (intro exI [of _ "[]"]) simp
  from mapT_progress [where P = ?P1 and c = ?c0 and f = "create_planned ?ps" and xs = planned, OF this step1] obtain us1 c1 where
    1: "mapT (create_planned ?ps) planned NoFault ?c0 = (Inr us1, c1)" "?P1 (cn_db c1)" by blast
  then obtain parts where c1: "cn_db c1 = d\<lparr>db_parts := db_parts d @ parts\<rparr>" "parts_aligned ?w (cn_db c1)" by blast
  have named: "map_has (pp_name p) (db_parts (cn_db c1))" if "p \<in> set planned" for p using mapT_create_planned [OF 1(1)] that by blast
  have part: "has_partition (cn_db c1) t b" if t: "t \<in> set ?written" and b: "b \<in> set ns" for t b
  proof -
    let ?n = "partitionOf b ?w"
    have n0: "0 \<le> ?n" using nn [OF b] sz by (simp add: partitionOf_nonneg pos_imp_zdiv_nonneg_iff)
    have "\<exists>name. (name, t, ?n * ?w, (?n + 1) * ?w) \<in> set (db_parts (cn_db c1))"
    proof (cases "partition_key t ?n \<in> set (ps_made ?ps)")
      case True
      then obtain t' n' name where e: "0 \<le> n'" "partition_key t ?n = partition_key t' n'" "(name, t', n' * ?w, (n' + 1) * ?w) \<in> set (db_parts d)"
        using R unfolding parts_synced_def by blast
      from partition_key_inj [OF e(2) n0 e(1)] e(3) show ?thesis unfolding c1(1) by auto
    next
      case False
      then have "(t, ?n) \<in> set (missing_partitions ?ps ?written ns)" using t b by (auto simp: missing_partitions_def)
      then have "Part t ?n \<in> set (map pp_id planned)" unfolding planned_ids(1) [OF plan] by force
      then obtain p where p: "p \<in> set planned" "pp_id p = Part t ?n" by auto
      from pp [OF p(1)] p(2) have "partitionName t ?n = Inr (pp_name p)" by auto
      from aligned_named [OF c1(2) named [OF p(1)] this n0] show ?thesis by blast
    qed
    moreover have "?n * ?w \<le> b" "b < (?n + 1) * ?w" using partitionOf_iff [OF nn [OF b] sz, of ?n] by auto
    ultimately show ?thesis unfolding has_partition_iff by blast
  qed

  have "\<exists>b c'. require_spec store tg NoFault c = (Inr b, c') \<and> cn_db c' = cn_db c1" if "tg \<in> set (group_rows rows)" "cn_db c = cn_db c1" for tg c
  proof -
    obtain t g where tg: "tg = (t, g)" by (cases tg)
    have "t \<in> dr_tableName ` set rows" using that(1) unfolding tg group_rows_keys [symmetric] by force
    then have "map_has t (st_tables store)" using R by auto
    then show ?thesis using that(2) by (auto simp: tg require_spec_def returnT_def)
  qed
  from mapT_progress [where P = "\<lambda>x. x = cn_db c1" and c = c1 and f = "require_spec store" and xs = "group_rows rows", OF refl this] obtain us2 c2 where
    2: "mapT (require_spec store) (group_rows rows) NoFault c1 = (Inr us2, c2)" "cn_db c2 = cn_db c1" by blast

  let ?P = "\<lambda>x. db_parts x = db_parts (cn_db c1) \<and> db_ddl x = db_ddl d"
  obtain bt c3 where 3: "resolveAddresses store (group_rows rows) NoFault c2 = (Inr bt, c3)" "?P (cn_db c3)"
  proof (cases "wanted_addresses store (group_rows rows) = []")
    case True
    then show thesis using that [of "group_rows rows" c2] 2(2) c1(1) by (simp add: resolveAddresses_def returnT_def)
  next
    case False
    have "db_nextId (cn_db c2) + int (length (wanted_addresses store (group_rows rows))) \<le> 2147483648" using R 2(2) c1(1) by simp
    from insert_addresses_progress [OF this] obtain d3 where
      "insert_addresses (wanted_addresses store (group_rows rows)) (cn_db c2) = (Inr (), d3)" "?P d3" using 2(2) c1(1) by auto
    with False that show thesis
      by (auto simp: resolveAddresses_def Let_def bindT_def query_def select_ids_def returnT_def)
  qed
  obtain ids where bt: "bt = resolve_groups store ids (group_rows rows)" by (rule resolveAddresses_Inr [OF 3(1)])

  have blocks_in: "x \<in> set (batch_blocks rows) \<Longrightarrow> \<exists>b \<in> set ns. parse_int (fst x) = Some b" for x
  proof -
    assume "x \<in> set (batch_blocks rows)"
    then have "fst x \<in> block_text ` set rows" unfolding batch_blocks_keys [symmetric] by simp
    then obtain r where r: "r \<in> set rows" "fst x = block_text r" by auto
    with R obtain b where "cast_int (map_of (dr_columns r) ''block_number'') = Some b" by blast
    then have "parse_int (block_text r) = Some b" unfolding block_text_def by (rule cast_int_parse)
    with r show ?thesis unfolding block_numbers [OF ns] by auto
  qed
  have "\<exists>b d'. insert_block x d0 = (Inr b, d') \<and> ?P d'" if x: "x \<in> set (batch_blocks rows)" and P: "?P d0" for x d0
  proof -
    obtain b where b: "b \<in> set ns" "parse_int (fst x) = Some b" using blocks_in [OF x] by blast
    have "rows \<noteq> []" using x by (auto simp: batch_blocks_def)
    then have "has_partition (cn_db c1) ''_blocks'' b" using part [OF _ b(1)] by simp
    then have "has_partition d0 ''_blocks'' b" using P by (simp add: has_partition_def)
    with b(2) P show ?thesis by (auto simp: insert_block_def split: prod.split)
  qed
  from each_row_progress [where P = ?P and d = "cn_db c3" and f = insert_block and xs = "batch_blocks rows", OF 3(2) this] obtain us4 d4 where
    e4: "each_row insert_block (batch_blocks rows) (cn_db c3) = (Inr us4, d4)" "?P d4" by blast
  then obtain v4 c4 where 4: "(if batch_blocks rows \<noteq> [] then query (each_row insert_block (batch_blocks rows)) else returnT []) NoFault c3 = (Inr v4, c4)" "?P (cn_db c4)"
    using 3(2) by (cases "batch_blocks rows = []") (auto simp: query_def returnT_def)

  have "\<exists>b c'. insert_group store tg NoFault c = (Inr b, c') \<and> ?P (cn_db c')" if tg: "tg \<in> set bt" and P: "?P (cn_db c)" for tg c
  proof -
    obtain t g where e: "(t, g) \<in> set (group_rows rows)" "tg = (t, map (resolve_row ids (spec_columns store t)) g)"
      using tg unfolding bt resolve_groups_def by auto
    let ?f = "insert_row (st_schema store) t (spec_columns store t)"
    have "\<exists>b d'. ?f x d0 = (Inr b, d') \<and> ?P d'" if x: "x \<in> set (map (resolve_row ids (spec_columns store t)) g)" and P0: "?P d0" for x d0
    proof -
      obtain y where y: "y \<in> set g" "x = resolve_row ids (spec_columns store t) y" using x by auto
      obtain r where r: "r \<in> set rows" "dr_tableName r = t" "dr_columns r = y" using group_rows_row [OF e(1) y(1)] by blast
      note cols = store_ok_columns [OF st, of t]
      obtain b l where bl: "row_key y = (Some b, Some l)" using R r by (auto simp: row_key_def)
      then have key: "row_key x = (Some b, Some l)" using y(2) resolve_row_key [OF cols] by simp
      have "map_has ''tx_hash'' y" using R r by blast
      then have "map_of y ''tx_hash'' \<noteq> None" by (rule map_has_iff [THEN iffD1])
      then have tx: "map_has ''tx_hash'' x" unfolding map_has_iff y(2) using cols
        by (auto simp: map_of_resolve_row columns_ok_def list_all_iff)
      have "parse_int (block_text r) = Some b" unfolding block_text_def using bl r(3) by (intro cast_int_parse) (simp add: row_key_def)
      then have "b \<in> set ns" using r(1) unfolding block_numbers [OF ns] by blast
      moreover have "t \<in> set ?written" using r(1,2) by (auto simp: group_rows_keys [unfolded set_map])
      ultimately have "has_partition (cn_db c1) t b" by (intro part)
      then have "has_partition d0 t b" using P0 by (simp add: has_partition_def)
      moreover have "relation_exists (st_schema store) t d0" using R r(1,2) P0 by (auto simp: relation_exists_def)
      ultimately show ?thesis using key tx P0 by (auto simp: insert_row_def row_key_def)
    qed
    from each_row_progress [where P = ?P and d = "cn_db c" and f = ?f and xs = "map (resolve_row ids (spec_columns store t)) g", OF P this] obtain ms d5 where
      "each_row ?f (map (resolve_row ids (spec_columns store t)) g) (cn_db c) = (Inr ms, d5)" "?P d5" by blast
    then show ?thesis by (auto simp: insert_group_def e(2) bindT_def query_def returnT_def)
  qed
  from mapT_progress [where P = ?P and c = c4 and f = "insert_group store" and xs = bt, OF 4(2) this] obtain ks c5 where
    5: "mapT (insert_group store) bt NoFault c4 = (Inr ks, c5)" by blast
  have "\<exists>n c'. commit_body store (group_rows rows) (batch_blocks rows) planned dead cur NoFault ?c0 = (Inr n, c')"
    unfolding commit_body_def using 1(1) 2(1) 3(1) 4(1) 5
    by (simp add: bindT_def returnT_def query_def insert_dead_def set_cursor_def split: prod.split)
  then show ?thesis using commitBatch_no_fault_Inr [OF ns plan] by blast
qed


subsection \<open>A batch in the concrete\<close>

definition sample_store :: store where
  "sample_store = \<lparr>st_schema = ''s'', st_tables = [(''usdc_transfer'', \<lparr>ts_schema = ''s'', ts_table = ''usdc_transfer'',
       ts_columns = COMMON_COLUMNS @
         [\<lparr>cs_name = ''from_id'', cs_pgType = ''integer'', cs_address = True\<rparr>,
          \<lparr>cs_name = ''to_id'', cs_pgType = ''integer'', cs_address = True\<rparr>,
          \<lparr>cs_name = ''value'', cs_pgType = ''numeric(78,0)'', cs_address = False\<rparr>],
       ts_statements = []\<rparr>)], st_partitions = new_partitions ''s'' 10, st_addressIndexes = False\<rparr>"

definition sample_db :: db where
  "sample_db = empty_db\<lparr>db_ddl := [''CREATE TABLE IF NOT EXISTS '' @ quote_id ''s'' @ ''._blocks ('',
       ''CREATE TABLE IF NOT EXISTS '' @ quote_id ''s'' @ ''.'' @ quote_id ''usdc_transfer'' @ '' (''],
     db_cursor := Some 6\<rparr>"

lemma sample_store_ok: "store_ok sample_store"
  by (simp add: store_ok_def sample_store_def columns_ok_def COMMON_COLUMNS_def)

lemma sample_db_ok: "db_ok sample_store sample_db"
  by (simp add: db_ok_def sample_db_def empty_db_def addresses_ok_def)

lemma sample_relations: "relation_exists ''s'' ''_blocks'' sample_db" "relation_exists ''s'' ''usdc_transfer'' sample_db"
  by (simp_all add: relation_exists_def sample_db_def creates_def startsWith_def quote_id_def)

lemma sample_synced: "parts_synced (st_partitions sample_store) sample_db"
  by (simp add: parts_synced_def parts_aligned_def sample_store_def new_partitions_def sample_db_def empty_db_def)

lemma parse_7: "parse_int ''7'' = Some 7"
  using parse_show_int [of 7] by (simp add: show_eval)

lemma sample_nonneg: "batch_nonneg [sample_row]"
  by (simp add: batch_nonneg_def block_text_def sample_row_def parse_7)

lemma sample_typed: "list_all (\<lambda>r. row_typed (spec_columns sample_store (dr_tableName r)) (dr_columns r)) [sample_row]"
  by (simp add: row_typed_def sample_store_def spec_columns_def sample_row_def COMMON_COLUMNS_def)

lemma sample_ready: "batch_ready sample_store [sample_row] sample_db"
proof -
  have "wanted_addresses sample_store (group_rows [sample_row]) = [[10], [11]]" by code_simp
  moreover have "partitionName ''_blocks'' 0 = Inr ''_blocks_p0''" "partitionName ''usdc_transfer'' 0 = Inr ''usdc_transfer_p0''"
    by code_simp+
  ultimately show ?thesis
    using sample_synced sample_nonneg sample_relations parse_7
    by (simp add: batch_ready_def sample_store_def new_partitions_def sample_row_def block_text_def cast_int_def
        partitionOf_def signed_divide_int_def sample_db_def empty_db_def)
qed


theorem commitBatch_keeps_sync_witness:
  "\<exists>n d' store'. commitBatch NoFault sample_store [sample_row] [] 7 sample_db = (Inr n, d', store') \<and>
     parts_synced (st_partitions store') d'"
proof -
  obtain n d' store' where "commitBatch NoFault sample_store [sample_row] [] 7 sample_db = (Inr n, d', store')"
    using commitBatch_progress [OF sample_ready sample_store_ok] by blast
  with commitBatch_keeps_sync [OF this sample_synced sample_nonneg] show ?thesis by blast
qed

theorem commitBatch_view_witness:
  "\<exists>d' store'. commitBatch NoFault sample_store [sample_row] [] 7 sample_db = (Inr 1, d', store') \<and>
     table_view sample_store d' ''usdc_transfer'' =
       [[(''block_number'', Some (SText ''7'')), (''tx_hash'', Some (SBytes [171])), (''log_index'', Some (SNum 3)),
         (''from_id'', Some (SBytes [10])), (''to_id'', Some (SBytes [11])), (''value'', Some (SText ''5''))]] \<and>
     db_cursor d' = Some 7"
proof -
  obtain n d' store' where run: "commitBatch NoFault sample_store [sample_row] [] 7 sample_db = (Inr n, d', store')"
    using commitBatch_progress [OF sample_ready sample_store_ok] by blast
  have "map_sum id id (fst (commitBatch NoFault sample_store [sample_row] [] 7 sample_db)) = Inr 1" by code_simp
  then have n: "n = 1" using run by simp
  have "map (row_values (spec_columns sample_store ''usdc_transfer''))
      (fresh_rows (map sr_key (db_rows sample_db ''usdc_transfer'')) (rows_for ''usdc_transfer'' [sample_row])) =
    [[(''block_number'', Some (SText ''7'')), (''tx_hash'', Some (SBytes [171])), (''log_index'', Some (SNum 3)),
         (''from_id'', Some (SBytes [10])), (''to_id'', Some (SBytes [11])), (''value'', Some (SText ''5''))]]" by code_simp
  moreover have "table_view sample_store sample_db ''usdc_transfer'' = []" by (simp add: table_view_def sample_db_def empty_db_def)
  moreover have "db_cursor sample_db = Some 6" by (simp add: sample_db_def)
  ultimately show ?thesis
    using run n commitBatch_view [OF run sample_store_ok sample_db_ok sample_typed, of "''usdc_transfer''"] by auto
qed

theorem commitBatch_atomic_witness:
  "\<exists>e d'. commitBatch (FailAt 4) sample_store [sample_row] [] 7 sample_db = (Inl e, d', sample_store) \<and>
     db_cursor d' = Some 6 \<and> db_rows d' ''usdc_transfer'' = []"
proof -
  obtain r d' store' where run: "commitBatch (FailAt 4) sample_store [sample_row] [] 7 sample_db = (r, d', store')"
    by (meson prod_cases3)
  have "isl (fst (commitBatch (FailAt 4) sample_store [sample_row] [] 7 sample_db))" by code_simp
  with run have "isl r" by simp
  with commitBatch_atomic [OF run] have st: "store' = sample_store" and d': "d' = sample_db\<lparr>db_nextId := db_nextId d'\<rparr>" by auto
  have "db_cursor d' = Some 6" "db_rows d' ''usdc_transfer'' = []"
    using arg_cong [OF d', of db_cursor] arg_cong [OF d', of db_rows] by (simp_all add: sample_db_def empty_db_def)
  then show ?thesis using run \<open>isl r\<close> st by (cases r) auto
qed

end
