(* ===== verification/InsightsDb.thy ===== *)
theory InsightsDb
  imports Complex_Main Commit "HOL-Library.Product_Lexorder"
begin

text \<open>
  \<open>worker/src/insightsdb.ts\<close>: the tables of the insight loop. A round's sentences, labels and rows
  are written in one transaction with the insights cursor; sentences and labels are dictionaries
  whose ids the rows refer to.
\<close>

subsection \<open>The tables\<close>

record insight_row =
  ir_blockNumber :: int
  ir_logIndex :: int
  ir_lane :: string
  ir_laneP :: "rat option"
  ir_ruled :: bool
  ir_protocol :: string
  ir_facts :: "string list"
  ir_probabilities :: "(string \<times> rat) list option"
  ir_sentence :: string
  ir_model :: "string option"

record sentence_entry =
  se_id :: int
  se_sentence :: string
  se_model :: string
  se_probabilities :: "(string \<times> rat) list option"

record label =
  lb_lane :: string
  lb_laneP :: "rat option"
  lb_ruled :: bool
  lb_protocol :: "string option"
  lb_facts :: "string list"
  lb_sentence :: int

record stored_insight =
  in_key :: "int \<times> int"
  in_lane :: string
  in_label :: int

record idb =
  id_db :: db                                   \<comment> \<open>the schema's other tables, read only but for partitions\<close>
  id_sentences :: "sentence_entry list"
  id_nextSentence :: int
  id_labels :: "(int \<times> label) list"
  id_nextLabel :: int
  id_insights :: "stored_insight list"
  id_cursor :: "int option"

type_synonym 'a itx = "(idb, 'a) txs"

definition on_db :: "'a statement \<Rightarrow> idb \<Rightarrow> (failure + 'a) \<times> idb" where
  "on_db op s = (case op (id_db s) of (r, d) \<Rightarrow> (r, s\<lparr>id_db := d\<rparr>))"

text \<open>A rollback leaves the identity sequences where they are.\<close>

definition insights_undo :: "idb \<Rightarrow> idb \<Rightarrow> idb" where
  "insights_undo before work = before\<lparr>id_nextSentence := id_nextSentence work, id_nextLabel := id_nextLabel work\<rparr>"

definition insights_transaction :: "fault \<Rightarrow> 'a itx \<Rightarrow> idb \<Rightarrow> (failure + 'a) \<times> idb" where
  "insights_transaction flt body s = transaction_with insights_undo flt body s"

subsection \<open>Bootstrap and cursor\<close>

definition insert_cursor :: "int \<Rightarrow> idb \<Rightarrow> (failure + unit) \<times> idb" where
  "insert_cursor lastBlock s = (Inr (), case id_cursor s of Some _ \<Rightarrow> s | None \<Rightarrow> s\<lparr>id_cursor := Some lastBlock\<rparr>)"

definition bootstrapInsights :: "fault \<Rightarrow> string \<Rightarrow> int option \<Rightarrow> idb \<Rightarrow> (failure + unit) \<times> idb" where
  "bootstrapInsights flt schema start s =
     insights_transaction flt
       (bindT (mapT (\<lambda>q. query (on_db (run_ddl q))) (buildInsightsTables schema)) (\<lambda>_.
        case start of None \<Rightarrow> returnT () | Some n \<Rightarrow> query (insert_cursor n))) s"

definition initInsightsCursor :: "int \<Rightarrow> idb \<Rightarrow> idb" where
  "initInsightsCursor lastBlock s = snd (insert_cursor lastBlock s)"

definition getInsightsCursor :: "idb \<Rightarrow> int option" where
  "getInsightsCursor s = id_cursor s"

subsection \<open>Reading the events of a range\<close>

record event_source =
  es_tableName :: string
  es_transferColumns :: "(string \<times> string \<times> string) option"

record event_transfer =
  et_from :: string
  et_to :: string
  et_value :: int

record event_row =
  er_tableName :: string
  er_blockNumber :: int
  er_txHash :: string
  er_logIndex :: int
  er_transfer :: "event_transfer option"

text \<open>The rows of a table whose block lies in a range.\<close>

definition rows_between :: "db \<Rightarrow> string \<Rightarrow> int \<Rightarrow> int \<Rightarrow> stored_row list" where
  "rows_between d t lo hi = filter (\<lambda>r. lo \<le> fst (sr_key r) \<and> fst (sr_key r) \<le> hi) (db_rows d t)"

definition tables_readable :: "string \<Rightarrow> event_source list \<Rightarrow> db \<Rightarrow> failure option" where
  "tables_readable schema tables d =
     (if list_all (\<lambda>t. relation_exists schema (es_tableName t) d) tables then None else Some (SqlError ''42P01''))"

definition capRange :: "string \<Rightarrow> event_source list \<Rightarrow> int \<Rightarrow> int \<Rightarrow> nat \<Rightarrow> db \<Rightarrow> failure + int" where
  "capRange schema tables lo hi maxRows d =
     (if tables = [] then Inl (SqlError ''42601'')
      else case tables_readable schema tables d of Some e \<Rightarrow> Inl e
      | None \<Rightarrow>
          (case drop maxRows (sort (concat (map (\<lambda>t. map (\<lambda>r. fst (sr_key r)) (rows_between d (es_tableName t) lo hi)) tables))) of
             [] \<Rightarrow> Inr hi
           | b # _ \<Rightarrow> Inr (if b > lo then b - 1 else lo)))"

text \<open>\<open>'0x' || encode(x, 'hex')\<close>; a missing address reads as \<open>null\<close>.\<close>

definition hexOf :: "bytes option \<Rightarrow> string" where
  "hexOf b = (case b of Some bs \<Rightarrow> ''0x'' @ bytesToHex bs | None \<Rightarrow> ''null'')"

definition cell :: "stored_row \<Rightarrow> string \<Rightarrow> sql_value option" where
  "cell r c = (case map_of (sr_values r) c of Some v \<Rightarrow> v | None \<Rightarrow> None)"

definition cell_bytes :: "sql_value option \<Rightarrow> bytes option" where
  "cell_bytes v = (case v of Some (SBytes bs) \<Rightarrow> Some bs | _ \<Rightarrow> None)"

definition joined_address :: "db \<Rightarrow> sql_value option \<Rightarrow> bytes option" where
  "joined_address d v = (case v of Some (SNum i) \<Rightarrow> address_of d i | _ \<Rightarrow> None)"

definition event_of :: "db \<Rightarrow> event_source \<Rightarrow> stored_row \<Rightarrow> failure + event_row" where
  "event_of d t r =
     bindE (case es_transferColumns t of
         None \<Rightarrow> Inr None
       | Some (from, to, val) \<Rightarrow>
           (case cast_int (cell r val) of
              None \<Rightarrow> Inl (PlainError ''Cannot convert to a BigInt'')
            | Some v \<Rightarrow> Inr (Some \<lparr>et_from = hexOf (joined_address d (cell r from)), et_to = hexOf (joined_address d (cell r to)), et_value = v\<rparr>)))
       (\<lambda>transfer. Inr \<lparr>er_tableName = es_tableName t, er_blockNumber = fst (sr_key r),
          er_txHash = hexOf (cell_bytes (cell r ''tx_hash'')), er_logIndex = snd (sr_key r), er_transfer = transfer\<rparr>)"

definition event_key :: "event_row \<Rightarrow> int \<times> int" where
  "event_key r = (er_blockNumber r, er_logIndex r)"

definition readEventRows :: "string \<Rightarrow> event_source list \<Rightarrow> int \<Rightarrow> int \<Rightarrow> db \<Rightarrow> failure + event_row list" where
  "readEventRows schema tables lo hi d =
     (case tables_readable schema tables d of Some e \<Rightarrow> Inl e
      | None \<Rightarrow>
          bindE (mapE (\<lambda>t. mapE (event_of d t) (rows_between d (es_tableName t) lo hi)) tables)
            (\<lambda>rows. Inr (sort_key event_key (concat rows))))"

subsection \<open>Dictionaries\<close>

definition needId :: "('k \<times> int) list \<Rightarrow> 'k \<Rightarrow> string \<Rightarrow> failure + int" where
  "needId ids k what =
     (case map_of ids k of Some i \<Rightarrow> Inr i | None \<Rightarrow> Inl (PlainError (what @ '' id missing after insert'')))"

definition liftE :: "failure + 'a \<Rightarrow> ('s, 'a) txs" where
  "liftE x = (case x of Inl e \<Rightarrow> throwT e | Inr a \<Rightarrow> returnT a)"

text \<open>Text the server cannot store: it holds a NUL.\<close>

definition nul_free :: "string \<Rightarrow> bool" where
  "nul_free s \<longleftrightarrow> CHR 0x00 \<notin> set s"

definition model_of :: "insight_row \<Rightarrow> string" where
  "model_of r = (case ir_model r of Some m \<Rightarrow> m | None \<Rightarrow> [])"

definition sentence_key :: "string \<Rightarrow> string \<Rightarrow> string" where
  "sentence_key sentence model = model @ CHR 0x00 # sentence"

definition row_sentence_key :: "insight_row \<Rightarrow> string" where
  "row_sentence_key r = sentence_key (ir_sentence r) (model_of r)"

type_synonym new_sentence = "string \<times> string \<times> (string \<times> rat) list option"

definition unique_sentences :: "insight_row list \<Rightarrow> (string \<times> new_sentence) list" where
  "unique_sentences rows =
     foldl (\<lambda>m r. map_set (row_sentence_key r) (ir_sentence r, model_of r, ir_probabilities r) m) [] rows"

definition has_sentence :: "sentence_entry list \<Rightarrow> string \<Rightarrow> string \<Rightarrow> bool" where
  "has_sentence ss sentence model \<longleftrightarrow> list_ex (\<lambda>x. se_sentence x = sentence \<and> se_model x = model) ss"

fun insert_sentences :: "new_sentence list \<Rightarrow> idb \<Rightarrow> (failure + unit) \<times> idb" where
  "insert_sentences [] s = (Inr (), s)"
| "insert_sentences ((sentence, model, p) # us) s =
     (if \<not> nul_free sentence \<or> \<not> nul_free model then (Inl (SqlError ''22021''), s)
      else if has_sentence (id_sentences s) sentence model then insert_sentences us s
      else if id_nextSentence s > 2147483647 then (Inl (SqlError ''2200H''), s)
      else insert_sentences us
        (s\<lparr>id_sentences := id_sentences s @
             [\<lparr>se_id = id_nextSentence s, se_sentence = sentence, se_model = model, se_probabilities = p\<rparr>],
           id_nextSentence := id_nextSentence s + 1\<rparr>))"

definition with_answer :: "new_sentence list \<Rightarrow> sentence_entry \<Rightarrow> sentence_entry" where
  "with_answer us x =
     (case filter (\<lambda>(sentence, model, p). sentence = se_sentence x \<and> model = se_model x \<and> p \<noteq> None) us of
        (_, _, p) # _ \<Rightarrow> if se_probabilities x = None then x\<lparr>se_probabilities := p\<rparr> else x
      | [] \<Rightarrow> x)"

definition update_probabilities :: "new_sentence list \<Rightarrow> idb \<Rightarrow> (failure + unit) \<times> idb" where
  "update_probabilities us s = (Inr (), s\<lparr>id_sentences := map (with_answer us) (id_sentences s)\<rparr>)"

definition select_sentences :: "new_sentence list \<Rightarrow> idb \<Rightarrow> (failure + sentence_entry list) \<times> idb" where
  "select_sentences us s =
     (Inr (filter (\<lambda>x. list_ex (\<lambda>(sentence, model, _). sentence = se_sentence x \<and> model = se_model x) us) (id_sentences s)), s)"

definition sentenceIds :: "insight_row list \<Rightarrow> (string \<times> int) list itx" where
  "sentenceIds rows =
     (let all = map snd (unique_sentences rows)
      in bindT (query (insert_sentences all)) (\<lambda>_.
         bindT (query (update_probabilities all)) (\<lambda>_.
         bindT (query (select_sentences all)) (\<lambda>found.
           returnT (foldl (\<lambda>m x. map_set (sentence_key (se_sentence x) (se_model x)) (se_id x) m) [] found)))))"

text \<open>\<open>Math.fround\<close> of a value below \<open>2^24\<close>: 24 significant bits, half to even, exponents down to
  the subnormal ones.\<close>

fun fround_scale :: "nat \<Rightarrow> nat \<Rightarrow> rat \<Rightarrow> nat" where
  "fround_scale 0 n x = n"
| "fround_scale (Suc fuel) n x = (if x * 2 ^ n \<ge> 2 ^ 23 then n else fround_scale fuel (Suc n) x)"

definition half_even :: "rat \<Rightarrow> int" where
  "half_even x =
     (let n = \<lfloor>x\<rfloor>; d = x - of_int n
      in if d < 1 / 2 then n else if d > 1 / 2 then n + 1 else if even n then n else n + 1)"

definition fround :: "rat \<Rightarrow> rat" where
  "fround x =
     (let n = fround_scale 149 0 \<bar>x\<bar>; y = of_int (half_even (\<bar>x\<bar> * 2 ^ n)) / 2 ^ n in if x < 0 then - y else y)"

fun split_commas :: "string \<Rightarrow> string list" where
  "split_commas [] = [[]]"
| "split_commas (c # cs) =
     (if c = CHR '','' then [] # split_commas cs
      else (case split_commas cs of x # xs \<Rightarrow> (c # x) # xs | [] \<Rightarrow> [[c]]))"

text \<open>The facts of a label travel as one string, split by the server.\<close>

definition sql_facts :: "string \<Rightarrow> string list" where
  "sql_facts f = (if f = [] then [] else split_commas f)"

type_synonym label_key = "string \<times> rat option \<times> bool \<times> string option \<times> string \<times> int"

definition protocol_of :: "insight_row \<Rightarrow> string option" where
  "protocol_of r = (if ir_protocol r = [] then None else Some (ir_protocol r))"

definition label_key_of :: "insight_row \<Rightarrow> int \<Rightarrow> label_key" where
  "label_key_of r sid =
     (ir_lane r, map_option fround (ir_laneP r), ir_ruled r, protocol_of r, join '','' (ir_facts r), sid)"

definition label_of_key :: "label_key \<Rightarrow> label" where
  "label_of_key = (\<lambda>(lane, p, ruled, protocol, f, sid).
     \<lparr>lb_lane = lane, lb_laneP = p, lb_ruled = ruled, lb_protocol = protocol, lb_facts = sql_facts f, lb_sentence = sid\<rparr>)"

definition label_nul_free :: "label \<Rightarrow> bool" where
  "label_nul_free l \<longleftrightarrow> nul_free (lb_lane l) \<and> list_all nul_free (lb_facts l) \<and>
     (case lb_protocol l of Some p \<Rightarrow> nul_free p | None \<Rightarrow> True)"

fun insert_labels :: "label list \<Rightarrow> idb \<Rightarrow> (failure + unit) \<times> idb" where
  "insert_labels [] s = (Inr (), s)"
| "insert_labels (l # ls) s =
     (if \<not> label_nul_free l then (Inl (SqlError ''22021''), s)
      else if l \<in> set (map snd (id_labels s)) then insert_labels ls s
      else if id_nextLabel s > 2147483647 then (Inl (SqlError ''2200H''), s)
      else insert_labels ls (s\<lparr>id_labels := id_labels s @ [(id_nextLabel s, l)], id_nextLabel := id_nextLabel s + 1\<rparr>))"

definition select_labels :: "label list \<Rightarrow> idb \<Rightarrow> (failure + (int \<times> label) list) \<times> idb" where
  "select_labels ls s = (Inr (filter (\<lambda>(_, l). l \<in> set ls) (id_labels s)), s)"

text \<open>The key of a label read back: \<open>real\<close> comes as the decimal the server prints, read as a double.\<close>

definition read_key :: "(rat \<Rightarrow> rat) \<Rightarrow> label \<Rightarrow> label_key" where
  "read_key pg_real l =
     (lb_lane l, map_option (\<lambda>p. fround (pg_real p)) (lb_laneP l), lb_ruled l, lb_protocol l, join '','' (lb_facts l), lb_sentence l)"

definition row_keys :: "(string \<times> int) list \<Rightarrow> insight_row list \<Rightarrow> failure + label_key list" where
  "row_keys sids rows = mapE (\<lambda>r. bindE (needId sids (row_sentence_key r) ''sentence'') (\<lambda>sid. Inr (label_key_of r sid))) rows"

definition position_key :: "insight_row \<Rightarrow> string" where
  "position_key r = show_int (ir_blockNumber r) @ '':'' @ show_int (ir_logIndex r)"

definition labelIds :: "(rat \<Rightarrow> rat) \<Rightarrow> insight_row list \<Rightarrow> (string \<times> int) list \<Rightarrow> (string \<times> int) list itx" where
  "labelIds pg_real rows sids =
     bindT (liftE (row_keys sids rows)) (\<lambda>keys.
       (let labels = map label_of_key (set_of_list keys)
        in bindT (query (insert_labels labels)) (\<lambda>_.
           bindT (query (select_labels labels)) (\<lambda>found.
             (let ids = foldl (\<lambda>m (i, l). map_set (read_key pg_real l) i m) [] found
              in bindT (liftE (mapE (\<lambda>(r, k). bindE (needId ids k ''label'') (\<lambda>i. Inr (position_key r, i))) (zip rows keys))) (\<lambda>out.
                 returnT (foldl (\<lambda>m (k, i). map_set k i m) [] out)))))))"

subsection \<open>Committing a round\<close>

text \<open>One row; the answer is its lane if it was new.\<close>

definition insert_insight :: "insight_row \<times> int \<Rightarrow> idb \<Rightarrow> (failure + string option) \<times> idb" where
  "insert_insight = (\<lambda>(r, lbl) s.
     (let key = (ir_blockNumber r, ir_logIndex r)
      in if \<not> has_partition (id_db s) ''_insights'' (ir_blockNumber r) then (Inl (SqlError ''23514''), s)
         else if key \<in> set (map in_key (id_insights s)) then (Inr None, s)
         else (Inr (Some (ir_lane r)),
               s\<lparr>id_insights := id_insights s @ [\<lparr>in_key = key, in_lane = ir_lane r, in_label = lbl\<rparr>]\<rparr>)))"

fun insert_insights :: "(insight_row \<times> int) list \<Rightarrow> idb \<Rightarrow> (failure + string list) \<times> idb" where
  "insert_insights [] s = (Inr [], s)"
| "insert_insights (x # xs) s =
     (case insert_insight x s of
        (Inl e, s') \<Rightarrow> (Inl e, s')
      | (Inr lane, s') \<Rightarrow>
          (case insert_insights xs s' of
             (Inl e, s'') \<Rightarrow> (Inl e, s'')
           | (Inr lanes, s'') \<Rightarrow> (Inr (case lane of Some l \<Rightarrow> l # lanes | None \<Rightarrow> lanes), s'')))"

definition update_cursor :: "int \<Rightarrow> idb \<Rightarrow> (failure + unit) \<times> idb" where
  "update_cursor n s = (Inr (), s\<lparr>id_cursor := map_option (\<lambda>_. n) (id_cursor s)\<rparr>)"

definition create_insights_partition :: "partitions \<Rightarrow> planned_partition \<Rightarrow> unit itx" where
  "create_insights_partition ps p =
     query (on_db (create_partition (ps_schema ps) (pp_name p) (pt_table (pp_id p))
       (pt_n (pp_id p) * ps_size ps) ((pt_n (pp_id p) + 1) * ps_size ps)))"

definition insights_body :: "(rat \<Rightarrow> rat) \<Rightarrow> partitions \<Rightarrow> planned_partition list \<Rightarrow> insight_row list \<Rightarrow> int \<Rightarrow> string list itx" where
  "insights_body pg_real ps planned rows newCursor =
     bindT (mapT (create_insights_partition ps) planned) (\<lambda>_.
     bindT (if rows = [] then returnT []
            else bindT (sentenceIds rows) (\<lambda>sids.
                 bindT (labelIds pg_real rows sids) (\<lambda>labels.
                 bindT (liftE (mapE (\<lambda>r. bindE (needId labels (position_key r) ''label'') (\<lambda>i. Inr (r, i))) rows)) (\<lambda>args.
                   query (insert_insights args))))) (\<lambda>inserted.
     bindT (query (update_cursor newCursor)) (\<lambda>_. returnT inserted)))"

definition commitInsights :: "(rat \<Rightarrow> rat) \<Rightarrow> fault \<Rightarrow> partitions \<Rightarrow> insight_row list \<Rightarrow> int \<Rightarrow> idb \<Rightarrow>
    (failure + string list) \<times> idb \<times> partitions" where
  "commitInsights pg_real flt ps rows newCursor s =
     (let written = (if rows \<noteq> [] then [''_insights''] else []);
          blockNumbers = map ir_blockNumber rows
      in case partitions_plan ps written blockNumbers of
           Inl e \<Rightarrow> (Inl e, s, ps)
         | Inr planned \<Rightarrow>
             (case insights_transaction flt (insights_body pg_real ps planned rows newCursor) s of
                (Inl e, s') \<Rightarrow> (Inl e, s', ps)
              | (Inr inserted, s') \<Rightarrow> (Inr inserted, s', partitions_committed ps written blockNumbers planned)))"

subsection \<open>Interface: a dictionary of identities\<close>

text \<open>
  A table that gives every key one id of a sequence. Inserting the keys of a round adds the unknown
  ones and keeps every id: the sentences and the labels promise this, and so do the addresses of
  ingest.
\<close>

fun dict_adds :: "'k list \<Rightarrow> (int \<times> 'k) list \<times> int \<Rightarrow> (int \<times> 'k) list \<times> int" where
  "dict_adds [] e = e"
| "dict_adds (k # ks) (e, n) = dict_adds ks (if k \<in> snd ` set e then (e, n) else (e @ [(n, k)], n + 1))"

definition dict_ok :: "(int \<times> 'k) list \<times> int \<Rightarrow> bool" where
  "dict_ok e \<longleftrightarrow> distinct (map fst (fst e)) \<and> distinct (map snd (fst e)) \<and> (\<forall>i \<in> fst ` set (fst e). i < snd e)"

lemma dict_adds_ok: "dict_ok e \<Longrightarrow> dict_ok (dict_adds ks e)"
proof (induction ks arbitrary: e)
  case (Cons k ks)
  obtain m n where e: "e = (m, n)" by (cases e)
  have "dict_ok (if k \<in> snd ` set m then (m, n) else (m @ [(n, k)], n + 1))"
    using Cons.prems unfolding e by (fastforce simp: dict_ok_def)
  with Cons.IH show ?case by (simp add: e)
qed simp

lemma dict_adds_extends: "\<exists>new. fst (dict_adds ks e) = fst e @ new \<and> snd ` set (fst e @ new) = snd ` set (fst e) \<union> set ks"
proof (induction ks arbitrary: e)
  case (Cons k ks)
  obtain m n where e: "e = (m, n)" by (cases e)
  let ?e = "if k \<in> snd ` set m then (m, n) else (m @ [(n, k)], n + 1)"
  obtain new where "fst (dict_adds ks ?e) = fst ?e @ new" "snd ` set (fst ?e @ new) = snd ` set (fst ?e) \<union> set ks"
    using Cons.IH by blast
  then show ?case unfolding e by (auto split: if_splits)
qed (auto intro: exI [of _ "[]"])

locale dictionary =
  fixes entries :: "'s \<Rightarrow> (int \<times> 'k) list" and seq :: "'s \<Rightarrow> int"
    and ins :: "'x list \<Rightarrow> 's \<Rightarrow> (failure + unit) \<times> 's" and key :: "'x \<Rightarrow> 'k"
  assumes ins_adds: "ins us s = (Inr u, s') \<Longrightarrow> (entries s', seq s') = dict_adds (map key us) (entries s, seq s)"
begin

definition wf :: "'s \<Rightarrow> bool" where
  "wf s \<longleftrightarrow> dict_ok (entries s, seq s)"

lemma ins_wf: "ins us s = (Inr u, s') \<Longrightarrow> wf s \<Longrightarrow> wf s'"
  by (simp add: wf_def ins_adds dict_adds_ok)

lemma ins_extends: "ins us s = (Inr u, s') \<Longrightarrow> \<exists>new. entries s' = entries s @ new"
  using ins_adds dict_adds_extends [of "map key us" "(entries s, seq s)"] by (metis fst_conv)

lemma ins_keeps: "ins us s = (Inr u, s') \<Longrightarrow> wf s \<Longrightarrow> map_of (entries s) i = Some k \<Longrightarrow> map_of (entries s') i = Some k"
proof -
  assume run: "ins us s = (Inr u, s')" and "wf s" and i: "map_of (entries s) i = Some k"
  then have d: "distinct (map fst (entries s'))" using ins_wf by (simp add: wf_def dict_ok_def)
  obtain new where "entries s' = entries s @ new" using ins_extends [OF run] by blast
  then have "(i, k) \<in> set (entries s')" using map_of_SomeD [OF i] by simp
  with d show ?thesis by simp
qed

lemma ins_has: "ins us s = (Inr u, s') \<Longrightarrow> x \<in> set us \<Longrightarrow> \<exists>i. (i, key x) \<in> set (entries s')"
proof -
  assume run: "ins us s = (Inr u, s')" and x: "x \<in> set us"
  have "snd ` set (entries s') = snd ` set (entries s) \<union> key ` set us"
    using ins_adds [OF run] dict_adds_extends [of "map key us" "(entries s, seq s)"] by (metis fst_conv set_map)
  with x have "key x \<in> snd ` set (entries s')" by blast
  then show ?thesis by (metis imageE prod.collapse)
qed

lemma ins_keys: "ins us s = (Inr u, s') \<Longrightarrow> snd ` set (entries s') = snd ` set (entries s) \<union> key ` set us"
  using ins_adds dict_adds_extends [of "map key us" "(entries s, seq s)"] by (metis fst_conv set_map)

lemma one_id: "wf s \<Longrightarrow> (i, k) \<in> set (entries s) \<Longrightarrow> (j, k) \<in> set (entries s) \<Longrightarrow> i = j"
proof -
  assume "wf s" and i: "(i, k) \<in> set (entries s)" and j: "(j, k) \<in> set (entries s)"
  then have "inj_on snd (set (entries s))" by (simp add: wf_def dict_ok_def distinct_map)
  from inj_onD [OF this _ i j] show ?thesis by simp
qed

end

definition sentence_entries :: "idb \<Rightarrow> (int \<times> string \<times> string) list" where
  "sentence_entries s = map (\<lambda>x. (se_id x, se_sentence x, se_model x)) (id_sentences s)"

definition new_key :: "new_sentence \<Rightarrow> string \<times> string" where
  "new_key = (\<lambda>(sentence, model, _). (sentence, model))"

lemma has_sentence_entries: "has_sentence (id_sentences s) a b \<longleftrightarrow> (a, b) \<in> snd ` set (sentence_entries s)"
  by (force simp: has_sentence_def sentence_entries_def list_ex_iff image_iff)

interpretation sentences: dictionary sentence_entries id_nextSentence insert_sentences new_key
proof unfold_locales
  fix us s u s'
  show "insert_sentences us s = (Inr u, s') \<Longrightarrow>
      (sentence_entries s', id_nextSentence s') = dict_adds (map new_key us) (sentence_entries s, id_nextSentence s)"
  proof (induction us s rule: insert_sentences.induct)
    case (2 sentence model p us s)
    show ?case
    proof (cases "has_sentence (id_sentences s) sentence model")
      case True
      with 2 show ?thesis by (simp add: new_key_def has_sentence_entries split: if_splits)
    next
      case False
      let ?s = "s\<lparr>id_sentences := id_sentences s @
             [\<lparr>se_id = id_nextSentence s, se_sentence = sentence, se_model = model, se_probabilities = p\<rparr>],
           id_nextSentence := id_nextSentence s + 1\<rparr>"
      have "(sentence_entries s', id_nextSentence s') = dict_adds (map new_key us) (sentence_entries ?s, id_nextSentence ?s)"
        using 2 False by (simp split: if_splits)
      moreover have "sentence_entries ?s = sentence_entries s @ [(id_nextSentence s, sentence, model)]"
        by (simp add: sentence_entries_def)
      ultimately show ?thesis using False by (simp add: new_key_def has_sentence_entries)
    qed
  qed simp
qed

interpretation labels: dictionary id_labels id_nextLabel insert_labels "\<lambda>l. l"
proof unfold_locales
  fix ls s u s'
  show "insert_labels ls s = (Inr u, s') \<Longrightarrow> (id_labels s', id_nextLabel s') = dict_adds (map (\<lambda>l. l) ls) (id_labels s, id_nextLabel s)"
    by (induction ls s rule: insert_labels.induct) (auto split: if_splits)
qed

definition address_entries :: "db \<Rightarrow> (int \<times> bytes) list" where
  "address_entries d = map (\<lambda>(a, i). (i, a)) (db_addresses d)"

interpretation address_ids: dictionary address_entries db_nextId insert_addresses "\<lambda>a. a"
proof unfold_locales
  fix as d u d'
  show "insert_addresses as d = (Inr u, d') \<Longrightarrow> (address_entries d', db_nextId d') = dict_adds (map (\<lambda>a. a) as) (address_entries d, db_nextId d)"
  proof (induction as d rule: insert_addresses.induct)
    case (2 a as d)
    have "map_has a (db_addresses d) \<longleftrightarrow> a \<in> snd ` set (address_entries d)"
      by (force simp: address_entries_def image_iff)
    with 2 show ?case by (auto simp: address_entries_def split: if_splits)
  qed simp
qed

subsection \<open>Ids of a round\<close>

lemma foldl_index:
  "map_of (foldl (\<lambda>m x. map_set (f x) (g x) m) m0 xs) k =
     (case map_of (rev (map (\<lambda>x. (f x, g x)) xs)) k of Some v \<Rightarrow> Some v | None \<Rightarrow> map_of m0 k)"
  by (induction xs arbitrary: m0 rule: rev_induct) (auto split: option.split)

lemma index_sound: "map_of (foldl (\<lambda>m x. map_set (f x) (g x) m) [] xs) k = Some v \<Longrightarrow> \<exists>x \<in> set xs. k = f x \<and> v = g x"
  by (auto simp: foldl_index split: option.splits dest!: map_of_SomeD)

lemma index_hit: "x \<in> set xs \<Longrightarrow> \<exists>y \<in> set xs. f y = f x \<and> map_of (foldl (\<lambda>m x. map_set (f x) (g x) m) [] xs) (f x) = Some (g y)"
proof -
  assume x: "x \<in> set xs"
  then have "f x \<in> fst ` set (rev (map (\<lambda>x. (f x, g x)) xs))" by force
  then have "map_of (rev (map (\<lambda>x. (f x, g x)) xs)) (f x) \<noteq> None" by (simp only: map_of_eq_None_iff not_not)
  then obtain v where v: "map_of (rev (map (\<lambda>x. (f x, g x)) xs)) (f x) = Some v" by auto
  then have "map_of (foldl (\<lambda>m x. map_set (f x) (g x) m) [] xs) (f x) = Some v" by (simp add: foldl_index)
  with index_sound [OF this] show ?thesis by metis
qed

lemma index_values: "v \<in> snd ` set (foldl (\<lambda>m x. map_set (f x) (g x) m) m0 xs) \<Longrightarrow> v \<in> snd ` set m0 \<or> v \<in> g ` set xs"
proof (induction xs arbitrary: m0)
  case (Cons x xs)
  have "snd ` set (map_set (f x) (g x) m0) \<subseteq> insert (g x) (snd ` set m0)" by (induction m0) auto
  with Cons.IH [of "map_set (f x) (g x) m0"] Cons.prems show ?case by auto
qed simp

lemma sentence_key_inj:
  "sentence_key s m = sentence_key s' m' \<Longrightarrow> nul_free s' \<Longrightarrow> nul_free m' \<Longrightarrow> s = s' \<and> m = m'"
  unfolding sentence_key_def nul_free_def using append_Cons_eq_iff [of "CHR 0x00" m' s' m s] by auto

lemma insert_sentences_nul_free:
  "insert_sentences us s = (Inr u, s') \<Longrightarrow> (a, b, p) \<in> set us \<Longrightarrow> nul_free a \<and> nul_free b"
  by (induction us s rule: insert_sentences.induct) (auto split: if_splits)

lemma insert_sentences_fields:
  "insert_sentences us s = (r, s') \<Longrightarrow> s' = s\<lparr>id_sentences := id_sentences s', id_nextSentence := id_nextSentence s'\<rparr>"
  by (induction us s rule: insert_sentences.induct) (auto split: if_splits)

lemma insert_labels_fields:
  "insert_labels ls s = (r, s') \<Longrightarrow> s' = s\<lparr>id_labels := id_labels s', id_nextLabel := id_nextLabel s'\<rparr>"
  by (induction ls s rule: insert_labels.induct) (auto split: if_splits)

lemma with_answer_entries: "sentence_entries (s\<lparr>id_sentences := map (with_answer us) (id_sentences s)\<rparr>) = sentence_entries s"
  by (auto simp: sentence_entries_def with_answer_def split: list.split prod.split)

lemma unique_sentences_hit:
  assumes "r \<in> set rows"
  shows "\<exists>r2 \<in> set rows. row_sentence_key r2 = row_sentence_key r \<and>
    (ir_sentence r2, model_of r2, ir_probabilities r2) \<in> set (map snd (unique_sentences rows))"
  using index_hit [OF assms, of row_sentence_key "\<lambda>r. (ir_sentence r, model_of r, ir_probabilities r)"]
  unfolding unique_sentences_def by (force dest: map_of_SomeD)

lemma unique_sentences_rows:
  assumes "x \<in> set (map snd (unique_sentences rows))"
  shows "\<exists>r \<in> set rows. x = (ir_sentence r, model_of r, ir_probabilities r)"
proof -
  have "\<forall>y \<in> set (foldl (\<lambda>m r. map_set (row_sentence_key r) (ir_sentence r, model_of r, ir_probabilities r) m) m0 rows).
      snd y \<in> snd ` set m0 \<or> (\<exists>r \<in> set rows. snd y = (ir_sentence r, model_of r, ir_probabilities r))" for m0
  proof (induction rows arbitrary: m0)
    case (Cons r rows)
    have "snd ` set (map_set k v m0) \<subseteq> insert v (snd ` set m0)" for k v by (induction m0) auto
    then have one: "snd y = (ir_sentence r, model_of r, ir_probabilities r) \<or> snd y \<in> snd ` set m0"
      if "snd y \<in> snd ` set (map_set (row_sentence_key r) (ir_sentence r, model_of r, ir_probabilities r) m0)" for y :: "string \<times> new_sentence"
      using that by blast
    show ?case
    proof (intro ballI)
      fix y
      assume "y \<in> set (foldl (\<lambda>m r. map_set (row_sentence_key r) (ir_sentence r, model_of r, ir_probabilities r) m) m0 (r # rows))"
      then have "y \<in> set (foldl (\<lambda>m r. map_set (row_sentence_key r) (ir_sentence r, model_of r, ir_probabilities r) m)
          (map_set (row_sentence_key r) (ir_sentence r, model_of r, ir_probabilities r) m0) rows)" by simp
      with Cons.IH one [of y] show "snd y \<in> snd ` set m0 \<or> (\<exists>r \<in> set (r # rows). snd y = (ir_sentence r, model_of r, ir_probabilities r))"
        by (meson list.set_intros)
    qed
  qed auto
  from this [of "[]"] assms show ?thesis unfolding unique_sentences_def by auto
qed

lemma sentenceIds_Inr:
  assumes run: "sentenceIds rows flt c = (Inr ids, c')" and wf: "sentences.wf (cn_db c)"
  shows "\<exists>ss n. cn_db c' = (cn_db c)\<lparr>id_sentences := ss, id_nextSentence := n\<rparr>"
    and "sentences.wf (cn_db c')"
    and "map_of (sentence_entries (cn_db c)) i = Some k \<Longrightarrow> map_of (sentence_entries (cn_db c')) i = Some k"
    and "map_of ids (row_sentence_key r) = Some i \<Longrightarrow> map_of (sentence_entries (cn_db c')) i = Some (ir_sentence r, model_of r)"
    and "j \<in> snd ` set ids \<Longrightarrow> map_of (sentence_entries (cn_db c')) j \<noteq> None"
proof -
  let ?all = "map snd (unique_sentences rows)"
  obtain s1 where ins: "insert_sentences ?all (cn_db c) = (Inr (), s1)"
    and c': "cn_db c' = s1\<lparr>id_sentences := map (with_answer ?all) (id_sentences s1)\<rparr>"
    and ids: "ids = foldl (\<lambda>m x. map_set (sentence_key (se_sentence x) (se_model x)) (se_id x) m) []
      (filter (\<lambda>x. list_ex (\<lambda>(sentence, model, _). sentence = se_sentence x \<and> model = se_model x) ?all) (id_sentences (cn_db c')))"
    using run by (auto simp: sentenceIds_def Let_def bindT_Inr query_Inr returnT_eq update_probabilities_def select_sentences_def)
  have e: "sentence_entries (cn_db c') = sentence_entries s1" "id_nextSentence (cn_db c') = id_nextSentence s1"
    unfolding c' with_answer_entries by simp_all
  show wf': "sentences.wf (cn_db c')" using sentences.ins_wf [OF ins wf] e by (simp add: sentences.wf_def)
  show "\<exists>ss n. cn_db c' = (cn_db c)\<lparr>id_sentences := ss, id_nextSentence := n\<rparr>"
  proof -
    have "cn_db c' = (cn_db c)\<lparr>id_sentences := id_sentences s1, id_nextSentence := id_nextSentence s1\<rparr>
        \<lparr>id_sentences := map (with_answer ?all) (id_sentences s1)\<rparr>"
      unfolding c' by (subst insert_sentences_fields [OF ins]) simp
    then show ?thesis by (intro exI [of _ "map (with_answer ?all) (id_sentences s1)"] exI [of _ "id_nextSentence s1"]) simp
  qed
  show "map_of (sentence_entries (cn_db c)) i = Some k \<Longrightarrow> map_of (sentence_entries (cn_db c')) i = Some k"
    unfolding e by (rule sentences.ins_keeps [OF ins wf])
  show "j \<in> snd ` set ids \<Longrightarrow> map_of (sentence_entries (cn_db c')) j \<noteq> None"
    unfolding ids by (drule index_values) (auto simp: sentence_entries_def map_of_eq_None_iff image_iff)
  assume "map_of ids (row_sentence_key r) = Some i"
  then obtain x where x: "x \<in> set (id_sentences (cn_db c'))" "i = se_id x"
    "row_sentence_key r = sentence_key (se_sentence x) (se_model x)"
    "list_ex (\<lambda>(sentence, model, _). sentence = se_sentence x \<and> model = se_model x) ?all"
    unfolding ids by (auto dest!: index_sound)
  from x(4) obtain p where "(se_sentence x, se_model x, p) \<in> set ?all" unfolding list_ex_iff by fastforce
  from insert_sentences_nul_free [OF ins this] have "nul_free (se_sentence x)" "nul_free (se_model x)" by simp_all
  then have "ir_sentence r = se_sentence x \<and> model_of r = se_model x"
    using sentence_key_inj x(3) unfolding row_sentence_key_def by blast
  moreover have "(se_id x, se_sentence x, se_model x) \<in> set (sentence_entries (cn_db c'))"
    using x(1) by (force simp: sentence_entries_def)
  then have "map_of (sentence_entries (cn_db c')) (se_id x) = Some (se_sentence x, se_model x)"
    using wf' by (simp add: sentences.wf_def dict_ok_def)
  ultimately show "map_of (sentence_entries (cn_db c')) i = Some (ir_sentence r, model_of r)" using x(2) by simp
qed

subsection \<open>Label ids of a round\<close>

lemma join_Cons: "join sep (x # xs) = x @ (if xs = [] then [] else sep @ join sep xs)"
  by (cases xs) (simp_all add: join_def)

lemma join_Nil [simp]: "join sep [] = []"
  by (simp add: join_def)

lemma split_commas_nonempty: "split_commas f \<noteq> []"
  by (cases f) (auto split: list.split)

lemma join_split_commas [simp]: "join '','' (split_commas f) = f"
proof (induction f)
  case (Cons c f)
  obtain x xs where f: "split_commas f = x # xs" using split_commas_nonempty [of f] by (cases "split_commas f") simp_all
  with Cons show ?case by (auto simp: join_Cons split: if_splits)
qed (simp add: join_Cons)

lemma join_sql_facts [simp]: "join '','' (sql_facts f) = f"
  by (simp add: sql_facts_def)

definition facts_ok :: "string list \<Rightarrow> bool" where
  "facts_ok fs \<longleftrightarrow> list_all (\<lambda>f. f \<noteq> [] \<and> CHR '','' \<notin> set f) fs"

lemma split_commas_word: "CHR '','' \<notin> set f \<Longrightarrow> split_commas (f @ CHR '','' # cs) = f # split_commas cs"
  by (induction f) auto

lemma split_commas_last: "CHR '','' \<notin> set f \<Longrightarrow> split_commas f = [f]"
  by (induction f) auto

lemma sql_facts_join [simp]: "facts_ok fs \<Longrightarrow> sql_facts (join '','' fs) = fs"
proof -
  assume ok: "facts_ok fs"
  have "fs \<noteq> [] \<Longrightarrow> split_commas (join '','' fs) = fs"
    using ok by (induction fs) (auto simp: facts_ok_def join_Cons split_commas_word split_commas_last)
  moreover have "fs \<noteq> [] \<Longrightarrow> join '','' fs \<noteq> []" using ok by (cases fs) (auto simp: facts_ok_def join_Cons)
  ultimately show ?thesis by (cases fs) (auto simp: sql_facts_def join_def)
qed

text \<open>What is assumed of the server: a \<open>real\<close> it prints reads back as the value it stored.\<close>

definition real_roundtrip :: "(rat \<Rightarrow> rat) \<Rightarrow> bool" where
  "real_roundtrip pg_real \<longleftrightarrow> (\<forall>x. fround (pg_real (fround x)) = fround x)"

lemma read_key_back:
  assumes "real_roundtrip pg_real"
  shows "read_key pg_real (label_of_key (label_key_of r sid)) = label_key_of r sid"
  using assms by (cases "ir_laneP r") (simp_all add: read_key_def label_of_key_def label_key_of_def real_roundtrip_def)

lemma liftE_Inr [err_simps]: "liftE x flt c = (Inr a, c') \<longleftrightarrow> x = Inr a \<and> c' = c"
  by (cases x) (auto simp: liftE_def returnT_eq throwT_eq)

lemma needId_Inr [err_simps]: "needId ids k what = Inr i \<longleftrightarrow> map_of ids k = Some i"
  by (simp add: needId_def split: option.split)

lemma row_keys_Inr:
  "row_keys sids rows = Inr keys \<Longrightarrow> list_all2 (\<lambda>r k. \<exists>sid. map_of sids (row_sentence_key r) = Some sid \<and> k = label_key_of r sid) rows keys"
  by (auto simp: row_keys_def mapE_Inr bindE_Inr needId_Inr elim!: list_all2_mono)

lemma labelIds_Inr:
  assumes run: "labelIds pg_real rows sids flt c = (Inr out, c')" and wf: "labels.wf (cn_db c)"
    and pg: "real_roundtrip pg_real" and pos: "inj_on position_key (set rows)"
  shows "\<exists>ls n. cn_db c' = (cn_db c)\<lparr>id_labels := ls, id_nextLabel := n\<rparr>"
    and "labels.wf (cn_db c')"
    and "map_of (id_labels (cn_db c)) j = Some l \<Longrightarrow> map_of (id_labels (cn_db c')) j = Some l"
    and "r \<in> set rows \<Longrightarrow> map_of out (position_key r) = Some i \<Longrightarrow>
      \<exists>sid. map_of sids (row_sentence_key r) = Some sid \<and> map_of (id_labels (cn_db c')) i = Some (label_of_key (label_key_of r sid))"
    and "l \<in> snd ` set (id_labels (cn_db c')) \<Longrightarrow> l \<in> snd ` set (id_labels (cn_db c)) \<or> lb_sentence l \<in> snd ` set sids"
proof -
  obtain keys s1 found pairs where keys: "row_keys sids rows = Inr keys"
    and ins: "insert_labels (map label_of_key (set_of_list keys)) (cn_db c) = (Inr (), s1)" and c': "cn_db c' = s1"
    and found: "found = filter (\<lambda>(_, l). l \<in> set (map label_of_key (set_of_list keys))) (id_labels s1)"
    and pairs: "mapE (\<lambda>(r, k). bindE (needId (foldl (\<lambda>m (i, l). map_set (read_key pg_real l) i m) [] found) k ''label'')
        (\<lambda>i. Inr (position_key r, i))) (zip rows keys) = Inr pairs"
    and out: "out = foldl (\<lambda>m (k, i). map_set k i m) [] pairs"
    using run by (auto simp: labelIds_def Let_def bindT_Inr query_Inr returnT_eq liftE_Inr select_labels_def)
  show "\<exists>ls n. cn_db c' = (cn_db c)\<lparr>id_labels := ls, id_nextLabel := n\<rparr>"
    unfolding c' using insert_labels_fields [OF ins] by blast
  show wf': "labels.wf (cn_db c')" unfolding c' by (rule labels.ins_wf [OF ins wf])
  show "map_of (id_labels (cn_db c)) j = Some l \<Longrightarrow> map_of (id_labels (cn_db c')) j = Some l"
    unfolding c' by (rule labels.ins_keeps [OF ins wf])
  have l2: "list_all2 (\<lambda>r k. \<exists>sid. map_of sids (row_sentence_key r) = Some sid \<and> k = label_key_of r sid) rows keys"
    by (rule row_keys_Inr [OF keys])
  show "l \<in> snd ` set (id_labels (cn_db c')) \<Longrightarrow> l \<in> snd ` set (id_labels (cn_db c)) \<or> lb_sentence l \<in> snd ` set sids"
  proof -
    assume l: "l \<in> snd ` set (id_labels (cn_db c'))"
    show ?thesis
    proof (cases "l \<in> snd ` set (id_labels (cn_db c))")
      case False
      then obtain k where k: "k \<in> set keys" "l = label_of_key k" using l labels.ins_keys [OF ins] unfolding c' by auto
      obtain r sid where "map_of sids (row_sentence_key r) = Some sid" "k = label_key_of r sid"
        using list_all2_right [OF l2 k(1)] by blast
      then have "lb_sentence l = sid" "sid \<in> snd ` set sids"
        using k(2) by (auto simp: label_of_key_def label_key_of_def dest!: map_of_SomeD intro: rev_image_eqI)
      then show ?thesis by simp
    qed simp
  qed
  assume r: "r \<in> set rows" and i: "map_of out (position_key r) = Some i"
  have "map_of (foldl (\<lambda>m x. map_set (fst x) (snd x) m) [] pairs) (position_key r) = Some i"
    using i unfolding out by (simp add: case_prod_unfold)
  from index_sound [OF this] have "(position_key r, i) \<in> set pairs" by auto
  moreover have "list_all2 (\<lambda>(r, k) p. \<exists>i. map_of (foldl (\<lambda>m (i, l). map_set (read_key pg_real l) i m) [] found) k = Some i \<and> p = (position_key r, i))
      (zip rows keys) pairs"
    by (rule list_all2_mono [OF pairs [unfolded mapE_Inr]]) (auto simp: bindE_Inr needId_Inr)
  ultimately obtain x where x: "x \<in> set (zip rows keys)"
    "(\<lambda>(q, k) p. \<exists>j. map_of (foldl (\<lambda>m (i, l). map_set (read_key pg_real l) i m) [] found) k = Some j \<and> p = (position_key q, j)) x (position_key r, i)"
    using list_all2_right [of _ _ _ "(position_key r, i)"] by blast
  define r2 k where "r2 = fst x" and "k = snd x"
  then have x_eq: "x = (r2, k)" by simp
  have rk: "(r2, k) \<in> set (zip rows keys)" "position_key r2 = position_key r"
    "map_of (foldl (\<lambda>m (i, l). map_set (read_key pg_real l) i m) [] found) k = Some i"
    using x unfolding x_eq prod.case by auto
  have "r2 = r" using pos rk(1,2) r by (auto dest: set_zip_leftD inj_onD)
  then obtain sid where sid: "map_of sids (row_sentence_key r) = Some sid" "k = label_key_of r sid"
    using rk(1) l2 by (auto simp: list_all2_iff)
  have "map_of (foldl (\<lambda>m x. map_set (read_key pg_real (snd x)) (fst x) m) [] found) k = Some i"
    using rk(3) by (simp add: case_prod_unfold)
  from index_sound [OF this] obtain l where l: "(i, l) \<in> set found" "k = read_key pg_real l" by auto
  from l(1) obtain k2 where k2: "k2 \<in> set keys" "l = label_of_key k2" "(i, l) \<in> set (id_labels s1)"
    unfolding found by auto
  obtain r3 sid3 where "k2 = label_key_of r3 sid3" using list_all2_right [OF l2 k2(1)] by blast
  then have "k = k2" using l(2) k2(2) read_key_back [OF pg] by simp
  then have "(i, label_of_key (label_key_of r sid)) \<in> set (id_labels s1)" using k2 sid(2) by simp
  then have "map_of (id_labels (cn_db c')) i = Some (label_of_key (label_key_of r sid))"
    using wf' unfolding c' by (simp add: labels.wf_def dict_ok_def)
  with sid(1) show "\<exists>sid. map_of sids (row_sentence_key r) = Some sid \<and> map_of (id_labels (cn_db c')) i = Some (label_of_key (label_key_of r sid))"
    by blast
qed

subsection \<open>Rounding to a \<open>real\<close>\<close>

lemma half_even_int [simp]: "half_even (of_int z) = z"
  by (simp add: half_even_def)

lemma half_even_ge: "of_int z \<le> x \<Longrightarrow> z \<le> half_even x"
proof -
  assume "of_int z \<le> x"
  then have "z \<le> \<lfloor>x\<rfloor>" by (simp add: le_floor_iff)
  then show ?thesis by (simp add: half_even_def Let_def)
qed

lemma half_even_le: "x \<le> of_int z \<Longrightarrow> half_even x \<le> z"
proof -
  assume x: "x \<le> of_int z"
  show ?thesis
  proof (cases "x = of_int z")
    case False
    with x have "\<lfloor>x\<rfloor> < z" by (simp add: floor_less_iff)
    then show ?thesis by (simp add: half_even_def Let_def)
  qed simp
qed

lemma fround_scale_spec:
  "fround_scale fuel n x = k \<Longrightarrow> n \<le> k \<and> k \<le> n + fuel \<and> (k = n + fuel \<or> 2 ^ 23 \<le> x * 2 ^ k) \<and>
     (\<forall>j. n \<le> j \<and> j < k \<longrightarrow> x * 2 ^ j < 2 ^ 23)"
proof (induction fuel n x rule: fround_scale.induct)
  case (2 fuel n x)
  show ?case
  proof (cases "2 ^ 23 \<le> x * 2 ^ n")
    case True
    with 2 show ?thesis by simp
  next
    case False
    then have "fround_scale fuel (Suc n) x = k" using 2(2) by simp
    note IH = "2.IH" [OF False this]
    have "x * 2 ^ j < 2 ^ 23" if "n \<le> j" "j < k" for j
      using IH False that by (cases "j = n") (simp_all only: not_le, simp)
    with IH show ?thesis by simp
  qed
qed auto

text \<open>Rounding twice is rounding once: a rounded value is a whole number at its own scale.\<close>

definition round24 :: "rat \<Rightarrow> rat" where
  "round24 x = of_int (half_even (x * 2 ^ fround_scale 149 0 x)) / 2 ^ fround_scale 149 0 x"

lemma round24_idem:
  assumes "0 \<le> x"
  shows "round24 (round24 x) = round24 x"
proof -
  define n where "n = fround_scale 149 0 x"
  define h where "h = half_even (x * 2 ^ n)"
  define y where "y = round24 x"
  define m where "m = fround_scale 149 0 y"
  have y: "y = of_int h / 2 ^ n" by (simp add: y_def round24_def h_def n_def)
  have n: "n \<le> 149" "n = 149 \<or> 2 ^ 23 \<le> x * 2 ^ n" "\<And>j. j < n \<Longrightarrow> x * 2 ^ j < 2 ^ 23"
    using fround_scale_spec [of 149 0 x n] by (simp_all add: n_def)
  have m: "m \<le> 149" "m = 149 \<or> 2 ^ 23 \<le> y * 2 ^ m" "\<And>j. j < m \<Longrightarrow> y * 2 ^ j < 2 ^ 23"
    using fround_scale_spec [of 149 0 y m] by (simp_all add: m_def)
  have yn: "y * 2 ^ n = of_int h" by (simp add: y)
  have "m \<le> n"
  proof (rule ccontr)
    assume "\<not> m \<le> n"
    then have less: "n < m" by simp
    with m(1) have "n \<noteq> 149" by simp
    then have "of_int (2 ^ 23) \<le> x * 2 ^ n" using n(2) by simp
    then have "2 ^ 23 \<le> h" unfolding h_def by (rule half_even_ge)
    then have "(2 ^ 23 :: rat) \<le> of_int h" by (metis of_int_le_iff of_int_numeral of_int_power)
    with m(3) [OF less] show False unfolding yn by simp
  qed
  have "\<exists>z. y * 2 ^ m = of_int z"
  proof (cases "m = n")
    case True
    then show ?thesis using yn by blast
  next
    case False
    with \<open>m \<le> n\<close> have less: "m < n" by simp
    then have "m \<noteq> 149" using n(1) by simp
    then have big: "2 ^ 23 \<le> y * 2 ^ m" using m(2) by simp
    have "x * 2 ^ (n - 1) < 2 ^ 23" using n(3) [of "n - 1"] less by simp
    moreover have "x * 2 ^ n = 2 * (x * 2 ^ (n - 1))" using less by (cases n) simp_all
    moreover have "of_int (2 ^ 24) = (2 * 2 ^ 23 :: rat)" by simp
    ultimately have "x * 2 ^ n \<le> of_int (2 ^ 24)" by linarith
    then have "h \<le> 2 ^ 24" unfolding h_def by (rule half_even_le)
    then have hi: "(of_int h :: rat) \<le> 2 ^ 24" by (metis of_int_le_iff of_int_numeral of_int_power)
    have split: "y * 2 ^ n = y * 2 ^ m * 2 ^ (n - m)" using less by (simp add: power_add [symmetric] mult.assoc)
    have two: "(2 :: rat) \<le> 2 ^ (n - m)" using less by (metis one_le_numeral power_increasing power_one_right zero_less_diff Suc_leI One_nat_def)
    have "2 ^ 23 * 2 \<le> y * 2 ^ m * 2 ^ (n - m)" by (rule mult_mono [OF big two]) (use big in \<open>simp_all\<close>)
    with hi split yn have eq: "y * 2 ^ m * 2 ^ (n - m) = 2 ^ 23 * 2" by simp
    have "y * 2 ^ m = 2 ^ 23"
    proof (rule antisym [OF _ big])
      have "y * 2 ^ m * 2 \<le> y * 2 ^ m * 2 ^ (n - m)" by (rule mult_left_mono [OF two]) (use big in simp)
      with eq show "y * 2 ^ m \<le> 2 ^ 23" by simp
    qed
    then show ?thesis by (intro exI [of _ "2 ^ 23"]) simp
  qed
  then obtain z where z: "y * 2 ^ m = of_int z" by blast
  have "round24 y = of_int (half_even (y * 2 ^ m)) / 2 ^ m" by (simp add: round24_def m_def)
  also have "\<dots> = of_int z / 2 ^ m" by (simp only: z half_even_int)
  also have "\<dots> = y" by (simp add: z [symmetric])
  finally show ?thesis unfolding y_def .
qed

lemma round24_nonneg: "0 \<le> x \<Longrightarrow> 0 \<le> round24 x"
  using half_even_ge [of 0 "x * 2 ^ fround_scale 149 0 x"] by (simp add: round24_def)

lemma fround_idem [simp]: "fround (fround x) = fround x"
proof -
  have f: "fround x = (if x < 0 then - round24 \<bar>x\<bar> else round24 \<bar>x\<bar>)" for x by (simp add: fround_def round24_def Let_def)
  have "0 \<le> round24 \<bar>x\<bar>" by (rule round24_nonneg) simp
  moreover from this have "\<bar>fround x\<bar> = round24 \<bar>x\<bar>" by (simp add: f)
  moreover have "fround x < 0 \<longleftrightarrow> x < 0 \<and> round24 \<bar>x\<bar> \<noteq> 0" using calculation(1) by (auto simp: f)
  ultimately show ?thesis using round24_idem [of "\<bar>x\<bar>"] by (simp add: f [of "fround x"]) (auto simp: f)
qed

lemma real_roundtrip_exact: "real_roundtrip (\<lambda>x. x)"
  by (simp add: real_roundtrip_def)

subsection \<open>What a round writes\<close>

definition row_position :: "insight_row \<Rightarrow> int \<times> int" where
  "row_position r = (ir_blockNumber r, ir_logIndex r)"

definition rows_ok :: "insight_row list \<Rightarrow> bool" where
  "rows_ok rows \<longleftrightarrow> distinct (map row_position rows) \<and>
     list_all (\<lambda>r. 0 \<le> ir_blockNumber r \<and> 0 \<le> ir_logIndex r \<and> facts_ok (ir_facts r)) rows"

text \<open>Every id refers to something, and every row's lane is its label's.\<close>

definition idb_ok :: "idb \<Rightarrow> bool" where
  "idb_ok s \<longleftrightarrow> sentences.wf s \<and> labels.wf s \<and> distinct (map in_key (id_insights s)) \<and>
     (\<forall>l \<in> snd ` set (id_labels s). map_of (sentence_entries s) (lb_sentence l) \<noteq> None) \<and>
     (\<forall>x \<in> set (id_insights s). \<exists>l. map_of (id_labels s) (in_label x) = Some l \<and> lb_lane l = in_lane x)"

text \<open>A row as the view \<open>_insights_full\<close> shows it: joined with its label and its sentence.\<close>

record told =
  td_position :: "int \<times> int"
  td_lane :: string
  td_laneP :: "rat option"
  td_ruled :: bool
  td_protocol :: "string option"
  td_facts :: "string list"
  td_sentence :: string
  td_model :: string

definition insight_view :: "idb \<Rightarrow> stored_insight \<Rightarrow> told option" where
  "insight_view s x =
     Option.bind (map_of (id_labels s) (in_label x)) (\<lambda>l.
       map_option (\<lambda>(sentence, model). \<lparr>td_position = in_key x, td_lane = in_lane x, td_laneP = lb_laneP l, td_ruled = lb_ruled l,
          td_protocol = lb_protocol l, td_facts = lb_facts l, td_sentence = sentence, td_model = model\<rparr>)
         (map_of (sentence_entries s) (lb_sentence l)))"

definition full_view :: "idb \<Rightarrow> told option list" where
  "full_view s = map (insight_view s) (id_insights s)"

definition told_of :: "insight_row \<Rightarrow> told" where
  "told_of r = \<lparr>td_position = row_position r, td_lane = ir_lane r, td_laneP = map_option fround (ir_laneP r), td_ruled = ir_ruled r,
     td_protocol = protocol_of r, td_facts = ir_facts r, td_sentence = ir_sentence r, td_model = model_of r\<rparr>"

definition new_rows :: "idb \<Rightarrow> insight_row list \<Rightarrow> insight_row list" where
  "new_rows s rows = filter (\<lambda>r. row_position r \<notin> set (map in_key (id_insights s))) rows"

lemma insert_insights_Inr:
  assumes "insert_insights xs s = (Inr lanes, s')" "distinct (map (row_position \<circ> fst) xs)"
  shows "s' = s\<lparr>id_insights := id_insights s @ map (\<lambda>(r, i). \<lparr>in_key = row_position r, in_lane = ir_lane r, in_label = i\<rparr>)
      (filter (\<lambda>(r, _). row_position r \<notin> set (map in_key (id_insights s))) xs)\<rparr> \<and>
    lanes = map (\<lambda>(r, _). ir_lane r) (filter (\<lambda>(r, _). row_position r \<notin> set (map in_key (id_insights s))) xs) \<and>
    (\<forall>(r, _) \<in> set xs. has_partition (id_db s) ''_insights'' (ir_blockNumber r))"
  using assms
proof (induction xs s arbitrary: lanes s' rule: insert_insights.induct)
  case (2 x xs s)
  obtain r i where x: "x = (r, i)" by (cases x)
  let ?s = "s\<lparr>id_insights := id_insights s @ [\<lparr>in_key = row_position r, in_lane = ir_lane r, in_label = i\<rparr>]\<rparr>"
  have part: "has_partition (id_db s) ''_insights'' (ir_blockNumber r)"
    using 2(2) unfolding x by (auto simp: insert_insight_def Let_def split: if_splits)
  show ?case
  proof (cases "row_position r \<in> set (map in_key (id_insights s))")
    case True
    then have "insert_insight x s = (Inr None, s)" using part by (simp add: x insert_insight_def row_position_def)
    moreover from this obtain l2 where "insert_insights xs s = (Inr l2, s')" "lanes = l2"
      using 2(2) by (auto split: prod.splits sum.splits)
    ultimately show ?thesis using 2 True part unfolding x by auto
  next
    case False
    then have one: "insert_insight x s = (Inr (Some (ir_lane r)), ?s)" using part by (simp add: x insert_insight_def row_position_def)
    then obtain l2 where l2: "insert_insights xs ?s = (Inr l2, s')" "lanes = ir_lane r # l2"
      using 2(2) by (auto split: prod.splits sum.splits)
    have "row_position q \<noteq> row_position r" if "(q, j) \<in> set xs" for q j
      using 2(3) that unfolding x by force
    then have same: "filter (\<lambda>(r, _). row_position r \<notin> set (map in_key (id_insights ?s))) xs =
        filter (\<lambda>(r, _). row_position r \<notin> set (map in_key (id_insights s))) xs"
      by (auto intro!: filter_cong)
    have "distinct (map (row_position \<circ> fst) xs)" using 2(3) by (simp add: comp_def)
    from "2.IH" [OF one [symmetric] refl l2(1) this] show ?thesis using l2(2) False part unfolding x same by (auto simp: split_def)
  qed
qed auto

lemma create_insights_partitions:
  assumes "mapT (create_insights_partition ps) planned flt c = (Inr us, c')"
  shows "\<exists>q. cn_db c' = (cn_db c)\<lparr>id_db := (id_db (cn_db c))\<lparr>db_parts := q\<rparr>\<rparr>"
proof (rule mapT_invariant [OF assms])
  show "\<exists>q. cn_db c = (cn_db c)\<lparr>id_db := (id_db (cn_db c))\<lparr>db_parts := q\<rparr>\<rparr>"
    by (rule exI [of _ "db_parts (id_db (cn_db c))"]) simp
next
  fix x :: planned_partition and c1 b c2
  assume "\<exists>q. cn_db c1 = (cn_db c)\<lparr>id_db := (id_db (cn_db c))\<lparr>db_parts := q\<rparr>\<rparr>"
    and "create_insights_partition ps x flt c1 = (Inr b, c2)"
  then show "\<exists>q. cn_db c2 = (cn_db c)\<lparr>id_db := (id_db (cn_db c))\<lparr>db_parts := q\<rparr>\<rparr>"
    by (auto simp: create_insights_partition_def query_Inr on_db_def create_partition_def split: if_splits)
qed

lemma position_key_inj:
  assumes "rows_ok rows"
  shows "inj_on position_key (set rows)"
proof (rule inj_onI)
  fix r q
  assume rq: "r \<in> set rows" "q \<in> set rows" "position_key r = position_key q"
  then have nn: "0 \<le> ir_blockNumber r" "0 \<le> ir_logIndex r" "0 \<le> ir_blockNumber q" "0 \<le> ir_logIndex q"
    using assms by (auto simp: rows_ok_def list_all_iff)
  have "partition_key (show_int (ir_blockNumber r)) (ir_logIndex r) = partition_key (show_int (ir_blockNumber q)) (ir_logIndex q)"
    using rq(3) by (simp add: partition_key_def position_key_def)
  from partition_key_inj [OF this nn(2,4)] have "row_position r = row_position q"
    using show_int_inj nn(1,3) by (simp add: row_position_def)
  with rq(1,2) assms show "r = q" by (auto simp: rows_ok_def distinct_map dest: inj_onD)
qed

text \<open>The rows of a round and the ids of their labels.\<close>

definition labelled :: "idb \<Rightarrow> insight_row \<times> int \<Rightarrow> bool" where
  "labelled s = (\<lambda>(r, i). \<exists>sid. map_of (id_labels s) i = Some (label_of_key (label_key_of r sid)) \<and>
     map_of (sentence_entries s) sid = Some (ir_sentence r, model_of r))"

lemma labelled_view:
  assumes "labelled s (r, i)" "facts_ok (ir_facts r)"
  shows "insight_view s \<lparr>in_key = row_position r, in_lane = ir_lane r, in_label = i\<rparr> = Some (told_of r)"
    and "\<exists>l. map_of (id_labels s) i = Some l \<and> lb_lane l = ir_lane r"
  using assms by (auto simp: labelled_def insight_view_def told_of_def label_of_key_def label_key_of_def)

definition keeps_entries :: "idb \<Rightarrow> idb \<Rightarrow> bool" where
  "keeps_entries s s' \<longleftrightarrow>
     (\<forall>i k. map_of (sentence_entries s) i = Some k \<longrightarrow> map_of (sentence_entries s') i = Some k) \<and>
     (\<forall>i l. map_of (id_labels s) i = Some l \<longrightarrow> map_of (id_labels s') i = Some l)"

lemma keeps_view: "keeps_entries s s' \<Longrightarrow> insight_view s x = Some t \<Longrightarrow> insight_view s' x = Some t"
  by (fastforce simp: keeps_entries_def insight_view_def split: bind_splits)

lemma idb_ok_view:
  assumes "idb_ok s" "x \<in> set (id_insights s)"
  shows "insight_view s x \<noteq> None"
proof -
  obtain l where l: "map_of (id_labels s) (in_label x) = Some l" using assms by (auto simp: idb_ok_def)
  then have "l \<in> snd ` set (id_labels s)" by (auto dest!: map_of_SomeD intro: rev_image_eqI)
  then have "map_of (sentence_entries s) (lb_sentence l) \<noteq> None" using assms(1) unfolding idb_ok_def by blast
  then obtain k where "map_of (sentence_entries s) (lb_sentence l) = Some k" by auto
  with l show ?thesis by (cases k) (simp add: insight_view_def)
qed

text \<open>The dictionary part of a round's transaction: every row gets a label that says what the row says.\<close>

lemma ids_of_round:
  assumes run: "bindT (sentenceIds rows) (\<lambda>sids. bindT (labelIds pg_real rows sids) (\<lambda>lbls.
      liftE (mapE (\<lambda>r. bindE (needId lbls (position_key r) ''label'') (\<lambda>i. Inr (r, i))) rows))) flt c = (Inr args, c')"
    and ok: "idb_ok (cn_db c)" and rows: "rows_ok rows" and pg: "real_roundtrip pg_real"
  shows "map fst args = rows" "list_all (labelled (cn_db c')) args" "keeps_entries (cn_db c) (cn_db c')" "idb_ok (cn_db c')"
    "\<exists>ss n ls m. cn_db c' = (cn_db c)\<lparr>id_sentences := ss, id_nextSentence := n, id_labels := ls, id_nextLabel := m\<rparr>"
proof -
  obtain sids c1 lbls where 1: "sentenceIds rows flt c = (Inr sids, c1)" and 2: "labelIds pg_real rows sids flt c1 = (Inr lbls, c')"
    and args: "mapE (\<lambda>r. bindE (needId lbls (position_key r) ''label'') (\<lambda>i. Inr (r, i))) rows = Inr args"
    using run by (auto simp: bindT_Inr liftE_Inr)
  have wf: "sentences.wf (cn_db c)" "labels.wf (cn_db c)" using ok by (simp_all add: idb_ok_def)
  note s = sentenceIds_Inr [OF 1 wf(1)]
  obtain ss n where c1: "cn_db c1 = (cn_db c)\<lparr>id_sentences := ss, id_nextSentence := n\<rparr>" using s(1) by blast
  have wf1: "labels.wf (cn_db c1)" using wf(2) unfolding c1 by (simp add: labels.wf_def)
  note l = labelIds_Inr [OF 2 wf1 pg position_key_inj [OF rows]]
  obtain ls m where c': "cn_db c' = (cn_db c1)\<lparr>id_labels := ls, id_nextLabel := m\<rparr>" using l(1) by blast
  have se: "sentence_entries (cn_db c') = sentence_entries (cn_db c1)" unfolding c' by (simp add: sentence_entries_def)
  have l2: "list_all2 (\<lambda>r a. \<exists>i. map_of lbls (position_key r) = Some i \<and> a = (r, i)) rows args"
    by (rule list_all2_mono [OF args [unfolded mapE_Inr]]) (auto simp: bindE_Inr needId_Inr)
  then show "map fst args = rows" by (rule list_all2_induct) auto
  have lab: "labelled (cn_db c') (r, i)" if "r \<in> set rows" "map_of lbls (position_key r) = Some i" for r i
    using l(4) [OF that] s(4) [of r] unfolding labelled_def se by auto
  show "list_all (labelled (cn_db c')) args"
    unfolding list_all_iff
  proof
    fix a
    assume "a \<in> set args"
    then obtain r where "r \<in> set rows" "\<exists>i. map_of lbls (position_key r) = Some i \<and> a = (r, i)" using list_all2_right [OF l2] by blast
    with lab show "labelled (cn_db c') a" by blast
  qed
  show keep: "keeps_entries (cn_db c) (cn_db c')"
    using s(3) l(3) unfolding keeps_entries_def se by (simp add: c1)
  show "\<exists>ss n ls m. cn_db c' = (cn_db c)\<lparr>id_sentences := ss, id_nextSentence := n, id_labels := ls, id_nextLabel := m\<rparr>"
    unfolding c' c1 by (intro exI) (rule refl)
  have "map_of (sentence_entries (cn_db c')) (lb_sentence l) \<noteq> None" if q: "q \<in> snd ` set (id_labels (cn_db c'))" "q = l" for q l
  proof (cases "lb_sentence l \<in> snd ` set sids")
    case True
    then show ?thesis unfolding se by (rule s(5))
  next
    case False
    then have "l \<in> snd ` set (id_labels (cn_db c1))" using l(5) [of l] q by blast
    moreover have "id_labels (cn_db c1) = id_labels (cn_db c)" unfolding c1 by simp
    ultimately have "map_of (sentence_entries (cn_db c)) (lb_sentence l) \<noteq> None" using ok unfolding idb_ok_def by metis
    then show ?thesis using s(3) unfolding se by (metis not_None_eq)
  qed
  moreover have "id_insights (cn_db c') = id_insights (cn_db c)" unfolding c' c1 by simp
  moreover have "\<exists>l. map_of (id_labels (cn_db c')) (in_label x) = Some l \<and> lb_lane l = in_lane x" if "x \<in> set (id_insights (cn_db c))" for x
    using ok that keep unfolding idb_ok_def keeps_entries_def by metis
  moreover have "sentences.wf (cn_db c')" using s(2) unfolding sentences.wf_def se by (simp add: c')
  moreover have "distinct (map in_key (id_insights (cn_db c)))" using ok by (simp add: idb_ok_def)
  ultimately show "idb_ok (cn_db c')" using l(2) unfolding idb_ok_def by simp
qed

subsection \<open>A round is written whole or not at all\<close>

lemma fault_free_liftE [intro, simp]: "fault_free (liftE x)"
  by (cases x) (simp_all add: liftE_def)

lemma insights_body_fault_free: "fault_free (insights_body pg_real ps planned rows newCursor)"
  unfolding insights_body_def sentenceIds_def labelIds_def create_insights_partition_def Let_def
  by (auto intro!: fault_free_bind fault_free_mapT)

definition same_events :: "db \<Rightarrow> db \<Rightarrow> bool" where
  "same_events d d' \<longleftrightarrow> (\<exists>q. d' = d\<lparr>db_parts := q\<rparr>)"

lemma insights_body_Inr:
  assumes run: "insights_body pg_real ps planned rows newCursor flt c = (Inr inserted, c')"
    and ok: "idb_ok (cn_db c)" and rows: "rows_ok rows" and pg: "real_roundtrip pg_real"
  shows "full_view (cn_db c') = full_view (cn_db c) @ map (Some \<circ> told_of) (new_rows (cn_db c) rows)"
    and "inserted = map ir_lane (new_rows (cn_db c) rows)"
    and "map in_key (id_insights (cn_db c')) = map in_key (id_insights (cn_db c)) @ map row_position (new_rows (cn_db c) rows)"
    and "id_cursor (cn_db c') = map_option (\<lambda>_. newCursor) (id_cursor (cn_db c))"
    and "same_events (id_db (cn_db c)) (id_db (cn_db c'))"
    and "idb_ok (cn_db c')"
proof -
  obtain us c1 c2 where 1: "mapT (create_insights_partition ps) planned flt c = (Inr us, c1)"
    and 2: "(if rows = [] then returnT [] else bindT (sentenceIds rows) (\<lambda>sids. bindT (labelIds pg_real rows sids) (\<lambda>lbls.
        bindT (liftE (mapE (\<lambda>r. bindE (needId lbls (position_key r) ''label'') (\<lambda>i. Inr (r, i))) rows)) (\<lambda>args.
          query (insert_insights args))))) flt c1 = (Inr inserted, c2)"
    and c': "cn_db c' = (cn_db c2)\<lparr>id_cursor := map_option (\<lambda>_. newCursor) (id_cursor (cn_db c2))\<rparr>"
    using run by (auto simp: insights_body_def bindT_Inr query_Inr returnT_eq update_cursor_def)
  obtain q where c1: "cn_db c1 = (cn_db c)\<lparr>id_db := (id_db (cn_db c))\<lparr>db_parts := q\<rparr>\<rparr>"
    using create_insights_partitions [OF 1] by blast
  have ok1: "idb_ok (cn_db c1)" and fv1: "full_view (cn_db c1) = full_view (cn_db c)" and nr1: "new_rows (cn_db c1) rows = new_rows (cn_db c) rows"
    using ok unfolding c1 by (simp_all add: idb_ok_def sentences.wf_def labels.wf_def sentence_entries_def full_view_def insight_view_def new_rows_def)
  have eff: "full_view (cn_db c2) = full_view (cn_db c1) @ map (Some \<circ> told_of) (new_rows (cn_db c1) rows) \<and>
      inserted = map ir_lane (new_rows (cn_db c1) rows) \<and>
      map in_key (id_insights (cn_db c2)) = map in_key (id_insights (cn_db c1)) @ map row_position (new_rows (cn_db c1) rows) \<and>
      id_cursor (cn_db c2) = id_cursor (cn_db c1) \<and> id_db (cn_db c2) = id_db (cn_db c1) \<and> idb_ok (cn_db c2)"
  proof (cases "rows = []")
    case True
    with 2 ok1 show ?thesis by (simp add: returnT_eq new_rows_def)
  next
    case False
    obtain args c3 where 3: "bindT (sentenceIds rows) (\<lambda>sids. bindT (labelIds pg_real rows sids) (\<lambda>lbls.
        liftE (mapE (\<lambda>r. bindE (needId lbls (position_key r) ''label'') (\<lambda>i. Inr (r, i))) rows))) flt c1 = (Inr args, c3)"
      and ins: "insert_insights args (cn_db c3) = (Inr inserted, cn_db c2)"
      using 2 False by (auto simp: bindT_Inr query_Inr)
    note r = ids_of_round [OF 3 ok1 rows pg]
    obtain ss n ls m where c3: "cn_db c3 = (cn_db c1)\<lparr>id_sentences := ss, id_nextSentence := n, id_labels := ls, id_nextLabel := m\<rparr>"
      using r(5) by blast
    let ?fresh = "filter (\<lambda>(r, _). row_position r \<notin> set (map in_key (id_insights (cn_db c3)))) args"
    let ?stored = "map (\<lambda>(r, i). \<lparr>in_key = row_position r, in_lane = ir_lane r, in_label = i\<rparr>) ?fresh"
    have keys3: "id_insights (cn_db c3) = id_insights (cn_db c1)" unfolding c3 by simp
    have "distinct (map (row_position \<circ> fst) args)" using rows r(1) by (auto simp: rows_ok_def map_map [symmetric] simp del: map_map)
    note i = insert_insights_Inr [OF ins this]
    have s2: "cn_db c2 = (cn_db c3)\<lparr>id_insights := id_insights (cn_db c3) @ ?stored\<rparr>" using i by blast
    have fresh: "map fst ?fresh = new_rows (cn_db c1) rows"
      unfolding new_rows_def keys3 [symmetric] r(1) [symmetric] by (simp add: filter_map comp_def split_def)
    have facts: "facts_ok (ir_facts q)" if "(q, j) \<in> set args" for q j
    proof -
      have "q \<in> set rows" using that r(1) by (metis fst_conv image_eqI set_map)
      with rows show ?thesis by (simp add: rows_ok_def list_all_iff)
    qed
    have view3: "insight_view (cn_db c2) = insight_view (cn_db c3)"
      unfolding s2 by (rule ext) (simp add: insight_view_def sentence_entries_def)
    have old: "insight_view (cn_db c3) x = insight_view (cn_db c1) x" if "x \<in> set (id_insights (cn_db c1))" for x
      using idb_ok_view [OF ok1 that] keeps_view [OF r(3), of x] by auto
    have new: "insight_view (cn_db c3) \<lparr>in_key = row_position q, in_lane = ir_lane q, in_label = j\<rparr> = Some (told_of q)"
      if "(q, j) \<in> set args" for q j
      using labelled_view(1) [of "cn_db c3" q j] r(2) that facts [OF that] by (auto simp: list_all_iff)
    have "full_view (cn_db c2) = map (insight_view (cn_db c3)) (id_insights (cn_db c1)) @ map (insight_view (cn_db c3)) ?stored"
      unfolding full_view_def view3 by (simp add: s2 keys3)
    also have "map (insight_view (cn_db c3)) (id_insights (cn_db c1)) = full_view (cn_db c1)"
      unfolding full_view_def using old by simp
    also have "map (insight_view (cn_db c3)) ?stored = map (Some \<circ> told_of) (map fst ?fresh)"
      using new by (auto simp: split_def)
    finally have "full_view (cn_db c2) = full_view (cn_db c1) @ map (Some \<circ> told_of) (new_rows (cn_db c1) rows)" unfolding fresh .
    moreover have "inserted = map ir_lane (new_rows (cn_db c1) rows)"
      using i unfolding fresh [symmetric] by (simp add: split_def comp_def)
    moreover have keys2: "map in_key (id_insights (cn_db c2)) = map in_key (id_insights (cn_db c1)) @ map row_position (new_rows (cn_db c1) rows)"
      unfolding fresh [symmetric] s2 by (simp add: keys3 split_def comp_def)
    moreover have "id_cursor (cn_db c2) = id_cursor (cn_db c1) \<and> id_db (cn_db c2) = id_db (cn_db c1)" unfolding s2 by (simp add: c3)
    moreover have "idb_ok (cn_db c2)"
    proof -
      have d: "distinct (map in_key (id_insights (cn_db c2)))"
      proof -
        have "distinct (map row_position (new_rows (cn_db c1) rows))"
          using rows by (simp add: rows_ok_def new_rows_def distinct_map_filter)
        moreover have "set (map in_key (id_insights (cn_db c1))) \<inter> set (map row_position (new_rows (cn_db c1) rows)) = {}"
          by (auto simp: new_rows_def)
        moreover have "distinct (map in_key (id_insights (cn_db c1)))" using ok1 by (simp add: idb_ok_def)
        ultimately show ?thesis unfolding keys2 by simp
      qed
      have st: "\<exists>l. map_of (id_labels (cn_db c3)) (in_label x) = Some l \<and> lb_lane l = in_lane x" if mem: "x \<in> set ?stored" for x
      proof -
        obtain q j where x: "x = \<lparr>in_key = row_position q, in_lane = ir_lane q, in_label = j\<rparr>" "(q, j) \<in> set args" using mem by auto
        with labelled_view(2) [of "cn_db c3" q j] r(2) facts [OF x(2)] show ?thesis by (auto simp: list_all_iff)
      qed
      have same: "sentence_entries (cn_db c2) = sentence_entries (cn_db c3)" "id_labels (cn_db c2) = id_labels (cn_db c3)"
        "id_nextSentence (cn_db c2) = id_nextSentence (cn_db c3)" "id_nextLabel (cn_db c2) = id_nextLabel (cn_db c3)"
        unfolding s2 by (simp_all add: sentence_entries_def)
      have all: "id_insights (cn_db c2) = id_insights (cn_db c3) @ ?stored" unfolding s2 by simp
      show ?thesis unfolding idb_ok_def sentences.wf_def labels.wf_def same
        using r(4) d st unfolding idb_ok_def sentences.wf_def labels.wf_def all set_append by blast
    qed
    ultimately show ?thesis by blast
  qed
  have c: "full_view (cn_db c') = full_view (cn_db c2)" "id_insights (cn_db c') = id_insights (cn_db c2)" "idb_ok (cn_db c') = idb_ok (cn_db c2)"
    unfolding c' by (simp_all add: full_view_def insight_view_def sentence_entries_def idb_ok_def sentences.wf_def labels.wf_def)
  have c1f: "id_cursor (cn_db c1) = id_cursor (cn_db c)" "id_insights (cn_db c1) = id_insights (cn_db c)" unfolding c1 by simp_all
  show "full_view (cn_db c') = full_view (cn_db c) @ map (Some \<circ> told_of) (new_rows (cn_db c) rows)"
    "inserted = map ir_lane (new_rows (cn_db c) rows)"
    "map in_key (id_insights (cn_db c')) = map in_key (id_insights (cn_db c)) @ map row_position (new_rows (cn_db c) rows)"
    "idb_ok (cn_db c')"
    using eff unfolding c fv1 nr1 c1f by simp_all
  show "id_cursor (cn_db c') = map_option (\<lambda>_. newCursor) (id_cursor (cn_db c))" using eff c1f unfolding c' by simp
  show "same_events (id_db (cn_db c)) (id_db (cn_db c'))" unfolding same_events_def c' using eff by (auto simp: c1)
qed

text \<open>What a failed round may leave behind: consumed identity values.\<close>

definition ids_consumed :: "idb \<Rightarrow> idb \<Rightarrow> bool" where
  "ids_consumed s s' \<longleftrightarrow> (\<exists>n m. s' = s\<lparr>id_nextSentence := n, id_nextLabel := m\<rparr> \<and> id_nextSentence s \<le> n \<and> id_nextLabel s \<le> m)"

definition round_written :: "insight_row list \<Rightarrow> int \<Rightarrow> idb \<Rightarrow> idb \<Rightarrow> bool" where
  "round_written rows newCursor s s' \<longleftrightarrow>
     full_view s' = full_view s @ map (Some \<circ> told_of) (new_rows s rows) \<and>
     map in_key (id_insights s') = map in_key (id_insights s) @ map row_position (new_rows s rows) \<and>
     id_cursor s' = map_option (\<lambda>_. newCursor) (id_cursor s) \<and>
     same_events (id_db s) (id_db s') \<and> idb_ok s'"

definition seq_le :: "idb \<Rightarrow> idb \<Rightarrow> bool" where
  "seq_le s s' \<longleftrightarrow> id_nextSentence s \<le> id_nextSentence s' \<and> id_nextLabel s \<le> id_nextLabel s'"

lemma seq_le_laws: "reflp seq_le" "transp seq_le"
  by (auto simp: seq_le_def intro!: reflpI transpI)

lemma insert_sentences_seq: "insert_sentences us s = (r, s') \<Longrightarrow> seq_le s s'"
  by (induction us s rule: insert_sentences.induct) (force simp: seq_le_def split: if_splits)+

lemma insert_labels_seq: "insert_labels ls s = (r, s') \<Longrightarrow> seq_le s s'"
  by (induction ls s rule: insert_labels.induct) (force simp: seq_le_def split: if_splits)+

lemma insert_insights_seq: "insert_insights xs s = (r, s') \<Longrightarrow> seq_le s s'"
proof (induction xs s arbitrary: r s' rule: insert_insights.induct)
  case (2 x xs s)
  obtain a s1 where one: "insert_insight x s = (a, s1)" by fastforce
  have step: "seq_le s s1" using one by (auto simp: insert_insight_def seq_le_def Let_def split: prod.splits if_splits)
  show ?case
  proof (cases a)
    case (Inl e)
    with 2(2) one step show ?thesis by simp
  next
    case (Inr l)
    obtain b s2 where rest: "insert_insights xs s1 = (b, s2)" by fastforce
    have "seq_le s1 s2" using "2.IH" [OF one [symmetric] Inr rest] .
    moreover have "s' = s2" using 2(2) one Inr rest by (auto split: sum.splits)
    ultimately show ?thesis using step seq_le_laws(2) by (meson transpD)
  qed
qed (simp add: seq_le_def)

lemma insights_body_seq: "tx_rel seq_le (insights_body pg_real ps planned rows newCursor)"
proof -
  have lift: "tx_rel seq_le (liftE x :: 'a itx)" for x :: "failure + 'a"
    by (cases x) (simp_all add: liftE_def seq_le_laws)
  have same: "tx_rel seq_le (query op)" if "\<And>s r s'. op s = (r, s') \<Longrightarrow> seq_le s s'" for op :: "idb \<Rightarrow> (failure + 'a) \<times> idb"
    by (rule tx_rel_query [OF seq_le_laws(1)]) (rule that)
  show ?thesis
    unfolding insights_body_def sentenceIds_def labelIds_def create_insights_partition_def Let_def
    by (intro tx_rel_bind [OF seq_le_laws(2)] tx_rel_mapT [OF seq_le_laws] lift same)
       (auto intro!: tx_rel_bind [OF seq_le_laws(2)] lift same simp: seq_le_laws
         elim: insert_sentences_seq insert_labels_seq insert_insights_seq
         simp: on_db_def update_cursor_def update_probabilities_def select_sentences_def select_labels_def seq_le_def split: prod.splits)
qed

lemma commitInsights_outcome:
  assumes "idb_ok s" "rows_ok rows" "real_roundtrip pg_real"
    "commitInsights pg_real flt ps rows newCursor s = (r, s', ps')"
  shows "case r of
      Inr inserted \<Rightarrow> round_written rows newCursor s s' \<and> inserted = map ir_lane (new_rows s rows)
    | Inl e \<Rightarrow> ps' = ps \<and> (ids_consumed s s' \<or> flt = AckLost \<and> round_written rows newCursor s s')"
proof (cases "partitions_plan ps (if rows \<noteq> [] then [''_insights''] else []) (map ir_blockNumber rows)")
  case (Inl e)
  then have "r = Inl e" "s' = s" "ps' = ps" using assms(4) by (simp_all add: commitInsights_def Let_def)
  moreover have "ids_consumed s s" unfolding ids_consumed_def by (intro exI [of _ "id_nextSentence s"] exI [of _ "id_nextLabel s"]) simp
  ultimately show ?thesis by simp
next
  case (Inr planned)
  let ?body = "insights_body pg_real ps planned rows newCursor"
  obtain r1 s1 where tr: "transaction_with insights_undo flt ?body s = (r1, s1)" by fastforce
  have res: "r = r1" "s' = s1" "isl r1 \<Longrightarrow> ps' = ps"
    using assms(4) Inr tr by (auto simp: commitInsights_def Let_def insights_transaction_def split: sum.splits)
  have undo: "insights_undo s s = s" by (simp add: insights_undo_def)
  have done_ok: "round_written rows newCursor s (cn_db c) \<and> a = map ir_lane (new_rows s rows)"
    if "?body NoFault \<lparr>cn_db = s, cn_sent = 1\<rparr> = (Inr a, c)" for a c
    using insights_body_Inr [OF that _ assms(2,3), unfolded conn.simps(1)] assms(1) unfolding round_written_def by blast
  show ?thesis
  proof (cases rule: transaction_with_outcome [OF insights_body_fault_free tr undo])
    case (1 a c)
    with done_ok [OF 1(1)] res show ?thesis by simp
  next
    case (2 a c e)
    with done_ok [OF 2(1)] res show ?thesis by simp
  next
    case (3 e work)
    have "seq_le s work" by (rule 3(3) [OF insights_body_seq seq_le_laws(1)])
    then have "ids_consumed s s1" unfolding 3(2) ids_consumed_def seq_le_def insights_undo_def by blast
    with 3 res show ?thesis by simp
  qed
qed


definition sample_idb :: idb where
  "sample_idb = \<lparr>id_db = empty_db\<lparr>db_parts := [(''_insights_p0'', ''_insights'', 0, 100)]\<rparr>, id_sentences = [], id_nextSentence = 1,
     id_labels = [], id_nextLabel = 1, id_insights = [], id_cursor = Some 0\<rparr>"

definition sample_insight :: insight_row where
  "sample_insight = \<lparr>ir_blockNumber = 7, ir_logIndex = 1, ir_lane = ''swap'', ir_laneP = None, ir_ruled = True, ir_protocol = [],
     ir_facts = [''swap'', ''fee''], ir_probabilities = None, ir_sentence = ''USDC moved.'', ir_model = None\<rparr>"


subsection \<open>The rows of a round\<close>

definition event_count :: "event_source list \<Rightarrow> int \<Rightarrow> int \<Rightarrow> db \<Rightarrow> nat" where
  "event_count tables lo hi d = length (concat (map (\<lambda>t. rows_between d (es_tableName t) lo hi) tables))"

lemma capRange_range:
  assumes "capRange schema tables lo hi maxRows d = Inr c" "lo \<le> hi"
  shows "lo \<le> c" "c \<le> hi"
proof -
  let ?bs = "sort (concat (map (\<lambda>t. map (\<lambda>r. fst (sr_key r)) (rows_between d (es_tableName t) lo hi)) tables))"
  have "lo \<le> c \<and> c \<le> hi"
  proof (cases "drop maxRows ?bs")
    case Nil
    with assms show ?thesis by (simp add: capRange_def split: if_splits option.splits)
  next
    case (Cons b ys)
    then have "b \<in> set ?bs" by (metis in_set_dropD list.set_intros(1))
    then have "b \<le> hi" by (auto simp: rows_between_def)
    with Cons assms show ?thesis by (simp add: capRange_def split: if_splits option.splits)
  qed
  then show "lo \<le> c" "c \<le> hi" by simp_all
qed

lemma filter_length_mono: "(\<And>x. P x \<Longrightarrow> Q x) \<Longrightarrow> length (filter P xs) \<le> length (filter Q xs)"
  by (induction xs) (auto simp: le_SucI)

lemma event_count_mono: "c \<le> c' \<Longrightarrow> event_count tables lo c d \<le> event_count tables lo c' d"
  unfolding event_count_def rows_between_def
  by (induction tables) (auto intro!: add_mono filter_length_mono)

lemma length_filter_sorted_drop:
  assumes "sorted xs" "drop m xs = b # ys"
  shows "length (filter (\<lambda>x. x < b) xs) \<le> m" "m < length (filter (\<lambda>x. x \<le> b) xs)"
proof -
  have xs: "xs = take m xs @ b # ys" by (metis append_take_drop_id assms(2))
  then have s: "sorted (take m xs @ b # ys)" using assms(1) by simp
  then have "\<forall>y \<in> set ys. b \<le> y" "\<forall>x \<in> set (take m xs). x \<le> b" by (auto simp: sorted_append)
  then have none: "filter (\<lambda>x. x < b) (b # ys) = []" and all: "filter (\<lambda>x. x \<le> b) (take m xs) = take m xs"
    by (auto simp: filter_empty_conv)
  have m: "length (take m xs) = m" using assms(2) by (metis drop_all length_take list.distinct(1) min.absorb2 nat_le_linear)
  have "length (filter (\<lambda>x. x < b) xs) = length (filter (\<lambda>x. x < b) (take m xs))"
    by (subst xs) (simp only: filter_append none append_Nil2)
  also have "\<dots> \<le> m" using length_filter_le [of _ "take m xs"] m by (metis (no_types, lifting))
  finally show "length (filter (\<lambda>x. x < b) xs) \<le> m" .
  have "length (filter (\<lambda>x. x \<le> b) xs) = m + length (filter (\<lambda>x. x \<le> b) (b # ys))"
    by (subst xs) (simp only: filter_append all length_append m)
  then show "m < length (filter (\<lambda>x. x \<le> b) xs)" by simp
qed

lemma event_count_blocks:
  assumes "c \<le> hi"
  shows "event_count tables lo c d =
    length (filter (\<lambda>b. b \<le> c) (concat (map (\<lambda>t. map (\<lambda>r. fst (sr_key r)) (rows_between d (es_tableName t) lo hi)) tables)))"
proof (induction tables)
  case (Cons t tables)
  have "length (rows_between d (es_tableName t) lo c) =
      length (filter (\<lambda>b. b \<le> c) (map (\<lambda>r. fst (sr_key r)) (rows_between d (es_tableName t) lo hi)))"
    using assms by (auto simp: rows_between_def filter_map comp_def intro!: arg_cong [of _ _ length] filter_cong)
  with Cons show ?case by (simp add: event_count_def)
qed (simp add: event_count_def)

text \<open>
  C34: A round ends inside its range, after at most the rows allowed unless its first block alone
  holds more, and no earlier than it must: one more block would be too much.
\<close>

theorem capRange_bounds:
  assumes "capRange schema tables lo hi maxRows d = Inr c" "lo \<le> hi"
  shows "lo \<le> c \<and> c \<le> hi \<and> (c = lo \<or> event_count tables lo c d \<le> maxRows) \<and>
    (c = hi \<or> maxRows < event_count tables lo (c + 1) d)"
proof -
  let ?bs = "concat (map (\<lambda>t. map (\<lambda>r. fst (sr_key r)) (rows_between d (es_tableName t) lo hi)) tables)"
  have len: "length (filter P (sort ?bs)) = length (filter P ?bs)" for P
    by (simp only: filter_sort length_sort)
  have range: "lo \<le> b \<and> b \<le> hi" if "b \<in> set (sort ?bs)" for b using that by (auto simp: rows_between_def)
  consider (short) "drop maxRows (sort ?bs) = []" "c = hi"
    | (cut) b ys where "drop maxRows (sort ?bs) = b # ys" "c = (if b > lo then b - 1 else lo)"
  proof (cases "drop maxRows (sort ?bs)")
    case Nil
    then show thesis using assms(1) by (intro short) (simp_all add: capRange_def split: if_splits option.splits)
  next
    case (Cons b ys)
    then show thesis using assms(1) by (intro cut [OF Cons]) (simp add: capRange_def split: if_splits option.splits)
  qed
  then show ?thesis
  proof cases
    case short
    then have "length ?bs \<le> maxRows" by simp
    then have "event_count tables lo hi d \<le> maxRows"
      unfolding event_count_blocks [OF order_refl] using length_filter_le [of "\<lambda>b. b \<le> hi" ?bs] by (rule le_trans [rotated])
    with short assms(2) show ?thesis by simp
  next
    case cut
    have b: "lo \<le> b" "b \<le> hi" using range [of b] cut(1) by (metis in_set_dropD list.set_intros(1))+
    note f = length_filter_sorted_drop [OF sorted_sort cut(1), unfolded len]
    show ?thesis
    proof (cases "b > lo")
      case True
      then have c: "c = b - 1" using cut(2) by simp
      have "(\<lambda>x. x \<le> c) = (\<lambda>x. x < b)" unfolding c by auto
      then have "event_count tables lo c d \<le> maxRows" using event_count_blocks [of c hi tables lo d] f(1) b c by simp
      moreover have "maxRows < event_count tables lo (c + 1) d" using event_count_blocks [of b hi tables lo d] f(2) b c by simp
      ultimately show ?thesis using True b c by simp
    next
      case False
      then have c: "c = lo" "b = lo" using cut(2) b by simp_all
      have "maxRows < event_count tables lo (c + 1) d" if "c \<noteq> hi"
      proof -
        have "maxRows < event_count tables lo c d" using event_count_blocks [of c hi tables lo d] f(2) b c by simp
        also have "\<dots> \<le> event_count tables lo (c + 1) d"
          by (rule event_count_mono) simp
        finally show ?thesis .
      qed
      with c assms(2) show ?thesis by auto
    qed
  qed
qed

definition sample_events :: db where
  "sample_events = empty_db\<lparr>db_ddl := [''CREATE TABLE IF NOT EXISTS \"s\".\"t\" ('' ],
     db_rows := (\<lambda>_. [\<lparr>sr_key = (5, 0), sr_values = []\<rparr>, \<lparr>sr_key = (5, 1), sr_values = []\<rparr>, \<lparr>sr_key = (8, 0), sr_values = []\<rparr>])\<rparr>"

theorem capRange_bounds_witness:
  "\<exists>c. capRange ''s'' [\<lparr>es_tableName = ''t'', es_transferColumns = None\<rparr>] 5 9 2 sample_events = Inr c \<and>
     event_count [\<lparr>es_tableName = ''t'', es_transferColumns = None\<rparr>] 5 c sample_events \<le> 2 \<and> c = 7"
proof -
  let ?ts = "[\<lparr>es_tableName = ''t'', es_transferColumns = None\<rparr>]"
  have c: "capRange ''s'' ?ts 5 9 2 sample_events = Inr 7" by code_simp
  have "(5 :: int) \<le> 9" by simp
  from capRange_bounds [OF c this] have "event_count ?ts 5 7 sample_events \<le> 2" by simp
  with c show ?thesis by blast
qed

end
