(* ===== verification/Signal.thy ===== *)
theory Signal
  imports Prelude
begin

text \<open>
  The worker's small state machines: \<open>worker/src/signal.ts\<close> (the latch between newHeads and the
  pipeline), \<open>worker/src/status.ts\<close> (the phase that health checks and the CR report) and
  \<open>worker/src/ws.ts\<close> (the parallel newHeads subscriptions). A promise that waits is a flag in the
  state, a callback is an entry of a log.
\<close>

subsection \<open>HeadSignal\<close>

record head_info =
  hi_number :: int
  hi_timestamp :: int

record head_signal =
  hs_flagged :: bool
  hs_waiting :: bool
  hs_primaryHead :: "head_info option"
  hs_times :: "(int \<times> int) list"

definition new_head_signal :: head_signal where
  "new_head_signal = \<lparr>hs_flagged = False, hs_waiting = False, hs_primaryHead = None, hs_times = []\<rparr>"

definition times_put :: "int \<Rightarrow> int \<Rightarrow> (int \<times> int) list \<Rightarrow> (int \<times> int) list" where
  "times_put n t m = (let m' = map_set n t m in if length m' > 4096 then drop_oldest m' else m')"

definition record_head :: "head_info \<Rightarrow> bool \<Rightarrow> head_signal \<Rightarrow> head_signal" where
  "record_head head primary s =
     (let newer = (case hs_primaryHead s of None \<Rightarrow> True | Some p \<Rightarrow> hi_number head > hi_number p)
      in s\<lparr>hs_primaryHead := (if primary \<and> newer then Some head else hs_primaryHead s),
           hs_times := times_put (hi_number head) (hi_timestamp head) (hs_times s)\<rparr>)"

text \<open>The answer says whether a waiter was woken.\<close>

definition notify :: "head_info option \<Rightarrow> bool \<Rightarrow> head_signal \<Rightarrow> bool \<times> head_signal" where
  "notify head primary s =
     (let s = (case head of Some h \<Rightarrow> record_head h primary s | None \<Rightarrow> s)
      in if hs_waiting s then (True, s\<lparr>hs_waiting := False\<rparr>) else (False, s\<lparr>hs_flagged := True\<rparr>))"

definition latestPrimaryHead :: "head_signal \<Rightarrow> head_info option" where
  "latestPrimaryHead s = hs_primaryHead s"

definition blockTimes :: "head_signal \<Rightarrow> (int \<times> int) list" where
  "blockTimes s = hs_times s"

text \<open>The answer says whether the promise is resolved at once.\<close>

definition wait :: "bool \<Rightarrow> head_signal \<Rightarrow> bool \<times> head_signal" where
  "wait aborted s =
     (if hs_flagged s \<or> aborted then (True, s\<lparr>hs_flagged := False\<rparr>) else (False, s\<lparr>hs_waiting := True\<rparr>))"

text \<open>The waiter's timer or its abort listener.\<close>

definition wait_done :: "head_signal \<Rightarrow> head_signal" where
  "wait_done s = s\<lparr>hs_waiting := False\<rparr>"

datatype signal_event = Notified "head_info option" bool | Waits bool | TimedOut

definition signal_event :: "signal_event \<Rightarrow> head_signal \<Rightarrow> bool \<times> head_signal" where
  "signal_event e s =
     (case e of Notified h p \<Rightarrow> notify h p s | Waits ab \<Rightarrow> wait ab s | TimedOut \<Rightarrow> (hs_waiting s, wait_done s))"

fun signal_run :: "signal_event list \<Rightarrow> head_signal \<Rightarrow> bool list \<times> head_signal" where
  "signal_run [] s = ([], s)"
| "signal_run (e # es) s = (case signal_event e s of (b, s') \<Rightarrow> (case signal_run es s' of (bs, s'') \<Rightarrow> (b # bs, s'')))"

lemma signal_run_append:
  "signal_run (es @ es') s = (case signal_run es s of (bs, s') \<Rightarrow> (case signal_run es' s' of (bs', s'') \<Rightarrow> (bs @ bs', s'')))"
  by (induction es arbitrary: s) (auto split: prod.splits)

interpretation head_times: bounded_map times_put 4096
proof unfold_locales
  fix m :: "(int \<times> int) list" and k k' v :: int
  { assume d: "distinct (map_keys m)"
    then have d': "distinct (map_keys (map_set k v m))" by (rule distinct_update)
    then show "distinct (map_keys (times_put k v m))"
      by (simp add: times_put_def Let_def distinct_drop_oldest)
    show "k' \<noteq> k \<Longrightarrow> map_of (times_put k v m) k' \<in> {None, map_of m k'}"
      using map_of_drop_oldest [OF d', of k'] by (auto simp: times_put_def Let_def) }
  { assume "distinct (map_keys m)"
    then have d': "distinct (map_keys (map_set k v m))" by (rule distinct_update)
    then show "map_of (times_put k v m) k \<in> {None, Some v}"
      using map_of_drop_oldest [OF d', of k] by (auto simp: times_put_def Let_def) }
  { assume "length m \<le> 4096"
    then show "length (times_put k v m) \<le> 4096"
      by (auto simp: times_put_def Let_def length_map_set drop_oldest_def) }
qed

text \<open>The heads announced by the primary connection.\<close>

fun announced :: "signal_event list \<Rightarrow> (head_info \<times> bool) list" where
  "announced [] = []"
| "announced (Notified (Some h) p # es) = (h, p) # announced es"
| "announced (_ # es) = announced es"

definition best_primary :: "head_info option \<Rightarrow> (head_info \<times> bool) list \<Rightarrow> int option" where
  "best_primary p0 hs = foldl (\<lambda>m (h, p). if p then Some (case m of None \<Rightarrow> hi_number h | Some n \<Rightarrow> max n (hi_number h)) else m)
     (map_option hi_number p0) hs"

lemma announced_other: "\<nexists>h p. e = Notified (Some h) p \<Longrightarrow> announced (e # es) = announced es"
proof (cases e)
  case (Notified h p)
  moreover assume "\<nexists>h p. e = Notified (Some h) p"
  ultimately have "h = None" by (cases h) auto
  with Notified show ?thesis by simp
qed simp_all

lemma notified:
  "\<exists>s1. signal_event (Notified h p) s = (hs_waiting s, s1) \<and> \<not> hs_waiting s1 \<and> hs_flagged s1 = (\<not> hs_waiting s \<or> hs_flagged s)"
  by (cases h) (simp_all add: signal_event_def notify_def record_head_def Let_def)

lemma signal_event_heads:
  "signal_event (Notified (Some h) p) s = (b, s') \<Longrightarrow>
     hs_times s' = times_put (hi_number h) (hi_timestamp h) (hs_times s) \<and>
     map_option hi_number (hs_primaryHead s') =
       (if p then Some (case hs_primaryHead s of None \<Rightarrow> hi_number h | Some q \<Rightarrow> max (hi_number q) (hi_number h))
        else map_option hi_number (hs_primaryHead s))"
  by (auto simp: signal_event_def notify_def record_head_def Let_def split: if_splits option.splits)

lemma signal_event_other:
  "(\<And>h p. e \<noteq> Notified (Some h) p) \<Longrightarrow> signal_event e s = (b, s') \<Longrightarrow>
     hs_times s' = hs_times s \<and> hs_primaryHead s' = hs_primaryHead s"
  by (cases e) (auto simp: signal_event_def notify_def wait_def wait_done_def Let_def split: if_splits option.splits)

lemma signal_run_heads:
  "map_option hi_number (hs_primaryHead (snd (signal_run es s))) = best_primary (hs_primaryHead s) (announced es) \<and>
   hs_times (snd (signal_run es s)) = head_times.puts (map (\<lambda>(h, _). (hi_number h, hi_timestamp h)) (announced es)) (hs_times s)"
proof (induction es arbitrary: s)
  case Nil
  then show ?case by (simp add: best_primary_def head_times.puts_def)
next
  case (Cons e es)
  obtain b s' where s': "signal_event e s = (b, s')" by (meson prod.exhaust_sel)
  show ?case
  proof (cases "\<exists>h p. e = Notified (Some h) p")
    case True
    then obtain h p where e: "e = Notified (Some h) p" by blast
    show ?thesis
      using Cons.IH [of s'] signal_event_heads [OF s' [unfolded e]] s'
      by (auto simp: e best_primary_def head_times.puts_def split: prod.split option.split)
  next
    case False
    then have "announced (e # es) = announced es" by (rule announced_other)
    with False signal_event_other [OF _ s'] s' Cons.IH [of s'] show ?thesis by (auto split: prod.split)
  qed
qed

text \<open>
  C27: Whatever is announced in whatever order, the pipeline's target is the highest block the
  primary connection announced (no other connection moves it), at most 4096 block times are
  kept, and a time found in the cache is the last one announced for that very block.
\<close>

theorem head_signal_correct:
  "map_option hi_number (latestPrimaryHead (snd (signal_run es new_head_signal))) = best_primary None (announced es) \<and>
   length (blockTimes (snd (signal_run es new_head_signal))) \<le> 4096 \<and>
   map_of (blockTimes (snd (signal_run es new_head_signal))) b \<in>
     {None, map_of (rev (map (\<lambda>(h, _). (hi_number h, hi_timestamp h)) (announced es))) b}"
proof -
  let ?kvs = "map (\<lambda>(h, _). (hi_number h, hi_timestamp h)) (announced es)"
  have times: "hs_times (snd (signal_run es new_head_signal)) = head_times.puts ?kvs []"
    using signal_run_heads [of es new_head_signal] by (simp add: new_head_signal_def)
  have empty: "head_times.cache_ok []" by (simp add: head_times.cache_ok_def)
  have "length (head_times.puts ?kvs []) \<le> 4096"
    using head_times.puts_ok [OF empty] by (simp add: head_times.cache_ok_def)
  moreover have "map_of (head_times.puts ?kvs []) b \<in> {None, map_of (rev ?kvs) b}"
  proof (cases "map_of (head_times.puts ?kvs []) b")
    case (Some v)
    from head_times.puts_sound [OF empty Some] show ?thesis by (auto simp: Some split: option.splits)
  qed simp
  ultimately show ?thesis
    using signal_run_heads [of es new_head_signal] times
    by (simp add: latestPrimaryHead_def blockTimes_def new_head_signal_def)
qed

text \<open>
  No wake-up is lost and none is doubled: any number of notifications with nobody waiting make
  exactly the next wait return at once, and a notification while somebody waits wakes it.
\<close>

theorem no_lost_wakeup:
  "fst (signal_run (replicate (Suc n) (Notified h p) @ [Waits False, Waits False]) s) =
     hs_waiting s # replicate n False @ [n > 0 \<or> \<not> hs_waiting s \<or> hs_flagged s, False] \<and>
   (hs_waiting s = False \<longrightarrow> fst (signal_run [Waits False, Notified h p] s) = [hs_flagged s, \<not> hs_flagged s])"
proof -
  have rep: "\<exists>s'. signal_run (replicate n (Notified h p)) s = (replicate n False, s') \<and> \<not> hs_waiting s' \<and>
      hs_flagged s' = (n > 0 \<or> hs_flagged s)" if "\<not> hs_waiting s" for s
    using that
  proof (induction n arbitrary: s)
    case (Suc n)
    obtain s1 where s1: "signal_event (Notified h p) s = (False, s1)" "\<not> hs_waiting s1" "hs_flagged s1"
      using Suc.prems notified [of h p s] by auto
    from Suc.IH [OF s1(2)] s1 show ?case by auto
  qed simp
  obtain s1 where s1: "signal_event (Notified h p) s = (hs_waiting s, s1)" "\<not> hs_waiting s1"
      "hs_flagged s1 = (\<not> hs_waiting s \<or> hs_flagged s)"
    using notified [of h p s] by auto
  from rep [OF s1(2)] obtain s2 where s2: "signal_run (replicate n (Notified h p)) s1 = (replicate n False, s2)"
    "\<not> hs_waiting s2" "hs_flagged s2 = (n > 0 \<or> hs_flagged s1)" by blast
  have "fst (signal_run (replicate (Suc n) (Notified h p) @ [Waits False, Waits False]) s) =
      hs_waiting s # replicate n False @ [n > 0 \<or> \<not> hs_waiting s \<or> hs_flagged s, False]"
    using s1 s2 by (auto simp: signal_run_append signal_event_def wait_def split: prod.split)
  moreover have "fst (signal_run [Waits False, Notified h p] s) = [hs_flagged s, \<not> hs_flagged s]" if "\<not> hs_waiting s"
    using that by (auto simp: signal_event_def wait_def notify_def record_head_def Let_def split: option.split prod.split)
  ultimately show ?thesis by simp
qed

theorem no_lost_wakeup_witness:
  "fst (signal_run [Waits False, Notified None True] new_head_signal) = [False, True]"
  using no_lost_wakeup [of 0 None True new_head_signal] by (simp add: new_head_signal_def)

subsection \<open>PhaseTracker\<close>

datatype phase = Provisioning | Backfilling | Live | Degraded

record phase_tracker =
  pt_phase :: phase
  pt_lastError :: "string option"
  pt_currentBlock :: int
  pt_headBlock :: int

definition new_phase_tracker :: phase_tracker where
  "new_phase_tracker = \<lparr>pt_phase = Provisioning, pt_lastError = None, pt_currentBlock = 0, pt_headBlock = 0\<rparr>"

definition pt_healthy :: "phase_tracker \<Rightarrow> bool" where
  "pt_healthy p \<longleftrightarrow> pt_phase p \<noteq> Degraded"

definition pt_lag :: "phase_tracker \<Rightarrow> int" where
  "pt_lag p = (let d = pt_headBlock p - pt_currentBlock p in if d > 0 then d else 0)"

definition pt_set :: "phase \<Rightarrow> string option \<Rightarrow> phase_tracker \<Rightarrow> phase_tracker" where
  "pt_set ph err p = p\<lparr>pt_phase := ph, pt_lastError := err\<rparr>"

definition pt_setBlocks :: "int \<Rightarrow> int \<Rightarrow> phase_tracker \<Rightarrow> phase_tracker" where
  "pt_setBlocks current head p = p\<lparr>pt_currentBlock := current, pt_headBlock := head\<rparr>"

subsection \<open>newHeads subscriptions\<close>

definition reconnect_delay :: "nat \<Rightarrow> int" where
  "reconnect_delay attempt = min (1000 * 2 ^ attempt) 30000"

interpretation ws_backoff: doubling_backoff reconnect_delay 1000 30000
  by (rule doubling_backoff_closed) (simp_all add: reconnect_delay_def)

record ws_state =
  ws_closed :: bool
  ws_connected :: "nat list"
  ws_attempts :: "(nat \<times> nat) list"     \<comment> \<open>the open sockets, each with its attempt counter\<close>
  ws_timers :: "(nat \<times> nat \<times> int) list"  \<comment> \<open>endpoint, next attempt, delay\<close>
  ws_reports :: "bool list"              \<comment> \<open>the calls of \<open>onStateChange\<close>\<close>
  ws_heads :: "(head_info option \<times> bool) list"

definition set_conn :: "nat \<Rightarrow> bool \<Rightarrow> ws_state \<Rightarrow> ws_state" where
  "set_conn idx up w =
     (let before = (ws_connected w \<noteq> []);
          connected = (if up then set_add (ws_connected w) idx else removeAll idx (ws_connected w));
          after = (connected \<noteq> [])
      in w\<lparr>ws_connected := connected, ws_reports := (if before \<noteq> after then ws_reports w @ [after] else ws_reports w)\<rparr>)"

definition ws_connect :: "nat \<Rightarrow> nat \<Rightarrow> ws_state \<Rightarrow> ws_state" where
  "ws_connect idx attempt w = (if ws_closed w then w else w\<lparr>ws_attempts := map_set idx attempt (ws_attempts w)\<rparr>)"

definition ws_subscribed :: "nat \<Rightarrow> ws_state \<Rightarrow> ws_state" where
  "ws_subscribed idx w = set_conn idx True (w\<lparr>ws_attempts := map_set idx 0 (ws_attempts w)\<rparr>)"

definition ws_head :: "nat \<Rightarrow> head_info option \<Rightarrow> ws_state \<Rightarrow> ws_state" where
  "ws_head idx head w = w\<lparr>ws_heads := ws_heads w @ [(head, idx = 0)]\<rparr>"

definition ws_onclose :: "nat \<Rightarrow> ws_state \<Rightarrow> ws_state" where
  "ws_onclose idx w =
     (case map_of (ws_attempts w) idx of
        None \<Rightarrow> w
      | Some attempt \<Rightarrow>
          (let w = w\<lparr>ws_attempts := map_delete idx (ws_attempts w)\<rparr>
           in if ws_closed w then w
              else (set_conn idx False w)\<lparr>ws_timers := ws_timers w @ [(idx, attempt + 1, reconnect_delay attempt)]\<rparr>))"

definition ws_timer :: "nat \<Rightarrow> ws_state \<Rightarrow> ws_state" where
  "ws_timer i w =
     (if i < length (ws_timers w)
      then (case ws_timers w ! i of (idx, attempt, _) \<Rightarrow>
              ws_connect idx attempt (w\<lparr>ws_timers := take i (ws_timers w) @ drop (Suc i) (ws_timers w)\<rparr>))
      else w)"

definition ws_close :: "ws_state \<Rightarrow> ws_state" where
  "ws_close w = w\<lparr>ws_closed := True, ws_timers := []\<rparr>"

definition subscribeNewHeads :: "nat \<Rightarrow> ws_state" where
  "subscribeNewHeads urls = foldl (\<lambda>w i. ws_connect i 0 w)
     \<lparr>ws_closed = False, ws_connected = [], ws_attempts = [], ws_timers = [], ws_reports = [], ws_heads = []\<rparr> [0..<urls]"

inductive ws_step :: "ws_state \<Rightarrow> ws_state \<Rightarrow> bool" where
  "ws_step w (ws_subscribed idx w)"
| "ws_step w (ws_head idx head w)"
| "ws_step w (ws_onclose idx w)"
| "ws_step w (ws_timer i w)"
| "ws_step w (ws_close w)"

inductive ws_reachable :: "nat \<Rightarrow> ws_state \<Rightarrow> bool" for urls where
  start: "ws_reachable urls (subscribeNewHeads urls)"
| step: "ws_reachable urls w \<Longrightarrow> ws_step w w' \<Longrightarrow> ws_reachable urls w'"

inductive_cases ws_stepE: "ws_step w w'"

text \<open>Reports alternate, starting with True, and the last one tells whether any endpoint is up.\<close>

fun alternating :: "bool \<Rightarrow> bool list \<Rightarrow> bool" where
  "alternating b [] = True"
| "alternating b (x # xs) = (x = b \<and> alternating (\<not> b) xs)"

lemma alternating_snoc:
  "alternating b (xs @ [x]) \<longleftrightarrow> alternating b xs \<and> x = (if xs = [] then b else \<not> last xs)"
  by (induction xs arbitrary: b) auto

definition ws_ok :: "ws_state \<Rightarrow> bool" where
  "ws_ok w \<longleftrightarrow> alternating True (ws_reports w) \<and>
     (ws_connected w \<noteq> [] \<longleftrightarrow> ws_reports w \<noteq> [] \<and> last (ws_reports w)) \<and>
     (\<forall>(_, _, delay) \<in> set (ws_timers w). 1000 \<le> delay \<and> delay \<le> 30000)"

lemma set_conn_ok: "ws_ok w \<Longrightarrow> ws_ok (set_conn idx up w)"
  by (auto simp: ws_ok_def set_conn_def Let_def alternating_snoc)

lemma ws_connect_same [simp]: "ws_reports (ws_connect i a w) = ws_reports w" "ws_connected (ws_connect i a w) = ws_connected w"
    "ws_timers (ws_connect i a w) = ws_timers w"
  by (simp_all add: ws_connect_def)

lemma ws_connect_ok: "ws_ok w \<Longrightarrow> ws_ok (ws_connect i a w)"
  by (simp add: ws_ok_def)

lemma ws_ok_start: "ws_ok (subscribeNewHeads urls)"
proof -
  have "ws_ok (foldl (\<lambda>w i. ws_connect i 0 w) w is)" if "ws_ok w" for w "is"
    using that by (induction "is" arbitrary: w) (simp_all add: ws_connect_ok)
  note fold_ok = this
  show ?thesis unfolding subscribeNewHeads_def by (rule fold_ok) (simp add: ws_ok_def)
qed

lemma ws_ok_step: "ws_step w w' \<Longrightarrow> ws_ok w \<Longrightarrow> ws_ok w'"
proof (elim ws_stepE, goal_cases)
  case (1 idx)
  then have "ws_ok (w\<lparr>ws_attempts := map_set idx 0 (ws_attempts w)\<rparr>)" by (simp add: ws_ok_def)
  then show ?case unfolding 1 ws_subscribed_def by (rule set_conn_ok)
next
  case (3 idx)
  have "ws_ok (set_conn idx False (w\<lparr>ws_attempts := a\<rparr>))" for a using 3(1) by (intro set_conn_ok) (simp add: ws_ok_def)
  with 3 ws_backoff.delay_bounds show ?case
    by (auto simp: ws_onclose_def ws_ok_def Let_def set_conn_def split: option.split)
next
  case (4 i)
  then show ?case by (auto simp: ws_timer_def ws_ok_def split: prod.split dest: in_set_takeD in_set_dropD)
qed (auto simp: ws_head_def ws_close_def ws_ok_def)



end
