(* ===== verification/Ranges.thy ===== *)
theory Ranges
  imports Prelude
begin

text \<open>
  Which blocks a round reads: \<open>core/src/ranges.ts\<close> (the next range to process),
  \<open>worker/src/blocks.ts\<close> (a configured start block against the head) and
  \<open>worker/src/rangesizer.ts\<close> (the working \<open>getLogs\<close> span that shrinks at a provider cap and
  grows back). Block numbers are unbounded integers, as \<open>bigint\<close> is.
\<close>

subsection \<open>The next range\<close>

record block_range =
  fromBlock :: int
  toBlock :: int

definition planRange :: "int \<Rightarrow> int \<Rightarrow> int \<Rightarrow> block_range option" where
  "planRange lastProcessed finalized batchBlocks =
     (if finalized \<le> lastProcessed then None
      else (let from = lastProcessed + 1; cap = from + (batchBlocks - 1)
            in Some \<lparr>fromBlock = from, toBlock = (if finalized < cap then finalized else cap)\<rparr>))"

lemma planRange_None: "planRange l f b = None \<longleftrightarrow> f \<le> l"
  by (simp add: planRange_def Let_def)

lemma planRange_done [simp]: "f \<le> l \<Longrightarrow> planRange l f b = None"
  by (simp add: planRange_def)

lemma planRange_Some:
  "planRange l f b = Some r \<longleftrightarrow> l < f \<and> fromBlock r = l + 1 \<and> toBlock r = min f (l + b)"
  by (cases r) (auto simp: planRange_def Let_def min_def)

definition resolveStartBlock :: "int option \<Rightarrow> int \<Rightarrow> int" where
  "resolveStartBlock startBlock headBlock =
     (case startBlock of None \<Rightarrow> headBlock
      | Some s \<Rightarrow> if s < 0 then max 0 (headBlock + s) else s)"

text \<open>The ranges of successive rounds towards a fixed head, each taken after the one before is done.\<close>

function plan_all :: "int \<Rightarrow> int \<Rightarrow> int \<Rightarrow> block_range list" where
  "plan_all l f b =
     (if b < 1 then []
      else case planRange l f b of None \<Rightarrow> [] | Some r \<Rightarrow> r # plan_all (toBlock r) f b)"
  by pat_completeness auto
termination
  by (relation "measure (\<lambda>(l, f, b). nat (f - l))") (auto simp: planRange_Some)

declare plan_all.simps [simp del]

lemma plan_all_tiles:
  "1 \<le> b \<Longrightarrow> concat (map (\<lambda>r. [fromBlock r .. toBlock r]) (plan_all l f b)) = [l + 1 .. f]"
proof (induction l f b rule: plan_all.induct)
  case (1 l f b)
  show ?case
  proof (cases "planRange l f b")
    case None
    moreover from None have "f \<le> l" by (simp only: planRange_None)
    ultimately show ?thesis by (simp add: plan_all.simps [of l f b])
  next
    case (Some r)
    then have r: "l < f" "fromBlock r = l + 1" "toBlock r = min f (l + b)"
      by (simp_all add: planRange_Some)
    have "[l + 1 .. toBlock r] @ [toBlock r + 1 .. f] = [l + 1 .. f]"
      using r "1.prems" by (intro upto_split2 [symmetric, of "l + 1" "toBlock r" f]) auto
    with "1.IH" [OF _ Some] "1.prems" r Some show ?thesis
      by (simp add: plan_all.simps [of l f b])
  qed
qed

lemma plan_all_spans:
  "r \<in> set (plan_all l f b) \<Longrightarrow> fromBlock r \<le> toBlock r \<and> toBlock r - fromBlock r + 1 \<le> b \<and> l < fromBlock r \<and> toBlock r \<le> f"
proof (induction l f b rule: plan_all.induct)
  case (1 l f b)
  from "1.prems" obtain r0 where b: "\<not> b < 1" and r0: "planRange l f b = Some r0"
    and r: "r = r0 \<or> r \<in> set (plan_all (toBlock r0) f b)"
    by (cases "planRange l f b") (auto simp: plan_all.simps [of l f b] split: if_splits)
  from r0 have "l < f" "fromBlock r0 = l + 1" "toBlock r0 = min f (l + b)"
    by (simp_all add: planRange_Some)
  with r b "1.IH" [OF b r0] show ?case by auto
qed

subsection \<open>Interface: a span that halves and doubles\<close>

text \<open>
  A working span that a failure halves (never below \<open>lo\<close>) and success doubles (never above
  \<open>hi\<close>). The \<open>getLogs\<close> span below and the explorer's rollup span keep this contract.
\<close>

locale span_control =
  fixes span :: "'s \<Rightarrow> int" and shrink grow :: "'s \<Rightarrow> 's" and good :: "'s \<Rightarrow> bool" and lo hi :: "'s \<Rightarrow> int"
  assumes lo_pos: "good s \<Longrightarrow> 0 < lo s"
    and good_span: "good s \<Longrightarrow> lo s \<le> span s \<and> span s \<le> hi s"
    and good_shrink: "good s \<Longrightarrow> good (shrink s) \<and> lo (shrink s) = lo s \<and> hi (shrink s) = hi s"
    and good_grow: "good s \<Longrightarrow> good (grow s) \<and> lo (grow s) = lo s \<and> hi (grow s) = hi s"
    and span_shrink: "good s \<Longrightarrow> span (shrink s) = max (lo s) (span s div 2)"
    and span_grow: "good s \<Longrightarrow> span (grow s) \<in> {span s, min (hi s) (2 * span s)}"
begin

definition step :: "bool \<Rightarrow> 's \<Rightarrow> 's" where
  "step ok s = (if ok then grow s else shrink s)"

lemma run_good: "good s \<Longrightarrow> good (fold step oks s) \<and> lo (fold step oks s) = lo s \<and> hi (fold step oks s) = hi s"
  by (induction oks arbitrary: s) (simp_all add: step_def good_shrink good_grow)

lemma run_span: "good s \<Longrightarrow> lo s \<le> span (fold step oks s) \<and> span (fold step oks s) \<le> hi s"
  using run_good [of s oks] good_span [of "fold step oks s"] by simp

lemma shrinks_good: "good s \<Longrightarrow> good ((shrink ^^ n) s) \<and> lo ((shrink ^^ n) s) = lo s"
  by (induction n) (simp_all add: good_shrink)

lemma shrinks_span: "good s \<Longrightarrow> span ((shrink ^^ n) s) = max (lo s) (span s div 2 ^ n)"
proof (induction n)
  case 0
  then show ?case using good_span [of s] by simp
next
  case (Suc n)
  then have "span ((shrink ^^ Suc n) s) = max (lo s) (max (lo s) (span s div 2 ^ n) div 2)"
    by (simp add: span_shrink shrinks_good)
  also have "\<dots> = max (lo s) (span s div 2 ^ n div 2)" using lo_pos [OF Suc.prems] by (auto simp: max_def)
  also have "span s div 2 ^ n div 2 = span s div 2 ^ Suc n"
    by (simp add: zdiv_zmult2_eq [symmetric] mult.commute)
  finally show ?case .
qed

text \<open>Halving cannot go on for ever: enough failures in a row reach the floor.\<close>

lemma shrinks_reach_lo:
  assumes "good s" "hi s < 2 ^ n"
  shows "span ((shrink ^^ n) s) = lo s"
proof -
  have "span s < 2 ^ n" using assms good_span [of s] by simp
  moreover have "0 \<le> span s" using assms(1) good_span [of s] lo_pos [of s] by simp
  ultimately have "span s div 2 ^ n = 0" by (simp add: div_pos_pos_trivial)
  then show ?thesis using assms(1) lo_pos [of s] by (simp add: shrinks_span)
qed

end

subsection \<open>RangeSizer\<close>

definition GROW_AFTER :: int where
  "GROW_AFTER = 20"

record range_sizer =
  rs_max :: int
  rs_current :: int
  rs_clean :: int

definition new_range_sizer :: "int \<Rightarrow> range_sizer" where
  "new_range_sizer mx = \<lparr>rs_max = mx, rs_current = mx, rs_clean = 0\<rparr>"

definition sizer_shrink :: "range_sizer \<Rightarrow> bool \<times> range_sizer" where
  "sizer_shrink s =
     (if rs_current s \<le> 1 then (False, s)
      else (True, s\<lparr>rs_current := max 1 (rs_current s div 2), rs_clean := 0\<rparr>))"

definition sizer_succeeded :: "range_sizer \<Rightarrow> bool \<times> range_sizer" where
  "sizer_succeeded s =
     (if rs_current s \<ge> rs_max s then (False, s)
      else let s' = s\<lparr>rs_clean := rs_clean s + 1\<rparr>
           in if rs_clean s' < GROW_AFTER then (False, s')
              else (True, s'\<lparr>rs_current := min (rs_max s) (rs_current s * 2), rs_clean := 0\<rparr>))"

definition sizer_good :: "range_sizer \<Rightarrow> bool" where
  "sizer_good s \<longleftrightarrow> 1 \<le> rs_current s \<and> rs_current s \<le> rs_max s \<and> 0 \<le> rs_clean s \<and> rs_clean s < GROW_AFTER"

lemmas sizer_defs = sizer_shrink_def sizer_succeeded_def sizer_good_def new_range_sizer_def GROW_AFTER_def

lemma sizer_good_new: "1 \<le> mx \<Longrightarrow> sizer_good (new_range_sizer mx)"
  by (simp add: sizer_defs)

interpretation sizer: span_control rs_current "snd \<circ> sizer_shrink" "snd \<circ> sizer_succeeded" sizer_good "\<lambda>_. 1" rs_max
  by unfold_locales (auto simp: sizer_defs Let_def)

text \<open>Successes that are not enough to grow leave the span; the twentieth in a row doubles it.\<close>

lemma sizer_succeeded_below:
  "rs_current s < rs_max s \<Longrightarrow> rs_clean s + int n < GROW_AFTER \<Longrightarrow>
   ((snd \<circ> sizer_succeeded) ^^ n) s = s\<lparr>rs_clean := rs_clean s + int n\<rparr>"
proof (induction n)
  case (Suc n)
  then show ?case by (simp add: sizer_succeeded_def Let_def algebra_simps)
qed simp

lemma sizer_grows_after:
  assumes "sizer_good s" "rs_current s < rs_max s" "rs_clean s = 0"
  shows "((snd \<circ> sizer_succeeded) ^^ 20) s = s\<lparr>rs_current := min (rs_max s) (rs_current s * 2)\<rparr>"
proof -
  have "((snd \<circ> sizer_succeeded) ^^ 20) s = snd (sizer_succeeded (((snd \<circ> sizer_succeeded) ^^ 19) s))"
    using funpow.simps(2) [of 19 "snd \<circ> sizer_succeeded"] by simp
  also have "\<dots> = snd (sizer_succeeded (s\<lparr>rs_clean := 19\<rparr>))"
    using sizer_succeeded_below [of s 19] assms by (simp add: GROW_AFTER_def)
  finally show ?thesis using assms by (simp add: sizer_succeeded_def GROW_AFTER_def Let_def)
qed

end
