(* ===== verification/Pipeline.thy ===== *)
theory Pipeline
  imports Commit Rpc Signal Ranges Config
begin

text \<open>
  \<open>worker/src/pipeline.ts\<close>: the ingest loop. A round reads the cursor, picks its target, fetches a
  range of logs, decodes them and commits rows, dead letters and the new cursor together. What the
  RPC nodes answer and where the database connection breaks are inputs of the round.
\<close>

subsection \<open>The state of the loop\<close>

record metrics =
  mt_blocksBehind :: int
  mt_eventsIngested :: nat
  mt_deadLetters :: nat
  mt_lastProcessedBlock :: int
  mt_rpcErrors :: nat

record pipe_env =
  pe_cfg :: worker_config
  pe_defs :: "event_def list"
  pe_schema :: string
  pe_decode :: log_decoder

record pipe =
  pl_db :: db
  pl_store :: store
  pl_sizer :: "range_sizer option"
  pl_phase :: phase_tracker
  pl_signal :: head_signal
  pl_metrics :: metrics
  pl_committed :: nat        \<comment> \<open>the calls of \<open>onCommitted\<close>\<close>

text \<open>The outside of one round: the answers it gets, whether reading the cursor fails, and the
  fault of its transaction.\<close>

record round_input =
  ri_readFails :: bool
  ri_latest :: "js_error + int"
  ri_getLogs :: "string list \<Rightarrow> int \<Rightarrow> int \<Rightarrow> js_error + raw_log list"
  ri_queryHead :: "js_error + int"
  ri_getBlock :: "int \<Rightarrow> js_error + int"
  ri_fault :: fault

definition as_error :: "failure \<Rightarrow> js_error" where
  "as_error f = plain_error (message_of f)"

subsection \<open>Bootstrap\<close>

definition startOf :: "contract_config \<Rightarrow> int" where
  "startOf c = default_to 0 (cc_startBlock c)"

definition initialCursor :: "worker_config \<Rightarrow> int" where
  "initialCursor cfg =
     foldl (\<lambda>mn c. if startOf c < mn then startOf c else mn) (startOf (hd (wc_contracts cfg))) (wc_contracts cfg) - 1"

definition show_bool :: "bool \<Rightarrow> string" where
  "show_bool b = (if b then ''true'' else ''false'')"

definition indexer_meta :: "pipe_env \<Rightarrow> store \<Rightarrow> (string \<times> string) list" where
  "indexer_meta env store =
     map_set ''address_indexes'' (show_bool (st_addressIndexes store))
       (map_set ''partition_blocks'' (show_int (ps_size (st_partitions store))) (contractMeta (pe_defs env)))"

definition bootstrapIndexer :: "fault \<Rightarrow> fault \<Rightarrow> pipe_env \<Rightarrow> store \<Rightarrow> db \<Rightarrow> (failure + unit) \<times> db" where
  "bootstrapIndexer flt cursorFlt env store d =
     (case bootstrap flt (pe_schema env) (buildControlTables (pe_schema env)) (map snd (st_tables store)) (indexer_meta env store) d of
        (Inl e, d') \<Rightarrow> (Inl e, d')
      | (Inr _, d') \<Rightarrow>
          (case cursorFlt of
             NoFault \<Rightarrow> (Inr (), initCursor (initialCursor (pe_cfg env)) d')
           | FailAt _ \<Rightarrow> (Inl connection_lost, d')
           | AckLost \<Rightarrow> (Inl connection_lost, initCursor (initialCursor (pe_cfg env)) d')))"

text \<open>The pipeline a starting process builds before it bootstraps: nothing is remembered.\<close>

definition new_pipe :: "pipe_env \<Rightarrow> store \<Rightarrow> db \<Rightarrow> pipe" where
  "new_pipe env store d =
     \<lparr>pl_db = d, pl_store = store, pl_sizer = Some (new_range_sizer (wc_batchBlocks (pe_cfg env))),
      pl_phase = new_phase_tracker, pl_signal = new_head_signal,
      pl_metrics = \<lparr>mt_blocksBehind = 0, mt_eventsIngested = 0, mt_deadLetters = 0, mt_lastProcessedBlock = 0, mt_rpcErrors = 0\<rparr>,
      pl_committed = 0\<rparr>"

subsection \<open>One round\<close>

definition log_key :: "string \<Rightarrow> string \<Rightarrow> string" where
  "log_key address topic0 = address @ '':'' @ topic0"

definition byKey :: "pipe_env \<Rightarrow> (string \<times> event_def) list" where
  "byKey env = foldl (\<lambda>m d. map_set (log_key (ed_address d) (ed_topic0 d)) d m) [] (pe_defs env)"

definition startBlocks :: "pipe_env \<Rightarrow> (string \<times> int) list" where
  "startBlocks env = foldl (\<lambda>m c. map_set (map to_lower (cc_address c)) (startOf c) m) [] (wc_contracts (pe_cfg env))"

definition queried :: "pipe_env \<Rightarrow> string list" where
  "queried env = set_of_list (map ed_address (pe_defs env))"

definition first_topic :: "raw_log \<Rightarrow> string" where
  "first_topic l = (case lg_topics l of [] \<Rightarrow> ''undefined'' | t # _ \<Rightarrow> t)"

text \<open>What the loop over the logs makes of one: nothing, a dead letter or a row.\<close>

definition decode_log :: "pipe_env \<Rightarrow> (int \<times> int) list \<Rightarrow> raw_log \<Rightarrow> (dead_letter + decoded_row) option" where
  "decode_log env tms l =
     (let address = map to_lower (lg_address l)
      in case map_of (byKey env) (log_key address (first_topic l)) of
           None \<Rightarrow> None
         | Some def \<Rightarrow>
             if lg_blockNumber l < default_to 0 (map_of (startBlocks env) address) then None
             else (case decodeLogToRow (pe_decode env) def l (default_to 0 (map_of tms (lg_blockNumber l))) of
                 Inr row \<Rightarrow> Some (Inr row)
               | Inl err \<Rightarrow> Some (Inl
                   \<lparr>dl_blockNumber = Some (lg_blockNumber l), dl_txHash = Some (lg_transactionHash l),
                    dl_logIndex = Some (lg_logIndex l), dl_address = Some address, dl_topics = lg_topics l,
                    dl_data = Some (lg_data l), dl_error = message_of err\<rparr>)))"

fun decode_logs :: "pipe_env \<Rightarrow> (int \<times> int) list \<Rightarrow> raw_log list \<Rightarrow> decoded_row list \<times> dead_letter list" where
  "decode_logs env tms [] = ([], [])"
| "decode_logs env tms (l # ls) =
     (case decode_logs env tms ls of (rows, dead) \<Rightarrow>
        (case decode_log env tms l of
           None \<Rightarrow> (rows, dead)
         | Some (Inr row) \<Rightarrow> (row # rows, dead)
         | Some (Inl d) \<Rightarrow> (rows, d # dead)))"

text \<open>The fetch with its completeness guard: an error, a node too far behind, or logs up to a block.\<close>

datatype fetched = FetchError js_error | NodeBehind | Fetched "raw_log list" int

definition fetch_round :: "pipe_env \<Rightarrow> round_input \<Rightarrow> head_info option \<Rightarrow> int \<Rightarrow> block_range \<Rightarrow> fetched" where
  "fetch_round env inp signalHead finalized rg =
     (case ri_getLogs inp (queried env) (fromBlock rg) (toBlock rg) of
        Inl e \<Rightarrow> FetchError e
      | Inr logs \<Rightarrow>
          if (case signalHead of Some h \<Rightarrow> finalized = hi_number h | None \<Rightarrow> False)
          then (case ri_queryHead inp of
                  Inl e \<Rightarrow> FetchError e
                | Inr queryHead \<Rightarrow>
                    if queryHead < fromBlock rg then NodeBehind
                    else (let safeTo = (if queryHead < toBlock rg then queryHead else toBlock rg)
                          in Fetched (filter (\<lambda>l. lg_blockNumber l \<le> safeTo) logs) safeTo))
          else Fetched logs (toBlock rg))"

definition round_times :: "pipe \<Rightarrow> round_input \<Rightarrow> raw_log list \<Rightarrow> js_error + (int \<times> int) list" where
  "round_times p inp logs =
     (case blockTimesFromLogs logs of
        Some tms \<Rightarrow> Inr tms
      | None \<Rightarrow> getBlockTimes (ri_getBlock inp) (map lg_blockNumber logs) (blockTimes (pl_signal p)))"

definition set_phase :: "phase \<Rightarrow> string option \<Rightarrow> pipe \<Rightarrow> pipe" where
  "set_phase ph err p = p\<lparr>pl_phase := pt_set ph err (pl_phase p)\<rparr>"

definition report_blocks :: "int \<Rightarrow> int \<Rightarrow> pipe \<Rightarrow> pipe" where
  "report_blocks current head p =
     p\<lparr>pl_metrics := (pl_metrics p)\<lparr>mt_blocksBehind := head - current\<rparr>,
       pl_phase := pt_setBlocks current head (pl_phase p)\<rparr>"

definition sizer_span :: "pipe_env \<Rightarrow> pipe \<Rightarrow> int" where
  "sizer_span env p = (case pl_sizer p of Some s \<Rightarrow> rs_current s | None \<Rightarrow> wc_batchBlocks (pe_cfg env))"

definition finish_round :: "pipe_env \<Rightarrow> round_input \<Rightarrow> int \<Rightarrow> raw_log list \<Rightarrow> int \<Rightarrow> pipe \<Rightarrow> (js_error + bool) \<times> pipe" where
  "finish_round env inp finalized logs safeTo p =
     (case round_times p inp logs of
        Inl e \<Rightarrow> (Inl e, p)
      | Inr tms \<Rightarrow>
          (case decode_logs env tms logs of (rows, dead) \<Rightarrow>
            (case commitBatch (ri_fault inp) (pl_store p) rows dead safeTo (pl_db p) of
               (Inl e, d', store') \<Rightarrow> (Inl (as_error e), p\<lparr>pl_db := d', pl_store := store'\<rparr>)
             | (Inr inserted, d', store') \<Rightarrow>
                 (let p = p\<lparr>pl_db := d', pl_store := store', pl_committed := Suc (pl_committed p),
                            pl_sizer := map_option (snd \<circ> sizer_succeeded) (pl_sizer p),
                            pl_metrics := (pl_metrics p)\<lparr>mt_eventsIngested := mt_eventsIngested (pl_metrics p) + inserted,
                               mt_deadLetters := mt_deadLetters (pl_metrics p) + length dead,
                               mt_lastProcessedBlock := safeTo\<rparr>\<rparr>;
                      p = report_blocks safeTo finalized p
                  in (Inr True, if safeTo = finalized then set_phase Live None p else p)))))"

definition run_range :: "pipe_env \<Rightarrow> round_input \<Rightarrow> head_info option \<Rightarrow> int \<Rightarrow> block_range \<Rightarrow> pipe \<Rightarrow> (js_error + bool) \<times> pipe" where
  "run_range env inp signalHead finalized rg p =
     (let p = (if toBlock rg < finalized \<or> pt_phase (pl_phase p) \<noteq> Live then set_phase Backfilling None p else p)
      in case fetch_round env inp signalHead finalized rg of
           FetchError e \<Rightarrow>
             (case pl_sizer p of
                Some sizer \<Rightarrow>
                  if isRangeCapError e \<and> fst (sizer_shrink sizer)
                  then (Inr True, p\<lparr>pl_sizer := Some (snd (sizer_shrink sizer))\<rparr>)
                  else (Inl e, p)
              | None \<Rightarrow> (Inl e, p))
         | NodeBehind \<Rightarrow> (Inr False, p)
         | Fetched logs safeTo \<Rightarrow> finish_round env inp finalized logs safeTo p)"

definition runOnce :: "pipe_env \<Rightarrow> round_input \<Rightarrow> pipe \<Rightarrow> (js_error + bool) \<times> pipe" where
  "runOnce env inp p =
     (if ri_readFails inp then (Inl (as_error connection_lost), p)
      else case getCursor (pl_db p) of
        None \<Rightarrow> (Inl (plain_error ''no cursor - call bootstrapIndexer first''), p)
      | Some cursor \<Rightarrow>
          (let signalHead = (if nc_finalityTag (wc_network (pe_cfg env)) = Latest then latestPrimaryHead (pl_signal p) else None)
           in case (case signalHead of Some h \<Rightarrow> if hi_number h > cursor then Inr (hi_number h) else ri_latest inp
                    | None \<Rightarrow> ri_latest inp) of
                Inl e \<Rightarrow> (Inl e, p)
              | Inr finalized \<Rightarrow>
                  (let p = report_blocks cursor finalized p
                   in case planRange cursor finalized (sizer_span env p) of
                        None \<Rightarrow> (Inr False, set_phase Live None p)
                      | Some rg \<Rightarrow> run_range env inp signalHead finalized rg p)))"

subsection \<open>The loop\<close>

definition next_backoff :: "int \<Rightarrow> int" where
  "next_backoff backoffMs = min (backoffMs * 2) 30000"

interpretation loop_backoff: doubling_backoff "\<lambda>n. (next_backoff ^^ n) 1000" 1000 30000
  by (rule doubling_backoff_iterate) (simp_all add: next_backoff_def)

text \<open>What an iteration does after its round: go on, wait for a signal, or sleep and double the back-off.\<close>

datatype pause = GoOn | WaitForHead int | SleepFor int

definition loop_iteration :: "pipe_env \<Rightarrow> round_input \<Rightarrow> int \<Rightarrow> pipe \<Rightarrow> pause \<times> int \<times> pipe" where
  "loop_iteration env inp backoffMs p =
     (case runOnce env inp p of
        (Inr progressed, p') \<Rightarrow> (if progressed then GoOn else WaitForHead (wc_intervalMs (pe_cfg env)), 1000, p')
      | (Inl err, p') \<Rightarrow>
          (SleepFor backoffMs, next_backoff backoffMs,
           set_phase Degraded (Some (er_message err))
             (p'\<lparr>pl_metrics := (pl_metrics p')\<lparr>mt_rpcErrors := Suc (mt_rpcErrors (pl_metrics p'))\<rparr>\<rparr>)))"

end
