(* ===== verification/Ingest.thy ===== *)
theory Ingest
  imports Pipeline
begin

text \<open>
  What ingest promises: from the initial block up to the cursor, the event tables hold exactly the
  tracked logs of the chain, each once, and the dead letters exactly the tracked logs that do not
  decode, whatever faults, lost acknowledgements and restarts happened on the way.
\<close>

subsection \<open>The chain and what nodes say of it\<close>

text \<open>\<open>chain b\<close> are the logs of block \<open>b\<close> that the queried addresses emitted, in order.\<close>

type_synonym chain = "int \<Rightarrow> raw_log list"

definition logs_between :: "chain \<Rightarrow> int \<Rightarrow> int \<Rightarrow> raw_log list" where
  "logs_between chain a b = concat (map chain [a..b])"

definition chain_ok :: "chain \<Rightarrow> bool" where
  "chain_ok chain \<longleftrightarrow> (\<forall>b. (\<forall>l \<in> set (chain b). lg_blockNumber l = b) \<and> distinct (map lg_logIndex (chain b)))"

text \<open>
  The documented behaviour the loop relies on: a node answers \<open>eth_getLogs\<close> with every log up to
  the block it has reached, and a height it (or, for \<open>latest\<close>, the node asked beside it) reports is
  one that this answer already covers.
\<close>

definition honest :: "pipe_env \<Rightarrow> chain \<Rightarrow> round_input \<Rightarrow> bool" where
  "honest env chain inp \<longleftrightarrow> (\<exists>node.
     (\<forall>f t logs. ri_getLogs inp (queried env) f t = Inr logs \<longrightarrow> logs = logs_between chain f (min t node)) \<and>
     (\<forall>h. ri_queryHead inp = Inr h \<longrightarrow> h \<le> node) \<and> (\<forall>h. ri_latest inp = Inr h \<longrightarrow> h \<le> node))"

lemma logs_between_split: "a \<le> b + 1 \<Longrightarrow> b \<le> c \<Longrightarrow> logs_between chain a c = logs_between chain a b @ logs_between chain (b + 1) c"
proof -
  assume "a \<le> b + 1" "b \<le> c"
  then have "[a..c] = [a..b] @ [b + 1..c]"
  proof (cases "a \<le> b")
    case False
    then have "a = b + 1" using \<open>a \<le> b + 1\<close> by simp
    then show ?thesis by simp
  next
    case True
    from this \<open>b \<le> c\<close> show ?thesis by (rule upto_split2)
  qed
  then show ?thesis by (simp add: logs_between_def)
qed

lemma logs_between_blocks: "chain_ok chain \<Longrightarrow> l \<in> set (logs_between chain a b) \<Longrightarrow> a \<le> lg_blockNumber l \<and> lg_blockNumber l \<le> b"
  by (auto simp: logs_between_def chain_ok_def)

lemma filter_logs_between:
  assumes "chain_ok chain" "a \<le> s + 1" "s \<le> b"
  shows "filter (\<lambda>l. lg_blockNumber l \<le> s) (logs_between chain a b) = logs_between chain a s"
proof -
  have "filter (\<lambda>l. lg_blockNumber l \<le> s) (logs_between chain a s) = logs_between chain a s"
    using logs_between_blocks [OF assms(1)] by (auto simp: filter_id_conv)
  moreover have "filter (\<lambda>l. lg_blockNumber l \<le> s) (logs_between chain (s + 1) b) = []"
    using logs_between_blocks [OF assms(1), of _ "s + 1" b] by (fastforce simp: filter_empty_conv)
  ultimately show ?thesis by (simp add: logs_between_split [OF assms(2,3)])
qed

definition log_id :: "raw_log \<Rightarrow> int \<times> int" where
  "log_id l = (lg_blockNumber l, lg_logIndex l)"

lemma distinct_log_ids: "chain_ok chain \<Longrightarrow> distinct (map log_id (logs_between chain a b))"
proof (induction "nat (b - a + 1)" arbitrary: a)
  case 0
  then show ?case by (simp add: logs_between_def)
next
  case (Suc n)
  have split: "logs_between chain a b = chain a @ logs_between chain (a + 1) b"
    using Suc.hyps(2) by (simp add: logs_between_def upto_rec1)
  have "distinct (map log_id (logs_between chain (a + 1) b))" using Suc by simp
  moreover have "distinct (map log_id (chain a))"
    using Suc.prems by (auto simp: chain_ok_def log_id_def distinct_map inj_on_def)
  moreover have "set (map log_id (chain a)) \<inter> set (map log_id (logs_between chain (a + 1) b)) = {}"
    using Suc.prems logs_between_blocks [OF Suc.prems, of _ "a + 1" b] by (fastforce simp: chain_ok_def log_id_def)
  ultimately show ?case by (simp add: split)
qed

subsection \<open>What the loop should have stored\<close>

definition expected_rows :: "pipe_env \<Rightarrow> raw_log list \<Rightarrow> string \<Rightarrow> row_columns list" where
  "expected_rows env logs t = rows_for t (fst (decode_logs env [] logs))"

definition expected_dead :: "pipe_env \<Rightarrow> raw_log list \<Rightarrow> dead_letter list" where
  "expected_dead env logs = snd (decode_logs env [] logs)"

lemma decodeLogToRow_time:
  "decodeLogToRow dec def l t' = map_sum id (\<lambda>r. r\<lparr>dr_blockTime := t'\<rparr>) (decodeLogToRow dec def l t)"
  by (auto simp: decodeLogToRow_def bindE_def split: option.split sum.split)

lemma decode_log_time:
  "decode_log env tms l = None \<longleftrightarrow> decode_log env [] l = None"
  "decode_log env tms l = Some (Inl d) \<longleftrightarrow> decode_log env [] l = Some (Inl d)"
  "decode_log env tms l = Some (Inr r) \<Longrightarrow> \<exists>r'. decode_log env [] l = Some (Inr r') \<and> dr_tableName r' = dr_tableName r \<and> dr_columns r' = dr_columns r"
  using decodeLogToRow_time [of "pe_decode env" _ l "default_to 0 (map_of tms (lg_blockNumber l))" "default_to 0 (map_of [] (lg_blockNumber l))"]
  by (auto simp: decode_log_def Let_def split: option.splits if_splits sum.splits)

lemma rows_for_simps: "rows_for t [] = []"
    "rows_for t (r # rs) = (if dr_tableName r = t then dr_columns r # rows_for t rs else rows_for t rs)"
  by (simp_all add: rows_for_def)

lemma decode_logs_time:
  "rows_for t (fst (decode_logs env tms logs)) = expected_rows env logs t"
  "snd (decode_logs env tms logs) = expected_dead env logs"
proof (induction logs)
  case Nil
  { case 1 show ?case by (simp add: expected_rows_def) }
  { case 2 show ?case by (simp add: expected_dead_def) }
next
  case (Cons l logs)
  obtain rows dead where d: "decode_logs env tms logs = (rows, dead)" by fastforce
  obtain rows0 dead0 where d0: "decode_logs env [] logs = (rows0, dead0)" by fastforce
  from Cons d d0 have IH: "rows_for t rows = rows_for t rows0" "dead = dead0"
    by (simp_all add: expected_rows_def expected_dead_def)
  show "rows_for t (fst (decode_logs env tms (l # logs))) = expected_rows env (l # logs) t"
    "snd (decode_logs env tms (l # logs)) = expected_dead env (l # logs)"
    using decode_log_time [of env tms l] d d0 IH
    by (auto simp: expected_rows_def expected_dead_def rows_for_simps split: option.split sum.split prod.split)
qed

lemma decode_logs_append:
  "decode_logs env tms (xs @ ys) =
     (fst (decode_logs env tms xs) @ fst (decode_logs env tms ys), snd (decode_logs env tms xs) @ snd (decode_logs env tms ys))"
  by (induction xs) (auto split: option.split sum.split prod.split)

lemma expected_append:
  "expected_rows env (xs @ ys) t = expected_rows env xs t @ expected_rows env ys t"
  "expected_dead env (xs @ ys) = expected_dead env xs @ expected_dead env ys"
  by (simp_all add: expected_rows_def expected_dead_def decode_logs_append rows_for_def)

lemma decode_logs_origin:
  "r \<in> set (fst (decode_logs env tms logs)) \<Longrightarrow>
     \<exists>l def. l \<in> set logs \<and> def \<in> set (pe_defs env) \<and> decodeLogToRow (pe_decode env) def l (default_to 0 (map_of tms (lg_blockNumber l))) = Inr r"
proof (induction logs)
  case (Cons l logs)
  obtain rows dead where d: "decode_logs env tms logs = (rows, dead)" by fastforce
  have defs: "def \<in> set (pe_defs env)" if "map_of (byKey env) k = Some def" for k def
  proof -
    have "\<forall>(k, d) \<in> set (foldl (\<lambda>m d. map_set (log_key (ed_address d) (ed_topic0 d)) d m) m ds). (k, d) \<in> set m \<or> d \<in> set ds" for m ds
    proof (induction ds arbitrary: m)
      case (Cons d ds)
      have "set (map_set k d m) \<subseteq> insert (k, d) (set m)" for k by (induction m) auto
      with Cons [of "map_set (log_key (ed_address d) (ed_topic0 d)) d m"] show ?case by fastforce
    qed simp
    from this [of "[]" "pe_defs env"] show ?thesis using map_of_SomeD [OF that] by (fastforce simp: byKey_def)
  qed
  show ?case
  proof (cases "r \<in> set rows")
    case True
    with Cons.IH d show ?thesis by auto
  next
    case False
    then have "decode_log env tms l = Some (Inr r)"
      using Cons.prems d by (auto split: option.splits sum.splits)
    then show ?thesis using defs by (auto simp: decode_log_def Let_def split: option.splits if_splits sum.splits)
  qed
qed simp

subsection \<open>Decoded rows are well keyed and well typed\<close>

definition named :: "event_def \<Rightarrow> bool" where
  "named def \<longleftrightarrow> (case eventColumns (ed_event def) of Inr cols \<Rightarrow> [] \<notin> set (map ec_name cols) | Inl _ \<Rightarrow> True)"

lemma eventColumns_facts:
  assumes "eventColumns ev = Inr cols" "[] \<notin> set (map ec_name cols)"
  shows "distinct (map ec_name cols)" "\<forall>c \<in> set cols. ec_name c \<notin> set RESERVED"
  using assms truthy_None_first_dup event_column_of_not_reserved by (auto simp: eventColumns_Inr)

lemma decode_row_foldE:
  assumes "decodeLogToRow dec def l t = Inr row"
  obtains args cols where "eventColumns (ed_event def) = Inr cols" "dr_tableName row = ed_tableName def"
    "foldE (decode_column def args) (common_values l) (enumerate 0 (zip cols (ev_inputs (ed_event def)))) = Inr (dr_columns row)"
  using assms by (auto simp: decodeLogToRow_def bindE_Inr split: option.splits)

lemma enumerate_zip_col: "(i, c, q) \<in> set (enumerate n (zip cols ps)) \<Longrightarrow> c \<in> set cols"
  by (auto simp: in_set_enumerate_eq set_zip)

lemma decoded_common:
  assumes "decodeLogToRow dec def l t = Inr row" "n \<in> {''block_number'', ''tx_hash'', ''log_index''}"
  shows "map_of (dr_columns row) n = map_of (common_values l) n"
  using assms(1)
proof (rule decode_row_foldE)
  fix args cols
  assume cols: "eventColumns (ed_event def) = Inr cols"
    and f: "foldE (decode_column def args) (common_values l) (enumerate 0 (zip cols (ev_inputs (ed_event def)))) = Inr (dr_columns row)"
  show ?thesis
  proof (rule foldE_invariant [OF f, where P = "\<lambda>cs. map_of cs n = map_of (common_values l) n"])
    fix cs x cs' assume x: "x \<in> set (enumerate 0 (zip cols (ev_inputs (ed_event def))))"
      and "map_of cs n = map_of (common_values l) n" and step: "decode_column def args cs x = Inr cs'"
    obtain i c q where e: "x = (i, c, q)" by (metis prod_cases3)
    have "ec_name c \<notin> set RESERVED"
      using enumerate_zip_col [OF x [unfolded e]] cols event_column_of_not_reserved by (auto simp: eventColumns_Inr)
    then have "ec_name c \<noteq> n" using assms(2) by (auto simp: RESERVED_eq)
    with step \<open>map_of cs n = _\<close> show "map_of cs' n = map_of (common_values l) n" by (auto simp: e decode_column_Inr)
  qed simp
qed

lemma decoded_key:
  assumes "decodeLogToRow dec def l t = Inr row"
  shows "row_key (dr_columns row) = (Some (lg_blockNumber l), Some (lg_logIndex l))" "the_key (dr_columns row) = log_id l"
    "map_of (dr_columns row) ''tx_hash'' \<noteq> None" "block_text row = show_int (lg_blockNumber l)"
  using decoded_common [OF assms]
  by (simp_all add: row_key_def the_key_def log_id_def common_values_def cast_int_def block_text_def)

definition address_typed :: "string \<Rightarrow> row_columns \<Rightarrow> bool" where
  "address_typed n r = (case map_of r n of None \<Rightarrow> True | Some (SBytes _) \<Rightarrow> True | _ \<Rightarrow> False)"

lemma toSqlValue_address: "toSqlValue ''address'' v = SBytes (hexBytes (js_String v))"
  by (simp add: toSqlValue_def endsWith_def startsWith_def)

lemma decoded_typed:
  assumes "decodeLogToRow dec def l t = Inr row" "eventColumns (ed_event def) = Inr cols" "[] \<notin> set (map ec_name cols)"
    "c \<in> set cols" "ec_abiType c = ''address''"
  shows "address_typed (ec_name c) (dr_columns row)"
  using assms(1)
proof (rule decode_row_foldE)
  fix args cols'
  assume "eventColumns (ed_event def) = Inr cols'"
    and "foldE (decode_column def args) (common_values l) (enumerate 0 (zip cols' (ev_inputs (ed_event def)))) = Inr (dr_columns row)"
  then have f: "foldE (decode_column def args) (common_values l) (enumerate 0 (zip cols (ev_inputs (ed_event def)))) = Inr (dr_columns row)"
    using assms(2) by simp
  note facts = eventColumns_facts [OF assms(2,3)]
  show ?thesis
  proof (rule foldE_invariant [OF f, where P = "address_typed (ec_name c)"])
    show "address_typed (ec_name c) (common_values l)"
      using facts(2) assms(4) by (fastforce simp: address_typed_def common_values_def RESERVED_eq)
    fix cs x cs' assume x: "x \<in> set (enumerate 0 (zip cols (ev_inputs (ed_event def))))"
      and ty: "address_typed (ec_name c) cs" and step: "decode_column def args cs x = Inr cs'"
    obtain i c' q where e: "x = (i, c', q)" by (metis prod_cases3)
    have "c' \<in> set cols" using x unfolding e by (rule enumerate_zip_col)
    then have "ec_name c' = ec_name c \<Longrightarrow> c' = c" using facts(1) assms(4) by (auto simp: distinct_map inj_on_def)
    then have abi: "ec_name c' = ec_name c \<Longrightarrow> ec_abiType c' = ''address''" using assms(5) by simp
    obtain raw where cs': "cs' = map_set (ec_name c') (toSqlValue (ec_abiType c') raw) cs"
      using step by (auto simp: e decode_column_Inr)
    show "address_typed (ec_name c) cs'"
    proof (cases "ec_name c' = ec_name c")
      case True
      then show ?thesis by (simp add: cs' abi toSqlValue_address address_typed_def)
    next
      case False
      with ty show ?thesis by (simp add: cs' address_typed_def)
    qed
  qed
qed

text \<open>The store was made from the event definitions, whose columns all have names.\<close>

definition tables_ok :: "pipe_env \<Rightarrow> store \<Rightarrow> bool" where
  "tables_ok env store \<longleftrightarrow> (\<exists>ai.
     (\<forall>def \<in> set (pe_defs env). named def \<and>
        (\<exists>spec. map_of (st_tables store) (ed_tableName def) = Some spec \<and> buildEventTable (pe_schema env) def ai = Inr spec)) \<and>
     (\<forall>(t, spec) \<in> set (st_tables store). \<exists>def \<in> set (pe_defs env). buildEventTable (pe_schema env) def ai = Inr spec))"

lemma built_columns:
  assumes "buildEventTable schema def ai = Inr spec" "named def"
  obtains cols paramColumns where "eventColumns (ed_event def) = Inr cols" "[] \<notin> set (map ec_name cols)"
    "ts_columns spec = COMMON_COLUMNS @ paramColumns" "map cs_name paramColumns = map ec_name cols"
    "\<And>cs. cs \<in> set paramColumns \<Longrightarrow> cs_address cs \<Longrightarrow> \<exists>c \<in> set cols. ec_name c = cs_name cs \<and> ec_abiType c = ''address''"
  using assms(1)
proof (rule buildEventTable_Inr)
  fix params paramColumns indexes view
  assume p: "eventColumns (ed_event def) = Inr params"
    and l2: "list_all2 (\<lambda>c cs. param_column c = Inr cs) params paramColumns"
    and c: "ts_columns spec = COMMON_COLUMNS @ paramColumns"
  have "map cs_name paramColumns = map ec_name params" using l2 by (rule list_all2_induct) (simp_all add: param_column_Inr)
  moreover have "\<exists>c \<in> set params. ec_name c = cs_name cs \<and> ec_abiType c = ''address''" if "cs \<in> set paramColumns" "cs_address cs" for cs
    using list_all2_right [OF l2 that(1)] that(2) by (auto simp: param_column_Inr)
  moreover have "[] \<notin> set (map ec_name params)" using assms(2) p by (simp add: named_def)
  ultimately show thesis using that [OF p _ c] by blast
qed

lemma built_columns_ok:
  assumes "buildEventTable schema def ai = Inr spec" "named def"
  shows "columns_ok (ts_columns spec)"
proof (rule built_columns [OF assms])
  fix cols paramColumns
  assume h: "eventColumns (ed_event def) = Inr cols" "[] \<notin> set (map ec_name cols)"
    "ts_columns spec = COMMON_COLUMNS @ paramColumns" "map cs_name paramColumns = map ec_name cols"
  have names: "cs_name ` set paramColumns = ec_name ` set cols" using arg_cong [OF h(4), of set] by simp
  note facts = eventColumns_facts [OF h(1,2)]
  have fresh: "n \<notin> set RESERVED" if "n \<in> cs_name ` set paramColumns" for n using facts(2) that unfolding names by blast
  have "set (map cs_name paramColumns) \<inter> {''block_number'', ''tx_hash'', ''log_index''} = {}"
    using fresh by (auto simp only: RESERVED_eq set_map list.set)
  moreover have "distinct (map cs_name paramColumns)" using facts(1) h(4) by simp
  ultimately have "distinct (map cs_name (COMMON_COLUMNS @ paramColumns))" by (simp add: COMMON_COLUMNS_def)
  moreover have "list_all (\<lambda>c. \<not> cs_address c \<or> cs_name c \<notin> {''block_number'', ''tx_hash'', ''log_index''}) (COMMON_COLUMNS @ paramColumns)"
  proof -
    have "cs_name c \<notin> {''block_number'', ''tx_hash'', ''log_index''}" if "c \<in> set paramColumns" for c
      using fresh [OF imageI [OF that]] by (auto simp only: RESERVED_eq list.set)
    moreover have "list_all (\<lambda>c. \<not> cs_address c) COMMON_COLUMNS" by (simp add: COMMON_COLUMNS_def)
    ultimately show ?thesis unfolding list_all_append unfolding list_all_iff by blast
  qed
  ultimately show "columns_ok (ts_columns spec)" unfolding columns_ok_def h(3) by blast
qed

lemma tables_ok_store_ok:
  assumes "tables_ok env store"
  shows "store_ok store"
proof -
  obtain ai where named: "\<forall>def \<in> set (pe_defs env). named def"
    and built: "\<forall>(t, spec) \<in> set (st_tables store). \<exists>def \<in> set (pe_defs env). buildEventTable (pe_schema env) def ai = Inr spec"
    using assms unfolding tables_ok_def by blast
  have "columns_ok (ts_columns spec)" if mem: "(t, spec) \<in> set (st_tables store)" for t spec
  proof -
    obtain def where "def \<in> set (pe_defs env)" "buildEventTable (pe_schema env) def ai = Inr spec"
      using built mem by blast
    with named show ?thesis by (blast intro: built_columns_ok)
  qed
  then show ?thesis unfolding store_ok_def list_all_iff by auto
qed

lemma decoded_row_typed:
  assumes "tables_ok env store" "def \<in> set (pe_defs env)" "decodeLogToRow dec def l t = Inr row"
  shows "row_typed (spec_columns store (dr_tableName row)) (dr_columns row)" "map_has (dr_tableName row) (st_tables store)"
proof -
  obtain ai spec where s: "map_of (st_tables store) (ed_tableName def) = Some spec"
    "buildEventTable (pe_schema env) def ai = Inr spec" "named def"
    using assms(1,2) unfolding tables_ok_def by fast
  have t: "dr_tableName row = ed_tableName def" using assms(3) by (rule decode_row_foldE)
  show "map_has (dr_tableName row) (st_tables store)" unfolding map_has_iff t s(1) by simp
  have cols: "spec_columns store (dr_tableName row) = ts_columns spec" by (simp add: spec_columns_def t s(1))
  show "row_typed (spec_columns store (dr_tableName row)) (dr_columns row)"
    unfolding cols
  proof (rule built_columns [OF s(2,3)])
    fix cols paramColumns
    assume h: "eventColumns (ed_event def) = Inr cols" "[] \<notin> set (map ec_name cols)"
      "ts_columns spec = COMMON_COLUMNS @ paramColumns"
      "\<And>cs. cs \<in> set paramColumns \<Longrightarrow> cs_address cs \<Longrightarrow> \<exists>c \<in> set cols. ec_name c = cs_name cs \<and> ec_abiType c = ''address''"
    have "address_typed (cs_name cs) (dr_columns row)" if "cs \<in> set paramColumns" "cs_address cs" for cs
      using h(4) [OF that] decoded_typed [OF assms(3) h(1,2)] by force
    then show "row_typed (ts_columns spec) (dr_columns row)"
      unfolding row_typed_def list_all_iff h(3) by (auto simp: COMMON_COLUMNS_def address_typed_def)
  qed
qed

lemma createStore_tables_ok:
  assumes "createStore (pe_schema env) (pe_defs env) width ai = Inr store"
    "distinct (map ed_tableName (pe_defs env))" "\<And>d. d \<in> set (pe_defs env) \<Longrightarrow> named d"
  shows "tables_ok env store"
proof -
  obtain specs where l2: "list_all2 (\<lambda>d s. buildEventTable (pe_schema env) d ai = Inr s) (pe_defs env) specs"
    and st: "st_tables store = foldl (\<lambda>m s. map_set (ts_table s) s m) [] specs"
    using assms(1) by (auto simp: createStore_def bindE_Inr mapE_Inr)
  have names: "map ts_table specs = map ed_tableName (pe_defs env)"
    using l2 by (rule list_all2_induct) (auto elim: buildEventTable_Inr)
  have "foldl (\<lambda>m s. map_set (ts_table s) s m) m specs = m @ map (\<lambda>s. (ts_table s, s)) specs"
    if "distinct (map ts_table specs)" "set (map ts_table specs) \<inter> set (map_keys m) = {}" for m and specs :: "table_spec list"
    using that by (induction specs arbitrary: m) (simp_all add: map_set_new)
  from this [of specs "[]"] have st': "st_tables store = map (\<lambda>s. (ts_table s, s)) specs"
    using assms(2) by (simp add: names st)
  have dist: "distinct (map_keys (st_tables store))" using assms(2) by (simp add: st' comp_def names)
  have "\<exists>spec. map_of (st_tables store) (ed_tableName d) = Some spec \<and> buildEventTable (pe_schema env) d ai = Inr spec"
    if mem: "d \<in> set (pe_defs env)" for d
  proof -
    obtain s where s: "s \<in> set specs" "buildEventTable (pe_schema env) d ai = Inr s"
      using list_all2_left [OF l2 mem] by blast
    then have "ts_table s = ed_tableName d" by (auto elim: buildEventTable_Inr)
    then have "(ed_tableName d, s) \<in> set (st_tables store)" using s(1) by (force simp: st')
    then have "map_of (st_tables store) (ed_tableName d) = Some s" using dist by (simp add: map_of_is_SomeI)
    with s(2) show ?thesis by blast
  qed
  moreover have "\<forall>(t, spec) \<in> set (st_tables store). \<exists>d \<in> set (pe_defs env). buildEventTable (pe_schema env) d ai = Inr spec"
    using list_all2_right [OF l2] by (fastforce simp: st')
  ultimately show ?thesis using assms(3) unfolding tables_ok_def by blast
qed

end
