(* ===== verification/Delivery.thy ===== *)
theory Delivery
  imports Ingest
begin

text \<open>
  The guarantee of the ingest loop over its whole life: whatever node answers (as long as they are
  honest), connection faults, lost acknowledgements, head announcements, crashes and restarts
  happen, the event tables hold each tracked log up to the cursor exactly once and the dead
  letters hold the undecodable ones.
\<close>

subsection \<open>The tables hold the chain up to the cursor\<close>

definition holds_chain :: "pipe_env \<Rightarrow> chain \<Rightarrow> int \<Rightarrow> store \<Rightarrow> db \<Rightarrow> bool" where
  "holds_chain env chain cur store d \<longleftrightarrow>
     db_cursor d = Some cur \<and> initialCursor (pe_cfg env) \<le> cur \<and>
     (let logs = logs_between chain (initialCursor (pe_cfg env) + 1) cur in
        (\<forall>t. table_view store d t = map (row_values (spec_columns store t)) (expected_rows env logs t) \<and>
             map sr_key (db_rows d t) = map the_key (expected_rows env logs t)) \<and>
        db_dead d = expected_dead env logs)"

definition ingested :: "pipe_env \<Rightarrow> chain \<Rightarrow> store \<Rightarrow> db \<Rightarrow> bool" where
  "ingested env chain store d \<longleftrightarrow> (\<exists>cur. holds_chain env chain cur store d) \<and> db_ok store d"

lemma decode_logs_row:
  assumes "decode_log env tms l = Some (Inr r)"
  shows "the_key (dr_columns r) = log_id l"
  using assms decoded_key(2) by (auto simp: decode_log_def Let_def split: option.splits if_splits sum.splits)

lemma expected_rows_Cons:
  "expected_rows env (l # logs) t =
     (case decode_log env [] l of
        Some (Inr r) \<Rightarrow> if dr_tableName r = t then dr_columns r # expected_rows env logs t else expected_rows env logs t
      | _ \<Rightarrow> expected_rows env logs t)"
  by (cases "decode_logs env [] logs") (simp add: expected_rows_def rows_for_simps split: option.split sum.split)

lemma expected_keys:
  "the_key ` set (expected_rows env logs t) \<subseteq> log_id ` set logs"
  "distinct (map log_id logs) \<Longrightarrow> distinct (map the_key (expected_rows env logs t))"
proof -
  show mem: "the_key ` set (expected_rows env logs t) \<subseteq> log_id ` set logs" for logs
  proof (induction logs)
    case Nil
    show ?case by (simp add: expected_rows_def rows_for_def)
  next
    case (Cons l logs)
    then show ?case by (auto simp: expected_rows_Cons decode_logs_row split: option.splits sum.splits if_splits)
  qed
  show "distinct (map log_id logs) \<Longrightarrow> distinct (map the_key (expected_rows env logs t))"
  proof (induction logs)
    case Nil
    show ?case by (simp add: expected_rows_def rows_for_def)
  next
    case (Cons l logs)
    moreover have "log_id l \<notin> the_key ` set (expected_rows env logs t)" using Cons.prems mem [of logs] by auto
    ultimately show ?case by (auto simp: expected_rows_Cons decode_logs_row split: option.splits sum.splits)
  qed
qed

lemma spec_columns_same: "st_tables store' = st_tables store \<Longrightarrow> spec_columns store' = spec_columns store"
  by (simp add: spec_columns_def fun_eq_iff)

lemma table_view_same:
  assumes "st_tables store' = st_tables store" "db_rows d' = db_rows d" "db_addresses d' = db_addresses d"
  shows "table_view store' d' t = table_view store d t"
proof -
  have "address_of d' = address_of d" by (simp add: address_of_def fun_eq_iff assms(3))
  then have "cell_view d' = cell_view d" by (intro ext) (simp only: cell_view_def)
  then have "row_view d' = row_view d" by (simp add: row_view_def fun_eq_iff)
  then show ?thesis by (simp add: table_view_def assms(2) spec_columns_same [OF assms(1)])
qed

lemma db_ok_same: "st_tables store' = st_tables store \<Longrightarrow> db_ok store' d = db_ok store d"
  unfolding db_ok_def by (drule spec_columns_same) simp

lemma db_ok_sequence:
  assumes "db_ok store d" "db_nextId d \<le> n"
  shows "db_ok store (d\<lparr>db_nextId := n\<rparr>)"
proof -
  have "addresses_ok d" using assms(1) by (simp add: db_ok_def)
  with assms(2) have adr: "addresses_ok (d\<lparr>db_nextId := n\<rparr>)" by (force simp: addresses_ok_def)
  have parts: "has_partition (d\<lparr>db_nextId := n\<rparr>) = has_partition d" by (simp add: has_partition_def fun_eq_iff)
  have same: "db_addresses (d\<lparr>db_nextId := n\<rparr>) = db_addresses d" "db_blocks (d\<lparr>db_nextId := n\<rparr>) = db_blocks d"
    "db_rows (d\<lparr>db_nextId := n\<rparr>) = db_rows d" by simp_all
  from assms(1) adr show ?thesis unfolding db_ok_def parts same by blast
qed

lemma holds_chain_same:
  assumes "st_tables store' = st_tables store" "db_rows d' = db_rows d" "db_addresses d' = db_addresses d"
    "db_cursor d' = db_cursor d" "db_dead d' = db_dead d"
  shows "holds_chain env chain cur store' d' = holds_chain env chain cur store d"
  by (simp add: holds_chain_def table_view_same [OF assms(1-3)] spec_columns_same [OF assms(1)] assms(2,4,5))

lemma commitBatch_tables:
  assumes "commitBatch flt store rows dead cur d = (r, d', store')"
  shows "st_tables store' = st_tables store"
  using assms by (cases rule: commitBatch_transaction) auto

text \<open>A batch made of the logs after the cursor moves the guarantee to its last block.\<close>

lemma commit_extends:
  assumes chain: "chain_ok chain" and tables: "tables_ok env store"
    and d: "holds_chain env chain cur store d" "db_ok store d" and ge: "cur \<le> safeTo"
    and dec: "decode_logs env tms (logs_between chain (cur + 1) safeTo) = (rows, dead)"
    and run: "commitBatch flt store rows dead safeTo d = (Inr n, d', store')"
  shows "holds_chain env chain safeTo store d'" "db_ok store d'"
proof -
  let ?new = "logs_between chain (cur + 1) safeTo" and ?c0 = "initialCursor (pe_cfg env)"
  let ?old = "logs_between chain (?c0 + 1) cur"
  have c: "db_cursor d = Some cur" "?c0 \<le> cur" using d(1) by (simp_all add: holds_chain_def)
  have typed: "row_typed (spec_columns store (dr_tableName r)) (dr_columns r)" if "r \<in> set rows" for r
    using decode_logs_origin [of r env tms ?new] dec that decoded_row_typed(1) [OF tables] by fastforce
  note effect = commitBatch_effect [OF run tables_ok_store_ok [OF tables] d(2)]
  have rows: "rows_for t rows = expected_rows env ?new t" for t using decode_logs_time(1) [of t env tms ?new] dec by simp
  have dead: "dead = expected_dead env ?new" using decode_logs_time(2) [of env tms ?new] dec by simp
  have fresh: "fresh_rows (map sr_key (db_rows d t)) (rows_for t rows) = expected_rows env ?new t" for t
  proof (unfold rows, rule fresh_rows_new)
    show "distinct (map the_key (expected_rows env ?new t))" by (rule expected_keys(2) [OF distinct_log_ids [OF chain]])
    have keys: "set (map sr_key (db_rows d t)) = the_key ` set (expected_rows env ?old t)"
      using d(1) unfolding holds_chain_def Let_def by (metis set_map)
    show "set (map sr_key (db_rows d t)) \<inter> the_key ` set (expected_rows env ?new t) = {}"
    proof (rule ccontr)
      assume "set (map sr_key (db_rows d t)) \<inter> the_key ` set (expected_rows env ?new t) \<noteq> {}"
      then obtain k where k: "k \<in> the_key ` set (expected_rows env ?old t)" "k \<in> the_key ` set (expected_rows env ?new t)"
        unfolding keys by blast
      have "k \<in> log_id ` set ?old" by (rule subsetD [OF expected_keys(1) k(1)])
      moreover have "k \<in> log_id ` set ?new" by (rule subsetD [OF expected_keys(1) k(2)])
      ultimately obtain l l' where l: "l \<in> set ?old" "l' \<in> set ?new" "log_id l = log_id l'" by auto
      then show False
        using logs_between_blocks [OF chain l(1)] logs_between_blocks [OF chain l(2)] by (simp add: log_id_def)
    qed
  qed
  have all: "logs_between chain (?c0 + 1) safeTo = ?old @ ?new" by (rule logs_between_split) (use c ge in auto)
  have before: "table_view store d t = map (row_values (spec_columns store t)) (expected_rows env ?old t)"
    "map sr_key (db_rows d t) = map the_key (expected_rows env ?old t)" "db_dead d = expected_dead env ?old" for t
    using d(1) unfolding holds_chain_def Let_def by blast+
  have "table_view store d' t = map (row_values (spec_columns store t)) (expected_rows env (?old @ ?new) t)" for t
    by (subst effect(1)) (simp_all add: typed before(1) expected_append fresh [unfolded before(2)] before(2))
  moreover have "map sr_key (db_rows d' t) = map the_key (expected_rows env (?old @ ?new) t)" for t
    by (subst effect(2)) (simp_all add: typed before(2) expected_append fresh [unfolded before(2)])
  moreover have "db_dead d' = expected_dead env (?old @ ?new)"
    by (subst effect(4)) (simp_all add: typed before(3) expected_append dead)
  moreover have "db_cursor d' = Some safeTo" by (subst effect(3)) (simp_all add: typed c(1))
  moreover have "?c0 \<le> safeTo" using c(2) ge by simp
  ultimately show "holds_chain env chain safeTo store d'"
    unfolding holds_chain_def all Let_def by blast
  show "db_ok store d'" by (rule effect(7)) (rule typed)
qed

subsection \<open>A round keeps the guarantee\<close>

definition pipe_ok :: "pipe_env \<Rightarrow> chain \<Rightarrow> pipe \<Rightarrow> bool" where
  "pipe_ok env chain p \<longleftrightarrow> ingested env chain (pl_store p) (pl_db p) \<and> tables_ok env (pl_store p)"

lemma pipe_ok_same: "pl_db p' = pl_db p \<Longrightarrow> pl_store p' = pl_store p \<Longrightarrow> pipe_ok env chain p' = pipe_ok env chain p"
  by (simp add: pipe_ok_def)

lemma tables_ok_same: "st_tables store' = st_tables store \<Longrightarrow> tables_ok env store' = tables_ok env store"
  by (simp add: tables_ok_def)

lemma commit_keeps:
  assumes chain: "chain_ok chain" and tables: "tables_ok env store" and ing: "ingested env chain store d"
    and c: "db_cursor d = Some cur" "cur \<le> safeTo"
    and dec: "decode_logs env tms (logs_between chain (cur + 1) safeTo) = (rows, dead)"
    and run: "commitBatch flt store rows dead safeTo d = (r, d', store')"
  shows "ingested env chain store' d'" "tables_ok env store'"
proof -
  note same = commitBatch_tables [OF run]
  have d: "holds_chain env chain cur store d" "db_ok store d"
    using ing c by (auto simp: ingested_def holds_chain_def)
  show "tables_ok env store'" using tables by (simp add: tables_ok_same [OF same])
  consider (committed) n final where "commitBatch NoFault store rows dead safeTo d = (Inr n, d', final)"
    | (undone) "db_nextId d \<le> db_nextId d'" "d' = d\<lparr>db_nextId := db_nextId d'\<rparr>"
    using commitBatch_outcome [OF run] by auto
  then show "ingested env chain store' d'"
  proof cases
    case committed
    note ext = commit_extends [OF chain tables d c(2) dec committed]
    have "holds_chain env chain safeTo store' d'" using ext(1) by (simp add: holds_chain_same [OF same refl refl refl refl])
    moreover have "db_ok store' d'" using ext(2) by (simp add: db_ok_same [OF same])
    ultimately show ?thesis by (auto simp: ingested_def)
  next
    case undone
    have "db_ok store d'" using db_ok_sequence [OF d(2) undone(1)] undone(2) by simp
    have rest: "db_rows d' = db_rows d" "db_addresses d' = db_addresses d" "db_cursor d' = db_cursor d" "db_dead d' = db_dead d"
      by (subst undone(2); simp)+
    have "holds_chain env chain cur store' d'" using d(1) by (simp add: holds_chain_same [OF same rest])
    moreover from \<open>db_ok store d'\<close> have "db_ok store' d'" by (simp add: db_ok_same [OF same])
    ultimately show ?thesis by (auto simp: ingested_def)
  qed
qed

text \<open>What the completeness guard lets through is complete.\<close>

lemma fetched_complete:
  assumes chain: "chain_ok chain" and honest: "honest env chain inp"
    and target: "finalized = hi_number h \<and> sig = Some h \<or> ri_latest inp = Inr finalized"
    and rg: "planRange cur finalized sp = Some rg" "1 \<le> sp"
    and f: "fetch_round env inp sig finalized rg = Fetched logs safeTo"
  shows "logs = logs_between chain (cur + 1) safeTo \<and> cur \<le> safeTo"
proof -
  obtain node where node: "\<And>f t logs. ri_getLogs inp (queried env) f t = Inr logs \<Longrightarrow> logs = logs_between chain f (min t node)"
    "\<And>h. ri_queryHead inp = Inr h \<Longrightarrow> h \<le> node" "\<And>h. ri_latest inp = Inr h \<Longrightarrow> h \<le> node"
    using honest unfolding honest_def by blast
  have r: "cur < finalized" "fromBlock rg = cur + 1" "toBlock rg = min finalized (cur + sp)"
    using rg(1) by (simp_all add: planRange_Some)
  obtain raw where raw: "ri_getLogs inp (queried env) (fromBlock rg) (toBlock rg) = Inr raw"
    using f by (auto simp: fetch_round_def split: sum.splits)
  note raw' = node(1) [OF raw, unfolded r(2)]
  show ?thesis
  proof (cases "case sig of Some h \<Rightarrow> finalized = hi_number h | None \<Rightarrow> False")
    case True
    then obtain q where q: "ri_queryHead inp = Inr q" "\<not> q < fromBlock rg" "safeTo = (if q < toBlock rg then q else toBlock rg)"
      "logs = filter (\<lambda>l. lg_blockNumber l \<le> safeTo) raw"
      using f raw by (auto simp: fetch_round_def Let_def split: sum.splits if_splits)
    have "q \<le> node" by (rule node(2) [OF q(1)])
    with q r rg(2) have "cur + 1 \<le> safeTo" "safeTo \<le> min (toBlock rg) node" by auto
    then show ?thesis using filter_logs_between [OF chain, of "cur + 1" safeTo "min (toBlock rg) node"] by (simp add: q(4) raw')
  next
    case False
    with target have "ri_latest inp = Inr finalized" by auto
    then have "finalized \<le> node" by (rule node(3))
    moreover have "safeTo = toBlock rg" "logs = raw" using False f raw by (auto simp: fetch_round_def)
    ultimately show ?thesis using r rg(2) by (auto simp: raw' min_def)
  qed
qed

lemma report_blocks_same [simp]: "pl_db (report_blocks a b p) = pl_db p" "pl_store (report_blocks a b p) = pl_store p"
    "pl_sizer (report_blocks a b p) = pl_sizer p" "pl_signal (report_blocks a b p) = pl_signal p"
  by (simp_all add: report_blocks_def)

lemma set_phase_same [simp]: "pl_db (set_phase ph e p) = pl_db p" "pl_store (set_phase ph e p) = pl_store p"
    "pl_sizer (set_phase ph e p) = pl_sizer p" "pl_signal (set_phase ph e p) = pl_signal p"
  by (simp_all add: set_phase_def)

lemma finish_round_keeps:
  assumes "chain_ok chain" "pipe_ok env chain p" "db_cursor (pl_db p) = Some cur" "cur \<le> safeTo"
    "logs = logs_between chain (cur + 1) safeTo"
  shows "pipe_ok env chain (snd (finish_round env inp fin logs safeTo p))"
proof (cases "round_times p inp logs")
  case (Inl e)
  with assms(2) show ?thesis by (simp add: finish_round_def)
next
  case (Inr tms)
  obtain rows dead where dec: "decode_logs env tms logs = (rows, dead)" by fastforce
  obtain r d' store' where run: "commitBatch (ri_fault inp) (pl_store p) rows dead safeTo (pl_db p) = (r, d', store')"
    by (metis prod_cases3)
  have keeps: "ingested env chain store' d'" "tables_ok env store'"
    using commit_keeps [OF assms(1) _ _ assms(3,4) dec [unfolded assms(5)] run] assms(2) by (simp_all add: pipe_ok_def)
  show ?thesis
    by (cases r) (use keeps in \<open>simp_all add: finish_round_def Inr dec run Let_def pipe_ok_def\<close>)
qed

definition pipe_inv :: "pipe_env \<Rightarrow> chain \<Rightarrow> pipe \<Rightarrow> bool" where
  "pipe_inv env chain p \<longleftrightarrow> pipe_ok env chain p \<and> (case pl_sizer p of Some s \<Rightarrow> sizer_good s | None \<Rightarrow> 1 \<le> wc_batchBlocks (pe_cfg env))"

lemma pipe_inv_span: "pipe_inv env chain p \<Longrightarrow> 1 \<le> sizer_span env p"
  by (auto simp: pipe_inv_def sizer_span_def sizer_good_def split: option.splits)

lemma pipe_inv_same:
  "pl_db p' = pl_db p \<Longrightarrow> pl_store p' = pl_store p \<Longrightarrow> pl_sizer p' = pl_sizer p \<Longrightarrow> pipe_inv env chain p' = pipe_inv env chain p"
  by (simp add: pipe_inv_def pipe_ok_def)

lemma finish_round_sizer:
  "pl_sizer (snd (finish_round env inp fin logs safeTo p)) \<in> {pl_sizer p, map_option (snd \<circ> sizer_succeeded) (pl_sizer p)}"
  by (auto simp: finish_round_def Let_def split: sum.split prod.split)

lemma finish_round_inv:
  assumes "chain_ok chain" "pipe_inv env chain p" "db_cursor (pl_db p) = Some cur" "cur \<le> safeTo"
    "logs = logs_between chain (cur + 1) safeTo"
  shows "pipe_inv env chain (snd (finish_round env inp fin logs safeTo p))"
proof -
  have "pipe_ok env chain (snd (finish_round env inp fin logs safeTo p))"
    using finish_round_keeps [OF assms(1) _ assms(3,4,5)] assms(2) by (simp add: pipe_inv_def)
  moreover have "sizer_good (snd (sizer_succeeded s))" if "sizer_good s" for s
    using sizer.good_grow [OF that] by simp
  ultimately show ?thesis
    using finish_round_sizer [of env inp fin logs safeTo p] assms(2) by (auto simp: pipe_inv_def split: option.splits)
qed

lemma run_range_inv:
  assumes chain: "chain_ok chain" "honest env chain inp" and inv: "pipe_inv env chain p"
    and cur: "db_cursor (pl_db p) = Some cur"
    and target: "fin = hi_number h \<and> sig = Some h \<or> ri_latest inp = Inr fin"
    and rg: "planRange cur fin (sizer_span env p) = Some rg"
  shows "pipe_inv env chain (snd (run_range env inp sig fin rg p))"
proof -
  define p' where "p' = (if toBlock rg < fin \<or> pt_phase (pl_phase p) \<noteq> Live then set_phase Backfilling None p else p)"
  have same: "pl_db p' = pl_db p" "pl_store p' = pl_store p" "pl_sizer p' = pl_sizer p" by (simp_all add: p'_def)
  have inv': "pipe_inv env chain p'" using inv by (simp add: pipe_inv_same [OF same])
  show ?thesis
  proof (cases "fetch_round env inp sig fin rg")
    case (FetchError e)
    have "sizer_good (snd (sizer_shrink s))" if "sizer_good s" for s
      using sizer.good_shrink [OF that] by simp
    then show ?thesis
      using inv' by (auto simp: run_range_def p'_def [symmetric] FetchError Let_def pipe_inv_def pipe_ok_def split: option.splits)
  next
    case NodeBehind
    then show ?thesis using inv' by (simp add: run_range_def p'_def [symmetric] Let_def)
  next
    case (Fetched logs safeTo)
    note complete = fetched_complete [OF chain target rg pipe_inv_span [OF inv] Fetched]
    have "pipe_inv env chain (snd (finish_round env inp fin logs safeTo p'))"
      using complete cur by (intro finish_round_inv [OF chain(1) inv', where cur = cur]) (simp_all add: same)
    then show ?thesis by (simp add: run_range_def p'_def [symmetric] Fetched Let_def)
  qed
qed

lemma runOnce_inv:
  assumes "chain_ok chain" "honest env chain inp" "pipe_inv env chain p"
  shows "pipe_inv env chain (snd (runOnce env inp p))"
proof (cases "ri_readFails inp")
  case True
  with assms(3) show ?thesis by (simp add: runOnce_def)
next
  case False
  obtain cur where cur: "db_cursor (pl_db p) = Some cur"
    using assms(3) by (auto simp: pipe_inv_def pipe_ok_def ingested_def holds_chain_def)
  define sig where "sig = (if nc_finalityTag (wc_network (pe_cfg env)) = Latest then latestPrimaryHead (pl_signal p) else None)"
  define tgt where "tgt = (case sig of Some h \<Rightarrow> if hi_number h > cur then Inr (hi_number h) else ri_latest inp | None \<Rightarrow> ri_latest inp)"
  have run: "runOnce env inp p = (case tgt of Inl e \<Rightarrow> (Inl e, p) | Inr fin \<Rightarrow>
      (case planRange cur fin (sizer_span env (report_blocks cur fin p)) of
         None \<Rightarrow> (Inr False, set_phase Live None (report_blocks cur fin p))
       | Some rg \<Rightarrow> run_range env inp sig fin rg (report_blocks cur fin p)))"
    by (simp only: runOnce_def getCursor_def cur sig_def tgt_def Let_def False if_False option.case)
  show ?thesis
  proof (cases tgt)
    case (Inl e)
    with assms(3) show ?thesis by (simp add: run)
  next
    case (Inr fin)
    let ?p = "report_blocks cur fin p"
    have inv: "pipe_inv env chain ?p" using assms(3) by (simp add: pipe_inv_same [of ?p p])
    have target: "fin = hi_number (the sig) \<and> sig = Some (the sig) \<or> ri_latest inp = Inr fin"
      using Inr by (auto simp: tgt_def split: option.splits if_splits)
    show ?thesis
    proof (cases "planRange cur fin (sizer_span env ?p)")
      case None
      then show ?thesis using inv by (simp add: run Inr pipe_inv_same [of "set_phase Live None ?p" ?p])
    next
      case (Some rg)
      have "pipe_inv env chain (snd (run_range env inp sig fin rg ?p))"
        using run_range_inv [OF assms(1,2) inv _ target Some] cur by simp
      with Some show ?thesis by (simp add: run Inr)
    qed
  qed
qed

lemma loop_iteration_inv:
  assumes "chain_ok chain" "honest env chain inp" "pipe_inv env chain p" "loop_iteration env inp backoffMs p = (out, nxt, p')"
  shows "pipe_inv env chain p'"
proof -
  have inv: "pipe_inv env chain (snd (runOnce env inp p))" by (rule runOnce_inv [OF assms(1-3)])
  then show ?thesis
    using assms(4) by (auto simp: loop_iteration_def pipe_inv_def pipe_ok_def split: prod.splits sum.splits if_splits)
qed

subsection \<open>Starting and restarting\<close>

lemma bootstrap_extends:
  assumes "bootstrap flt schema control tables meta d = (r, d')"
  shows "extends_meta d d'"
proof -
  have run: "transaction flt (bootstrap_body schema control tables meta) d = (r, d')"
    using assms by (simp add: bootstrap_def bootstrap_body_def)
  note body = tx_relD [OF bootstrap_body_extends [of schema control tables meta]]
  show ?thesis
  proof (cases rule: transaction_outcome [OF bootstrap_body_fault_free run])
    case (1 a c)
    then show ?thesis using body [OF 1(1)] by simp
  next
    case (2 a c e)
    then show ?thesis using body [OF 2(1)] by simp
  next
    case (3 e work)
    have "extends_meta d work" by (rule 3(3) [OF bootstrap_body_extends extends_meta_refl])
    then show ?thesis using 3(2) extends_meta_seq reflpD [OF extends_meta_refl] by simp
  qed
qed

text \<open>A database no worker has written to: the schema may exist, the cursor not.\<close>

definition untouched :: "db \<Rightarrow> bool" where
  "untouched d \<longleftrightarrow> db_cursor d = None \<and> db_rows d = (\<lambda>_. []) \<and> db_dead d = [] \<and> db_blocks d = [] \<and> db_addresses d = []"

definition db_inv :: "pipe_env \<Rightarrow> chain \<Rightarrow> store \<Rightarrow> db \<Rightarrow> bool" where
  "db_inv env chain store d \<longleftrightarrow> untouched d \<or> ingested env chain store d"

lemma extends_meta_inv:
  assumes "extends_meta d d'"
  shows "untouched d' = untouched d" "ingested env chain store d' = ingested env chain store d"
proof -
  obtain ss kvs where d': "d' = d\<lparr>db_ddl := db_ddl d @ ss, db_meta := db_meta d @ kvs\<rparr>"
    using assms by (auto simp: extends_meta_def)
  have "has_partition d' = has_partition d" by (simp add: d' has_partition_def fun_eq_iff)
  moreover have "addresses_ok d' = addresses_ok d" by (simp add: d' addresses_ok_def)
  moreover have "db_addresses d' = db_addresses d" "db_blocks d' = db_blocks d" "db_rows d' = db_rows d" by (simp_all add: d')
  ultimately have "db_ok store d' = db_ok store d" unfolding db_ok_def by (simp only:)
  moreover have "holds_chain env chain cur store d' = holds_chain env chain cur store d" for cur
    by (rule holds_chain_same) (simp_all add: d')
  ultimately show "ingested env chain store d' = ingested env chain store d" by (simp add: ingested_def)
  show "untouched d' = untouched d" by (simp add: d' untouched_def)
qed

lemma initCursor_inv:
  assumes "db_inv env chain store d"
  shows "ingested env chain store (initCursor (initialCursor (pe_cfg env)) d)"
proof (cases "db_cursor d")
  case (Some cur)
  then show ?thesis using assms by (simp add: db_inv_def untouched_def initCursor_def)
next
  case None
  then have u: "untouched d" using assms by (auto simp: db_inv_def ingested_def holds_chain_def)
  have "logs_between chain (initialCursor (pe_cfg env) + 1) (initialCursor (pe_cfg env)) = []"
    by (simp add: logs_between_def)
  moreover have "expected_rows env [] t = []" "expected_dead env [] = []" for t
    by (simp_all add: expected_rows_def expected_dead_def rows_for_def)
  ultimately have "holds_chain env chain (initialCursor (pe_cfg env)) store (initCursor (initialCursor (pe_cfg env)) d)"
    using u by (simp add: holds_chain_def untouched_def initCursor_def table_view_def)
  moreover have "db_ok store (initCursor (initialCursor (pe_cfg env)) d)"
    using u by (simp add: db_ok_def untouched_def initCursor_def addresses_ok_def)
  ultimately show ?thesis by (auto simp: ingested_def)
qed

lemma bootstrapIndexer_inv:
  assumes "bootstrapIndexer flt cflt env store d = (r, d')" "db_inv env chain store d"
  shows "db_inv env chain store d'" "r = Inr () \<Longrightarrow> ingested env chain store d'"
proof -
  obtain r1 d1 where b: "bootstrap flt (pe_schema env) (buildControlTables (pe_schema env)) (map snd (st_tables store)) (indexer_meta env store) d = (r1, d1)"
    by (meson prod.exhaust_sel)
  have d1: "db_inv env chain store d1"
    using assms(2) extends_meta_inv [OF bootstrap_extends [OF b]] by (simp add: db_inv_def)
  note init = initCursor_inv [OF d1]
  show "db_inv env chain store d'" "r = Inr () \<Longrightarrow> ingested env chain store d'"
    using assms(1) d1 init by (cases r1; cases cflt; simp add: bootstrapIndexer_def b db_inv_def; blast)+
qed

text \<open>A fresh schema is always accepted: with a working connection nothing stops a first start.\<close>

lemma mapT_run_ddl_runs:
  "\<exists>us d. mapT (\<lambda>s. query (run_ddl s)) ss NoFault c = (Inr us, d) \<and> db_meta (cn_db d) = db_meta (cn_db c)"
  by (rule mapT_progress) (simp_all add: query_Inr run_ddl_def)

lemma record_meta_runs:
  assumes "\<not> map_has (fst kv) (db_meta (cn_db c))"
  shows "\<exists>u d. record_meta schema False kv NoFault c = (Inr u, d) \<and> db_meta (cn_db d) = db_meta (cn_db c) @ [kv]"
proof (cases kv)
  case (Pair k v)
  have new: "map_of (db_meta (cn_db c)) k = None" using assms map_has_iff [of k "db_meta (cn_db c)"] by (simp add: Pair)
  show ?thesis
    using assms by (auto simp: Pair record_meta_def bindT_Inr query_Inr insert_meta_def select_meta_def returnT_eq
        map_add_def new split: option.split)
qed

lemma mapT_record_meta_runs:
  "distinct (map_keys kvs) \<Longrightarrow> set (map_keys kvs) \<inter> set (map_keys (db_meta (cn_db c))) = {} \<Longrightarrow>
   \<exists>us d. mapT (record_meta schema False) kvs NoFault c = (Inr us, d)"
proof (induction kvs arbitrary: c)
  case (Cons kv kvs)
  obtain u c1 where 1: "record_meta schema False kv NoFault c = (Inr u, c1)" "db_meta (cn_db c1) = db_meta (cn_db c) @ [kv]"
    using record_meta_runs [of kv c schema] Cons.prems(2) by auto
  obtain us c2 where "mapT (record_meta schema False) kvs NoFault c1 = (Inr us, c2)"
    using Cons.IH [of c1] Cons.prems 1(2) by auto
  with 1(1) show ?case by (simp add: bindT_def returnT_def)
qed (simp add: returnT_def)

lemma bootstrap_fresh:
  assumes "\<not> relation_exists schema ''_cursor'' d" "db_meta d = []" "distinct (map_keys (with_layout meta))"
  shows "\<exists>d'. bootstrap NoFault schema control tables meta d = (Inr (), d')"
proof -
  let ?c = "\<lparr>cn_db = d, cn_sent = 1\<rparr>"
  obtain c1 where 1: "assertLayout schema NoFault ?c = (Inr False, c1)" "cn_db c1 = d"
    using assms(1) by (auto simp: assertLayout_def bindT_Inr query_Inr returnT_eq)
  obtain us c2 where 2: "mapT (\<lambda>s. query (run_ddl s)) control NoFault c1 = (Inr us, c2)" "db_meta (cn_db c2) = []"
    using mapT_run_ddl_runs [of control c1] 1(2) assms(2) by auto
  obtain vs c3 where 3: "mapT (record_meta schema False) (with_layout meta) NoFault c2 = (Inr vs, c3)"
    using mapT_record_meta_runs [of "with_layout meta" c2 schema] 2(2) assms(3) by auto
  obtain ws c4 where 4: "mapT (\<lambda>s. query (run_ddl s)) (concat (map ts_statements tables)) NoFault c3 = (Inr ws, c4)"
    using mapT_run_ddl_runs by blast
  have "bootstrap_body schema control tables meta NoFault ?c = (Inr (), c4)"
    by (simp add: bootstrap_body_def bindT_def 1(1) 2(1) 3 4 returnT_def del: One_nat_def)
  then show ?thesis by (simp add: bootstrap_def bootstrap_body_def [symmetric] transaction_unfold del: One_nat_def)
qed

lemma distinct_map_set: "distinct (map_keys m) \<Longrightarrow> distinct (map_keys (map_set k v m))"
  by (induction m) (auto simp: keys_map_set)

lemma indexer_meta_distinct: "distinct (map_keys (with_layout (indexer_meta env store)))"
proof -
  have "distinct (map_keys (foldl (\<lambda>m d. map_set (f d) (g d) m) m ds))" if "distinct (map_keys m)"
    for f :: "event_def \<Rightarrow> string" and g :: "event_def \<Rightarrow> string" and m ds
    using that by (induction ds arbitrary: m) (simp_all add: distinct_map_set)
  then show ?thesis by (simp add: with_layout_def indexer_meta_def contractMeta_def distinct_map_set)
qed

lemma first_start: "\<exists>d'. bootstrapIndexer NoFault NoFault env store empty_db = (Inr (), d') \<and> db_cursor d' = Some (initialCursor (pe_cfg env))"
proof -
  obtain d' where b: "bootstrap NoFault (pe_schema env) (buildControlTables (pe_schema env)) (map snd (st_tables store)) (indexer_meta env store) empty_db = (Inr (), d')"
    using bootstrap_fresh [OF _ _ indexer_meta_distinct] by (fastforce simp: empty_db_def relation_exists_def)
  moreover have "db_cursor d' = None"
    using bootstrap_extends [OF b] by (auto simp: extends_meta_def empty_db_def)
  ultimately show ?thesis by (simp add: bootstrapIndexer_def initCursor_def)
qed

subsection \<open>Every reachable state\<close>

datatype worker_state = Down db | Up pipe

text \<open>
  The life of a worker over one schema: it starts on what is in the database, runs iterations of
  its loop on honest answers, hears head announcements, and may stop at any time (a stop inside a
  transaction is a fault of that round followed by \<open>stopped\<close>).
\<close>

inductive worker_reach :: "pipe_env \<Rightarrow> chain \<Rightarrow> store \<Rightarrow> worker_state \<Rightarrow> bool" for env chain store where
  fresh: "worker_reach env chain store (Down empty_db)"
| refused: "worker_reach env chain store (Down d) \<Longrightarrow> bootstrapIndexer flt cflt env store d = (Inl e, d') \<Longrightarrow>
    worker_reach env chain store (Down d')"
| started: "worker_reach env chain store (Down d) \<Longrightarrow> bootstrapIndexer flt cflt env store d = (Inr (), d') \<Longrightarrow>
    worker_reach env chain store (Up (new_pipe env store d'))"
| iterated: "worker_reach env chain store (Up p) \<Longrightarrow> honest env chain inp \<Longrightarrow>
    loop_iteration env inp backoffMs p = (out, nxt, p') \<Longrightarrow> worker_reach env chain store (Up p')"
| announced: "worker_reach env chain store (Up p) \<Longrightarrow>
    worker_reach env chain store (Up (p\<lparr>pl_signal := snd (notify h primary (pl_signal p))\<rparr>))"
| stopped: "worker_reach env chain store (Up p) \<Longrightarrow> worker_reach env chain store (Down (pl_db p))"

inductive_cases worker_reach_UpE: "worker_reach env chain store (Up p)"

lemma commit_keeps_tables: "st_tables (pl_store (snd (finish_round env inp fin logs safeTo p))) = st_tables (pl_store p)"
proof (cases "round_times p inp logs")
  case (Inr tms)
  obtain rows dead where dec: "decode_logs env tms logs = (rows, dead)" by fastforce
  obtain r d' store' where run: "commitBatch (ri_fault inp) (pl_store p) rows dead safeTo (pl_db p) = (r, d', store')"
    by (metis prod_cases3)
  show ?thesis using commitBatch_tables [OF run] by (cases r) (simp_all add: finish_round_def Inr dec run Let_def)
qed (simp add: finish_round_def)

lemma run_range_tables: "st_tables (pl_store (snd (run_range env inp sig fin rg p))) = st_tables (pl_store p)"
  by (cases "fetch_round env inp sig fin rg") (simp_all add: run_range_def Let_def commit_keeps_tables split: option.split)

lemma runOnce_tables: "st_tables (pl_store (snd (runOnce env inp p))) = st_tables (pl_store p)"
proof -
  have "st_tables (pl_store (snd (case tgt of Inl e \<Rightarrow> (Inl e, p) | Inr fin \<Rightarrow>
      (let p = report_blocks cur fin p in case planRange cur fin (sizer_span env p) of
         None \<Rightarrow> (Inr False, set_phase Live None p) | Some rg \<Rightarrow> run_range env inp sig fin rg p)))) = st_tables (pl_store p)" for tgt cur sig
    by (cases tgt) (simp_all add: Let_def run_range_tables split: option.split)
  then show ?thesis by (cases "db_cursor (pl_db p)") (simp_all add: runOnce_def getCursor_def Let_def del: split_paired_All)
qed

lemma loop_tables: "loop_iteration env inp b p = (out, nxt, p') \<Longrightarrow> st_tables (pl_store p') = st_tables (pl_store p)"
  using runOnce_tables [of env inp p] by (auto simp: loop_iteration_def split: prod.splits sum.splits if_splits)

lemma reach_inv:
  assumes "worker_reach env chain store s" "chain_ok chain" "tables_ok env store" "1 \<le> wc_batchBlocks (pe_cfg env)"
  shows "case s of Down d \<Rightarrow> db_inv env chain store d
         | Up p \<Rightarrow> pipe_inv env chain p \<and> st_tables (pl_store p) = st_tables store"
  using assms(1)
proof induction
  case fresh
  show ?case by (simp add: db_inv_def untouched_def empty_db_def)
next
  case (refused d flt cflt e d')
  then show ?case using bootstrapIndexer_inv(1) by fastforce
next
  case (started d flt cflt d')
  then have "ingested env chain store d'" using bootstrapIndexer_inv(2) by fastforce
  with assms(3,4) show ?case
    by (simp add: new_pipe_def pipe_inv_def pipe_ok_def sizer_good_new)
next
  case (iterated p inp b out nxt p')
  then show ?case using loop_iteration_inv [OF assms(2) iterated(2) _ iterated(3)] loop_tables [OF iterated(3)] by simp
next
  case (announced p h primary)
  then show ?case by (simp add: pipe_inv_def pipe_ok_def)
next
  case (stopped p)
  then have i: "ingested env chain (pl_store p) (pl_db p)" and t: "st_tables store = st_tables (pl_store p)"
    by (simp_all add: pipe_inv_def pipe_ok_def)
  from i obtain cur where "holds_chain env chain cur (pl_store p) (pl_db p)" "db_ok (pl_store p) (pl_db p)"
    by (auto simp: ingested_def)
  then have "ingested env chain store (pl_db p)"
    unfolding ingested_def using holds_chain_same [OF t refl refl refl refl] db_ok_same [OF t] by metis
  then show ?case by (simp add: db_inv_def)
qed


subsection \<open>A life in the concrete\<close>

definition live_log :: raw_log where
  "live_log = sample_log\<lparr>lg_address := ''0x3600000000000000000000000000000000000000''\<rparr>"

definition live_chain :: chain where
  "live_chain b = (if b = 7 then [live_log] else [])"

definition live_env :: pipe_env where
  "live_env = \<lparr>pe_cfg = \<lparr>wc_indexerName = ''usdc'',
       wc_network = \<lparr>nc_chainId = 1, nc_rpc = [''http://a''], nc_announceRpc = [], nc_explorerApi = None, nc_finalityTag = Latest\<rparr>,
       wc_contracts = [\<lparr>cc_name = ''usdc'', cc_address = ''0x3600000000000000000000000000000000000000'', cc_abiPath = None,
          cc_abiInline = None, cc_startBlock = Some 7, cc_events = []\<rparr>],
       wc_batchBlocks = 10, wc_intervalMs = 2000, wc_partitionBlocks = 10, wc_addressIndexes = None, wc_insights = None\<rparr>,
     pe_defs = [usdc_def], pe_schema = ''idx'', pe_decode = sample_decoder\<rparr>"

definition live_input :: round_input where
  "live_input = \<lparr>ri_readFails = False, ri_latest = Inr 7, ri_getLogs = (\<lambda>_ f t. Inr (logs_between live_chain f (min t 7))),
     ri_queryHead = Inr 7, ri_getBlock = (\<lambda>_. Inr 0), ri_fault = NoFault\<rparr>"

definition live_store :: "failure + store" where
  "live_store = createStore ''idx'' [usdc_def] 10 False"

lemma live_dead: "set logs \<subseteq> {live_log} \<Longrightarrow> expected_dead live_env logs = []"
proof (induction logs)
  case (Cons l logs)
  have "case decode_log live_env [] live_log of Some (Inr _) \<Rightarrow> True | _ \<Rightarrow> False" by code_simp
  with Cons show ?case
    by (cases "decode_logs live_env [] logs") (auto simp: expected_dead_def split: option.splits sum.splits)
qed (simp add: expected_dead_def)


subsection \<open>Where the guarantee ends\<close>

definition late_log :: raw_log where
  "late_log = live_log\<lparr>lg_blockNumber := 8\<rparr>"

definition late_chain :: chain where
  "late_chain b = (if b = 8 then [late_log] else [])"

text \<open>
  The completeness guard reads the node's height beside the logs, not after them: a node that
  answers the logs while it has block 7 and its height when it has block 8 passes the guard, the
  round takes block 8 for complete without its log, and the cursor moves past it.
\<close>

theorem guard_race:
  "(let inp = live_input\<lparr>ri_getLogs := (\<lambda>_ f t. Inr (logs_between late_chain f (min t 7))), ri_queryHead := Inr 8\<rparr>;
        rg = \<lparr>fromBlock = 8, toBlock = 8\<rparr>
    in planRange 7 8 10 = Some rg \<and> fetch_round live_env inp (Some \<lparr>hi_number = 8, hi_timestamp = 0\<rparr>) 8 rg = Fetched [] 8 \<and>
       decode_logs live_env [] (logs_between late_chain 8 8) \<noteq> ([], []))"
  by code_simp

definition started_at :: "int \<Rightarrow> pipe_env" where
  "started_at head = live_env\<lparr>pe_cfg := (pe_cfg live_env)\<lparr>wc_contracts :=
     map (\<lambda>c. c\<lparr>cc_startBlock := Some (resolveStartBlock None head)\<rparr>) (wc_contracts (pe_cfg live_env))\<rparr>\<rparr>"

text \<open>
  A contract configured without a start block gets the head of each process start as its start
  block. The worker that started at head 7 stores the log of block 7; the same worker, restarted at
  head 20 with its cursor still at 6, reads that block and drops the log.
\<close>

theorem restart_gap:
  "snd (decode_logs (started_at 7) [] [live_log]) = [] \<and> length (fst (decode_logs (started_at 7) [] [live_log])) = 1 \<and>
   decode_logs (started_at 20) [] [live_log] = ([], [])"
  by code_simp

end
