(* ===== verification/Insights.thy ===== *)
theory Insights
  imports Context InsightsDb Delivery
begin

text \<open>
  \<open>worker/src/insights.ts\<close>: the loop that gives every indexed event a lane, behind the ingest
  cursor. A round reads the next rows, their transactions and parties, describes them, asks the
  model about what no rule decides, and commits rows and cursor together.
\<close>

subsection \<open>Targets and settings\<close>

record insight_target = event_source +
  it_contractName :: string
  it_address :: string
  it_eventName :: string
  it_token :: "token_info option"

record called_contract =
  kc_name :: string
  kc_functions :: "(string \<times> string) list"

datatype insights_start = StartCursor int | BehindHead int int

record insights_env =
  ie_schema :: string
  ie_start :: insights_start
  ie_targets :: "insight_target list"
  ie_called :: "(string \<times> called_contract) list"
  ie_batchBlocks :: int
  ie_intervalMs :: int
  ie_pgReal :: "rat \<Rightarrow> rat"      \<comment> \<open>how a \<open>real\<close> comes back from the server\<close>

definition MAX_ROWS_PER_ROUND :: nat where "MAX_ROWS_PER_ROUND = 2000"

definition insightTarget :: "(string \<times> token_info) list \<Rightarrow> event_def \<Rightarrow> failure + insight_target" where
  "insightTarget tokens d =
     bindE (eventColumns (ed_event d)) (\<lambda>cols.
       Inr \<lparr>es_tableName = ed_tableName d,
            es_transferColumns = (if isTransferEvent d then Some (ec_name (cols ! 0), ec_name (cols ! 1), ec_name (cols ! 2)) else None),
            it_contractName = ed_contractName d,
            it_address = ed_address d,
            it_eventName = ev_name (ed_event d),
            it_token = (if isTransferEvent d
              then Some (case map_of tokens (ed_address d) of Some t \<Rightarrow> t | None \<Rightarrow> \<lparr>tk_label = ed_contractName d, tk_decimals = None\<rparr>)
              else None)\<rparr>)"

definition insightTargets :: "event_def list \<Rightarrow> (string \<times> token_info) list \<Rightarrow> failure + insight_target list" where
  "insightTargets defs tokens = mapE (insightTarget tokens) defs"

definition insightsStart :: "worker_config \<Rightarrow> insights_start" where
  "insightsStart cfg =
     (case Option.bind (wc_insights cfg) ic_startBlock of
        None \<Rightarrow> StartCursor (initialCursor cfg)
      | Some a \<Rightarrow> if a < 0 then BehindHead (- a) (-1) else StartCursor (a - 1))"

definition callOf :: "tx_context option \<Rightarrow> (string \<times> called_contract) list \<Rightarrow> call_info option" where
  "callOf ctx called =
     (case ctx of None \<Rightarrow> None
      | Some c \<Rightarrow>
          (case Option.bind (truthy (tc_to c)) (map_of called) of None \<Rightarrow> None
           | Some contract \<Rightarrow> Some \<lparr>ci_contract = kc_name contract, ci_fn = map_of (kc_functions contract) (tc_selector c)\<rparr>))"

fun fact_name :: "fact \<Rightarrow> string" where
  "fact_name Bridge = ''bridge''"
| "fact_name Liquidity = ''liquidity''"
| "fact_name Lending = ''lending''"
| "fact_name Vault = ''vault''"
| "fact_name Swap = ''swap''"
| "fact_name Market = ''market''"
| "fact_name Batch = ''batch''"
| "fact_name Payout = ''payout''"
| "fact_name Wrap = ''wrap''"
| "fact_name Signed = ''signed''"
| "fact_name SmartAccount = ''smart_account''"
| "fact_name Fee = ''fee''"

subsection \<open>The state of the loop and what it is told\<close>

datatype stage = ModelStage | RpcStage | DbStage

datatype insights_failure = StageFailed stage string | OtherFailed string

record insights =
  iz_idb :: idb
  iz_partitions :: partitions
  iz_context :: context_source
  iz_laya :: laya
  iz_blocksBehind :: int
  iz_classified :: "string list"       \<comment> \<open>lanes counted by the metric, in order\<close>
  iz_errors :: "stage list"
  iz_backOffs :: nat                    \<comment> \<open>calls of \<open>backOffShared\<close>\<close>

text \<open>The outside of an iteration: which of the round's queries fail, what the chain and the gate answer.\<close>

record insights_input =
  ii_phase :: phase
  ii_fails :: "nat \<Rightarrow> bool"
  ii_initLost :: bool                   \<comment> \<open>the new cursor is written and its acknowledgement lost\<close>
  ii_reads :: chain_reads
  ii_clock :: int
  ii_gate :: laya_gate
  ii_fault :: fault
  ii_identity :: "string option"

record prepared_round =
  pr_ingested :: int
  pr_fromBlock :: int
  pr_toBlock :: int
  pr_described :: "(event_row \<times> description) list"

definition db_failed :: "insights_failure" where
  "db_failed = StageFailed DbStage (message_of connection_lost)"

subsection \<open>Preparing a round\<close>

definition senders_of :: "(string \<times> tx_context option) list \<Rightarrow> (string \<times> bool) list" where
  "senders_of ctxs = foldl (\<lambda>m (_, c). case c of Some x \<Rightarrow> map_set (tc_sender x) False m | None \<Rightarrow> m) [] ctxs"

definition context_of :: "(string \<times> tx_context option) list \<Rightarrow> event_row \<Rightarrow> tx_context option" where
  "context_of ctxs r = (case map_of ctxs (er_txHash r) of Some c \<Rightarrow> c | None \<Rightarrow> None)"

definition asked_parties :: "(string \<times> tx_context option) list \<Rightarrow> event_row list \<Rightarrow> string list" where
  "asked_parties ctxs rows =
     filter (\<lambda>a. \<not> map_has a (senders_of ctxs))
       (concat (map (\<lambda>r. case (er_transfer r, context_of ctxs r) of (Some t, Some _) \<Rightarrow> [et_from t, et_to t] | _ \<Rightarrow> []) rows))"

definition transfer_of :: "event_row \<Rightarrow> transfer_fields option" where
  "transfer_of r = map_option (\<lambda>t. \<lparr>tf_from = et_from t, tf_to = et_to t, tf_value = et_value t\<rparr>) (er_transfer r)"

definition describe_row :: "insights_env \<Rightarrow> (string \<times> tx_context option) list \<Rightarrow> (string \<times> bool) list \<Rightarrow> event_row \<Rightarrow> description option" where
  "describe_row env ctxs parties r =
     map_option (\<lambda>t. describeEvent
       \<lparr>di_contractName = it_contractName t, di_contractAddress = it_address t, di_eventName = it_eventName t,
        di_transfer = transfer_of r, di_token = it_token t, di_ctx = context_of ctxs r, di_parties = parties,
        di_call = callOf (context_of ctxs r) (ie_called env)\<rparr>)
       (map_of (rev (map (\<lambda>t. (es_tableName t, t)) (ie_targets env))) (er_tableName r))"

text \<open>The rows of a range, described; a row's target is always there.\<close>

definition describe_rows :: "insights_env \<Rightarrow> insights_input \<Rightarrow> event_row list \<Rightarrow> insights \<Rightarrow>
    (insights_failure + (event_row \<times> description) list) \<times> insights" where
  "describe_rows env inp rows st =
     (case contexts (ii_reads inp) (ii_clock inp) (map (\<lambda>r. \<lparr>xr_txHash = er_txHash r, xr_blockNumber = er_blockNumber r\<rparr>) rows) (iz_context st) of
        (Inl e, cx) \<Rightarrow> (Inl (StageFailed RpcStage (ie_message e)), st\<lparr>iz_context := cx\<rparr>)
      | (Inr ctxs, cx) \<Rightarrow>
          (case partyKinds (ii_reads inp) (asked_parties ctxs rows) cx of
             (Inl e, cx) \<Rightarrow> (Inl (StageFailed RpcStage (ie_message e)), st\<lparr>iz_context := cx\<rparr>)
           | (Inr kinds, cx) \<Rightarrow>
               (let parties = foldl (\<lambda>m (a, k). map_set a k m) kinds (senders_of ctxs)
                in case mapE (\<lambda>r. case describe_row env ctxs parties r of
                         Some d \<Rightarrow> Inr (r, d) | None \<Rightarrow> Inl (OtherFailed ''Cannot read properties of undefined'')) rows of
                     Inl e \<Rightarrow> (Inl e, st\<lparr>iz_context := cx\<rparr>)
                   | Inr described \<Rightarrow> (Inr described, st\<lparr>iz_context := cx\<rparr>))))"

definition prepare_range :: "insights_env \<Rightarrow> insights_input \<Rightarrow> int \<Rightarrow> int \<Rightarrow> insights \<Rightarrow>
    (insights_failure + prepared_round option) \<times> insights" where
  "prepare_range env inp cur ing st =
     (let st = st\<lparr>iz_blocksBehind := (if ing > cur then ing - cur else 0)\<rparr>;
          tables = map event_source.truncate (ie_targets env); d = id_db (iz_idb st)
      in case planRange cur ing (ie_batchBlocks env) of
           None \<Rightarrow> (Inr None, st)
         | Some rg \<Rightarrow>
             if ii_fails inp 3 then (Inl db_failed, st)
             else (case capRange (ie_schema env) tables (fromBlock rg) (toBlock rg) MAX_ROWS_PER_ROUND d of
                 Inl e \<Rightarrow> (Inl (StageFailed DbStage (message_of e)), st)
               | Inr toB \<Rightarrow>
                   if ii_fails inp 4 then (Inl db_failed, st)
                   else (case readEventRows (ie_schema env) tables (fromBlock rg) toB d of
                       Inl e \<Rightarrow> (Inl (StageFailed DbStage (message_of e)), st)
                     | Inr rows \<Rightarrow>
                         (case describe_rows env inp rows st of
                            (Inl e, st) \<Rightarrow> (Inl e, st)
                          | (Inr described, st) \<Rightarrow>
                              (Inr (Some \<lparr>pr_ingested = ing, pr_fromBlock = fromBlock rg, pr_toBlock = toB, pr_described = described\<rparr>), st)))))"

text \<open>A start behind the head is resolved by the first round.\<close>

definition resolve_start :: "insights_env \<Rightarrow> insights_input \<Rightarrow> int \<Rightarrow> insights \<Rightarrow> (insights_failure + int) \<times> insights" where
  "resolve_start env inp ing st =
     (case ie_start env of
        StartCursor _ \<Rightarrow> (Inl (OtherFailed ''no insights cursor - call bootstrapInsights first''), st)
      | BehindHead behind flr \<Rightarrow>
          if ii_fails inp 1 then (Inl db_failed, st)
          else (let from = ing - behind;
                    st = st\<lparr>iz_idb := initInsightsCursor (if from > flr then from else flr) (iz_idb st)\<rparr>
                in if ii_initLost inp \<or> ii_fails inp 2 then (Inl db_failed, st)
                   else (case getInsightsCursor (iz_idb st) of
                           None \<Rightarrow> (Inl (OtherFailed ''insights cursor missing after initInsightsCursor''), st)
                         | Some cur \<Rightarrow> (Inr cur, st))))"

definition prepareRound :: "insights_env \<Rightarrow> insights_input \<Rightarrow> insights \<Rightarrow> (insights_failure + prepared_round option) \<times> insights" where
  "prepareRound env inp st =
     (if ii_fails inp 0 then (Inl db_failed, st)
      else (case getCursor (id_db (iz_idb st)) of
         None \<Rightarrow> (Inl (OtherFailed ''no ingest cursor - call bootstrapIndexer first''), st)
       | Some ing \<Rightarrow>
           (case getInsightsCursor (iz_idb st) of
              Some cur \<Rightarrow> prepare_range env inp cur ing st
            | None \<Rightarrow>
                (case resolve_start env inp ing st of
                   (Inl e, st) \<Rightarrow> (Inl e, st)
                 | (Inr cur, st) \<Rightarrow> prepare_range env inp cur ing st))))"

subsection \<open>Finishing a round\<close>

definition asked_sentences :: "(event_row \<times> description) list \<Rightarrow> string list" where
  "asked_sentences described = set_of_list (map (\<lambda>(_, d). ds_sentence d) (filter (\<lambda>(_, d). ds_ruled d = []) described))"

definition insight_of :: "(string \<times> lane_answer) list \<Rightarrow> string option \<Rightarrow> event_row \<times> description \<Rightarrow> insight_row" where
  "insight_of answers model = (\<lambda>(r, d).
     (let answer = (if ds_ruled d \<noteq> [] then None else map_of answers (ds_sentence d));
          settled = settleLane answer (ds_ruled d)
      in \<lparr>ir_blockNumber = er_blockNumber r, ir_logIndex = er_logIndex r, ir_lane = sl_lane settled, ir_laneP = sl_laneP settled,
          ir_ruled = (ds_ruled d \<noteq> []), ir_protocol = ds_protocol d, ir_facts = map fact_name (ds_facts d),
          ir_probabilities = map_option la_probabilities answer, ir_sentence = ds_sentence d,
          ir_model = (case answer of Some _ \<Rightarrow> model | None \<Rightarrow> None)\<rparr>))"

definition finishRound :: "insights_env \<Rightarrow> insights_input \<Rightarrow> prepared_round \<Rightarrow> string option \<Rightarrow> insights \<Rightarrow>
    (insights_failure + unit) \<times> insights" where
  "finishRound env inp rnd model st =
     (let ask = asked_sentences (pr_described rnd)
      in case (if ask = [] then (Inr [], iz_laya st) else classify (ii_gate inp) ask (iz_laya st)) of
           (Inl e, ly) \<Rightarrow> (Inl (StageFailed ModelStage (laya_message e)), st\<lparr>iz_laya := ly\<rparr>)
         | (Inr answers, ly) \<Rightarrow>
             (let st = st\<lparr>iz_laya := ly\<rparr>; rows = map (insight_of answers model) (pr_described rnd)
              in case commitInsights (ie_pgReal env) (ii_fault inp) (iz_partitions st) rows (pr_toBlock rnd) (iz_idb st) of
                   (Inl e, s', ps') \<Rightarrow> (Inl (StageFailed DbStage (message_of e)), st\<lparr>iz_idb := s', iz_partitions := ps'\<rparr>)
                 | (Inr inserted, s', ps') \<Rightarrow>
                     (Inr (), st\<lparr>iz_idb := s', iz_partitions := ps', iz_classified := iz_classified st @ inserted,
                        iz_blocksBehind := (if pr_ingested rnd > pr_toBlock rnd then pr_ingested rnd - pr_toBlock rnd else 0)\<rparr>)))"

definition runInsightsOnce :: "insights_env \<Rightarrow> insights_input \<Rightarrow> string option \<Rightarrow> insights \<Rightarrow> (insights_failure + bool) \<times> insights" where
  "runInsightsOnce env inp model st =
     (case prepareRound env inp st of
        (Inl e, st) \<Rightarrow> (Inl e, st)
      | (Inr None, st) \<Rightarrow> (Inr False, st)
      | (Inr (Some rnd), st) \<Rightarrow>
          (case finishRound env inp rnd model st of (Inl e, st) \<Rightarrow> (Inl e, st) | (Inr _, st) \<Rightarrow> (Inr True, st)))"

subsection \<open>The loop\<close>

record insights_loop =
  lp_model :: "string option"
  lp_backoffMs :: int
  lp_failing :: bool
  lp_pending :: "prepared_round option"

definition new_loop :: "string option \<Rightarrow> insights_loop" where
  "new_loop model = \<lparr>lp_model = model, lp_backoffMs = 1000, lp_failing = False, lp_pending = None\<rparr>"

definition next_insights_backoff :: "int \<Rightarrow> int" where
  "next_insights_backoff backoffMs = min (backoffMs * 2) 60000"

interpretation insights_backoff: doubling_backoff "\<lambda>n. (next_insights_backoff ^^ n) 1000" 1000 60000
  by (rule doubling_backoff_iterate) (simp_all add: next_insights_backoff_def)

definition stage_of :: "insights_failure \<Rightarrow> stage" where
  "stage_of e = (case e of StageFailed s _ \<Rightarrow> s | OtherFailed _ \<Rightarrow> DbStage)"

text \<open>The \<open>catch\<close> of an iteration: only a failed model call keeps its round.\<close>

definition caught :: "insights_failure \<Rightarrow> insights_loop \<Rightarrow> insights \<Rightarrow> pause \<times> insights_loop \<times> insights" where
  "caught e lp st =
     (SleepFor (lp_backoffMs lp),
      lp\<lparr>lp_pending := (if stage_of e \<noteq> ModelStage then None else lp_pending lp), lp_failing := True,
         lp_backoffMs := next_insights_backoff (lp_backoffMs lp)\<rparr>,
      st\<lparr>iz_errors := iz_errors st @ [stage_of e]\<rparr>)"

definition loop_prepare :: "insights_env \<Rightarrow> insights_input \<Rightarrow> insights_loop \<Rightarrow> insights \<Rightarrow> (insights_failure + insights_loop) \<times> insights" where
  "loop_prepare env inp lp st =
     (case lp_pending lp of
        Some _ \<Rightarrow> (Inr lp, st)
      | None \<Rightarrow> (case prepareRound env inp st of (Inl e, st) \<Rightarrow> (Inl e, st) | (Inr p, st) \<Rightarrow> (Inr (lp\<lparr>lp_pending := p\<rparr>), st)))"

definition loop_finish :: "insights_env \<Rightarrow> insights_input \<Rightarrow> insights_loop \<Rightarrow> insights \<Rightarrow> pause \<times> insights_loop \<times> insights" where
  "loop_finish env inp lp st =
     (case (case lp_pending lp of None \<Rightarrow> (Inr (), st) | Some rnd \<Rightarrow> finishRound env inp rnd (lp_model lp) st) of
        (Inl e, st) \<Rightarrow> caught e lp st
      | (Inr _, st) \<Rightarrow>
          (let progressed = (lp_pending lp \<noteq> None);
               lp = lp\<lparr>lp_pending := None\<rparr>;
               lp = (if lp_failing lp then lp\<lparr>lp_failing := False, lp_model := (case ii_identity inp of Some m \<Rightarrow> Some m | None \<Rightarrow> lp_model lp)\<rparr> else lp)
           in (if progressed then GoOn else WaitForHead (ie_intervalMs env), lp\<lparr>lp_backoffMs := 1000\<rparr>, st)))"

definition insights_iteration :: "insights_env \<Rightarrow> insights_input \<Rightarrow> insights_loop \<Rightarrow> insights \<Rightarrow> pause \<times> insights_loop \<times> insights" where
  "insights_iteration env inp lp st =
     (if ii_phase inp \<noteq> Live
      then (WaitForHead (ie_intervalMs env), lp, if ii_phase inp = Degraded then st\<lparr>iz_backOffs := iz_backOffs st + 1\<rparr> else st)
      else (case loop_prepare env inp lp st of
              (Inl e, st) \<Rightarrow> caught e lp st
            | (Inr lp, st) \<Rightarrow> loop_finish env inp lp st))"

subsection \<open>Start-up\<close>

definition token_table :: "event_def list \<Rightarrow> (string \<Rightarrow> string \<Rightarrow> token_info) \<Rightarrow> (string \<times> token_info) list" where
  "token_table defs readToken =
     foldl (\<lambda>m d. if isTransferEvent d \<and> \<not> map_has (ed_address d) m
                   then map_set (ed_address d) (readToken (ed_address d) (ed_contractName d)) m else m) [] defs"

definition called_contracts :: "(abi_function \<Rightarrow> string) \<Rightarrow> contract_config list \<Rightarrow> abi_json list \<Rightarrow> failure + (string \<times> called_contract) list" where
  "called_contracts toFunctionSelector cs abis =
     bindE (mapE (\<lambda>(c, abi). bindE (extractFunctionNames toFunctionSelector abi)
              (\<lambda>fns. Inr (map to_lower (cc_address c), \<lparr>kc_name = cc_name c, kc_functions = fns\<rparr>))) (zip cs abis))
       (\<lambda>kvs. Inr (foldl (\<lambda>m (k, v). map_set k v m) [] kvs))"

definition prepareInsights :: "(abi_function \<Rightarrow> string) \<Rightarrow> (rat \<Rightarrow> rat) \<Rightarrow> fault \<Rightarrow> worker_config \<Rightarrow> string \<Rightarrow> event_def list \<Rightarrow>
    abi_json list \<Rightarrow> string option \<Rightarrow> (string \<Rightarrow> string \<Rightarrow> token_info) \<Rightarrow> idb \<Rightarrow> (failure + insights_env \<times> insights) \<times> idb" where
  "prepareInsights toFunctionSelector pgReal flt cfg schema defs abis headerLine readToken s =
     (case wc_insights cfg of
        None \<Rightarrow> (Inl (PlainError ''insights are not configured''), s)
      | Some _ \<Rightarrow>
          (case (case truthy headerLine of None \<Rightarrow> Inr None | Some h \<Rightarrow> map_sum id Some (parseHeaderLine h)) of
             Inl e \<Rightarrow> (Inl (PlainError (laya_message e)), s)
           | Inr _ \<Rightarrow>
               (let tokens = token_table defs readToken; start = insightsStart cfg
                in case called_contracts toFunctionSelector (wc_contracts cfg) abis of
                     Inl e \<Rightarrow> (Inl e, s)
                   | Inr called \<Rightarrow>
                       (case bootstrapInsights flt schema (case start of StartCursor c \<Rightarrow> Some c | BehindHead _ _ \<Rightarrow> None) s of
                          (Inl e, s') \<Rightarrow> (Inl e, s')
                        | (Inr _, s') \<Rightarrow>
                            (case insightTargets defs tokens of
                               Inl e \<Rightarrow> (Inl e, s')
                             | Inr targets \<Rightarrow>
                                 (Inr (\<lparr>ie_schema = schema, ie_start = start, ie_targets = targets, ie_called = called,
                                        ie_batchBlocks = wc_batchBlocks cfg, ie_intervalMs = wc_intervalMs cfg, ie_pgReal = pgReal\<rparr>,
                                       \<lparr>iz_idb = s', iz_partitions = new_partitions schema (wc_partitionBlocks cfg),
                                        iz_context = new_context_source, iz_laya = \<lparr>ly_cache = [], ly_calls = []\<rparr>,
                                        iz_blocksBehind = 0, iz_classified = [], iz_errors = [], iz_backOffs = 0\<rparr>), s'))))))"

subsection \<open>What a finished round says\<close>

lemma fact_name_ok: "facts_ok (map fact_name fs)"
proof -
  have "fact_name f \<noteq> [] \<and> CHR '','' \<notin> set (fact_name f)" for f by (cases f) simp_all
  then show ?thesis by (simp add: facts_ok_def list_all_iff)
qed

definition described_ok :: "(event_row \<times> description) list \<Rightarrow> bool" where
  "described_ok ds \<longleftrightarrow> distinct (map (event_key \<circ> fst) ds) \<and> list_all (\<lambda>(r, _). 0 \<le> er_blockNumber r \<and> 0 \<le> er_logIndex r) ds"

lemma insight_of_position: "row_position (insight_of answers model x) = event_key (fst x)"
  by (simp add: insight_of_def row_position_def event_key_def Let_def split: prod.split)

lemma insight_rows_ok: "described_ok ds \<Longrightarrow> rows_ok (map (insight_of answers model) ds)"
  by (auto simp: described_ok_def rows_ok_def comp_def insight_of_position list_all_iff)
     (auto simp: insight_of_def Let_def fact_name_ok)

text \<open>What the row of an event should say: its ruled lane, or what the model answers to its sentence.\<close>

definition true_answer :: "(string \<Rightarrow> lane_answer) \<Rightarrow> description \<Rightarrow> lane_answer option" where
  "true_answer truth d = (if ds_ruled d \<noteq> [] then None else Some (truth (ds_sentence d)))"

definition true_insight :: "(string \<Rightarrow> lane_answer) \<Rightarrow> string option \<Rightarrow> event_row \<times> description \<Rightarrow> told" where
  "true_insight truth model = (\<lambda>(r, d).
     (let settled = settleLane (true_answer truth d) (ds_ruled d)
      in \<lparr>td_position = event_key r, td_lane = sl_lane settled, td_laneP = map_option fround (sl_laneP settled),
          td_ruled = (ds_ruled d \<noteq> []), td_protocol = (if ds_protocol d = [] then None else Some (ds_protocol d)),
          td_facts = map fact_name (ds_facts d), td_sentence = ds_sentence d,
          td_model = (if ds_ruled d \<noteq> [] then [] else case model of Some m \<Rightarrow> m | None \<Rightarrow> [])\<rparr>))"

lemma told_insight:
  assumes "ds_ruled (snd x) = [] \<Longrightarrow> map_of answers (ds_sentence (snd x)) = Some (truth (ds_sentence (snd x)))"
  shows "told_of (insight_of answers model x) = true_insight truth model x"
proof -
  obtain r d where x: "x = (r, d)" by (cases x)
  have "(if ds_ruled d \<noteq> [] then None else map_of answers (ds_sentence d)) = true_answer truth d"
    using assms by (simp add: x true_answer_def)
  then show ?thesis
    unfolding x insight_of_def true_insight_def told_of_def prod.case Let_def row_position_def event_key_def protocol_of_def model_of_def
    by (simp add: true_answer_def)
qed

definition laya_ok :: "(string \<Rightarrow> lane_answer) \<Rightarrow> insights \<Rightarrow> bool" where
  "laya_ok truth st \<longleftrightarrow> true_of truth (ly_cache (iz_laya st))"

lemma finishRound_cases:
  assumes "finishRound env inp rnd model st = (r, st')"
  obtains (model) e ly where "asked_sentences (pr_described rnd) \<noteq> []"
      "classify (ii_gate inp) (asked_sentences (pr_described rnd)) (iz_laya st) = (Inl e, ly)"
      "r = Inl (StageFailed ModelStage (laya_message e))" "st' = st\<lparr>iz_laya := ly\<rparr>"
    | (commit) answers ly q s' ps' where
      "(if asked_sentences (pr_described rnd) = [] then (Inr [], iz_laya st)
        else classify (ii_gate inp) (asked_sentences (pr_described rnd)) (iz_laya st)) = (Inr answers, ly)"
      "commitInsights (ie_pgReal env) (ii_fault inp) (iz_partitions st) (map (insight_of answers model) (pr_described rnd))
         (pr_toBlock rnd) (iz_idb st) = (q, s', ps')"
      "iz_idb st' = s'" "iz_laya st' = ly" "iz_partitions st' = ps'" "iz_context st' = iz_context st"
      "r = (case q of Inl e \<Rightarrow> Inl (StageFailed DbStage (message_of e)) | Inr _ \<Rightarrow> Inr ())"
proof (cases "if asked_sentences (pr_described rnd) = [] then (Inr [], iz_laya st)
        else classify (ii_gate inp) (asked_sentences (pr_described rnd)) (iz_laya st)")
  case (Pair x ly)
  show thesis
  proof (cases x)
    case (Inl e)
    with Pair have "asked_sentences (pr_described rnd) \<noteq> []" by (auto split: if_splits)
    with Pair Inl assms show thesis by (intro model) (auto simp: finishRound_def Let_def)
  next
    case (Inr answers)
    obtain q s' ps' where c: "commitInsights (ie_pgReal env) (ii_fault inp) (iz_partitions st) (map (insight_of answers model) (pr_described rnd))
         (pr_toBlock rnd) (iz_idb st) = (q, s', ps')" by (metis prod_cases3)
    show thesis
    proof (rule commit [OF Pair [unfolded Inr] c])
    qed (use assms Pair Inr c in \<open>auto simp: finishRound_def Let_def split: sum.splits\<close>)
  qed
qed

text \<open>
  C15: A finished round says of each of its events what the rules or the model say: the lane settled
  from the answer to its own sentence, whether the answer came from the cache or the gate now, with
  the sentence, facts and protocol described. If it fails, nothing is written, save when only the
  acknowledgement was lost, and the cache stays true.
\<close>

theorem finishRound_true:
  assumes "gate_ok (ii_gate inp) truth" "laya_ok truth st" "idb_ok (iz_idb st)" "described_ok (pr_described rnd)"
    "real_roundtrip (ie_pgReal env)" "finishRound env inp rnd model st = (r, st')"
  shows "laya_ok truth st' \<and>
    (let old = set (map in_key (id_insights (iz_idb st)));
         written = (full_view (iz_idb st') = full_view (iz_idb st) @
           map (Some \<circ> true_insight truth model) (filter (\<lambda>x. event_key (fst x) \<notin> old) (pr_described rnd)) \<and>
           id_cursor (iz_idb st') = map_option (\<lambda>_. pr_toBlock rnd) (id_cursor (iz_idb st)))
     in case r of
          Inr _ \<Rightarrow> written
        | Inl _ \<Rightarrow> ids_consumed (iz_idb st) (iz_idb st') \<or> ii_fault inp = AckLost \<and> written)"
  using assms(6)
proof (cases rule: finishRound_cases)
  case (model e ly)
  have "true_of truth (ly_cache ly)"
    using classify_spec(1) [OF assms(1) _ model(2)] assms(2) by (simp add: laya_ok_def)
  moreover have "ids_consumed (iz_idb st) (iz_idb st)"
    unfolding ids_consumed_def by (intro exI [of _ "id_nextSentence (iz_idb st)"] exI [of _ "id_nextLabel (iz_idb st)"]) simp
  ultimately show ?thesis using model(3,4) by (simp add: laya_ok_def)
next
  case (commit answers ly q s' ps')
  let ?ask = "asked_sentences (pr_described rnd)"
  have ans: "true_of truth (ly_cache ly) \<and> (\<forall>s \<in> set ?ask. map_of answers s = Some (truth s))"
  proof (cases "?ask = []")
    case True
    with commit(1) assms(2) show ?thesis by (simp add: laya_ok_def)
  next
    case False
    then have run: "classify (ii_gate inp) ?ask (iz_laya st) = (Inr answers, ly)" using commit(1) by simp
    have cache: "true_of truth (ly_cache (iz_laya st))" using assms(2) by (simp add: laya_ok_def)
    have "true_of truth answers \<and> set (map_keys answers) = set ?ask"
      using classify_spec(3) [OF assms(1) cache run] by simp
    then have "map_of answers s = Some (truth s)" if "s \<in> set ?ask" for s
      using that map_has_iff [of s answers] true_of_lookup [of truth answers s] by (cases "map_of answers s") auto
    with classify_spec(1) [OF assms(1) cache run] show ?thesis by blast
  qed
  let ?rows = "map (insight_of answers model) (pr_described rnd)"
  have told: "told_of (insight_of answers model x) = true_insight truth model x" if "x \<in> set (pr_described rnd)" for x
  proof (rule told_insight)
    assume "ds_ruled (snd x) = []"
    with that have "ds_sentence (snd x) \<in> set ?ask" 
      unfolding asked_sentences_def set_set_of_list set_map by (intro image_eqI [of _ _ x]) (auto simp: split_def)
    with ans show "map_of answers (ds_sentence (snd x)) = Some (truth (ds_sentence (snd x)))" by blast
  qed
  have new: "map (Some \<circ> told_of) (new_rows (iz_idb st) ?rows) = map (Some \<circ> true_insight truth model)
      (filter (\<lambda>x. event_key (fst x) \<notin> set (map in_key (id_insights (iz_idb st)))) (pr_described rnd))"
    using told by (simp add: new_rows_def filter_map comp_def insight_of_position)
  note out = commitInsights_outcome [OF assms(3) insight_rows_ok [OF assms(4)] assms(5) commit(2)]
  have "laya_ok truth st'" using ans commit(4) by (simp add: laya_ok_def)
  with out show ?thesis unfolding commit(3,7) Let_def round_written_def new by (cases q) auto
qed

definition sample_round :: prepared_round where
  "sample_round = \<lparr>pr_ingested = 9, pr_fromBlock = 7, pr_toBlock = 7, pr_described =
     [(\<lparr>er_tableName = ''t'', er_blockNumber = 7, er_txHash = ''0xa'', er_logIndex = 1, er_transfer = None\<rparr>,
       \<lparr>ds_sentence = ''Tokens moved.'', ds_facts = [Swap], ds_protocol = [], ds_ruled = []\<rparr>)]\<rparr>"

definition sample_insights :: insights where
  "sample_insights = \<lparr>iz_idb = sample_idb, iz_partitions = (new_partitions ''s'' 100)\<lparr>ps_made := [''_insights:0'']\<rparr>,
     iz_context = new_context_source, iz_laya = \<lparr>ly_cache = [], ly_calls = []\<rparr>, iz_blocksBehind = 0, iz_classified = [],
     iz_errors = [], iz_backOffs = 0\<rparr>"

definition sample_insights_env :: insights_env where
  "sample_insights_env = \<lparr>ie_schema = ''s'', ie_start = StartCursor 0, ie_targets = [], ie_called = [], ie_batchBlocks = 10,
     ie_intervalMs = 1000, ie_pgReal = (\<lambda>x. x)\<rparr>"

definition sample_told :: insights_input where
  "sample_told = \<lparr>ii_phase = Live, ii_fails = (\<lambda>_. False), ii_initLost = False, ii_reads = sample_reads, ii_clock = 0,
     ii_gate = sample_gate, ii_fault = NoFault, ii_identity = Some ''m''\<rparr>"

definition swap_answer :: lane_answer where
  "swap_answer = \<lparr>la_choice = ''swap'', la_probabilities = [(''swap'', 1)]\<rparr>"

lemma sample_classify:
  "\<exists>ly. classify sample_gate [''Tokens moved.''] \<lparr>ly_cache = [], ly_calls = []\<rparr> = (Inr [(''Tokens moved.'', swap_answer)], ly)"
  by (simp add: classify_def look_up_def set_of_list_def sample_gate_def ask_def laya_request_def chunks_of.simps BATCH_MAX_def bindE_def
      set_add_def swap_answer_def)

lemma sample_commit:
  "\<exists>x y. commitInsights (\<lambda>x. x) NoFault ((new_partitions ''s'' 100)\<lparr>ps_made := [''_insights:0'']\<rparr>)
     (map (insight_of [(''Tokens moved.'', swap_answer)] (Some ''m'')) (pr_described sample_round)) 7 sample_idb = (Inr [''swap''], x, y)"
proof -
  have "(case commitInsights (\<lambda>x. x) NoFault ((new_partitions ''s'' 100)\<lparr>ps_made := [''_insights:0'']\<rparr>)
     (map (insight_of [(''Tokens moved.'', swap_answer)] (Some ''m'')) (pr_described sample_round)) 7 sample_idb of (r, _) \<Rightarrow>
      (case r of Inl _ \<Rightarrow> [] | Inr x \<Rightarrow> x)) = [''swap'']"
    by code_simp
  then show ?thesis by (auto split: prod.splits sum.splits)
qed

theorem finishRound_true_witness:
  "\<exists>st'. finishRound sample_insights_env sample_told sample_round (Some ''m'') sample_insights = (Inr (), st') \<and>
     full_view (iz_idb st') = [Some (true_insight (\<lambda>_. swap_answer) (Some ''m'') (hd (pr_described sample_round)))] \<and>
     id_cursor (iz_idb st') = Some 7"
proof -
  obtain ly where cl: "classify sample_gate [''Tokens moved.''] \<lparr>ly_cache = [], ly_calls = []\<rparr> = (Inr [(''Tokens moved.'', swap_answer)], ly)"
    using sample_classify by blast
  obtain x y where cm: "commitInsights (\<lambda>x. x) NoFault ((new_partitions ''s'' 100)\<lparr>ps_made := [''_insights:0'']\<rparr>)
     (map (insight_of [(''Tokens moved.'', swap_answer)] (Some ''m'')) (pr_described sample_round)) 7 sample_idb = (Inr [''swap''], x, y)"
    using sample_commit by blast
  have ask: "asked_sentences (pr_described sample_round) = [''Tokens moved.'']"
    by (simp add: asked_sentences_def sample_round_def set_of_list_def set_add_def)
  obtain r st' where run: "finishRound sample_insights_env sample_told sample_round (Some ''m'') sample_insights = (r, st')" by fastforce
  have to7: "pr_toBlock sample_round = 7" by (simp add: sample_round_def)
  have r: "r = Inr ()"
    using run cl cm unfolding finishRound_def Let_def ask to7
    by (auto simp: sample_told_def sample_insights_def sample_insights_env_def)
  have "gate_ok (ii_gate sample_told) (\<lambda>_. swap_answer)"
    by (auto simp: gate_ok_def sample_told_def sample_gate_def swap_answer_def)
  moreover have "laya_ok (\<lambda>_. swap_answer) sample_insights" by (simp add: laya_ok_def sample_insights_def true_of_def)
  moreover have "idb_ok (iz_idb sample_insights)"
    by (simp add: sample_insights_def idb_ok_def sample_idb_def sentences.wf_def labels.wf_def dict_ok_def sentence_entries_def)
  moreover have "described_ok (pr_described sample_round)" by (simp add: described_ok_def sample_round_def)
  moreover have "real_roundtrip (ie_pgReal sample_insights_env)" using real_roundtrip_exact by (simp add: sample_insights_env_def)
  ultimately have "full_view (iz_idb st') = full_view (iz_idb sample_insights) @
         map (Some \<circ> true_insight (\<lambda>_. swap_answer) (Some ''m''))
           (filter (\<lambda>x. event_key (fst x) \<notin> set (map in_key (id_insights (iz_idb sample_insights)))) (pr_described sample_round)) \<and>
       id_cursor (iz_idb st') = map_option (\<lambda>_. pr_toBlock sample_round) (id_cursor (iz_idb sample_insights))"
    using finishRound_true [OF _ _ _ _ _ run] unfolding r by (simp add: Let_def)
  then show ?thesis using run r by (simp add: full_view_def sample_insights_def sample_idb_def sample_round_def)
qed

end
