(* ===== verification/Coverage.thy ===== *)
theory Coverage
  imports Insights
begin

text \<open>
  The guarantee of the insight loop over its whole life, beside ingest: whatever the gate, the chain
  and the connection do, and however rounds interleave with ingest's commits, crashes and restarts,
  the insights hold every indexed event between the start and the insights cursor exactly once.
\<close>

subsection \<open>What ingest does to the tables\<close>

definition target_keys :: "insights_env \<Rightarrow> db \<Rightarrow> (int \<times> int) list" where
  "target_keys env d = concat (map (\<lambda>t. map sr_key (db_rows d (es_tableName t))) (ie_targets env))"

text \<open>A log has one place in the chain: no two event tables share a position.\<close>

definition events_ok :: "insights_env \<Rightarrow> db \<Rightarrow> bool" where
  "events_ok env d \<longleftrightarrow> distinct (target_keys env d) \<and> list_all (\<lambda>(b, l). 0 \<le> b \<and> 0 \<le> l) (target_keys env d)"

text \<open>Ingest moves its cursor on and adds rows only past it.\<close>

definition ingest_step :: "insights_env \<Rightarrow> db \<Rightarrow> db \<Rightarrow> bool" where
  "ingest_step env d d' \<longleftrightarrow>
     (\<exists>c c'. db_cursor d = Some c \<and> db_cursor d' = Some c' \<and> c \<le> c' \<and>
        (\<forall>n \<in> set (map es_tableName (ie_targets env)). \<exists>new. map sr_key (db_rows d' n) = map sr_key (db_rows d n) @ new \<and>
           (\<forall>k \<in> set new. c < fst k))) \<and>
     events_ok env d'"

definition keys_between :: "insights_env \<Rightarrow> db \<Rightarrow> int \<Rightarrow> int \<Rightarrow> (int \<times> int) set" where
  "keys_between env d lo hi = {k \<in> set (target_keys env d). lo < fst k \<and> fst k \<le> hi}"

lemma keys_between_ingest:
  assumes "ingest_step env d d'" "db_cursor d = Some c" "hi \<le> c"
  shows "keys_between env d' lo hi = keys_between env d lo hi"
proof -
  have one: "{k \<in> set (map sr_key (db_rows d' (es_tableName t))). lo < fst k \<and> fst k \<le> hi} =
      {k \<in> set (map sr_key (db_rows d (es_tableName t))). lo < fst k \<and> fst k \<le> hi}" if "t \<in> set (ie_targets env)" for t
  proof -
    obtain new where "map sr_key (db_rows d' (es_tableName t)) = map sr_key (db_rows d (es_tableName t)) @ new" "\<forall>k \<in> set new. c < fst k"
    proof -
      have "\<forall>t \<in> set (ie_targets env). \<exists>new. map sr_key (db_rows d' (es_tableName t)) = map sr_key (db_rows d (es_tableName t)) @ new \<and> (\<forall>k \<in> set new. c < fst k)"
        using assms(1,2) unfolding ingest_step_def by auto
      with that show thesis using \<open>t \<in> set (ie_targets env)\<close> by blast
    qed
    with assms(3) show ?thesis by force
  qed
  have "keys_between env d lo hi = (\<Union>t \<in> set (ie_targets env). {k \<in> set (map sr_key (db_rows d (es_tableName t))). lo < fst k \<and> fst k \<le> hi})" for d
    by (auto simp: keys_between_def target_keys_def)
  with one show ?thesis by simp
qed

lemma ingest_step_cursor: "ingest_step env d d' \<Longrightarrow> \<exists>c c'. db_cursor d = Some c \<and> db_cursor d' = Some c' \<and> c \<le> c'"
  by (auto simp: ingest_step_def)

subsection \<open>The invariant\<close>

fun start_ok :: "insights_start \<Rightarrow> int \<Rightarrow> bool" where
  "start_ok (StartCursor n) c0 \<longleftrightarrow> c0 = n"
| "start_ok (BehindHead behind flr) c0 \<longleftrightarrow> flr \<le> c0"

text \<open>\<open>S\<close> holds the blocks an insights cursor may begin at. Up to the cursor \<open>c\<close>, counted from \<open>c0\<close>, the insights hold each event's position; none is past it.\<close>

definition covers :: "insights_env \<Rightarrow> int \<Rightarrow> int \<Rightarrow> idb \<Rightarrow> bool" where
  "covers env c0 c s \<longleftrightarrow> c0 \<le> c \<and> (c0 < c \<longrightarrow> (\<exists>cur. db_cursor (id_db s) = Some cur \<and> c \<le> cur)) \<and>
     set (map in_key (id_insights s)) = keys_between env (id_db s) c0 c"

definition covered :: "int set \<Rightarrow> insights_env \<Rightarrow> idb \<Rightarrow> bool" where
  "covered S env s \<longleftrightarrow> idb_ok s \<and> events_ok env (id_db s) \<and>
     (case id_cursor s of
        None \<Rightarrow> id_insights s = []
      | Some c \<Rightarrow> \<exists>c0. c0 \<in> S \<and> covers env c0 c s)"

lemma covered_cong:
  assumes "covered S env s" "idb_ok s'" "id_insights s' = id_insights s" "id_cursor s' = id_cursor s"
    "db_rows (id_db s') = db_rows (id_db s)" "db_cursor (id_db s') = db_cursor (id_db s)"
  shows "covered S env s'"
proof -
  have t: "target_keys env (id_db s') = target_keys env (id_db s)" by (simp add: target_keys_def assms(5))
  then have "keys_between env (id_db s') = keys_between env (id_db s)" by (simp add: keys_between_def fun_eq_iff)
  then have "covers env c0 c s' = covers env c0 c s" for c0 c by (simp add: covers_def assms(3,6))
  with t assms(1,2) show ?thesis unfolding covered_def events_ok_def assms(3,4) by (cases "id_cursor s") auto
qed

text \<open>A prepared round describes the events after the cursor up to its last block.\<close>

definition pending_ok :: "insights_env \<Rightarrow> idb \<Rightarrow> prepared_round \<Rightarrow> bool" where
  "pending_ok env s rnd \<longleftrightarrow>
     (\<exists>c cur. id_cursor s = Some c \<and> db_cursor (id_db s) = Some cur \<and> c < pr_toBlock rnd \<and> pr_toBlock rnd \<le> cur \<and>
        described_ok (pr_described rnd) \<and>
        set (map (event_key \<circ> fst) (pr_described rnd)) = keys_between env (id_db s) c (pr_toBlock rnd))"

definition loop_inv :: "int set \<Rightarrow> insights_env \<Rightarrow> insights_loop \<Rightarrow> insights \<Rightarrow> bool" where
  "loop_inv S env lp st \<longleftrightarrow> covered S env (iz_idb st) \<and> (case lp_pending lp of None \<Rightarrow> True | Some rnd \<Rightarrow> pending_ok env (iz_idb st) rnd)"

lemma covered_ingest:
  assumes "covered S env s" "ingest_step env (id_db s) d'"
  shows "covered S env (s\<lparr>id_db := d'\<rparr>)"
proof -
  obtain c c' where c: "db_cursor (id_db s) = Some c" "db_cursor d' = Some c'" "c \<le> c'"
    using ingest_step_cursor [OF assms(2)] by blast
  have cov: "covers env c0 k (s\<lparr>id_db := d'\<rparr>)" if "covers env c0 k s" for c0 k
  proof -
    have "keys_between env d' c0 k = keys_between env (id_db s) c0 k"
    proof (cases "c0 < k")
      case True
      with that c have "k \<le> c" by (auto simp: covers_def)
      from keys_between_ingest [OF assms(2) c(1) this] show ?thesis .
    next
      case False
      then show ?thesis by (auto simp: keys_between_def)
    qed
    with that c show ?thesis by (auto simp: covers_def)
  qed
  have "idb_ok (s\<lparr>id_db := d'\<rparr>) = idb_ok s"
    by (simp add: idb_ok_def sentences.wf_def labels.wf_def sentence_entries_def)
  moreover have "events_ok env d'" using assms(2) by (simp add: ingest_step_def)
  ultimately show ?thesis using assms(1) cov by (auto simp: covered_def split: option.splits)
qed

lemma pending_ingest:
  assumes "pending_ok env s rnd" "ingest_step env (id_db s) d'"
  shows "pending_ok env (s\<lparr>id_db := d'\<rparr>) rnd"
proof -
  obtain c cur where p: "id_cursor s = Some c" "db_cursor (id_db s) = Some cur" "c < pr_toBlock rnd" "pr_toBlock rnd \<le> cur"
    "described_ok (pr_described rnd)" "set (map (event_key \<circ> fst) (pr_described rnd)) = keys_between env (id_db s) c (pr_toBlock rnd)"
    using assms(1) unfolding pending_ok_def by blast
  obtain c2 c' where "db_cursor (id_db s) = Some c2" "db_cursor d' = Some c'" "c2 \<le> c'"
    using ingest_step_cursor [OF assms(2)] by blast
  moreover have "keys_between env d' c (pr_toBlock rnd) = keys_between env (id_db s) c (pr_toBlock rnd)"
    by (rule keys_between_ingest [OF assms(2) p(2,4)])
  ultimately show ?thesis using p unfolding pending_ok_def by auto
qed

subsection \<open>Preparing keeps the invariant\<close>

lemma event_of_key: "event_of d t r = Inr e \<Longrightarrow> event_key e = sr_key r"
  by (auto simp: event_of_def bindE_Inr event_key_def split: option.splits)

lemma mapE_event_keys: "mapE (event_of d t) rs = Inr es \<Longrightarrow> map event_key es = map sr_key rs"
  unfolding mapE_Inr by (rule sym, erule list_all2_induct) (auto dest: event_of_key)

lemma readEventRows_keys:
  assumes "readEventRows schema tables lo hi d = Inr rows"
  shows "set (map event_key rows) = set (concat (map (\<lambda>t. map sr_key (rows_between d (es_tableName t) lo hi)) tables))"
    and "distinct (concat (map (\<lambda>t. map sr_key (rows_between d (es_tableName t) lo hi)) tables)) \<Longrightarrow> distinct (map event_key rows)"
proof -
  obtain rss where rss: "mapE (\<lambda>t. mapE (event_of d t) (rows_between d (es_tableName t) lo hi)) tables = Inr rss"
    and rows: "rows = sort_key event_key (concat rss)"
    using assms by (auto simp: readEventRows_def bindE_Inr split: option.splits)
  have "list_all2 (\<lambda>t es. map event_key es = map sr_key (rows_between d (es_tableName t) lo hi)) tables rss"
    by (rule list_all2_mono [OF rss [unfolded mapE_Inr]]) (rule mapE_event_keys, simp only: mapE_Inr)
  then have keys: "map event_key (concat rss) = concat (map (\<lambda>t. map sr_key (rows_between d (es_tableName t) lo hi)) tables)"
    by (rule list_all2_induct) auto
  show "set (map event_key rows) = set (concat (map (\<lambda>t. map sr_key (rows_between d (es_tableName t) lo hi)) tables))"
    unfolding rows keys [symmetric] by simp
  show "distinct (concat (map (\<lambda>t. map sr_key (rows_between d (es_tableName t) lo hi)) tables)) \<Longrightarrow> distinct (map event_key rows)"
    unfolding rows keys [symmetric] by (simp add: distinct_map)
qed

lemma rows_between_keys: "map sr_key (rows_between d t lo hi) = filter (\<lambda>k. lo \<le> fst k \<and> fst k \<le> hi) (map sr_key (db_rows d t))"
  by (simp add: rows_between_def filter_map comp_def)

lemma concat_filter_keys:
  "concat (map (\<lambda>t. map sr_key (rows_between d (es_tableName t) lo hi)) (map event_source.truncate (ie_targets env))) =
   filter (\<lambda>k. lo \<le> fst k \<and> fst k \<le> hi) (target_keys env d)"
  unfolding target_keys_def rows_between_keys filter_concat by (simp add: comp_def event_source.truncate_def)

lemma describe_rows_fst:
  assumes "describe_rows env inp rows st = (r, st')"
  shows "iz_idb st' = iz_idb st \<and> iz_laya st' = iz_laya st \<and> iz_partitions st' = iz_partitions st \<and>
    (case r of Inr ds \<Rightarrow> map fst ds = rows | Inl _ \<Rightarrow> True)"
proof -
  have "map fst ds = rows" if "mapE (\<lambda>r. case f r of Some d \<Rightarrow> Inr (r, d) | None \<Rightarrow> Inl e) rows = Inr ds" for f e ds
    using that unfolding mapE_Inr by (rule list_all2_induct [THEN sym]) (auto split: option.splits)
  then show ?thesis
    using assms unfolding describe_rows_def
    by (auto simp: Let_def split: prod.splits sum.splits)
qed

lemma covered_distinct: "covered S env s \<Longrightarrow> distinct (target_keys env (id_db s)) \<and> list_all (\<lambda>(b, l). 0 \<le> b \<and> 0 \<le> l) (target_keys env (id_db s))"
  by (simp add: covered_def events_ok_def)

lemma prepare_range_pending:
  assumes "prepare_range env inp c cur st = (r, st')" "covered S env (iz_idb st)" "id_cursor (iz_idb st) = Some c"
    "db_cursor (id_db (iz_idb st)) = Some cur" "1 \<le> ie_batchBlocks env"
  shows "iz_idb st' = iz_idb st" "r = Inr (Some rnd) \<Longrightarrow> pending_ok env (iz_idb st) rnd"
proof -
  let ?st = "st\<lparr>iz_blocksBehind := (if cur > c then cur - c else 0)\<rparr>"
  let ?tables = "map event_source.truncate (ie_targets env)" and ?d = "id_db (iz_idb st)"
  have "iz_idb st' = iz_idb st \<and> (r = Inr (Some rnd) \<longrightarrow> pending_ok env (iz_idb st) rnd)"
  proof (cases "planRange c cur (ie_batchBlocks env)")
    case None
    with assms(1) show ?thesis by (auto simp: prepare_range_def)
  next
    case (Some rg)
    have rg: "fromBlock rg = c + 1" "toBlock rg \<le> cur" "c + 1 \<le> toBlock rg"
      using Some assms(5) by (auto simp: planRange_def Let_def split: if_splits)
    show ?thesis
    proof (cases "ii_fails inp 3 \<or> ii_fails inp 4")
      case True
      then show ?thesis using assms(1) Some by (auto simp: prepare_range_def Let_def split: if_splits sum.splits)
    next
      case False
      show ?thesis
      proof (cases "capRange (ie_schema env) ?tables (fromBlock rg) (toBlock rg) MAX_ROWS_PER_ROUND ?d")
        case (Inl e)
        with assms(1) Some False show ?thesis by (auto simp: prepare_range_def Let_def)
      next
        case cap: (Inr toB)
        note rng = capRange_range [OF cap, unfolded rg(1)]
        show ?thesis
        proof (cases "readEventRows (ie_schema env) ?tables (fromBlock rg) toB ?d")
          case (Inl e)
          with assms(1) Some False cap show ?thesis by (auto simp: prepare_range_def Let_def)
        next
          case rows: (Inr rows)
          obtain q st1 where ds: "describe_rows env inp rows ?st = (q, st1)" by fastforce
          have res: "(r, st') = (case q of Inl e \<Rightarrow> (Inl e, st1) | Inr described \<Rightarrow>
              (Inr (Some \<lparr>pr_ingested = cur, pr_fromBlock = fromBlock rg, pr_toBlock = toB, pr_described = described\<rparr>), st1))"
            using assms(1) Some False cap rows ds by (simp add: prepare_range_def Let_def)
          note same = describe_rows_fst [OF ds]
          note k = readEventRows_keys [OF rows, unfolded rg(1) concat_filter_keys]
          have dist: "distinct (map event_key rows)" using k(2) covered_distinct [OF assms(2)] by simp
          have set: "set (map event_key rows) = keys_between env ?d c toB"
            unfolding k(1) by (auto simp: keys_between_def)
          have "pending_ok env (iz_idb st) \<lparr>pr_ingested = cur, pr_fromBlock = fromBlock rg, pr_toBlock = toB, pr_described = described\<rparr>"
            if q: "q = Inr described" for described
          proof -
            have fsts: "map fst described = rows" using same q by simp
            have "0 \<le> er_blockNumber e \<and> 0 \<le> er_logIndex e" if "(e, x) \<in> set described" for e x
            proof -
              have "e \<in> set rows" using that fsts by (metis fst_conv image_eqI set_map)
              then have "event_key e \<in> set (target_keys env ?d)" using set by (auto simp: keys_between_def)
              with covered_distinct [OF assms(2)] show ?thesis by (auto simp: event_key_def list_all_iff)
            qed
            moreover have keys: "map (event_key \<circ> fst) described = map event_key rows" unfolding fsts [symmetric] by simp
            ultimately have "described_ok described" using dist by (auto simp: described_ok_def list_all_iff)
            with keys set rng rg assms(3,4) show ?thesis by (simp add: pending_ok_def)
          qed
          with res same show ?thesis by (cases q) auto
        qed
      qed
    qed
  qed
  then show "iz_idb st' = iz_idb st" "r = Inr (Some rnd) \<Longrightarrow> pending_ok env (iz_idb st) rnd" by blast+
qed

lemma resolve_start_covered:
  assumes "resolve_start env inp cur st = (r, st')" "covered S env (iz_idb st)" "id_cursor (iz_idb st) = None" "Collect (start_ok (ie_start env)) \<subseteq> S"
  shows "covered S env (iz_idb st') \<and> id_db (iz_idb st') = id_db (iz_idb st) \<and> (case r of Inr c \<Rightarrow> id_cursor (iz_idb st') = Some c | Inl _ \<Rightarrow> True)"
proof (cases "ie_start env")
  case (StartCursor n)
  with assms show ?thesis by (auto simp: resolve_start_def)
next
  case (BehindHead behind flr)
  show ?thesis
  proof (cases "ii_fails inp 1")
    case True
    with assms BehindHead show ?thesis by (auto simp: resolve_start_def)
  next
    case False
    let ?c = "if cur - behind > flr then cur - behind else flr"
    have new: "initInsightsCursor ?c (iz_idb st) = (iz_idb st)\<lparr>id_cursor := Some ?c\<rparr>"
      using assms(3) by (simp add: initInsightsCursor_def insert_cursor_def)
    have "idb_ok ((iz_idb st)\<lparr>id_cursor := Some ?c\<rparr>) = idb_ok (iz_idb st)"
      by (simp add: idb_ok_def sentences.wf_def labels.wf_def sentence_entries_def)
    moreover have "?c \<in> S" using assms(4) by (auto simp: BehindHead)
    moreover have "covers env ?c ?c ((iz_idb st)\<lparr>id_cursor := Some ?c\<rparr>)"
      using assms(2,3) by (auto simp: covers_def covered_def keys_between_def)
    ultimately have cov: "covered S env ((iz_idb st)\<lparr>id_cursor := Some ?c\<rparr>)"
      using assms(2) unfolding covered_def by (auto intro: exI [of _ ?c])
    have idb: "iz_idb st' = (iz_idb st)\<lparr>id_cursor := Some ?c\<rparr>"
      using assms(1) BehindHead False new by (auto simp: resolve_start_def Let_def getInsightsCursor_def split: if_splits option.splits)
    have "case r of Inr c \<Rightarrow> c = ?c | Inl _ \<Rightarrow> True"
      using assms(1) BehindHead False new by (auto simp: resolve_start_def Let_def getInsightsCursor_def split: if_splits option.splits)
    with cov show ?thesis unfolding idb by (auto split: sum.splits)
  qed
qed

lemma prepareRound_inv:
  assumes "prepareRound env inp st = (r, st')" "covered S env (iz_idb st)" "1 \<le> ie_batchBlocks env" "Collect (start_ok (ie_start env)) \<subseteq> S"
  shows "covered S env (iz_idb st')" "r = Inr (Some rnd) \<Longrightarrow> pending_ok env (iz_idb st') rnd"
proof -
  have "covered S env (iz_idb st') \<and> (r = Inr (Some rnd) \<longrightarrow> pending_ok env (iz_idb st') rnd)"
  proof (cases "ii_fails inp 0 \<or> db_cursor (id_db (iz_idb st)) = None")
    case True
    with assms(1,2) show ?thesis by (auto simp: prepareRound_def getCursor_def split: if_splits)
  next
    case False
    then obtain cur where cur: "\<not> ii_fails inp 0" "db_cursor (id_db (iz_idb st)) = Some cur" by auto
    show ?thesis
    proof (cases "id_cursor (iz_idb st)")
      case (Some c)
      then have "prepare_range env inp c cur st = (r, st')"
        using assms(1) cur by (simp add: prepareRound_def getCursor_def getInsightsCursor_def)
      from prepare_range_pending [OF this assms(2) Some cur(2) assms(3)] assms(2) show ?thesis by simp
    next
      case None
      obtain q st1 where rs: "resolve_start env inp cur st = (q, st1)" by fastforce
      note c = resolve_start_covered [OF rs assms(2) None assms(4)]
      show ?thesis
      proof (cases q)
        case (Inl e)
        then have "r = Inl e" "st' = st1" using assms(1) cur None rs by (auto simp: prepareRound_def getCursor_def getInsightsCursor_def)
        with c show ?thesis by simp
      next
        case (Inr k)
        then have run: "prepare_range env inp k cur st1 = (r, st')"
          using assms(1) cur None rs by (simp add: prepareRound_def getCursor_def getInsightsCursor_def)
        have "covered S env (iz_idb st1)" "id_cursor (iz_idb st1) = Some k" "db_cursor (id_db (iz_idb st1)) = Some cur"
          using c Inr cur by simp_all
        from prepare_range_pending [OF run this assms(3)] this(1) show ?thesis by simp
      qed
    qed
  qed
  then show "covered S env (iz_idb st')" "r = Inr (Some rnd) \<Longrightarrow> pending_ok env (iz_idb st') rnd" by blast+
qed

subsection \<open>Finishing keeps the invariant\<close>

lemma dict_ok_later: "dict_ok (e, n) \<Longrightarrow> n \<le> n' \<Longrightarrow> dict_ok (e, n')"
  by (force simp: dict_ok_def)

lemma covered_ids_consumed:
  assumes "covered S env s" "ids_consumed s s'"
  shows "covered S env s'"
proof -
  obtain n m where s': "s' = s\<lparr>id_nextSentence := n, id_nextLabel := m\<rparr>" and le: "id_nextSentence s \<le> n" "id_nextLabel s \<le> m"
    using assms(2) unfolding ids_consumed_def by blast
  have ok: "idb_ok s" using assms(1) by (simp add: covered_def)
  have "sentences.wf s'" using ok dict_ok_later [OF _ le(1), of "sentence_entries s"] by (simp add: idb_ok_def sentences.wf_def s' sentence_entries_def)
  moreover have "labels.wf s'" using ok dict_ok_later [OF _ le(2), of "id_labels s"] by (simp add: idb_ok_def labels.wf_def s')
  moreover have "idb_ok s' \<longleftrightarrow> sentences.wf s' \<and> labels.wf s'"
    using ok unfolding idb_ok_def s' by (simp add: sentence_entries_def)
  ultimately have "idb_ok s'" by blast
  then show ?thesis by (rule covered_cong [OF assms(1)]) (simp_all add: s')
qed

lemma new_rows_positions:
  "set (map in_key (id_insights s)) \<union> set (map row_position (new_rows s rows)) = set (map in_key (id_insights s)) \<union> set (map row_position rows)"
  by (auto simp: new_rows_def)

lemma round_written_covered:
  assumes "covered S env s" "pending_ok env s rnd" "round_written (map (insight_of answers model) (pr_described rnd)) (pr_toBlock rnd) s s'"
  shows "covered S env s'"
proof -
  obtain c cur where p: "id_cursor s = Some c" "db_cursor (id_db s) = Some cur" "c < pr_toBlock rnd" "pr_toBlock rnd \<le> cur"
    "set (map (event_key \<circ> fst) (pr_described rnd)) = keys_between env (id_db s) c (pr_toBlock rnd)"
    using assms(2) unfolding pending_ok_def by blast
  obtain c0 where c0: "c0 \<in> S" "covers env c0 c s" using assms(1) p(1) by (auto simp: covered_def)
  have w: "id_cursor s' = Some (pr_toBlock rnd)" "idb_ok s'" using assms(3) p(1) by (simp_all add: round_written_def)
  obtain q where db: "id_db s' = (id_db s)\<lparr>db_parts := q\<rparr>" using assms(3) by (auto simp: round_written_def same_events_def)
  have keys: "keys_between env (id_db s') = keys_between env (id_db s)" "target_keys env (id_db s') = target_keys env (id_db s)"
    unfolding db by (simp_all add: keys_between_def target_keys_def fun_eq_iff)
  have "set (map in_key (id_insights s')) = set (map in_key (id_insights s)) \<union>
      set (map row_position (new_rows s (map (insight_of answers model) (pr_described rnd))))"
    using assms(3) unfolding round_written_def by (metis set_append)
  also have "\<dots> = set (map in_key (id_insights s)) \<union> set (map (event_key \<circ> fst) (pr_described rnd))"
    unfolding new_rows_positions by (simp add: comp_def insight_of_position)
  also have "\<dots> = keys_between env (id_db s) c0 (pr_toBlock rnd)"
    unfolding p(5) using c0(2) p(3) by (auto simp: covers_def keys_between_def)
  finally have "covers env c0 (pr_toBlock rnd) s'"
    unfolding covers_def keys using c0(2) p by (simp add: covers_def db)
  with w c0(1) assms(1) show ?thesis unfolding covered_def events_ok_def keys by auto
qed

lemma finishRound_inv:
  assumes "finishRound env inp rnd model st = (r, st')" "covered S env (iz_idb st)" "pending_ok env (iz_idb st) rnd"
    "real_roundtrip (ie_pgReal env)"
  shows "covered S env (iz_idb st')" "r = Inl e \<Longrightarrow> stage_of e = ModelStage \<Longrightarrow> iz_idb st' = iz_idb st"
proof -
  have "covered S env (iz_idb st') \<and> (r = Inl e \<longrightarrow> stage_of e = ModelStage \<longrightarrow> iz_idb st' = iz_idb st)"
    using assms(1)
  proof (cases rule: finishRound_cases)
    case (model e' ly)
    with assms(2) show ?thesis by simp
  next
    case (commit answers ly q s' ps')
    have "idb_ok (iz_idb st)" using assms(2) by (simp add: covered_def)
    moreover have "described_ok (pr_described rnd)" using assms(3) unfolding pending_ok_def by blast
    ultimately have "case q of
        Inr inserted \<Rightarrow> round_written (map (insight_of answers model) (pr_described rnd)) (pr_toBlock rnd) (iz_idb st) s' \<and>
          inserted = map ir_lane (new_rows (iz_idb st) (map (insight_of answers model) (pr_described rnd)))
      | Inl e \<Rightarrow> ps' = iz_partitions st \<and> (ids_consumed (iz_idb st) s' \<or>
          ii_fault inp = AckLost \<and> round_written (map (insight_of answers model) (pr_described rnd)) (pr_toBlock rnd) (iz_idb st) s')"
      using commitInsights_outcome [OF _ insight_rows_ok assms(4) commit(2)] by blast
    then have "covered S env s'"
      using round_written_covered [OF assms(2,3)] covered_ids_consumed [OF assms(2)] by (cases q) auto
    then show ?thesis unfolding commit(3,7) by (cases q) (auto simp: stage_of_def)
  qed
  then show "covered S env (iz_idb st')" "r = Inl e \<Longrightarrow> stage_of e = ModelStage \<Longrightarrow> iz_idb st' = iz_idb st" by blast+
qed

subsection \<open>Starting\<close>

lemma covered_same_tables:
  assumes "map es_tableName (ie_targets env') = map es_tableName (ie_targets env)"
  shows "covered S env' = covered S env" "ingest_step env' = ingest_step env"
proof -
  have "map (\<lambda>t. map sr_key (db_rows d (es_tableName t))) (ie_targets env') =
      map (\<lambda>t. map sr_key (db_rows d (es_tableName t))) (ie_targets env)" for d :: db
    using arg_cong [OF assms, of "map (\<lambda>t. map sr_key (db_rows d t))"] by (simp add: comp_def)
  then have t: "target_keys env' = target_keys env" unfolding target_keys_def fun_eq_iff by simp
  have k: "keys_between env' = keys_between env" "events_ok env' = events_ok env"
    by (simp_all add: keys_between_def events_ok_def t fun_eq_iff)
  then have c: "covers env' = covers env" by (simp add: covers_def fun_eq_iff)
  show "covered S env' = covered S env" by (rule ext) (simp only: covered_def k c)
  show "ingest_step env' = ingest_step env" by (rule ext)+ (simp only: ingest_step_def k assms)
qed

lemma insights_ddl_runs:
  "mapT (\<lambda>q. query (on_db (run_ddl q))) qs NoFault c = (Inr us, c') \<Longrightarrow>
   cn_db c' = (cn_db c)\<lparr>id_db := (id_db (cn_db c))\<lparr>db_ddl := db_ddl (id_db (cn_db c)) @ qs\<rparr>\<rparr>"
proof (induction qs arbitrary: c us)
  case Nil
  then show ?case by (simp add: returnT_eq)
next
  case (Cons q qs)
  obtain c1 vs where 1: "query (on_db (run_ddl q)) NoFault c = (Inr (), c1)" and 2: "mapT (\<lambda>q. query (on_db (run_ddl q))) qs NoFault c1 = (Inr vs, c')"
    using Cons.prems by (auto simp: bindT_Inr returnT_eq)
  have "cn_db c' = (cn_db c1)\<lparr>id_db := (id_db (cn_db c1))\<lparr>db_ddl := db_ddl (id_db (cn_db c1)) @ qs\<rparr>\<rparr>"
    by (rule Cons.IH [OF 2])
  then show ?case using 1 by (auto simp: query_Inr on_db_def run_ddl_def)
qed

lemma bootstrapInsights_covered:
  assumes "bootstrapInsights flt schema (case start of StartCursor n \<Rightarrow> Some n | BehindHead _ _ \<Rightarrow> None) s = (r, s')"
    "covered S env s" "Collect (start_ok start) \<subseteq> S"
  shows "covered S env s'"
proof -
  define first where "first = (case start of StartCursor n \<Rightarrow> Some n | BehindHead _ _ \<Rightarrow> None)"
  let ?body = "bindT (mapT (\<lambda>q. query (on_db (run_ddl q))) (buildInsightsTables schema)) (\<lambda>_.
        case first of None \<Rightarrow> returnT () | Some n \<Rightarrow> query (insert_cursor n))"
  have run: "transaction_with insights_undo flt ?body s = (r, s')"
    using assms(1) by (simp add: bootstrapInsights_def insights_transaction_def first_def)
  have undo: "insights_undo s s = s" by (simp add: insights_undo_def)
  have ff: "fault_free ?body" by (auto intro!: fault_free_bind fault_free_mapT split: option.split)
  have ok: "covered S env (cn_db c)" if b: "?body NoFault \<lparr>cn_db = s, cn_sent = 1\<rparr> = (Inr a, c)" for a c
  proof -
    obtain us c1 where 1: "mapT (\<lambda>q. query (on_db (run_ddl q))) (buildInsightsTables schema) NoFault \<lparr>cn_db = s, cn_sent = 1\<rparr> = (Inr us, c1)"
      and 2: "(case first of None \<Rightarrow> returnT () | Some n \<Rightarrow> query (insert_cursor n)) NoFault c1 = (Inr a, c)"
      using b by (auto simp: bindT_Inr)
    obtain xs where c1: "cn_db c1 = s\<lparr>id_db := (id_db s)\<lparr>db_ddl := xs\<rparr>\<rparr>" using insights_ddl_runs [OF 1] by simp
    have idb: "idb_ok (s\<lparr>id_db := d, id_cursor := k\<rparr>) = idb_ok s" for d k
      by (simp add: idb_ok_def sentences.wf_def labels.wf_def sentence_entries_def)
    have cov1: "covered S env (cn_db c1)"
    proof (rule covered_cong [OF assms(2)])
      show "idb_ok (cn_db c1)" using idb [where k = "id_cursor s"] assms(2) unfolding c1 covered_def by simp
    qed (simp_all add: c1)
    show ?thesis
    proof (cases "\<exists>n. first = Some n \<and> id_cursor s = None")
      case False
      then have "cn_db c = cn_db c1" using 2 by (auto simp: returnT_eq query_Inr insert_cursor_def c1 split: option.splits)
      with cov1 show ?thesis by simp
    next
      case True
      then obtain n where n: "first = Some n" "id_cursor s = None" by blast
      then have c: "cn_db c = s\<lparr>id_db := (id_db s)\<lparr>db_ddl := xs\<rparr>, id_cursor := Some n\<rparr>"
        using 2 by (auto simp: query_Inr insert_cursor_def c1)
      have "n \<in> S" using n(1) assms(3) by (auto simp: first_def split: insights_start.splits)
      moreover have "covers env n n (cn_db c)"
        using assms(2) n(2) by (auto simp: c covers_def covered_def keys_between_def)
      moreover have "idb_ok (cn_db c)" "events_ok env (id_db (cn_db c))"
        using assms(2) idb unfolding c covered_def by (simp_all add: events_ok_def target_keys_def)
      ultimately show ?thesis by (auto simp: covered_def c)
    qed
  qed
  show ?thesis
  proof (cases rule: transaction_with_outcome [OF ff run undo])
    case (1 a c)
    then show ?thesis using ok by simp
  next
    case (2 a c e)
    then show ?thesis using ok by simp
  next
    case (3 e work)
    have rel: "tx_rel seq_le ?body"
    proof -
      have same: "tx_rel seq_le (query op)" if "\<And>s r s'. op s = (r, s') \<Longrightarrow> seq_le s s'" for op :: "idb \<Rightarrow> (failure + 'a) \<times> idb"
        by (rule tx_rel_query [OF seq_le_laws(1)]) (rule that)
      show ?thesis
        by (intro tx_rel_bind [OF seq_le_laws(2)] tx_rel_mapT [OF seq_le_laws])
           (auto intro!: same simp: seq_le_laws on_db_def run_ddl_def insert_cursor_def seq_le_def split: option.splits)
    qed
    have "ids_consumed s s'"
      using 3(3) [OF rel seq_le_laws(1)] unfolding 3(2) ids_consumed_def insights_undo_def seq_le_def by blast
    with assms(2) show ?thesis by (rule covered_ids_consumed)
  qed
qed

subsection \<open>The life of the loop\<close>

datatype insights_world = Stopped idb | Running insights_env insights_loop insights

text \<open>
  What each boot finds in its configuration may differ in what it knows of tokens and in the block
  it starts from, not in the tables it reads.
\<close>

definition boots_as :: "int set \<Rightarrow> insights_env \<Rightarrow> insights_env \<Rightarrow> bool" where
  "boots_as S env env' \<longleftrightarrow> map es_tableName (ie_targets env') = map es_tableName (ie_targets env) \<and>
     Collect (start_ok (ie_start env')) \<subseteq> S \<and> 1 \<le> ie_batchBlocks env' \<and> real_roundtrip (ie_pgReal env')"

text \<open>
  Between its first start and now: ingest commits at any moment, also between the two halves of a
  round; the loop waits, prepares, asks and commits, fails in any of these; and the process may stop
  and start again at any of these points.
\<close>

inductive insights_reach :: "int set \<Rightarrow> insights_env \<Rightarrow> insights_world \<Rightarrow> bool" for S env where
  fresh: "events_ok env (id_db s) \<Longrightarrow> idb_ok s \<Longrightarrow> id_insights s = [] \<Longrightarrow> id_cursor s = None \<Longrightarrow> insights_reach S env (Stopped s)"
| ingest_alone: "insights_reach S env (Stopped s) \<Longrightarrow> ingest_step env (id_db s) d' \<Longrightarrow> insights_reach S env (Stopped (s\<lparr>id_db := d'\<rparr>))"
| boot: "insights_reach S env (Stopped s) \<Longrightarrow>
    bootstrapInsights flt schema (case ie_start env' of StartCursor n \<Rightarrow> Some n | BehindHead _ _ \<Rightarrow> None) s = (r, s') \<Longrightarrow>
    boots_as S env env' \<Longrightarrow>
    insights_reach S env (case r of Inl _ \<Rightarrow> Stopped s'
      | Inr _ \<Rightarrow> Running env' (new_loop model) \<lparr>iz_idb = s', iz_partitions = ps, iz_context = new_context_source,
          iz_laya = \<lparr>ly_cache = [], ly_calls = []\<rparr>, iz_blocksBehind = 0, iz_classified = [], iz_errors = [], iz_backOffs = 0\<rparr>)"
| ingest: "insights_reach S env (Running env' lp st) \<Longrightarrow> ingest_step env (id_db (iz_idb st)) d' \<Longrightarrow>
    insights_reach S env (Running env' lp (st\<lparr>iz_idb := (iz_idb st)\<lparr>id_db := d'\<rparr>\<rparr>))"
| waiting: "insights_reach S env (Running env' lp st) \<Longrightarrow> ii_phase inp \<noteq> Live \<Longrightarrow>
    insights_iteration env' inp lp st = (w, lp', st') \<Longrightarrow> insights_reach S env (Running env' lp' st')"
| prepared: "insights_reach S env (Running env' lp st) \<Longrightarrow> loop_prepare env' inp lp st = (Inr lp', st') \<Longrightarrow>
    insights_reach S env (Running env' lp' st')"
| unprepared: "insights_reach S env (Running env' lp st) \<Longrightarrow> loop_prepare env' inp lp st = (Inl e, st1) \<Longrightarrow>
    caught e lp st1 = (w, lp', st') \<Longrightarrow> insights_reach S env (Running env' lp' st')"
| finished: "insights_reach S env (Running env' lp st) \<Longrightarrow> loop_finish env' inp lp st = (w, lp', st') \<Longrightarrow>
    insights_reach S env (Running env' lp' st')"
| stopped: "insights_reach S env (Running env' lp st) \<Longrightarrow> insights_reach S env (Stopped (iz_idb st))"

definition world_inv :: "int set \<Rightarrow> insights_env \<Rightarrow> insights_world \<Rightarrow> bool" where
  "world_inv S env w = (case w of Stopped s \<Rightarrow> covered S env s
     | Running env' lp st \<Rightarrow> boots_as S env env' \<and> loop_inv S env' lp st)"

lemma loop_prepare_inv:
  assumes "loop_prepare env inp lp st = (r, st')" "loop_inv S env lp st" "boots_as S env0 env"
  shows "case r of Inl e \<Rightarrow> lp_pending lp = None \<and> covered S env (iz_idb st') | Inr lp' \<Rightarrow> loop_inv S env lp' st'"
proof (cases "lp_pending lp")
  case (Some rnd)
  with assms show ?thesis by (auto simp: loop_prepare_def)
next
  case None
  obtain q st1 where run: "prepareRound env inp st = (q, st1)" by fastforce
  have "covered S env (iz_idb st)" "1 \<le> ie_batchBlocks env" "Collect (start_ok (ie_start env)) \<subseteq> S"
    using assms(2,3) by (simp_all add: loop_inv_def boots_as_def)
  note p = prepareRound_inv [OF run this]
  show ?thesis
  proof (cases q)
    case (Inl e)
    then have "r = Inl e" "st' = st1" using assms(1) None run by (auto simp: loop_prepare_def)
    with None p(1) show ?thesis by simp
  next
    case (Inr x)
    with assms(1) None run have "r = Inr (lp\<lparr>lp_pending := x\<rparr>)" "st' = st1" by (auto simp: loop_prepare_def)
    with p Inr show ?thesis by (simp add: loop_inv_def split: option.split)
  qed
qed

lemma caught_inv:
  assumes "caught e lp st = (w, lp', st')" "covered S env (iz_idb st)"
    "stage_of e = ModelStage \<Longrightarrow> loop_inv S env lp st"
  shows "loop_inv S env lp' st'"
  using assms by (cases "lp_pending lp") (auto simp: caught_def loop_inv_def pending_ok_def)

lemma loop_finish_inv:
  assumes "loop_finish env inp lp st = (w, lp', st')" "loop_inv S env lp st" "boots_as S env0 env"
  shows "loop_inv S env lp' st'"
proof (cases "lp_pending lp")
  case None
  with assms show ?thesis by (auto simp: loop_finish_def loop_inv_def Let_def)
next
  case (Some rnd)
  obtain q st1 where run: "finishRound env inp rnd (lp_model lp) st = (q, st1)" by fastforce
  have pre: "covered S env (iz_idb st)" "pending_ok env (iz_idb st) rnd" "real_roundtrip (ie_pgReal env)"
    using assms(2,3) Some by (simp_all add: loop_inv_def boots_as_def)
  note f = finishRound_inv [OF run pre]
  show ?thesis
  proof (cases q)
    case (Inl e)
    then have c: "caught e lp st1 = (w, lp', st')" using assms(1) Some run by (simp add: loop_finish_def)
    show ?thesis
    proof (rule caught_inv [OF c f(1)])
      assume "stage_of e = ModelStage"
      from f(2) [OF Inl this] pre Some show "loop_inv S env lp st1" by (simp add: loop_inv_def)
    qed
  next
    case (Inr u)
    with assms(1) Some run f(1) show ?thesis by (auto simp: loop_finish_def loop_inv_def Let_def)
  qed
qed

lemma loop_inv_ingest:
  assumes "loop_inv S env lp st" "ingest_step env (id_db (iz_idb st)) d'"
  shows "loop_inv S env lp (st\<lparr>iz_idb := (iz_idb st)\<lparr>id_db := d'\<rparr>\<rparr>)"
  using covered_ingest [OF _ assms(2)] pending_ingest [OF _ assms(2)] assms(1)
  by (simp add: loop_inv_def split: option.splits)

lemma insights_reach_inv: "insights_reach S env w \<Longrightarrow> world_inv S env w"
proof (induction rule: insights_reach.induct)
  case (fresh s)
  then show ?case by (simp add: world_inv_def covered_def)
next
  case (ingest_alone s d')
  then show ?case using covered_ingest by (simp add: world_inv_def)
next
  case (boot s flt schema env' r s' model ps)
  have "covered S env s" using boot.IH by (simp add: world_inv_def)
  moreover have b: "map es_tableName (ie_targets env') = map es_tableName (ie_targets env)" "Collect (start_ok (ie_start env')) \<subseteq> S"
    using boot.hyps(3) by (simp_all add: boots_as_def)
  ultimately have "covered S env s'" using bootstrapInsights_covered [OF boot.hyps(2)] by blast
  with boot.hyps(3) covered_same_tables(1) [OF b(1)] show ?case
    by (simp add: world_inv_def loop_inv_def new_loop_def split: sum.split)
next
  case (ingest env' lp st d')
  then have "boots_as S env env'" "loop_inv S env' lp st" by (simp_all add: world_inv_def)
  moreover from this(1) have "ingest_step env' = ingest_step env" by (intro covered_same_tables(2)) (simp add: boots_as_def)
  ultimately show ?case using ingest.hyps(2) loop_inv_ingest by (simp add: world_inv_def)
next
  case (waiting env' lp st inp w lp' st')
  then show ?case by (auto simp: world_inv_def insights_iteration_def loop_inv_def split: if_splits option.splits)
next
  case (prepared env' lp st inp lp' st')
  then show ?case using loop_prepare_inv [OF prepared.hyps(2)] by (auto simp: world_inv_def)
next
  case (unprepared env' lp st inp e st1 w lp' st')
  have boots: "boots_as S env env'" "loop_inv S env' lp st" using unprepared.IH by (simp_all add: world_inv_def)
  from loop_prepare_inv [OF unprepared.hyps(2) this(2,1)] have "lp_pending lp = None" "covered S env' (iz_idb st1)" by simp_all
  with caught_inv [OF unprepared.hyps(3)] boots show ?case by (simp add: world_inv_def loop_inv_def)
next
  case (finished env' lp st inp w lp' st')
  then show ?case using loop_finish_inv [OF finished.hyps(2)] by (auto simp: world_inv_def)
next
  case (stopped env' lp st)
  then show ?case using covered_same_tables(1) [of env' env S] by (auto simp: world_inv_def boots_as_def loop_inv_def)
qed

subsection \<open>Ingest takes the steps the insights rely on\<close>

lemma fetched_from:
  "fetch_round env inp sig fin rg = Fetched logs safeTo \<Longrightarrow> fromBlock rg \<le> toBlock rg \<Longrightarrow> fromBlock rg \<le> safeTo"
  by (auto simp: fetch_round_def Let_def split: sum.splits if_splits)

lemma commitBatch_cursor:
  assumes run: "commitBatch flt store rows dead cur d = (Inr n, d', store')"
  shows "db_cursor d' = map_option (\<lambda>_. cur) (db_cursor d)"
proof -
  obtain ns planned written where tr: "transaction flt (commit_body store (group_rows rows) (batch_blocks rows) planned dead cur) d = (Inr n, d')"
    using run by (cases rule: commitBatch_transaction) auto
  obtain c where body: "commit_body store (group_rows rows) (batch_blocks rows) planned dead cur NoFault \<lparr>cn_db = d, cn_sent = 1\<rparr> = (Inr n, c)"
    and c: "cn_db c = d'"
    using tr by (cases rule: transaction_outcome [OF commit_body_fault_free tr]) auto
  show ?thesis by (rule commit_body_Inr [OF body distinct_group_rows, unfolded c conn.simps(1)]) simp
qed

lemma commit_cursor:
  assumes "commitBatch flt store rows dead safeTo d = (r, d', store')" "db_cursor d = Some cur" "cur \<le> safeTo"
  shows "\<exists>c. db_cursor d' = Some c \<and> cur \<le> c"
proof -
  consider (done_ok) n final where "commitBatch NoFault store rows dead safeTo d = (Inr n, d', final)"
    | (undone) "d' = d\<lparr>db_nextId := db_nextId d'\<rparr>"
    using commitBatch_outcome [OF assms(1)] by auto
  then show ?thesis
  proof cases
    case done_ok
    then have "db_cursor d' = map_option (\<lambda>_. safeTo) (db_cursor d)" using commitBatch_cursor by blast
    with assms show ?thesis by simp
  next
    case undone
    then have "db_cursor d' = db_cursor d" by (metis db.select_convs(3) db.surjective db.update_convs(7))
    with assms show ?thesis by simp
  qed
qed

lemma finish_round_cursor:
  assumes "db_cursor (pl_db p) = Some cur" "cur \<le> safeTo"
  shows "\<exists>c. db_cursor (pl_db (snd (finish_round env inp fin logs safeTo p))) = Some c \<and> cur \<le> c"
proof (cases "round_times p inp logs")
  case (Inl e)
  with assms show ?thesis by (simp add: finish_round_def)
next
  case (Inr tms)
  obtain rows dead where dec: "decode_logs env tms logs = (rows, dead)" by fastforce
  obtain r d' store' where run: "commitBatch (ri_fault inp) (pl_store p) rows dead safeTo (pl_db p) = (r, d', store')"
    by (metis prod_cases3)
  show ?thesis using commit_cursor [OF run assms] by (cases r) (simp_all add: finish_round_def Inr dec run Let_def)
qed

lemma run_range_cursor:
  assumes "db_cursor (pl_db p) = Some cur" "cur < fromBlock rg" "fromBlock rg \<le> toBlock rg"
  shows "\<exists>c. db_cursor (pl_db (snd (run_range env inp sig fin rg p))) = Some c \<and> cur \<le> c"
proof (cases "fetch_round env inp sig fin rg")
  case (Fetched logs safeTo)
  have "cur \<le> safeTo" using fetched_from [OF Fetched assms(3)] assms(2) by simp
  then show ?thesis using finish_round_cursor assms(1) by (simp add: run_range_def Fetched Let_def)
qed (use assms(1) in \<open>simp_all add: run_range_def Let_def split: option.split\<close>)

lemma runOnce_cursor:
  assumes "db_cursor (pl_db p) = Some cur" "1 \<le> sizer_span env p"
  shows "\<exists>c. db_cursor (pl_db (snd (runOnce env inp p))) = Some c \<and> cur \<le> c"
proof -
  have "\<exists>c. db_cursor (pl_db (snd (case tgt of Inl e \<Rightarrow> (Inl e, p) | Inr fin \<Rightarrow>
      (let p = report_blocks cur fin p in case planRange cur fin (sizer_span env p) of
         None \<Rightarrow> (Inr False, set_phase Live None p) | Some rg \<Rightarrow> run_range env inp sig fin rg p)))) = Some c \<and> cur \<le> c" for tgt sig
  proof (cases tgt)
    case (Inr fin)
    have spn: "sizer_span env (report_blocks cur fin p) = sizer_span env p" by (simp add: sizer_span_def)
    show ?thesis
    proof (cases "planRange cur fin (sizer_span env p)")
      case (Some rg)
      then have "cur < fromBlock rg" "fromBlock rg \<le> toBlock rg" using assms(2) by (auto simp: planRange_Some)
      with run_range_cursor [of "report_blocks cur fin p" cur rg] assms(1) show ?thesis by (simp add: Inr Let_def spn Some)
    qed (simp add: Inr Let_def spn assms(1))
  qed (simp add: assms(1))
  then show ?thesis using assms(1) by (simp add: runOnce_def getCursor_def Let_def)
qed

lemma loop_iteration_cursor:
  assumes "loop_iteration env inp b p = (out, nxt, p')" "db_cursor (pl_db p) = Some cur" "1 \<le> sizer_span env p"
  shows "\<exists>c. db_cursor (pl_db p') = Some c \<and> cur \<le> c"
  using runOnce_cursor [OF assms(2,3), of inp] assms(1)
  by (auto simp: loop_iteration_def split: prod.splits sum.splits if_splits)

lemma chain_keys:
  assumes "holds_chain env chain cur store d"
  shows "map sr_key (db_rows d t) = map the_key (expected_rows env (logs_between chain (initialCursor (pe_cfg env) + 1) cur) t)"
    and "db_cursor d = Some cur" "initialCursor (pe_cfg env) \<le> cur"
  using assms by (simp_all add: holds_chain_def Let_def)

lemma expected_row_log:
  "k \<in> the_key ` set (expected_rows env logs t) \<Longrightarrow>
   \<exists>l \<in> set logs. log_id l = k \<and> (\<exists>r. decode_log env [] l = Some (Inr r) \<and> dr_tableName r = t)"
proof (induction logs)
  case Nil
  then show ?case by (simp add: expected_rows_def rows_for_def)
next
  case (Cons l logs)
  then show ?case by (auto simp: expected_rows_Cons decode_logs_row split: option.splits sum.splits if_splits)
qed

lemma disjoint_concat: "distinct ts \<Longrightarrow> (\<And>t. t \<in> set ts \<Longrightarrow> distinct (f t)) \<Longrightarrow>
    (\<And>t u. t \<in> set ts \<Longrightarrow> u \<in> set ts \<Longrightarrow> t \<noteq> u \<Longrightarrow> set (f t) \<inter> set (f u) = {}) \<Longrightarrow> distinct (concat (map f ts))"
  by (induction ts) fastforce+

text \<open>Logs whose numbers the protocol can produce.\<close>

definition numbered :: "chain \<Rightarrow> bool" where
  "numbered chain \<longleftrightarrow> (\<forall>b. \<forall>l \<in> set (chain b). 0 \<le> lg_blockNumber l \<and> 0 \<le> lg_logIndex l)"

lemma chain_events_ok:
  assumes "holds_chain penv chain cur store d" "chain_ok chain" "numbered chain" "distinct (map es_tableName (ie_targets env))"
  shows "events_ok env d"
proof -
  let ?logs = "logs_between chain (initialCursor (pe_cfg penv) + 1) cur"
  note keys = chain_keys(1) [OF assms(1)]
  have tk: "target_keys env d = concat (map (\<lambda>n. map the_key (expected_rows penv ?logs n)) (map es_tableName (ie_targets env)))"
    by (simp add: target_keys_def keys comp_def)
  have ids: "inj_on log_id (set ?logs)" using distinct_log_ids [OF assms(2)] by (simp add: distinct_map)
  have "distinct (target_keys env d)"
    unfolding tk
  proof (rule disjoint_concat [OF assms(4)])
    show "distinct (map the_key (expected_rows penv ?logs n))" for n
      by (rule expected_keys(2)) (rule distinct_log_ids [OF assms(2)])
    show "set (map the_key (expected_rows penv ?logs t)) \<inter> set (map the_key (expected_rows penv ?logs u)) = {}" if "t \<noteq> u" for t u
    proof (rule ccontr)
      assume "\<not> ?thesis"
      then obtain k where "k \<in> the_key ` set (expected_rows penv ?logs t)" "k \<in> the_key ` set (expected_rows penv ?logs u)" by auto
      from this [THEN expected_row_log] obtain l l' r r' where "l \<in> set ?logs" "l' \<in> set ?logs" "log_id l = log_id l'"
        "decode_log penv [] l = Some (Inr r)" "dr_tableName r = t" "decode_log penv [] l' = Some (Inr r')" "dr_tableName r' = u" by auto
      with ids that show False by (metis inj_onD option.inject sum.inject(2))
    qed
  qed
  moreover have "list_all (\<lambda>(b, l). 0 \<le> b \<and> 0 \<le> l) (target_keys env d)"
  proof -
    have "0 \<le> fst k \<and> 0 \<le> snd k" if mem: "k \<in> set (target_keys env d)" for k
    proof -
      obtain n where "k \<in> the_key ` set (expected_rows penv ?logs n)" using mem unfolding tk by auto
      then obtain l where "l \<in> set ?logs" "log_id l = k" using expected_row_log by blast
      with assms(3) show ?thesis by (fastforce simp: numbered_def logs_between_def log_id_def)
    qed
    then show ?thesis by (auto simp: list_all_iff)
  qed
  ultimately show ?thesis by (simp add: events_ok_def)
qed



subsection \<open>A life in the concrete\<close>

definition seen_target :: insight_target where
  "seen_target = \<lparr>es_tableName = ''t'', es_transferColumns = None, it_contractName = ''pool'', it_address = ''0x01'',
     it_eventName = ''Swap'', it_token = None\<rparr>"

definition seen_env :: insights_env where
  "seen_env = sample_insights_env\<lparr>ie_start := StartCursor 5, ie_targets := [seen_target]\<rparr>"

definition seen_idb :: idb where
  "seen_idb = sample_idb\<lparr>id_cursor := None, id_db := empty_db\<lparr>db_ddl := [''CREATE TABLE IF NOT EXISTS \"s\".\"t\" ('' ],
     db_parts := [(''_insights_p0'', ''_insights'', 0, 100)], db_cursor := Some 9, db_rows := (\<lambda>t. if t = ''t'' then [\<lparr>sr_key = (4, 0), sr_values = []\<rparr>, \<lparr>sr_key = (7, 1), sr_values = []\<rparr>] else [])\<rparr>\<rparr>"

definition seen_row :: event_row where
  "seen_row = \<lparr>er_tableName = ''t'', er_blockNumber = 7, er_txHash = ''null'', er_logIndex = 1, er_transfer = None\<rparr>"

definition seen_description :: description where
  "seen_description = \<lparr>ds_sentence = ''The pool contract logged Swap. The rest of the transaction could not be read.'',
     ds_facts = [], ds_protocol = [], ds_ruled = ''uncertain''\<rparr>"

definition seen_later :: "string list \<Rightarrow> idb" where
  "seen_later xs = seen_idb\<lparr>id_db := (id_db seen_idb)\<lparr>db_ddl := db_ddl (id_db seen_idb) @ xs\<rparr>, id_cursor := Some 5\<rparr>"

definition seen_booted :: idb where
  "seen_booted = seen_later (buildInsightsTables ''s'')"

definition seen_partitions :: partitions where
  "seen_partitions = (new_partitions ''s'' 100)\<lparr>ps_made := [''_insights:0'']\<rparr>"

lemma seen_cursor: "id_cursor seen_idb = None"
  by (simp add: seen_idb_def)

lemma mapT_insights_ddl: "\<exists>us c'. mapT (\<lambda>q. query (on_db (run_ddl q))) qs NoFault c = (Inr us, c')"
proof (induction qs arbitrary: c)
  case (Cons q qs)
  obtain c1 where 1: "query (on_db (run_ddl q)) NoFault c = (Inr (), c1)" by (simp add: query_def on_db_def run_ddl_def)
  from Cons obtain us c' where "mapT (\<lambda>q. query (on_db (run_ddl q))) qs NoFault c1 = (Inr us, c')" by blast
  with 1 show ?case by (simp add: bindT_def returnT_def)
qed (simp add: returnT_def)

lemma seen_boot: "bootstrapInsights NoFault ''s'' (Some 5) seen_idb = (Inr (), seen_booted)"
proof -
  obtain us c' where 1: "mapT (\<lambda>q. query (on_db (run_ddl q))) (buildInsightsTables ''s'') NoFault \<lparr>cn_db = seen_idb, cn_sent = Suc 0\<rparr> = (Inr us, c')"
    using mapT_insights_ddl by blast
  show ?thesis
    using insights_ddl_runs [OF 1] 
    by (simp add: bootstrapInsights_def insights_transaction_def transaction_with_def bindT_def 1 query_def insert_cursor_def seen_booted_def seen_later_def
        seen_cursor)
qed

lemma seen_commit:
  "\<exists>x y. commitInsights (\<lambda>x. x) NoFault seen_partitions [insight_of [] (Some ''m'') (seen_row, seen_description)] 9 (seen_later xs) = (Inr [''uncertain''], x, y) \<and>
     map in_key (id_insights x) = [(7, 1)] \<and> id_cursor x = Some 9"
proof -
  have "case commitInsights (\<lambda>x. x) NoFault seen_partitions [insight_of [] (Some ''m'') (seen_row, seen_description)] 9 (seen_later xs) of
        (r, x, y) \<Rightarrow> r = Inr [''uncertain''] \<and> map in_key (id_insights x) = [(7, 1)] \<and> id_cursor x = Some 9"
    by code_simp
  then show ?thesis by (auto split: prod.splits)
qed

lemma seen_described: "describe_row seen_env [(''null'', None)] [] seen_row = Some seen_description"
  by code_simp

lemma seen_range:
  "capRange ''s'' [event_source.truncate seen_target] 6 9 2000 (id_db (seen_later xs)) = Inr 9"
  "readEventRows ''s'' [event_source.truncate seen_target] 6 9 (id_db (seen_later xs)) = Inr [seen_row]"
proof -
  have "creates ''s'' ''t'' (''CREATE TABLE IF NOT EXISTS \"s\".\"t\" ('')" by code_simp
  then have t: "tables_readable ''s'' [event_source.truncate seen_target] (id_db (seen_later xs)) = None"
    by (simp add: tables_readable_def seen_target_def event_source.truncate_def seen_later_def seen_idb_def relation_exists_def)
  show "capRange ''s'' [event_source.truncate seen_target] 6 9 2000 (id_db (seen_later xs)) = Inr 9"
    by (simp add: capRange_def t) (simp add: seen_target_def event_source.truncate_def seen_later_def seen_idb_def rows_between_def)
  show "readEventRows ''s'' [event_source.truncate seen_target] 6 9 (id_db (seen_later xs)) = Inr [seen_row]"
    by (simp add: readEventRows_def t)
       (simp add: seen_target_def event_source.truncate_def seen_later_def seen_idb_def rows_between_def event_of_def bindE_def cell_def
         hexOf_def cell_bytes_def seen_row_def)
qed

lemma seen_contexts: "\<exists>st. contexts sample_reads 0 [\<lparr>xr_txHash = ''null'', xr_blockNumber = 7\<rparr>] new_context_source = (Inr [(''null'', None)], st)"
  by (simp add: contexts_def sample_reads_def by_block_def read_block_def collect_def set_of_list_def new_context_source_def recent_empty
    forget_expired_def answer_tx_def set_add_def)

lemma seen_parties: "\<exists>st. partyKinds sample_reads [] cx = (Inr [], st)"
  by (simp add: partyKinds_def set_of_list_def)

definition seen_round :: prepared_round where
  "seen_round = \<lparr>pr_ingested = 9, pr_fromBlock = 6, pr_toBlock = 9, pr_described = [(seen_row, seen_description)]\<rparr>"

lemma seen_prepare:
  assumes "iz_idb st = seen_later xs" "iz_context st = new_context_source"
  shows "\<exists>cx. loop_prepare seen_env sample_told (new_loop (Some ''m'')) st =
    (Inr ((new_loop (Some ''m''))\<lparr>lp_pending := Some seen_round\<rparr>), st\<lparr>iz_blocksBehind := 4, iz_context := cx\<rparr>)"
proof -
  obtain c1 where c1: "contexts sample_reads 0 [\<lparr>xr_txHash = ''null'', xr_blockNumber = 7\<rparr>] new_context_source = (Inr [(''null'', None)], c1)"
    using seen_contexts by blast
  obtain c2 where c2: "partyKinds sample_reads [] c1 = (Inr [], c2)" using seen_parties by blast
  have p: "planRange 5 9 10 = Some \<lparr>fromBlock = 6, toBlock = 9\<rparr>" by code_simp
  have rest: "asked_parties [(''null'', None)] [seen_row] = []" "senders_of [(''null'', None)] = []"
    by (simp_all add: asked_parties_def senders_of_def seen_row_def)
  have ref: "\<lparr>xr_txHash = er_txHash seen_row, xr_blockNumber = er_blockNumber seen_row\<rparr> = \<lparr>xr_txHash = ''null'', xr_blockNumber = 7\<rparr>"
    by (simp add: seen_row_def)
  have d: "describe_rows seen_env sample_told [seen_row] (st\<lparr>iz_blocksBehind := 4\<rparr>) = (Inr [(seen_row, seen_description)], st\<lparr>iz_blocksBehind := 4, iz_context := c2\<rparr>)"
    using c1 c2 by (simp add: describe_rows_def ref assms sample_told_def rest seen_described)
  have e: "ie_schema seen_env = ''s''" "ie_targets seen_env = [seen_target]" "ie_batchBlocks seen_env = 10"
    "db_cursor (id_db (seen_later xs)) = Some 9" "id_cursor (seen_later xs) = Some 5" "\<not> ii_fails sample_told n" for n
    by (simp_all add: seen_env_def sample_insights_env_def seen_later_def seen_idb_def sample_told_def)
  have "prepareRound seen_env sample_told st = (Inr (Some seen_round), st\<lparr>iz_blocksBehind := 4, iz_context := c2\<rparr>)"
    by (simp add: prepareRound_def getCursor_def getInsightsCursor_def assms(1) e prepare_range_def p MAX_ROWS_PER_ROUND_def seen_range d seen_round_def)
  then show ?thesis by (auto simp: loop_prepare_def new_loop_def)
qed



end
