(* ===== verification/Gate.thy ===== *)
theory Gate
  imports Config
begin

text \<open>
  \<open>operator/src/gate.ts\<close>: which watch events cost a reconcile, one reconcile per Indexer at a time,
  a rerun for what came meanwhile, and retries with back-off while an Indexer waits for a Secret or
  ConfigMap. The code runs between awaits without interruption, so an event of the machine is one
  such segment: a call from outside, the start of a run, the end of a reconcile, a timer.
\<close>

subsection \<open>Indexer objects\<close>

record object_meta =
  om_name :: "string option"
  om_namespace :: "string option"
  om_uid :: "string option"
  om_generation :: "int option"

record condition =
  cd_type :: string
  cd_status :: bool
  cd_reason :: string
  cd_message :: "string option"
  cd_time :: string

record cr_status =
  cs_observedGeneration :: "int option"
  cs_conditions :: "condition list option"

text \<open>A spec is what the schema makes of it; \<open>None\<close> is one it cannot read at all.\<close>

record indexer =
  ix_meta :: "object_meta option"
  ix_spec :: "indexer_spec option"
  ix_status :: "cr_status option"

definition generation_of :: "indexer \<Rightarrow> int option" where
  "generation_of cr = Option.bind (ix_meta cr) om_generation"

definition keyOf :: "indexer \<Rightarrow> string option" where
  "keyOf cr =
     (case ix_meta cr of None \<Rightarrow> None
      | Some m \<Rightarrow> (case om_uid m of Some u \<Rightarrow> Some u
          | None \<Rightarrow> (case truthy (om_name m) of None \<Rightarrow> None
              | Some n \<Rightarrow> Some (default_to [] (om_namespace m) @ ''/'' @ n))))"

subsection \<open>The gate\<close>

datatype reconcile_result = OkResult | Waiting | Failed

datatype watch_phase = Added | Modified | Deleted | OtherPhase

definition WAIT_RETRY_START_MS :: int where "WAIT_RETRY_START_MS = 5000"
definition WAIT_RETRY_MAX_MS :: int where "WAIT_RETRY_MAX_MS = 60000"

text \<open>
  The maps of the class, and what the event loop holds for it: the runs in flight, each with its
  key, its object and whether its reconcile has begun, and the timers that are set, with their
  delay. Promises and timers are told apart by numbers.
\<close>

record gate =
  gt_generation :: "string \<rightharpoonup> int option"
  gt_running :: "string \<rightharpoonup> nat"
  gt_pending :: "string \<rightharpoonup> indexer"
  gt_latest :: "string \<rightharpoonup> indexer"
  gt_retry :: "string \<rightharpoonup> nat"
  gt_retryDelay :: "string \<rightharpoonup> int"
  gt_closed :: bool
  gt_runs :: "nat \<rightharpoonup> string \<times> indexer \<times> bool"
  gt_timers :: "nat \<rightharpoonup> string \<times> int"
  gt_fresh :: nat

definition new_gate :: gate where
  "new_gate = \<lparr>gt_generation = Map.empty, gt_running = Map.empty, gt_pending = Map.empty, gt_latest = Map.empty,
     gt_retry = Map.empty, gt_retryDelay = Map.empty, gt_closed = False, gt_runs = Map.empty, gt_timers = Map.empty,
     gt_fresh = 0\<rparr>"

text \<open>\<open>generation.get(key)\<close>: an absent key reads as an undefined generation.\<close>

definition recorded :: "gate \<Rightarrow> string \<Rightarrow> int option" where
  "recorded g k = (case gt_generation g k of Some n \<Rightarrow> n | None \<Rightarrow> None)"

definition clearTimeout :: "nat option \<Rightarrow> gate \<Rightarrow> gate" where
  "clearTimeout t g = (case t of None \<Rightarrow> g | Some t \<Rightarrow> g\<lparr>gt_timers := (gt_timers g)(t := None)\<rparr>)"

definition clearRetry :: "string \<Rightarrow> gate \<Rightarrow> gate" where
  "clearRetry k g =
     (let g = clearTimeout (gt_retry g k) g
      in g\<lparr>gt_retry := (gt_retry g)(k := None), gt_retryDelay := (gt_retryDelay g)(k := None)\<rparr>)"

definition remember :: "string \<Rightarrow> indexer \<Rightarrow> gate \<Rightarrow> gate" where
  "remember k cr g =
     (case (generation_of cr, Option.bind (gt_latest g k) generation_of) of
        (Some incoming, Some known) \<Rightarrow> if incoming \<ge> known then g\<lparr>gt_latest := (gt_latest g)(k \<mapsto> cr)\<rparr> else g
      | _ \<Rightarrow> g\<lparr>gt_latest := (gt_latest g)(k \<mapsto> cr)\<rparr>)"

definition next_retry_delay :: "int \<Rightarrow> int" where
  "next_retry_delay delay = min (delay * 2) WAIT_RETRY_MAX_MS"

definition retryLater :: "string \<Rightarrow> gate \<Rightarrow> gate" where
  "retryLater k g =
     (if gt_closed g \<or> gt_latest g k = None then g
      else (let delay = default_to WAIT_RETRY_START_MS (gt_retryDelay g k); t = gt_fresh g
            in g\<lparr>gt_retryDelay := (gt_retryDelay g)(k \<mapsto> next_retry_delay delay),
                 gt_timers := (gt_timers g)(t \<mapsto> (k, delay)), gt_retry := (gt_retry g)(k \<mapsto> t), gt_fresh := Suc t\<rparr>))"

definition stale :: "int option \<Rightarrow> int option \<Rightarrow> bool" where
  "stale incoming known = (case (incoming, known) of (Some i, Some n) \<Rightarrow> i < n | _ \<Rightarrow> False)"

text \<open>A new run is put in the map before its first reconcile starts.\<close>

definition start_run :: "string \<Rightarrow> indexer \<Rightarrow> gate \<Rightarrow> gate" where
  "start_run k cr g =
     (let r = gt_fresh g in g\<lparr>gt_runs := (gt_runs g)(r \<mapsto> (k, cr, False)), gt_running := (gt_running g)(k \<mapsto> r), gt_fresh := Suc r\<rparr>)"

definition schedule :: "string \<Rightarrow> indexer \<Rightarrow> bool \<Rightarrow> gate \<Rightarrow> gate" where
  "schedule k cr isRetry g =
     (let incoming = generation_of cr
      in if stale incoming (recorded g k) then g
         else (let g = (if isRetry then g else clearRetry k g);
                   g = g\<lparr>gt_generation := (gt_generation g)(k \<mapsto> incoming)\<rparr>
               in case gt_running g k of
                    Some _ \<Rightarrow>
                      if stale incoming (Option.bind (gt_pending g k) generation_of) then g
                      else g\<lparr>gt_pending := (gt_pending g)(k \<mapsto> cr)\<rparr>
                  | None \<Rightarrow> start_run k cr g))"

definition forget :: "string \<Rightarrow> gate \<Rightarrow> gate" where
  "forget k g = clearRetry k (g\<lparr>gt_generation := (gt_generation g)(k := None), gt_pending := (gt_pending g)(k := None),
     gt_latest := (gt_latest g)(k := None)\<rparr>)"

definition watch :: "indexer \<Rightarrow> watch_phase \<Rightarrow> gate \<Rightarrow> gate" where
  "watch cr ph g =
     (case truthy (keyOf cr) of None \<Rightarrow> g
      | Some k \<Rightarrow>
          (case ph of
             Deleted \<Rightarrow> forget k g
           | OtherPhase \<Rightarrow> g
           | _ \<Rightarrow>
               (let g = remember k cr g
                in if ph = Modified \<and> gt_generation g k = Some (generation_of cr) then g
                   else schedule k cr False g)))"

definition resync :: "indexer \<Rightarrow> gate \<Rightarrow> gate" where
  "resync cr g = (case truthy (keyOf cr) of None \<Rightarrow> g | Some k \<Rightarrow> schedule k cr False (remember k cr g))"

text \<open>Every timer that is set is one of the retry map, so closing clears them all.\<close>

definition close_gate :: "gate \<Rightarrow> gate" where
  "close_gate g = g\<lparr>gt_closed := True,
     gt_timers := (\<lambda>t. case gt_timers g t of Some (k, d) \<Rightarrow> if gt_retry g k = Some t then None else Some (k, d) | None \<Rightarrow> None),
     gt_retry := Map.empty, gt_retryDelay := (\<lambda>k. if gt_retry g k = None then gt_retryDelay g k else None)\<rparr>"

text \<open>A timer goes off.\<close>

definition fire :: "nat \<Rightarrow> gate \<Rightarrow> gate" where
  "fire t g =
     (case gt_timers g t of None \<Rightarrow> g
      | Some (k, _) \<Rightarrow>
          (let g = g\<lparr>gt_timers := (gt_timers g)(t := None), gt_retry := (gt_retry g)(k := None)\<rparr>
           in case gt_latest g k of None \<Rightarrow> g | Some cr \<Rightarrow> schedule k cr True g))"

text \<open>The run's first reconcile begins.\<close>

definition begin_run :: "nat \<Rightarrow> gate \<Rightarrow> gate" where
  "begin_run r g =
     (case gt_runs g r of Some (k, cr, False) \<Rightarrow> g\<lparr>gt_runs := (gt_runs g)(r \<mapsto> (k, cr, True))\<rparr> | _ \<Rightarrow> g)"

text \<open>A reconcile of the run ends: the queued rerun begins at once, or the run is over.\<close>

definition settle :: "nat \<Rightarrow> reconcile_result \<Rightarrow> gate \<Rightarrow> gate" where
  "settle r result g =
     (case gt_runs g r of
        Some (k, cr, True) \<Rightarrow>
          (let g = (if result = Failed \<and> recorded g k = generation_of cr
                    then g\<lparr>gt_generation := (gt_generation g)(k := None)\<rparr> else g)
           in case gt_pending g k of
                None \<Rightarrow>
                  (let g = g\<lparr>gt_running := (if gt_running g k = Some r then (gt_running g)(k := None) else gt_running g),
                             gt_runs := (gt_runs g)(r := None)\<rparr>
                   in case result of Waiting \<Rightarrow> retryLater k g | OkResult \<Rightarrow> clearRetry k g | Failed \<Rightarrow> g)
              | Some queued \<Rightarrow> g\<lparr>gt_pending := (gt_pending g)(k := None), gt_runs := (gt_runs g)(r \<mapsto> (k, queued, True))\<rparr>)
      | _ \<Rightarrow> g)"

subsection \<open>What is seen from outside\<close>

datatype gate_event =
    Watched indexer watch_phase
  | Resynced indexer
  | Closed
  | Began nat
  | Settled_run nat reconcile_result
  | Fired nat

datatype observed =
    Seen string indexer
  | Forgotten string
  | Started string indexer
  | Ended string indexer reconcile_result

fun gate_step :: "gate_event \<Rightarrow> gate \<Rightarrow> gate" where
  "gate_step (Watched cr ph) = watch cr ph"
| "gate_step (Resynced cr) = resync cr"
| "gate_step Closed = close_gate"
| "gate_step (Began r) = begin_run r"
| "gate_step (Settled_run r result) = settle r result"
| "gate_step (Fired t) = fire t"

fun observes :: "gate_event \<Rightarrow> gate \<Rightarrow> observed list" where
  "observes (Watched cr ph) g =
     (case truthy (keyOf cr) of None \<Rightarrow> []
      | Some k \<Rightarrow> (case ph of Deleted \<Rightarrow> [Forgotten k] | OtherPhase \<Rightarrow> [] | _ \<Rightarrow> [Seen k cr]))"
| "observes (Resynced cr) g = (case truthy (keyOf cr) of None \<Rightarrow> [] | Some k \<Rightarrow> [Seen k cr])"
| "observes (Began r) g = (case gt_runs g r of Some (k, cr, False) \<Rightarrow> [Started k cr] | _ \<Rightarrow> [])"
| "observes (Settled_run r result) g =
     (case gt_runs g r of
        Some (k, cr, True) \<Rightarrow> Ended k cr result # (case gt_pending g k of Some q \<Rightarrow> [Started k q] | None \<Rightarrow> [])
      | _ \<Rightarrow> [])"
| "observes e g = []"

text \<open>A life of the gate: the events as they come, and what it did, in order.\<close>

fun gate_run :: "gate_event list \<Rightarrow> gate \<times> observed list \<Rightarrow> gate \<times> observed list" where
  "gate_run [] s = s"
| "gate_run (e # es) (g, h) = gate_run es (gate_step e g, h @ observes e g)"

subsection \<open>One run per key, one timer per waiting key\<close>

definition runs_ok :: "gate \<Rightarrow> bool" where
  "runs_ok g \<longleftrightarrow>
     (\<forall>k r. gt_running g k = Some r \<longleftrightarrow> (\<exists>cr b. gt_runs g r = Some (k, cr, b))) \<and>
     (\<forall>k. gt_pending g k \<noteq> None \<longrightarrow> gt_running g k \<noteq> None) \<and>
     (\<forall>r. gt_runs g r \<noteq> None \<longrightarrow> r < gt_fresh g)"

definition timers_ok :: "gate \<Rightarrow> bool" where
  "timers_ok g \<longleftrightarrow>
     (\<forall>k t. gt_retry g k = Some t \<longleftrightarrow> (\<exists>d. gt_timers g t = Some (k, d))) \<and>
     (\<forall>t k d. gt_timers g t = Some (k, d) \<longrightarrow>
        t < gt_fresh g \<and> WAIT_RETRY_START_MS \<le> d \<and> d \<le> WAIT_RETRY_MAX_MS \<and> gt_latest g k \<noteq> None \<and> gt_running g k = None) \<and>
     (gt_closed g \<longrightarrow> gt_timers g = Map.empty) \<and>
     (\<forall>k d. gt_retryDelay g k = Some d \<longrightarrow> WAIT_RETRY_START_MS \<le> d \<and> d \<le> WAIT_RETRY_MAX_MS)"

lemma clearRetry_fields [simp]:
  "gt_generation (clearRetry k g) = gt_generation g" "gt_running (clearRetry k g) = gt_running g"
  "gt_pending (clearRetry k g) = gt_pending g" "gt_latest (clearRetry k g) = gt_latest g"
  "gt_closed (clearRetry k g) = gt_closed g" "gt_runs (clearRetry k g) = gt_runs g" "gt_fresh (clearRetry k g) = gt_fresh g"
  "gt_retry (clearRetry k g) = (gt_retry g)(k := None)" "gt_retryDelay (clearRetry k g) = (gt_retryDelay g)(k := None)"
  by (simp_all add: clearRetry_def clearTimeout_def Let_def split: option.split)

lemma timers_retry: "timers_ok g \<Longrightarrow> gt_timers g t = Some (k, d) \<Longrightarrow> gt_retry g k = Some t"
  unfolding timers_ok_def by blast

lemma retry_timer: "timers_ok g \<Longrightarrow> gt_retry g k = Some t \<Longrightarrow> \<exists>d. gt_timers g t = Some (k, d)"
  unfolding timers_ok_def by blast

lemma runs_fresh: "runs_ok g \<Longrightarrow> gt_runs g (gt_fresh g) = None"
  unfolding runs_ok_def by blast

lemma clearRetry_timers:
  assumes "timers_ok g"
  shows "gt_timers (clearRetry k g) t = (if \<exists>d. gt_timers g t = Some (k, d) then None else gt_timers g t)"
proof (cases "gt_retry g k")
  case None
  then have "gt_timers g t \<noteq> Some (k, d)" for d using timers_retry [OF assms] by fastforce
  with None show ?thesis by (simp add: clearRetry_def clearTimeout_def Let_def)
next
  case (Some u)
  with retry_timer [OF assms] obtain d where "gt_timers g u = Some (k, d)" by blast
  moreover have "t = u" if t: "gt_timers g t = Some (k, d')" for d' using timers_retry [OF assms t] Some by simp
  ultimately have "(\<exists>d. gt_timers g t = Some (k, d)) = (t = u)" by blast
  then show ?thesis using Some by (simp add: clearRetry_def clearTimeout_def Let_def)
qed

lemma timer_facts:
  assumes "timers_ok g" "gt_timers g t = Some (k, d)"
  shows "t < gt_fresh g" "WAIT_RETRY_START_MS \<le> d" "d \<le> WAIT_RETRY_MAX_MS" "gt_latest g k \<noteq> None" "gt_running g k = None"
    "\<not> gt_closed g"
  using assms unfolding timers_ok_def by auto

lemma clearRetry_ok:
  assumes "timers_ok g"
  shows "timers_ok (clearRetry k g)"
  unfolding timers_ok_def
proof (intro conjI allI impI)
  note timers = clearRetry_timers [OF assms]
  show "(gt_retry (clearRetry k g) k' = Some t) = (\<exists>d. gt_timers (clearRetry k g) t = Some (k', d))" for k' t
    using timers_retry [OF assms, of t k] timers_retry [OF assms, of t k'] retry_timer [OF assms, of k' t]
    by (cases "k' = k") (auto simp: timers)
  show "gt_closed (clearRetry k g) \<Longrightarrow> gt_timers (clearRetry k g) = Map.empty"
    using assms by (simp add: timers fun_eq_iff timers_ok_def)
  show "gt_retryDelay (clearRetry k g) k' = Some d \<Longrightarrow> WAIT_RETRY_START_MS \<le> d"
    "gt_retryDelay (clearRetry k g) k' = Some d \<Longrightarrow> d \<le> WAIT_RETRY_MAX_MS" for k' d
    using assms by (auto simp: timers_ok_def split: if_splits)
  fix t k' d
  assume "gt_timers (clearRetry k g) t = Some (k', d)"
  then have "gt_timers g t = Some (k', d)" by (simp add: timers split: if_splits)
  from timer_facts [OF assms this] show "t < gt_fresh (clearRetry k g)" "WAIT_RETRY_START_MS \<le> d" "d \<le> WAIT_RETRY_MAX_MS"
    "gt_latest (clearRetry k g) k' \<noteq> None" "gt_running (clearRetry k g) k' = None" by simp_all
qed

lemma runs_ok_cong: "gt_running g' = gt_running g \<Longrightarrow> gt_runs g' = gt_runs g \<Longrightarrow> gt_pending g' = gt_pending g \<Longrightarrow>
    gt_fresh g \<le> gt_fresh g' \<Longrightarrow> runs_ok g \<Longrightarrow> runs_ok g'"
  unfolding runs_ok_def by (simp only:) (meson less_le_trans)

lemma timers_ok_cong:
  assumes "gt_retry g' = gt_retry g" "gt_timers g' = gt_timers g" "gt_retryDelay g' = gt_retryDelay g"
    "gt_closed g' = gt_closed g" "gt_fresh g \<le> gt_fresh g'"
    "\<And>k. gt_retry g k \<noteq> None \<Longrightarrow> gt_latest g k \<noteq> None \<Longrightarrow> gt_running g k = None \<Longrightarrow> gt_latest g' k \<noteq> None \<and> gt_running g' k = None"
    and ok: "timers_ok g"
  shows "timers_ok g'"
  unfolding timers_ok_def assms(1-4)
proof (intro conjI allI impI)
  show "(gt_retry g k = Some t) = (\<exists>d. gt_timers g t = Some (k, d))" for k t using ok by (simp add: timers_ok_def)
  show "gt_closed g \<Longrightarrow> gt_timers g = Map.empty" using ok by (simp add: timers_ok_def)
  show "gt_retryDelay g k = Some d \<Longrightarrow> WAIT_RETRY_START_MS \<le> d" "gt_retryDelay g k = Some d \<Longrightarrow> d \<le> WAIT_RETRY_MAX_MS" for k d
    using ok by (auto simp: timers_ok_def)
  fix t k d
  assume t: "gt_timers g t = Some (k, d)"
  note f = timer_facts [OF ok t] timers_retry [OF ok t]
  show "t < gt_fresh g'" "WAIT_RETRY_START_MS \<le> d" "d \<le> WAIT_RETRY_MAX_MS" using f assms(5) by simp_all
  show "gt_latest g' k \<noteq> None" "gt_running g' k = None" using f assms(6) [of k] by simp_all
qed

lemma remember_fields [simp]:
  "gt_generation (remember k cr g) = gt_generation g" "gt_running (remember k cr g) = gt_running g"
  "gt_pending (remember k cr g) = gt_pending g" "gt_retry (remember k cr g) = gt_retry g"
  "gt_retryDelay (remember k cr g) = gt_retryDelay g" "gt_timers (remember k cr g) = gt_timers g"
  "gt_closed (remember k cr g) = gt_closed g" "gt_runs (remember k cr g) = gt_runs g" "gt_fresh (remember k cr g) = gt_fresh g"
  "k' \<noteq> k \<Longrightarrow> gt_latest (remember k cr g) k' = gt_latest g k'"
  by (auto simp: remember_def split: option.splits)

lemma remember_known [simp]: "gt_latest (remember k cr g) k \<noteq> None"
  by (cases "gt_latest g k") (auto simp: remember_def split: option.splits)

lemma remember_ok: "runs_ok g \<Longrightarrow> runs_ok (remember k cr g)" "timers_ok g \<Longrightarrow> timers_ok (remember k cr g)"
proof -
  show "runs_ok g \<Longrightarrow> runs_ok (remember k cr g)" by (rule runs_ok_cong) simp_all
  show "timers_ok g \<Longrightarrow> timers_ok (remember k cr g)"
  proof (rule timers_ok_cong)
    show "gt_latest g k' \<noteq> None \<Longrightarrow> gt_running g k' = None \<Longrightarrow>
        gt_latest (remember k cr g) k' \<noteq> None \<and> gt_running (remember k cr g) k' = None" for k'
      using remember_known [of k cr g] by (cases "k' = k") (simp_all del: remember_known)
  qed simp_all
qed

lemma start_run_ok:
  assumes "runs_ok g" "timers_ok g" "gt_running g k = None" "gt_retry g k = None"
  shows "runs_ok (start_run k cr g)" "timers_ok (start_run k cr g)"
proof -
  let ?r = "gt_fresh g"
  note fr = runs_fresh [OF assms(1)]
  have old: "gt_running g k' \<noteq> Some ?r" for k' using assms(1) fr by (auto simp: runs_ok_def)
  have free: "gt_runs g r \<noteq> Some (k, cr', b)" for r cr' b using assms(1,3) unfolding runs_ok_def by (metis option.distinct(1))
  show "runs_ok (start_run k cr g)"
    unfolding runs_ok_def
  proof (intro conjI allI impI)
    show "(gt_running (start_run k cr g) k' = Some r) = (\<exists>cr' b. gt_runs (start_run k cr g) r = Some (k', cr', b))" for k' r
      using assms(1) old free by (cases "k' = k"; cases "r = ?r") (auto simp: start_run_def Let_def runs_ok_def)
    show "gt_pending (start_run k cr g) k' \<noteq> None \<Longrightarrow> gt_running (start_run k cr g) k' \<noteq> None" for k'
      using assms(1) by (auto simp: start_run_def Let_def runs_ok_def)
    show "gt_runs (start_run k cr g) r \<noteq> None \<Longrightarrow> r < gt_fresh (start_run k cr g)" for r
      using assms(1) by (auto simp: start_run_def Let_def runs_ok_def less_Suc_eq split: if_splits)
  qed
  have nt: "gt_timers g t \<noteq> Some (k, d)" for t d using timers_retry [OF assms(2)] assms(4) by fastforce
  show "timers_ok (start_run k cr g)"
    by (rule timers_ok_cong [OF _ _ _ _ _ _ assms(2)]) (use assms(4) in \<open>auto simp: start_run_def Let_def\<close>)
qed

lemma schedule_ok:
  assumes "runs_ok g" "timers_ok g" "isRetry \<Longrightarrow> gt_retry g k = None"
  shows "runs_ok (schedule k cr isRetry g)" "timers_ok (schedule k cr isRetry g)"
proof -
  define c where "c = (if isRetry then g else clearRetry k g)"
  define g1 where "g1 = c\<lparr>gt_generation := (gt_generation c)(k \<mapsto> generation_of cr)\<rparr>"
  have c: "runs_ok c" "timers_ok c" "gt_retry c k = None" "gt_running c = gt_running g"
    using assms clearRetry_ok [OF assms(2)] runs_ok_cong [of "clearRetry k g" g] by (auto simp: c_def)
  have g: "runs_ok g1" "timers_ok g1" "gt_retry g1 k = None" "gt_running g1 = gt_running g"
    using c runs_ok_cong [of g1 c] timers_ok_cong [of g1 c] by (auto simp: g1_def)
  have s: "schedule k cr isRetry g =
     (if stale (generation_of cr) (recorded g k) then g
      else case gt_running g1 k of
        Some _ \<Rightarrow> if stale (generation_of cr) (Option.bind (gt_pending g1 k) generation_of) then g1 else g1\<lparr>gt_pending := (gt_pending g1)(k \<mapsto> cr)\<rparr>
      | None \<Rightarrow> start_run k cr g1)"
    unfolding schedule_def Let_def c_def [symmetric] g1_def [symmetric] by (rule refl)
  have "runs_ok (schedule k cr isRetry g) \<and> timers_ok (schedule k cr isRetry g)"
  proof (cases "gt_running g1 k")
    case None
    with start_run_ok [OF g(1,2) _ g(3)] assms show ?thesis unfolding s by simp
  next
    case (Some r)
    let ?p = "g1\<lparr>gt_pending := (gt_pending g1)(k \<mapsto> cr)\<rparr>"
    have "gt_pending g1 k' \<noteq> None \<Longrightarrow> gt_running g1 k' \<noteq> None" for k' using g(1) unfolding runs_ok_def by blast
    with Some have "\<forall>k'. gt_pending ?p k' \<noteq> None \<longrightarrow> gt_running ?p k' \<noteq> None" by simp
    then have "runs_ok ?p" using g(1) by (simp add: runs_ok_def del: not_None_eq)
    moreover have "timers_ok ?p" by (rule timers_ok_cong [OF _ _ _ _ _ _ g(2)]) simp_all
    ultimately show ?thesis using g assms(1,2) unfolding s Some option.case by (simp del: fun_upd_apply)
  qed
  then show "runs_ok (schedule k cr isRetry g)" "timers_ok (schedule k cr isRetry g)" by blast+
qed

lemma retryLater_ok:
  assumes "runs_ok g" "timers_ok g" "gt_running g k = None" "gt_retry g k = None"
  shows "runs_ok (retryLater k g)" "timers_ok (retryLater k g)"
proof -
  have "runs_ok (retryLater k g) \<and> timers_ok (retryLater k g)"
  proof (cases "gt_closed g \<or> gt_latest g k = None")
    case True
    with assms show ?thesis by (simp add: retryLater_def)
  next
    case known: False
    define d where "d = default_to WAIT_RETRY_START_MS (gt_retryDelay g k)"
    let ?t = "gt_fresh g"
    have g': "retryLater k g = g\<lparr>gt_retryDelay := (gt_retryDelay g)(k \<mapsto> next_retry_delay d),
        gt_timers := (gt_timers g)(?t \<mapsto> (k, d)), gt_retry := (gt_retry g)(k \<mapsto> ?t), gt_fresh := Suc ?t\<rparr>"
      using known unfolding retryLater_def Let_def d_def by (simp del: not_None_eq)
    have d: "WAIT_RETRY_START_MS \<le> d" "d \<le> WAIT_RETRY_MAX_MS"
      using assms(2) by (auto simp: d_def timers_ok_def default_to_def WAIT_RETRY_START_MS_def WAIT_RETRY_MAX_MS_def split: option.split)
    have nd: "WAIT_RETRY_START_MS \<le> next_retry_delay d" "next_retry_delay d \<le> WAIT_RETRY_MAX_MS"
      using d by (simp_all add: next_retry_delay_def WAIT_RETRY_START_MS_def WAIT_RETRY_MAX_MS_def)
    have nt: "gt_timers g ?t = None" using timer_facts(1) [OF assms(2)] by (cases "gt_timers g ?t") auto
    have nr: "gt_retry g k' \<noteq> Some ?t" for k' using retry_timer [OF assms(2)] nt by fastforce
    have nk: "gt_timers g t \<noteq> Some (k, d')" for t d' using timers_retry [OF assms(2)] assms(4) by fastforce
    have "runs_ok (retryLater k g)" by (rule runs_ok_cong [OF _ _ _ _ assms(1)]) (simp_all add: g')
    moreover have "timers_ok (retryLater k g)"
      unfolding timers_ok_def
    proof (intro conjI allI impI)
      show "(gt_retry (retryLater k g) k' = Some t) = (\<exists>d. gt_timers (retryLater k g) t = Some (k', d))" for k' t
      proof -
        have "(gt_retry g k' = Some t) = (\<exists>d. gt_timers g t = Some (k', d))" using assms(2) unfolding timers_ok_def by blast
        then show ?thesis using nr [of k'] nk [of t] unfolding g' by (cases "k' = k"; cases "t = ?t") auto
      qed
      show "gt_closed (retryLater k g) \<Longrightarrow> gt_timers (retryLater k g) = Map.empty" using known by (simp add: g')
      show "gt_retryDelay (retryLater k g) k' = Some x \<Longrightarrow> WAIT_RETRY_START_MS \<le> x"
        "gt_retryDelay (retryLater k g) k' = Some x \<Longrightarrow> x \<le> WAIT_RETRY_MAX_MS" for k' x
        using assms(2) nd by (auto simp: g' timers_ok_def split: if_splits)
      fix t k' x
      assume t: "gt_timers (retryLater k g) t = Some (k', x)"
      have "t < gt_fresh (retryLater k g) \<and> WAIT_RETRY_START_MS \<le> x \<and> x \<le> WAIT_RETRY_MAX_MS \<and>
            gt_latest (retryLater k g) k' \<noteq> None \<and> gt_running (retryLater k g) k' = None"
      proof (cases "t = ?t")
        case True
        then have "k' = k" "x = d" using t by (simp_all add: g')
        with True d known assms(3) show ?thesis by (simp add: g' del: not_None_eq)
      next
        case False
        then have "gt_timers g t = Some (k', x)" using t by (simp add: g')
        from timer_facts [OF assms(2) this] show ?thesis by (simp add: g' del: not_None_eq)
      qed
      then show "t < gt_fresh (retryLater k g)" "WAIT_RETRY_START_MS \<le> x" "x \<le> WAIT_RETRY_MAX_MS"
        "gt_latest (retryLater k g) k' \<noteq> None" "gt_running (retryLater k g) k' = None" by blast+
    qed
    ultimately show ?thesis by blast
  qed
  then show "runs_ok (retryLater k g)" "timers_ok (retryLater k g)" by blast+
qed

lemma not_running_no_retry: "timers_ok g \<Longrightarrow> gt_running g k = Some r \<Longrightarrow> gt_retry g k = None"
  using retry_timer [of g k] timer_facts(5) [of g _ k] by (cases "gt_retry g k") fastforce+

lemma run_key: "runs_ok g \<Longrightarrow> gt_runs g r = Some (k, cr, b) \<Longrightarrow> gt_running g k = Some r"
  unfolding runs_ok_def by blast

lemma running_run: "runs_ok g \<Longrightarrow> gt_running g k = Some r \<Longrightarrow> \<exists>cr b. gt_runs g r = Some (k, cr, b)"
  unfolding runs_ok_def by blast

lemma pending_running: "runs_ok g \<Longrightarrow> gt_pending g k \<noteq> None \<Longrightarrow> gt_running g k \<noteq> None"
  unfolding runs_ok_def by blast

lemma runs_ok_update:
  assumes "runs_ok g" "gt_runs g r = Some (k, cr, b)" "gt_running g' = gt_running g" "gt_runs g' = (gt_runs g)(r \<mapsto> (k, cr', b'))"
    "\<And>k'. gt_pending g' k' \<noteq> None \<Longrightarrow> gt_pending g k' \<noteq> None" "gt_fresh g' = gt_fresh g"
  shows "runs_ok g'"
proof -
  have "r < gt_fresh g" using assms(1,2) unfolding runs_ok_def by blast
  moreover have "gt_running g k' = Some r \<longleftrightarrow> k' = k" for k'
    using run_key [OF assms(1,2)] running_run [OF assms(1), of k' r] assms(2) by auto
  ultimately show ?thesis using assms unfolding runs_ok_def by (auto split: if_splits)
qed

lemma settle_ok:
  assumes "runs_ok g" "timers_ok g"
  shows "runs_ok (settle r result g)" "timers_ok (settle r result g)"
proof -
  have "runs_ok (settle r result g) \<and> timers_ok (settle r result g)"
  proof (cases "\<exists>k cr. gt_runs g r = Some (k, cr, True)")
    case False
    then have "settle r result g = g" by (auto simp: settle_def split: option.splits bool.splits)
    with assms show ?thesis by simp
  next
    case True
    then obtain k cr where run: "gt_runs g r = Some (k, cr, True)" by blast
    note key = run_key [OF assms(1) run]
    note no = not_running_no_retry [OF assms(2) key]
    define g1 where "g1 = (if result = Failed \<and> recorded g k = generation_of cr then g\<lparr>gt_generation := (gt_generation g)(k := None)\<rparr> else g)"
    have g1: "runs_ok g1" "timers_ok g1" "gt_running g1 = gt_running g" "gt_pending g1 = gt_pending g" "gt_runs g1 = gt_runs g"
      "gt_retry g1 = gt_retry g"
      using assms runs_ok_cong [of g1 g] timers_ok_cong [of g1 g] by (auto simp: g1_def)
    show ?thesis
    proof (cases "gt_pending g k")
      case (Some q)
      let ?g = "g1\<lparr>gt_pending := (gt_pending g1)(k := None), gt_runs := (gt_runs g1)(r \<mapsto> (k, q, True))\<rparr>"
      have e: "settle r result g = ?g" unfolding settle_def Let_def run option.case prod.case bool.case g1_def [symmetric] using Some g1(4) by simp
      have "runs_ok ?g" by (rule runs_ok_update [OF g1(1), of r k cr True]) (simp_all add: g1 run split: if_splits)
      moreover have "timers_ok ?g" by (rule timers_ok_cong [OF _ _ _ _ _ _ g1(2)]) simp_all
      ultimately show ?thesis unfolding e by blast
    next
      case None
      define g2 where "g2 = g1\<lparr>gt_running := (if gt_running g1 k = Some r then (gt_running g1)(k := None) else gt_running g1),
                             gt_runs := (gt_runs g1)(r := None)\<rparr>"
      have e: "settle r result g = (case result of Waiting \<Rightarrow> retryLater k g2 | OkResult \<Rightarrow> clearRetry k g2 | Failed \<Rightarrow> g2)"
        unfolding settle_def Let_def run option.case prod.case bool.case g1_def [symmetric] g2_def [symmetric] using None g1(4) by simp
      have run2: "gt_running g2 = (gt_running g)(k := None)" "gt_runs g2 = (gt_runs g)(r := None)" "gt_pending g2 = gt_pending g"
        "gt_fresh g2 = gt_fresh g1" using key by (simp_all add: g2_def g1)
      have r2: "runs_ok g2"
        unfolding runs_ok_def
      proof (intro conjI allI impI)
        show "(gt_running g2 k' = Some r') = (\<exists>cr b. gt_runs g2 r' = Some (k', cr, b))" for k' r'
          using run_key [OF assms(1), of r' k'] running_run [OF assms(1), of k' r'] run key by (auto simp: run2)
        show "gt_pending g2 k' \<noteq> None \<Longrightarrow> gt_running g2 k' \<noteq> None" for k'
          using pending_running [OF assms(1), of k'] None by (auto simp: run2)
        show "gt_runs g2 r' \<noteq> None \<Longrightarrow> r' < gt_fresh g2" for r'
          using g1(1) by (auto simp: run2 runs_ok_def g1(5) split: if_splits)
      qed
      have t2: "timers_ok g2"
        by (rule timers_ok_cong [OF _ _ _ _ _ _ g1(2)]) (simp_all add: g2_def)
      have free: "gt_running g2 k = None" by (simp add: run2)
      have "gt_retry g2 k = None" using no by (simp add: g2_def g1)
      note w = retryLater_ok [OF r2 t2 free this]
      have c: "runs_ok (clearRetry k g2)" by (rule runs_ok_cong [OF _ _ _ _ r2]) simp_all
      show ?thesis using w c clearRetry_ok [OF t2, of k] r2 t2 unfolding e by (cases result) auto
    qed
  qed
  then show "runs_ok (settle r result g)" "timers_ok (settle r result g)" by blast+
qed

lemma forget_eq: "forget k g = (clearRetry k g)\<lparr>gt_generation := (gt_generation g)(k := None),
    gt_pending := (gt_pending g)(k := None), gt_latest := (gt_latest g)(k := None)\<rparr>"
  by (cases "gt_retry g k") (simp_all add: forget_def clearRetry_def clearTimeout_def Let_def)

lemma forget_ok:
  assumes "runs_ok g" "timers_ok g"
  shows "runs_ok (forget k g)" "timers_ok (forget k g)"
proof -
  have "gt_pending g k' \<noteq> None \<Longrightarrow> gt_running g k' \<noteq> None" for k' by (rule pending_running [OF assms(1)])
  then show "runs_ok (forget k g)" using assms(1) by (simp add: forget_eq runs_ok_def del: not_None_eq)
  show "timers_ok (forget k g)"
    by (rule timers_ok_cong [OF _ _ _ _ _ _ clearRetry_ok [OF assms(2), of k]]) (auto simp: forget_eq split: if_splits)
qed

lemma close_gate_empty: "timers_ok g \<Longrightarrow> gt_timers (close_gate g) = Map.empty"
  using timers_retry by (auto simp: close_gate_def fun_eq_iff split: option.split)

lemma close_gate_ok:
  assumes "runs_ok g" "timers_ok g"
  shows "runs_ok (close_gate g)" "timers_ok (close_gate g)"
proof -
  show "runs_ok (close_gate g)" by (rule runs_ok_cong [OF _ _ _ _ assms(1)]) (simp_all add: close_gate_def)
  have "gt_retryDelay (close_gate g) k = Some d \<Longrightarrow> gt_retryDelay g k = Some d" for k d by (simp add: close_gate_def split: if_splits)
  then show "timers_ok (close_gate g)"
    using assms(2) close_gate_empty [OF assms(2)] unfolding timers_ok_def by (simp add: close_gate_def) 
qed

lemma fire_ok:
  assumes "runs_ok g" "timers_ok g"
  shows "runs_ok (fire t g)" "timers_ok (fire t g)"
proof -
  have "runs_ok (fire t g) \<and> timers_ok (fire t g)"
  proof (cases "gt_timers g t")
    case None
    with assms show ?thesis by (simp add: fire_def)
  next
    case (Some x)
    then obtain k d where t: "gt_timers g t = Some (k, d)" by (cases x) auto
    define g1 where "g1 = g\<lparr>gt_timers := (gt_timers g)(t := None), gt_retry := (gt_retry g)(k := None)\<rparr>"
    have e: "fire t g = (case gt_latest g1 k of None \<Rightarrow> g1 | Some cr \<Rightarrow> schedule k cr True g1)"
      unfolding fire_def t option.case prod.case Let_def g1_def [symmetric] by (rule refl)
    have r1: "runs_ok g1" by (rule runs_ok_cong [OF _ _ _ _ assms(1)]) (simp_all add: g1_def)
    have "g1 = (clearRetry k g)\<lparr>gt_retryDelay := gt_retryDelay g\<rparr>"
      using timers_retry [OF assms(2) t] by (simp add: g1_def clearRetry_def clearTimeout_def Let_def)
    moreover have "timers_ok ((clearRetry k g)\<lparr>gt_retryDelay := gt_retryDelay g\<rparr>)"
      using clearRetry_ok [OF assms(2), of k] assms(2) unfolding timers_ok_def by simp
    ultimately have "timers_ok g1" "gt_retry g1 k = None" by (simp_all add: g1_def)
    with schedule_ok [OF r1 this(1)] r1 show ?thesis unfolding e by (auto split: option.split)
  qed
  then show "runs_ok (fire t g)" "timers_ok (fire t g)" by blast+
qed

lemma begin_run_ok:
  assumes "runs_ok g" "timers_ok g"
  shows "runs_ok (begin_run r g)" "timers_ok (begin_run r g)"
proof -
  have "runs_ok (begin_run r g) \<and> timers_ok (begin_run r g)"
  proof (cases "\<exists>k cr. gt_runs g r = Some (k, cr, False)")
    case False
    then have "begin_run r g = g" by (auto simp: begin_run_def split: option.split bool.split)
    with assms show ?thesis by simp
  next
    case True
    then obtain k cr where run: "gt_runs g r = Some (k, cr, False)" by blast
    then have e: "begin_run r g = g\<lparr>gt_runs := (gt_runs g)(r \<mapsto> (k, cr, True))\<rparr>" by (simp add: begin_run_def)
    have "runs_ok (begin_run r g)" by (rule runs_ok_update [OF assms(1) run]) (simp_all add: e)
    moreover have "timers_ok (begin_run r g)" by (rule timers_ok_cong [OF _ _ _ _ _ _ assms(2)]) (simp_all add: e)
    ultimately show ?thesis by blast
  qed
  then show "runs_ok (begin_run r g)" "timers_ok (begin_run r g)" by blast+
qed

lemma gate_step_ok:
  assumes "runs_ok g" "timers_ok g"
  shows "runs_ok (gate_step e g) \<and> timers_ok (gate_step e g)"
proof (cases e)
  case (Watched cr ph)
  show ?thesis
  proof (cases "truthy (keyOf cr)")
    case (Some k)
    note s = schedule_ok [OF remember_ok(1) [OF assms(1), of k cr] remember_ok(2) [OF assms(2), of k cr], where isRetry = False]
    show ?thesis using s remember_ok assms forget_ok [OF assms]
      by (cases ph) (simp_all add: Watched watch_def Some Let_def)
  qed (simp add: Watched watch_def assms)
next
  case (Resynced cr)
  show ?thesis
  proof (cases "truthy (keyOf cr)")
    case (Some k)
    note s = schedule_ok [OF remember_ok(1) [OF assms(1), of k cr] remember_ok(2) [OF assms(2), of k cr], where isRetry = False]
    show ?thesis using s by (simp add: Resynced resync_def Some)
  qed (simp add: Resynced resync_def assms)
qed (use assms close_gate_ok begin_run_ok settle_ok fire_ok in simp_all)

lemma new_gate_ok: "runs_ok new_gate" "timers_ok new_gate"
  by (simp_all add: runs_ok_def timers_ok_def new_gate_def)

lemma gate_run_snoc: "gate_run (es @ [e]) s = (case gate_run es s of (g, h) \<Rightarrow> (gate_step e g, h @ observes e g))"
  by (induction es arbitrary: s) (auto split: prod.splits)

lemma gate_run_ok: "gate_run es (new_gate, []) = (g, h) \<Longrightarrow> runs_ok g \<and> timers_ok g"
proof (induction es arbitrary: g h rule: rev_induct)
  case Nil
  then show ?case using new_gate_ok by simp
next
  case (snoc e es)
  then show ?case using gate_step_ok by (auto simp: gate_run_snoc split: prod.splits)
qed

subsection \<open>Each key is a machine of its own\<close>

text \<open>
  What the gate promises about one Indexer, without numbers of promises and timers: whether a run
  is in flight (and its object, and whether its reconcile has begun), and whether a retry is set.
\<close>

record key_state =
  ks_generation :: "int option option"
  ks_latest :: "indexer option"
  ks_pending :: "indexer option"
  ks_retry :: bool
  ks_closed :: bool
  ks_run :: "(indexer \<times> bool) option"

definition key_view :: "string \<Rightarrow> gate \<Rightarrow> key_state" where
  "key_view k g = \<lparr>ks_generation = gt_generation g k, ks_latest = gt_latest g k, ks_pending = gt_pending g k,
     ks_retry = (gt_retry g k \<noteq> None), ks_closed = gt_closed g,
     ks_run = (case gt_running g k of None \<Rightarrow> None | Some r \<Rightarrow> map_option snd (gt_runs g r))\<rparr>"

datatype key_event = KSeen watch_phase indexer | KForget | KResync indexer | KClose | KBegin | KEnd reconcile_result | KFire

definition ks_recorded :: "key_state \<Rightarrow> int option" where
  "ks_recorded s = (case ks_generation s of Some n \<Rightarrow> n | None \<Rightarrow> None)"

definition key_remember :: "indexer \<Rightarrow> key_state \<Rightarrow> key_state" where
  "key_remember cr s = (if stale (generation_of cr) (Option.bind (ks_latest s) generation_of) then s else s\<lparr>ks_latest := Some cr\<rparr>)"

definition key_schedule :: "indexer \<Rightarrow> bool \<Rightarrow> key_state \<Rightarrow> key_state" where
  "key_schedule cr isRetry s =
     (if stale (generation_of cr) (ks_recorded s) then s
      else (let s = s\<lparr>ks_generation := Some (generation_of cr), ks_retry := (isRetry \<and> ks_retry s)\<rparr>
            in case ks_run s of
                 None \<Rightarrow> s\<lparr>ks_run := Some (cr, False)\<rparr>
               | Some _ \<Rightarrow> if stale (generation_of cr) (Option.bind (ks_pending s) generation_of) then s else s\<lparr>ks_pending := Some cr\<rparr>))"

definition key_end :: "reconcile_result \<Rightarrow> key_state \<Rightarrow> key_state" where
  "key_end result s =
     (case ks_run s of
        Some (cr, True) \<Rightarrow>
          (let s = (if result = Failed \<and> ks_recorded s = generation_of cr then s\<lparr>ks_generation := None\<rparr> else s)
           in case ks_pending s of
                Some q \<Rightarrow> s\<lparr>ks_pending := None, ks_run := Some (q, True)\<rparr>
              | None \<Rightarrow> s\<lparr>ks_run := None, ks_retry := (case result of
                    Waiting \<Rightarrow> (\<not> ks_closed s \<and> ks_latest s \<noteq> None) | OkResult \<Rightarrow> False | Failed \<Rightarrow> ks_retry s)\<rparr>)
      | _ \<Rightarrow> s)"

fun key_step :: "key_event \<Rightarrow> key_state \<Rightarrow> key_state" where
  "key_step (KSeen ph cr) s =
     (let s = key_remember cr s
      in if ph = Modified \<and> ks_generation s = Some (generation_of cr) then s else key_schedule cr False s)"
| "key_step KForget s = s\<lparr>ks_generation := None, ks_pending := None, ks_latest := None, ks_retry := False\<rparr>"
| "key_step (KResync cr) s = key_schedule cr False (key_remember cr s)"
| "key_step KClose s = s\<lparr>ks_closed := True, ks_retry := False\<rparr>"
| "key_step KBegin s = (case ks_run s of Some (cr, _) \<Rightarrow> s\<lparr>ks_run := Some (cr, True)\<rparr> | None \<Rightarrow> s)"
| "key_step (KEnd result) s = key_end result s"
| "key_step KFire s = (let s = s\<lparr>ks_retry := False\<rparr> in case ks_latest s of Some cr \<Rightarrow> key_schedule cr True s | None \<Rightarrow> s)"

text \<open>Which event of a key an event of the gate is.\<close>

fun key_event_of :: "string \<Rightarrow> gate_event \<Rightarrow> gate \<Rightarrow> key_event option" where
  "key_event_of k (Watched cr ph) g =
     (if truthy (keyOf cr) \<noteq> Some k \<or> ph = OtherPhase then None else if ph = Deleted then Some KForget else Some (KSeen ph cr))"
| "key_event_of k (Resynced cr) g = (if truthy (keyOf cr) = Some k then Some (KResync cr) else None)"
| "key_event_of k Closed g = Some KClose"
| "key_event_of k (Began r) g = (case gt_runs g r of Some (k', _, False) \<Rightarrow> if k' = k then Some KBegin else None | _ \<Rightarrow> None)"
| "key_event_of k (Settled_run r result) g =
     (case gt_runs g r of Some (k', _, True) \<Rightarrow> if k' = k then Some (KEnd result) else None | _ \<Rightarrow> None)"
| "key_event_of k (Fired t) g = (case gt_timers g t of Some (k', _) \<Rightarrow> if k' = k then Some KFire else None | None \<Rightarrow> None)"

lemma key_view_eqI:
  assumes "gt_generation g' k = gt_generation g k" "gt_latest g' k = gt_latest g k" "gt_pending g' k = gt_pending g k"
    "(gt_retry g' k = None) = (gt_retry g k = None)" "gt_closed g' = gt_closed g" "gt_running g' k = gt_running g k"
    "\<And>r. gt_running g k = Some r \<Longrightarrow> gt_runs g' r = gt_runs g r"
  shows "key_view k g' = key_view k g"
  using assms by (simp add: key_view_def split: option.split)

lemma key_view_run: "runs_ok g \<Longrightarrow> ks_run (key_view k g) = None \<longleftrightarrow> gt_running g k = None"
  using running_run [of g k] by (cases "gt_running g k") (auto simp: key_view_def)

lemma key_view_run_Some: "runs_ok g \<Longrightarrow> gt_runs g r = Some (k, cr, b) \<Longrightarrow> ks_run (key_view k g) = Some (cr, b)"
  using run_key [of g r k cr b] by (simp add: key_view_def)

lemma remember_stale: "remember k cr g = (if stale (generation_of cr) (Option.bind (gt_latest g k) generation_of) then g
    else g\<lparr>gt_latest := (gt_latest g)(k \<mapsto> cr)\<rparr>)"
  by (auto simp: remember_def stale_def split: option.splits)

lemma key_view_remember: "key_view k (remember k' cr g) = (if k' = k then key_remember cr (key_view k g) else key_view k g)"
  by (cases "gt_running g k") (simp_all add: remember_stale key_remember_def key_view_def)

lemma key_view_start_run:
  assumes "runs_ok g" "gt_running g k' = None"
  shows "key_view k (start_run k' cr g) = (if k' = k then (key_view k g)\<lparr>ks_run := Some (cr, False)\<rparr> else key_view k g)"
proof (cases "k' = k")
  case True
  then show ?thesis by (simp add: start_run_def Let_def key_view_def)
next
  case False
  have "gt_running g k \<noteq> Some (gt_fresh g)" using running_run [OF assms(1)] runs_fresh [OF assms(1)] by fastforce
  with False show ?thesis by (auto simp: start_run_def Let_def intro!: key_view_eqI)
qed

lemma key_view_schedule:
  assumes "runs_ok g"
  shows "key_view k (schedule k' cr isRetry g) = (if k' = k then key_schedule cr isRetry (key_view k g) else key_view k g)"
proof -
  define c where "c = (if isRetry then g else clearRetry k' g)"
  define g1 where "g1 = c\<lparr>gt_generation := (gt_generation c)(k' \<mapsto> generation_of cr)\<rparr>"
  have s: "schedule k' cr isRetry g =
     (if stale (generation_of cr) (recorded g k') then g
      else case gt_running g1 k' of
        Some _ \<Rightarrow> if stale (generation_of cr) (Option.bind (gt_pending g1 k') generation_of) then g1 else g1\<lparr>gt_pending := (gt_pending g1)(k' \<mapsto> cr)\<rparr>
      | None \<Rightarrow> start_run k' cr g1)"
    unfolding schedule_def Let_def c_def [symmetric] g1_def [symmetric] by (rule refl)
  have same: "gt_running g1 = gt_running g" "gt_runs g1 = gt_runs g" "gt_pending g1 = gt_pending g" "gt_fresh g1 = gt_fresh g"
    by (simp_all add: g1_def c_def)
  have r1: "runs_ok g1" by (rule runs_ok_cong [OF same(1,2,3) _ assms]) (simp add: same)
  have v: "key_view k g1 = (if k' = k then (key_view k g)\<lparr>ks_generation := Some (generation_of cr), ks_retry := (isRetry \<and> ks_retry (key_view k g))\<rparr> else key_view k g)"
    by (cases "gt_running g k") (simp_all add: g1_def c_def key_view_def)
  have rec: "recorded g k = ks_recorded (key_view k g)" by (simp add: recorded_def ks_recorded_def key_view_def)
  have run: "ks_run (key_view k g) = None \<longleftrightarrow> gt_running g k = None"
    by (rule key_view_run [OF assms])
  have pend: "ks_pending (key_view k g) = gt_pending g k" by (simp add: key_view_def)
  show ?thesis
  proof (cases "k' = k")
    case False
    have "key_view k (g1\<lparr>gt_pending := (gt_pending g1)(k' \<mapsto> cr)\<rparr>) = key_view k g1" using False by (cases "gt_running g1 k") (simp_all add: key_view_def)
    with False v show ?thesis unfolding s by (simp add: key_view_start_run [OF r1] split: option.split)
  next
    case True
    show ?thesis
    proof (cases "gt_running g k")
      case None
      with True v run rec same show ?thesis unfolding s key_schedule_def Let_def
        by (simp add: key_view_start_run [OF r1])
    next
      case (Some r)
      have p: "key_view k (g1\<lparr>gt_pending := (gt_pending g1)(k \<mapsto> cr)\<rparr>) = (key_view k g1)\<lparr>ks_pending := Some cr\<rparr>"
        by (cases "gt_running g1 k") (simp_all add: key_view_def)
      obtain x where "ks_run (key_view k g) = Some x" using run Some by (cases "ks_run (key_view k g)") auto
      with True v rec same p pend Some show ?thesis unfolding s key_schedule_def Let_def by simp
    qed
  qed
qed

lemma key_view_other_run:
  assumes "runs_ok g" "gt_runs g r = Some (k', cr, b)" "k' \<noteq> k"
  shows "gt_running g k \<noteq> Some r"
  using running_run [OF assms(1), of k r] assms(2,3) by auto

lemma key_view_settle:
  assumes "runs_ok g" "timers_ok g" "gt_runs g r = Some (k', cr, True)"
  shows "key_view k (settle r result g) = (if k' = k then key_end result (key_view k g) else key_view k g)"
proof -
  note key = run_key [OF assms(1,3)]
  note no = not_running_no_retry [OF assms(2) key]
  define g1 where "g1 = (if result = Failed \<and> recorded g k' = generation_of cr then g\<lparr>gt_generation := (gt_generation g)(k' := None)\<rparr> else g)"
  define g2 where "g2 = g1\<lparr>gt_running := (if gt_running g1 k' = Some r then (gt_running g1)(k' := None) else gt_running g1),
                             gt_runs := (gt_runs g1)(r := None)\<rparr>"
  have same: "gt_running g1 = gt_running g" "gt_pending g1 = gt_pending g" "gt_runs g1 = gt_runs g" "gt_retry g1 = gt_retry g"
    "gt_closed g1 = gt_closed g" "gt_latest g1 = gt_latest g" by (simp_all add: g1_def)
  have e: "settle r result g = (case gt_pending g k' of
      Some q \<Rightarrow> g1\<lparr>gt_pending := (gt_pending g1)(k' := None), gt_runs := (gt_runs g1)(r \<mapsto> (k', q, True))\<rparr>
    | None \<Rightarrow> (case result of Waiting \<Rightarrow> retryLater k' g2 | OkResult \<Rightarrow> clearRetry k' g2 | Failed \<Rightarrow> g2))"
    unfolding settle_def Let_def assms(3) option.case prod.case bool.case g1_def [symmetric] g2_def [symmetric]
    by (simp add: same split: option.split)
  show ?thesis
  proof (cases "k' = k")
    case False
    note ne = key_view_other_run [OF assms(1,3) False]
    have "key_view k (settle r result g) = key_view k g"
      unfolding e using False ne key
      by (intro key_view_eqI)
         (auto simp: g2_def g1_def retryLater_def Let_def split: option.splits reconcile_result.splits if_splits)
    with False show ?thesis by simp
  next
    case True
    have v: "ks_run (key_view k g) = Some (cr, True)" "ks_recorded (key_view k g) = recorded g k" "ks_pending (key_view k g) = gt_pending g k"
      "ks_retry (key_view k g) = False" "ks_closed (key_view k g) = gt_closed g" "ks_latest (key_view k g) = gt_latest g k"
      using key_view_run_Some [OF assms(1,3)] no True by (simp_all add: ks_recorded_def recorded_def key_view_def)
    have v1: "key_view k g1 = (if result = Failed \<and> recorded g k = generation_of cr then (key_view k g)\<lparr>ks_generation := None\<rparr> else key_view k g)"
      using key True by (simp add: g1_def key_view_def)
    show ?thesis
    proof (cases "gt_pending g k")
      case (Some q)
      have "key_view k (g1\<lparr>gt_pending := (gt_pending g1)(k := None), gt_runs := (gt_runs g1)(r \<mapsto> (k, q, True))\<rparr>) =
          (key_view k g1)\<lparr>ks_pending := None, ks_run := Some (q, True)\<rparr>"
        using key True by (simp add: key_view_def same)
      with True Some v v1 show ?thesis unfolding e key_end_def Let_def by simp
    next
      case None
      have g2: "key_view k g2 = (key_view k g1)\<lparr>ks_run := None\<rparr>" "gt_closed g2 = gt_closed g" "gt_latest g2 = gt_latest g"
        using key True by (simp_all add: key_view_def g2_def same)
      have c: "key_view k (clearRetry k g2) = (key_view k g2)\<lparr>ks_retry := False\<rparr>" by (cases "gt_running g2 k") (simp_all add: key_view_def)
      have l: "key_view k (retryLater k g2) = (key_view k g2)\<lparr>ks_retry := (\<not> gt_closed g \<and> gt_latest g k \<noteq> None)\<rparr>"
        using no True by (cases "gt_running g2 k") (auto simp: retryLater_def Let_def key_view_def g2(2,3) g2_def same)
      have "ks_retry (key_view k g1) = False" using v v1 by simp
      with True None v v1 c l g2 show ?thesis unfolding e key_end_def Let_def by (cases result) simp_all
    qed
  qed
qed

lemma key_view_forget: "key_view k (forget k' g) = (if k' = k then key_step KForget (key_view k g) else key_view k g)"
  by (cases "gt_running g k") (simp_all add: forget_eq key_view_def)

lemma key_view_close:
  assumes "timers_ok g"
  shows "key_view k (close_gate g) = key_step KClose (key_view k g)"
  by (cases "gt_running g k") (simp_all add: close_gate_def key_view_def)

lemma key_view_begin:
  assumes "runs_ok g" "gt_runs g r = Some (k', cr, False)"
  shows "key_view k (begin_run r g) = (if k' = k then key_step KBegin (key_view k g) else key_view k g)"
proof -
  have e: "begin_run r g = g\<lparr>gt_runs := (gt_runs g)(r \<mapsto> (k', cr, True))\<rparr>" by (simp add: begin_run_def assms(2))
  show ?thesis
  proof (cases "k' = k")
    case True
    with run_key [OF assms] show ?thesis unfolding e by (simp add: key_view_def assms(2))
  next
    case False
    have "key_view k (begin_run r g) = key_view k g"
      unfolding e using key_view_other_run [OF assms False] by (intro key_view_eqI) auto
    with False show ?thesis by simp
  qed
qed

lemma key_view_fire:
  assumes "runs_ok g" "timers_ok g" "gt_timers g t = Some (k', d)"
  shows "key_view k (fire t g) = (if k' = k then key_step KFire (key_view k g) else key_view k g)"
proof -
  define g1 where "g1 = g\<lparr>gt_timers := (gt_timers g)(t := None), gt_retry := (gt_retry g)(k' := None)\<rparr>"
  have e: "fire t g = (case gt_latest g k' of None \<Rightarrow> g1 | Some cr \<Rightarrow> schedule k' cr True g1)"
    unfolding fire_def assms(3) option.case prod.case Let_def g1_def [symmetric] by (simp add: g1_def)
  have r1: "runs_ok g1" by (rule runs_ok_cong [OF _ _ _ _ assms(1)]) (simp_all add: g1_def)
  have v1: "key_view k g1 = (if k' = k then (key_view k g)\<lparr>ks_retry := False\<rparr> else key_view k g)"
    by (cases "gt_running g k") (simp_all add: g1_def key_view_def)
  have "ks_latest (key_view k g) = gt_latest g k" by (simp add: key_view_def)
  then show ?thesis unfolding e using v1 by (auto simp: key_view_schedule [OF r1] split: option.split)
qed

text \<open>Whatever happens to the gate, each key sees its own machine take its own step.\<close>

lemma gate_step_view:
  assumes "runs_ok g" "timers_ok g"
  shows "key_view k (gate_step e g) = (case key_event_of k e g of None \<Rightarrow> key_view k g | Some ev \<Rightarrow> key_step ev (key_view k g))"
proof (cases e)
  case (Watched cr ph)
  show ?thesis
  proof (cases "truthy (keyOf cr)")
    case (Some k')
    let ?m = "remember k' cr g"
    have gen: "gt_generation ?m k = ks_generation (key_view k ?m)" by (simp add: key_view_def)
    note v = key_view_schedule [OF remember_ok(1) [OF assms(1)]] key_view_remember
    show ?thesis
    proof (cases "k' = k")
      case True
      then show ?thesis using v gen by (cases ph) (simp_all add: Watched watch_def Some Let_def key_view_forget)
    next
      case False
      then show ?thesis using v by (cases ph) (simp_all add: Watched watch_def Some Let_def key_view_forget)
    qed
  qed (simp add: Watched watch_def)
next
  case (Resynced cr)
  show ?thesis
    using key_view_schedule [OF remember_ok(1) [OF assms(1)]] key_view_remember
    by (cases "truthy (keyOf cr)") (simp_all add: Resynced resync_def)
next
  case Closed
  then show ?thesis using key_view_close [OF assms(2)] by simp
next
  case (Began r)
  show ?thesis
  proof (cases "\<exists>k cr. gt_runs g r = Some (k, cr, False)")
    case True
    then show ?thesis using key_view_begin [OF assms(1)] by (auto simp: Began)
  next
    case False
    then have "begin_run r g = g" "key_event_of k e g = None" by (auto simp: begin_run_def Began split: option.split bool.split)
    then show ?thesis by (simp add: Began)
  qed
next
  case (Settled_run r result)
  show ?thesis
  proof (cases "\<exists>k cr. gt_runs g r = Some (k, cr, True)")
    case True
    then show ?thesis using key_view_settle [OF assms] by (auto simp: Settled_run)
  next
    case False
    then have "settle r result g = g" "key_event_of k e g = None" by (auto simp: settle_def Settled_run split: option.split bool.split)
    then show ?thesis by (simp add: Settled_run)
  qed
next
  case (Fired t)
  show ?thesis
  proof (cases "gt_timers g t")
    case None
    then show ?thesis by (simp add: Fired fire_def)
  next
    case (Some x)
    then show ?thesis using key_view_fire [OF assms, of t] by (cases x) (auto simp: Fired)
  qed
qed

subsection \<open>What one Indexer's history shows\<close>

fun of_key :: "string \<Rightarrow> observed \<Rightarrow> bool" where
  "of_key k (Seen k' _) \<longleftrightarrow> k' = k"
| "of_key k (Forgotten k') \<longleftrightarrow> k' = k"
| "of_key k (Started k' _) \<longleftrightarrow> k' = k"
| "of_key k (Ended k' _ _) \<longleftrightarrow> k' = k"

definition about :: "string \<Rightarrow> observed list \<Rightarrow> observed list" where
  "about k h = filter (of_key k) h"

definition seen_gens :: "observed list \<Rightarrow> int list" where
  "seen_gens h = concat (map (\<lambda>x. case x of Seen _ cr \<Rightarrow> (case generation_of cr of Some n \<Rightarrow> [n] | None \<Rightarrow> []) | _ \<Rightarrow> []) h)"

definition started_gens :: "observed list \<Rightarrow> int list" where
  "started_gens h = concat (map (\<lambda>x. case x of Started _ cr \<Rightarrow> (case generation_of cr of Some n \<Rightarrow> [n] | None \<Rightarrow> []) | _ \<Rightarrow> []) h)"

definition starts :: "observed list \<Rightarrow> indexer list" where
  "starts h = concat (map (\<lambda>x. case x of Started _ cr \<Rightarrow> [cr] | _ \<Rightarrow> []) h)"

definition ends :: "observed list \<Rightarrow> (indexer \<times> reconcile_result) list" where
  "ends h = concat (map (\<lambda>x. case x of Ended _ cr r \<Rightarrow> [(cr, r)] | _ \<Rightarrow> []) h)"

text \<open>An Indexer that is never deleted, whose objects carry a generation, and whose reconciles do not fail.\<close>

definition calm :: "observed list \<Rightarrow> bool" where
  "calm h \<longleftrightarrow> list_all (\<lambda>x. case x of Seen _ cr \<Rightarrow> generation_of cr \<noteq> None | Forgotten _ \<Rightarrow> False
     | Ended _ _ r \<Rightarrow> r \<noteq> Failed | Started _ _ \<Rightarrow> True) h"

fun key_observes :: "string \<Rightarrow> key_event \<Rightarrow> key_state \<Rightarrow> observed list" where
  "key_observes k (KSeen _ cr) s = [Seen k cr]"
| "key_observes k (KResync cr) s = [Seen k cr]"
| "key_observes k KForget s = [Forgotten k]"
| "key_observes k KBegin s = (case ks_run s of Some (cr, _) \<Rightarrow> [Started k cr] | None \<Rightarrow> [])"
| "key_observes k (KEnd result) s =
     (case ks_run s of Some (cr, _) \<Rightarrow> Ended k cr result # (case ks_pending s of Some q \<Rightarrow> [Started k q] | None \<Rightarrow> []) | None \<Rightarrow> [])"
| "key_observes k _ s = []"

fun enabled :: "key_event \<Rightarrow> key_state \<Rightarrow> bool" where
  "enabled KBegin s \<longleftrightarrow> (\<exists>cr. ks_run s = Some (cr, False))"
| "enabled (KEnd _) s \<longleftrightarrow> (\<exists>cr. ks_run s = Some (cr, True))"
| "enabled _ s \<longleftrightarrow> True"

lemma observes_about:
  assumes "runs_ok g"
  shows "about k (observes e g) = (case key_event_of k e g of None \<Rightarrow> [] | Some ev \<Rightarrow> key_observes k ev (key_view k g))"
    and "key_event_of k e g = Some ev \<Longrightarrow> enabled ev (key_view k g)"
proof -
  have p: "ks_pending (key_view k g) = gt_pending g k" by (simp add: key_view_def)
  show "about k (observes e g) = (case key_event_of k e g of None \<Rightarrow> [] | Some ev \<Rightarrow> key_observes k ev (key_view k g))"
  proof (cases e)
    case (Watched cr ph)
    then show ?thesis by (cases "truthy (keyOf cr)"; cases ph) (auto simp: about_def)
  next
    case (Resynced cr)
    then show ?thesis by (cases "truthy (keyOf cr)") (auto simp: about_def)
  next
    case (Began r)
    then show ?thesis using key_view_run_Some [OF assms] by (auto simp: about_def split: option.splits bool.splits)
  next
    case (Settled_run r result)
    show ?thesis
    proof (cases "\<exists>k' cr. gt_runs g r = Some (k', cr, True)")
      case True
      then obtain k' cr where run: "gt_runs g r = Some (k', cr, True)" by blast
      then show ?thesis using key_view_run_Some [OF assms run] p
        by (cases "k' = k") (auto simp: about_def Settled_run split: option.split)
    next
      case False
      then have "observes e g = []" "key_event_of k e g = None" by (auto simp: Settled_run split: option.split bool.split)
      then show ?thesis by (simp add: about_def)
    qed
  qed (auto simp: about_def split: option.split)
  show "key_event_of k e g = Some ev \<Longrightarrow> enabled ev (key_view k g)"
    using key_view_run_Some [OF assms] by (cases e) (auto split: option.splits bool.splits if_splits)
qed

lemma about_append: "about k (h @ h') = about k h @ about k h'"
  by (simp add: about_def)

text \<open>An invariant of one key's machine and its history is one of the gate.\<close>

lemma gate_key_invariant:
  assumes "gate_run es (new_gate, []) = (g, h)" "P (key_view k new_gate) []"
    "\<And>ev s h. P s h \<Longrightarrow> enabled ev s \<Longrightarrow> P (key_step ev s) (h @ key_observes k ev s)"
  shows "P (key_view k g) (about k h)"
  using assms(1)
proof (induction es arbitrary: g h rule: rev_induct)
  case Nil
  with assms(2) show ?case by (simp add: about_def)
next
  case (snoc e es)
  obtain g0 h0 where 0: "gate_run es (new_gate, []) = (g0, h0)" by fastforce
  with snoc.prems have g: "g = gate_step e g0" "h = h0 @ observes e g0" by (simp_all add: gate_run_snoc)
  note ok = gate_run_ok [OF 0] and IH = snoc.IH [OF 0]
  show ?case
  proof (cases "key_event_of k e g0")
    case None
    with IH show ?thesis using gate_step_view [of g0 k e] observes_about(1) [of g0 k e] ok by (simp add: g about_append)
  next
    case (Some ev)
    from assms(3) [OF IH observes_about(2) [OF _ Some]] show ?thesis
      using gate_step_view [of g0 k e] observes_about(1) [of g0 k e] ok Some by (simp add: g about_append)
  qed
qed

lemma history_simps [simp]:
  "seen_gens [] = []" "seen_gens (h @ h') = seen_gens h @ seen_gens h'"
  "started_gens [] = []" "started_gens (h @ h') = started_gens h @ started_gens h'"
  "starts [] = []" "starts (h @ h') = starts h @ starts h'"
  "ends [] = []" "ends (h @ h') = ends h @ ends h'"
  "calm []" "calm (h @ h') \<longleftrightarrow> calm h \<and> calm h'"
  by (simp_all add: seen_gens_def started_gens_def starts_def ends_def calm_def)

text \<open>What a reconcile in flight has started and not ended.\<close>

definition in_flight :: "key_state \<Rightarrow> indexer list" where
  "in_flight s = (case ks_run s of Some (cr, True) \<Rightarrow> [cr] | _ \<Rightarrow> [])"

definition balanced :: "key_state \<Rightarrow> observed list \<Rightarrow> bool" where
  "balanced s h \<longleftrightarrow> starts h = map fst (ends h) @ in_flight s"

lemma key_schedule_run:
  "ks_run (key_schedule cr isRetry s) = (if ks_run s = None \<and> \<not> stale (generation_of cr) (ks_recorded s) then Some (cr, False) else ks_run s)"
  by (auto simp: key_schedule_def Let_def split: option.split)

lemma key_remember_run [simp]: "ks_run (key_remember cr s) = ks_run s"
  by (simp add: key_remember_def)

lemma balanced_step: "balanced s h \<Longrightarrow> enabled ev s \<Longrightarrow> balanced (key_step ev s) (h @ key_observes k ev s)"
proof (cases ev)
  case (KEnd result)
  assume b: "balanced s h" and "enabled ev s"
  then obtain cr where run: "ks_run s = Some (cr, True)" by (auto simp: KEnd)
  with b show ?thesis
    by (auto simp: KEnd balanced_def in_flight_def key_end_def Let_def starts_def ends_def split: option.split)
qed (auto simp: balanced_def in_flight_def key_schedule_run Let_def starts_def ends_def split: option.splits)

lemma gate_balanced: "gate_run es (new_gate, []) = (g, h) \<Longrightarrow> balanced (key_view k g) (about k h)"
  by (rule gate_key_invariant [where P = balanced, OF _ _ balanced_step])
     (simp_all add: balanced_def in_flight_def key_view_def new_gate_def)

subsection \<open>Nothing newer is left behind\<close>

definition newest :: "observed list \<Rightarrow> int" where
  "newest h = Max (set (seen_gens h))"

definition settled_ok :: "key_state \<Rightarrow> observed list \<Rightarrow> bool" where
  "settled_ok s h \<longleftrightarrow> (\<exists>cr r. ends h \<noteq> [] \<and> last (ends h) = (cr, r) \<and> generation_of cr = Some (newest h) \<and>
     (r = Waiting \<and> \<not> ks_closed s \<longrightarrow> ks_retry s))"

definition converging :: "key_state \<Rightarrow> observed list \<Rightarrow> bool" where
  "converging s h \<longleftrightarrow>
     (if seen_gens h = [] then ks_generation s = None \<and> ks_latest s = None \<and> ks_run s = None \<and> ks_pending s = None \<and> started_gens h = []
      else ks_generation s = Some (Some (newest h)) \<and>
        (\<exists>cr. ks_latest s = Some cr \<and> generation_of cr = Some (newest h)) \<and>
        sorted (started_gens h) \<and>
        (case ks_run s of
           None \<Rightarrow> ks_pending s = None \<and> settled_ok s h \<and> (\<forall>n \<in> set (started_gens h). n \<le> newest h)
         | Some (cr, _) \<Rightarrow> \<exists>n. generation_of cr = Some n \<and> n \<le> newest h \<and> (\<forall>m \<in> set (started_gens h). m \<le> n) \<and>
             (case ks_pending s of None \<Rightarrow> n = newest h | Some q \<Rightarrow> generation_of q = Some (newest h))))"

lemma seen_one: "generation_of cr = Some n \<Longrightarrow> seen_gens [Seen k cr] = [n]" "started_gens [Seen k cr] = []" "ends [Seen k cr] = []"
  by (simp_all add: seen_gens_def started_gens_def ends_def)

lemma newest_seen: "generation_of cr = Some n \<Longrightarrow> newest (h @ [Seen k cr]) = (if seen_gens h = [] then n else max n (newest h))"
  by (simp add: newest_def seen_one insert_commute max.commute)

lemma converging_remember_schedule:
  assumes c: "converging s h" and n: "generation_of cr = Some n"
    and run: "s' = (if seen_gens h \<noteq> [] \<and> n = newest h \<and> skip then key_remember cr s else key_schedule cr False (key_remember cr s))"
  shows "converging s' (h @ [Seen k cr])"
proof (cases "seen_gens h = []")
  case True
  with c have s: "ks_generation s = None" "ks_latest s = None" "ks_run s = None" "ks_pending s = None" "started_gens h = []"
    by (simp_all add: converging_def)
  then have "s' = s\<lparr>ks_latest := Some cr, ks_generation := Some (Some n), ks_retry := False, ks_run := Some (cr, False)\<rparr>"
    using run True by (simp add: key_remember_def key_schedule_def stale_def ks_recorded_def Let_def n)
  then show ?thesis using s n True by (simp add: converging_def seen_one newest_seen)
next
  case False
  let ?m = "newest h"
  from c False obtain l where s: "ks_generation s = Some (Some ?m)" "ks_latest s = Some l" "generation_of l = Some ?m" "sorted (started_gens h)"
    and r: "case ks_run s of
           None \<Rightarrow> ks_pending s = None \<and> settled_ok s h \<and> (\<forall>n \<in> set (started_gens h). n \<le> ?m)
         | Some (cr, _) \<Rightarrow> \<exists>n. generation_of cr = Some n \<and> n \<le> ?m \<and> (\<forall>m \<in> set (started_gens h). m \<le> n) \<and>
             (case ks_pending s of None \<Rightarrow> n = ?m | Some q \<Rightarrow> generation_of q = Some ?m)"
    by (auto simp: converging_def)
  have rem: "key_remember cr s = (if n < ?m then s else s\<lparr>ks_latest := Some cr\<rparr>)" by (simp add: key_remember_def stale_def s n)
  have new: "newest (h @ [Seen k cr]) = max n ?m" "seen_gens (h @ [Seen k cr]) \<noteq> []" "started_gens (h @ [Seen k cr]) = started_gens h"
    "ends (h @ [Seen k cr]) = ends h" using False n by (simp_all add: newest_seen seen_one)
  consider (older) "n < ?m" "s' = s" | (same) "n = ?m" "skip" "s' = s\<lparr>ks_latest := Some cr\<rparr>"
    | (fresh) "?m \<le> n" "s' = key_schedule cr False (s\<lparr>ks_latest := Some cr\<rparr>)"
    using run False by (cases "n < ?m"; cases "n = ?m \<and> skip") (auto simp: rem key_schedule_def stale_def ks_recorded_def s n)
  then show ?thesis
  proof cases
    case older
    then have top: "max n ?m = ?m" by simp
    show ?thesis using c False unfolding older(2) converging_def settled_ok_def new top by simp
  next
    case same
    then have top: "max n ?m = ?m" by simp
    show ?thesis using c False n same(1) unfolding same(3) converging_def settled_ok_def new top by (cases "ks_run s") auto
  next
    case fresh
    show ?thesis
    proof (cases "ks_run s")
      case None
      then have e: "s' = s\<lparr>ks_latest := Some cr, ks_generation := Some (Some n), ks_retry := False, ks_run := Some (cr, False)\<rparr>"
        using fresh by (simp add: key_schedule_def stale_def ks_recorded_def s n Let_def)
      show ?thesis using False r None fresh(1) s n unfolding converging_def new e by (auto simp: max_def)
    next
      case (Some x)
      obtain c0 b where x: "x = (c0, b)" by (cases x)
      obtain i where i: "generation_of c0 = Some i" "i \<le> ?m" "\<forall>m \<in> set (started_gens h). m \<le> i"
        "case ks_pending s of None \<Rightarrow> i = ?m | Some q \<Rightarrow> generation_of q = Some ?m"
        using r Some x by auto
      have "\<not> stale (Some n) (Option.bind (ks_pending s) generation_of)"
        using i(4) fresh(1) by (auto simp: stale_def split: option.splits)
      then have e: "s' = s\<lparr>ks_latest := Some cr, ks_generation := Some (Some n), ks_retry := False, ks_pending := Some cr\<rparr>"
        using fresh Some by (simp add: key_schedule_def stale_def [of "Some n" "Some ?m"] ks_recorded_def s n Let_def)
      show ?thesis using False i Some x fresh(1) s n unfolding converging_def new e by (auto simp: max_def)
    qed
  qed
qed

lemma converging_step:
  assumes "calm h \<longrightarrow> converging s h" "enabled ev s"
  shows "calm (h @ key_observes k ev s) \<longrightarrow> converging (key_step ev s) (h @ key_observes k ev s)"
proof
  assume calm: "calm (h @ key_observes k ev s)"
  then have c: "converging s h" and new: "calm (key_observes k ev s)" using assms(1) by simp_all
  have gen: "ks_generation s = Some (Some n) \<longleftrightarrow> seen_gens h \<noteq> [] \<and> n = newest h" for n
    using c by (auto simp: converging_def split: if_splits)
  show "converging (key_step ev s) (h @ key_observes k ev s)"
  proof (cases ev)
    case (KSeen ph cr)
    with new obtain n where n: "generation_of cr = Some n" by (auto simp: calm_def)
    have "key_step ev s = (if seen_gens h \<noteq> [] \<and> n = newest h \<and> ph = Modified then key_remember cr s else key_schedule cr False (key_remember cr s))"
      using gen [of n] by (auto simp: KSeen Let_def n key_remember_def)
    from converging_remember_schedule [OF c n this] show ?thesis by (simp add: KSeen)
  next
    case KForget
    with new show ?thesis by (simp add: calm_def)
  next
    case (KResync cr)
    with new obtain n where n: "generation_of cr = Some n" by (auto simp: calm_def)
    have "key_step ev s = (if seen_gens h \<noteq> [] \<and> n = newest h \<and> False then key_remember cr s else key_schedule cr False (key_remember cr s))"
      by (simp add: KResync)
    from converging_remember_schedule [OF c n this] show ?thesis by (simp add: KResync)
  next
    case KClose
    with c show ?thesis by (auto simp: converging_def settled_ok_def split: option.splits if_splits)
  next
    case KBegin
    then obtain cr where run: "ks_run s = Some (cr, False)" using assms(2) by auto
    with c obtain n where "generation_of cr = Some n" "\<forall>m \<in> set (started_gens h). m \<le> n" "seen_gens h \<noteq> []"
      by (auto simp: converging_def split: if_splits)
    with c run show ?thesis
      by (auto simp: KBegin converging_def started_gens_def [of "[_]"] seen_gens_def [of "[_]"] newest_def sorted_append split: option.splits)
  next
    case (KEnd result)
    then obtain cr where run: "ks_run s = Some (cr, True)" using assms(2) by auto
    with c obtain n where n: "generation_of cr = Some n" "\<forall>m \<in> set (started_gens h). m \<le> n" "seen_gens h \<noteq> []" "n \<le> newest h"
      "case ks_pending s of None \<Rightarrow> n = newest h | Some q \<Rightarrow> generation_of q = Some (newest h)"
      by (auto simp: converging_def split: if_splits)
    have nf: "result \<noteq> Failed" using new run by (auto simp: KEnd calm_def split: option.splits)
    show ?thesis
    proof (cases "ks_pending s")
      case None
      have o: "key_observes k ev s = [Ended k cr result]" by (simp add: KEnd run None)
      have e: "key_step ev s = s\<lparr>ks_run := None, ks_retry := (case result of Waiting \<Rightarrow> (\<not> ks_closed s \<and> ks_latest s \<noteq> None) | OkResult \<Rightarrow> False | Failed \<Rightarrow> ks_retry s)\<rparr>"
        by (simp add: KEnd key_end_def run nf None Let_def)
      show ?thesis using c n None run unfolding o e converging_def settled_ok_def newest_def
        by (auto simp: seen_gens_def [of "[_]"] started_gens_def [of "[_]"] ends_def [of "[_]"] split: reconcile_result.split)
    next
      case (Some q)
      have o: "key_observes k ev s = [Ended k cr result, Started k q]" by (simp add: KEnd run Some)
      have e: "key_step ev s = s\<lparr>ks_pending := None, ks_run := Some (q, True)\<rparr>"
        by (simp add: KEnd key_end_def run nf Some Let_def)
      show ?thesis using c n Some run unfolding o e converging_def newest_def
        by (force simp: seen_gens_def [of "[_, _]"] started_gens_def [of "[_, _]"] sorted_append)
    qed
  next
    case KFire
    show ?thesis
    proof (cases "seen_gens h = []")
      case True
      with c show ?thesis by (simp add: KFire converging_def)
    next
      case False
      with c obtain l where l: "ks_latest s = Some l" "generation_of l = Some (newest h)" "ks_generation s = Some (Some (newest h))"
        by (auto simp: converging_def)
      have pend: "ks_run s \<noteq> None \<Longrightarrow> \<not> stale (Some (newest h)) (Option.bind (ks_pending s) generation_of)"
        using c False by (cases "ks_pending s") (auto simp: converging_def stale_def split: option.splits)
      have "key_step ev s = (if ks_run s = None then s\<lparr>ks_retry := False, ks_generation := Some (Some (newest h)), ks_run := Some (l, False)\<rparr>
          else s\<lparr>ks_retry := False, ks_generation := Some (Some (newest h)), ks_pending := Some l\<rparr>)"
        using l pend by (auto simp: KFire key_schedule_def ks_recorded_def stale_def [of _ "Some _"] Let_def)
      with c False l show ?thesis by (auto simp: KFire converging_def split: option.splits)
    qed
  qed
qed

lemma gate_converging: "gate_run es (new_gate, []) = (g, h) \<Longrightarrow> calm (about k h) \<Longrightarrow> converging (key_view k g) (about k h)"
proof -
  assume "gate_run es (new_gate, []) = (g, h)"
  then have "calm (about k h) \<longrightarrow> converging (key_view k g) (about k h)"
    by (rule gate_key_invariant [where P = "\<lambda>s h. calm h \<longrightarrow> converging s h", OF _ _ converging_step])
       (simp_all add: converging_def key_view_def new_gate_def)
  then show "calm (about k h) \<Longrightarrow> converging (key_view k g) (about k h)" by blast
qed

interpretation retry_backoff: doubling_backoff "\<lambda>n. (next_retry_delay ^^ n) WAIT_RETRY_START_MS" WAIT_RETRY_START_MS WAIT_RETRY_MAX_MS
  by (rule doubling_backoff_iterate) (simp_all add: next_retry_delay_def WAIT_RETRY_START_MS_def WAIT_RETRY_MAX_MS_def)


definition sample_cr :: "int \<Rightarrow> indexer" where
  "sample_cr n = \<lparr>ix_meta = Some \<lparr>om_name = Some ''usdc'', om_namespace = Some ''ns'', om_uid = Some ''u1'', om_generation = Some n\<rparr>,
     ix_spec = None, ix_status = None\<rparr>"


text \<open>
  C19: At any time at most one reconcile of an Indexer is in flight: the reconciles begun are those
  that ended, in that order, and at most one more.
\<close>

theorem gate_one_at_a_time:
  "\<exists>rest. starts (about k (snd (gate_run es (new_gate, [])))) = map fst (ends (about k (snd (gate_run es (new_gate, []))))) @ rest \<and>
     length rest \<le> (case gt_running (fst (gate_run es (new_gate, []))) k of None \<Rightarrow> 0 | Some _ \<Rightarrow> 1)"
proof -
  obtain g h where run: "gate_run es (new_gate, []) = (g, h)" by fastforce
  have "length (in_flight (key_view k g)) \<le> (case gt_running g k of None \<Rightarrow> 0 | Some _ \<Rightarrow> 1)"
    by (auto simp: in_flight_def key_view_def split: option.split bool.split)
  then show ?thesis using gate_balanced [OF run, of k] unfolding run balanced_def by auto
qed

text \<open>
  C21: Indexers do not disturb each other: whatever sequence of events led here, the next event
  moves the machine of the Indexer it is about by that machine's own step, and no other.
\<close>

theorem gate_keys_independent:
  "let g = fst (gate_run es (new_gate, [])) in
     key_view k (gate_step e g) = (case key_event_of k e g of None \<Rightarrow> key_view k g | Some ev \<Rightarrow> key_step ev (key_view k g))"
proof -
  obtain g h where run: "gate_run es (new_gate, []) = (g, h)" by fastforce
  show ?thesis using gate_run_ok [OF run] unfolding run fst_conv Let_def by (intro gate_step_view) blast+
qed

text \<open>
  A failed reconcile forgets its generation, and with it the guard against old objects: after
  generation 5 failed, a list that still shows generation 4 has that one reconciled, and the
  operator is left with the older spec applied although the newer one is known.
\<close>

theorem stale_after_failure:
  "(let (g, h) = gate_run [Watched (sample_cr 4) Added, Began 0, Settled_run 0 OkResult, Watched (sample_cr 5) Modified, Began 1,
        Settled_run 1 Failed, Resynced (sample_cr 4), Began 2, Settled_run 2 OkResult] (new_gate, [])
    in last (ends (about ''u1'' h)) = (sample_cr 4, OkResult) \<and> gt_latest g ''u1'' = Some (sample_cr 5) \<and>
       gt_running g ''u1'' = None \<and> gt_retry g ''u1'' = None)"
  by code_simp

end
