(* ===== verification/Resources.thy ===== *)
theory Resources
  imports Config
begin

text \<open>
  \<open>operator/src/resources.ts\<close>: the Kubernetes objects a worker runs from, rendered from an Indexer's
  spec. \<open>json\<close> is the pretty-printed JSON of a worker configuration, \<open>digest\<close> its SHA-256.
\<close>

subsection \<open>The objects\<close>

record owner_ref =
  ow_name :: string
  ow_uid :: string

text \<open>Every object is owned by the Indexer (its controller), so deleting that collects them.\<close>

record resource_meta =
  rm_name :: string
  rm_namespace :: string
  rm_labels :: "(string \<times> string) list"
  rm_owner :: owner_ref

record config_map =
  cm_meta :: resource_meta
  cm_data :: "(string \<times> string) list"

record role =
  ro_meta :: resource_meta
  ro_apiGroups :: "string list"
  ro_resources :: "string list"
  ro_verbs :: "string list"
  ro_resourceNames :: "string list"

record role_binding =
  rb_meta :: resource_meta
  rb_subject :: "string \<times> string"   \<comment> \<open>service account and namespace\<close>
  rb_role :: string

datatype env_source = EnvValue string | EnvSecret string string | EnvField string

record volume_mount =
  vm_name :: string
  vm_path :: string
  vm_readOnly :: bool

record volume =
  vo_name :: string
  vo_configMap :: string

record probe =
  pb_path :: string
  pb_port :: int
  pb_initialDelay :: int
  pb_period :: int

record deployment =
  dp_meta :: resource_meta
  dp_replicas :: int
  dp_strategy :: string
  dp_matchLabels :: "(string \<times> string) list"
  dp_podLabels :: "(string \<times> string) list"
  dp_annotations :: "(string \<times> string) list"
  dp_serviceAccount :: string
  dp_image :: string
  dp_env :: "(string \<times> env_source) list"
  dp_port :: int
  dp_liveness :: probe
  dp_readiness :: probe
  dp_mounts :: "volume_mount list"
  dp_volumes :: "volume list"

record desired_resources =
  dr_configMap :: config_map
  dr_serviceAccount :: resource_meta
  dr_role :: role
  dr_roleBinding :: role_binding
  dr_deployment :: deployment
  dr_hash :: string

subsection \<open>Rendering\<close>

definition workerResourceName :: "string \<Rightarrow> failure + string" where
  "workerResourceName crName =
     (let name = ''arckive-'' @ crName
      in if length name > 63 then Inl (PlainError (''resource name exceeds 63 characters: '' @ name)) else Inr name)"

definition resource_labels :: "string \<Rightarrow> (string \<times> string) list" where
  "resource_labels crName = [(''app.kubernetes.io/name'', ''arckive-worker''), (''app.kubernetes.io/instance'', crName),
     (''app.kubernetes.io/managed-by'', ''arckive-operator'')]"

definition meta_of :: "string \<Rightarrow> owner_ref \<Rightarrow> string \<Rightarrow> resource_meta" where
  "meta_of namespace owner name = \<lparr>rm_name = name, rm_namespace = namespace, rm_labels = resource_labels (ow_name owner), rm_owner = owner\<rparr>"

definition config_map_ref :: "spec_contract \<Rightarrow> (string \<times> string) option" where
  "config_map_ref c = Option.bind (sc_abi c) ar_configMap"

definition mounted_contracts :: "indexer_spec \<Rightarrow> (string \<times> string) list" where
  "mounted_contracts spec =
     concat (map (\<lambda>c. case config_map_ref c of Some (cm, _) \<Rightarrow> [(sc_name c, cm)] | None \<Rightarrow> []) (is_contracts spec))"

definition worker_env :: "owner_ref \<Rightarrow> indexer_spec \<Rightarrow> (string \<times> env_source) list" where
  "worker_env owner spec =
     [(''DATABASE_URL'', EnvSecret (fst (is_dsnSecret spec)) (snd (is_dsnSecret spec))),
      (''CONFIG_PATH'', EnvValue CONFIG_MOUNT_PATH), (''HEALTH_PORT'', EnvValue ''9090''),
      (''INDEXER_CR_NAME'', EnvValue (ow_name owner)), (''INDEXER_CR_NAMESPACE'', EnvField ''metadata.namespace'')] @
     (case Option.bind (is_insights spec) si_header of
        Some (name, key) \<Rightarrow> [(''INSIGHTS_HEADER'', EnvSecret name key)] | None \<Rightarrow> [])"

definition worker_deployment :: "string \<Rightarrow> owner_ref \<Rightarrow> indexer_spec \<Rightarrow> string \<Rightarrow> string \<Rightarrow> string \<Rightarrow> deployment" where
  "worker_deployment namespace owner spec workerImage base hash =
     \<lparr>dp_meta = meta_of namespace owner base,
      dp_replicas = 1, dp_strategy = ''Recreate'',
      dp_matchLabels = [(''app.kubernetes.io/name'', ''arckive-worker''), (''app.kubernetes.io/instance'', ow_name owner)],
      dp_podLabels = resource_labels (ow_name owner),
      dp_annotations = [(''arckive.org/config-hash'', hash)],
      dp_serviceAccount = base, dp_image = workerImage,
      dp_env = worker_env owner spec, dp_port = 9090,
      dp_liveness = \<lparr>pb_path = ''/metrics'', pb_port = 9090, pb_initialDelay = 5, pb_period = 10\<rparr>,
      dp_readiness = \<lparr>pb_path = ''/healthz'', pb_port = 9090, pb_initialDelay = 3, pb_period = 5\<rparr>,
      dp_mounts = \<lparr>vm_name = ''config'', vm_path = ''/etc/arckive/config'', vm_readOnly = True\<rparr> #
        map (\<lambda>(c, _). \<lparr>vm_name = ''abi-'' @ c, vm_path = ABI_MOUNT_DIR @ ''/'' @ c, vm_readOnly = True\<rparr>) (mounted_contracts spec),
      dp_volumes = \<lparr>vo_name = ''config'', vo_configMap = base @ ''-config''\<rparr> #
        map (\<lambda>(c, cm). \<lparr>vo_name = ''abi-'' @ c, vo_configMap = cm\<rparr>) (mounted_contracts spec)\<rparr>"

definition desiredResources :: "(string \<Rightarrow> bool) \<Rightarrow> (worker_config \<Rightarrow> string) \<Rightarrow> (worker_config \<Rightarrow> string) \<Rightarrow>
    string \<Rightarrow> owner_ref \<Rightarrow> indexer_spec \<Rightarrow> string \<Rightarrow> failure + desired_resources" where
  "desiredResources is_url json digest namespace owner spec workerImage =
     bindE (workerResourceName (ow_name owner)) (\<lambda>base.
     bindE (renderWorkerConfig is_url (ow_name owner) spec) (\<lambda>workerConfig.
       (let hash = configHash digest workerConfig; meta = meta_of namespace owner
        in Inr \<lparr>dr_configMap = \<lparr>cm_meta = meta (base @ ''-config''), cm_data = [(''config.json'', json workerConfig)]\<rparr>,
                dr_serviceAccount = meta base,
                dr_role = \<lparr>ro_meta = meta (base @ ''-status''), ro_apiGroups = [''arckive.org''], ro_resources = [''indexers/status''],
                   ro_verbs = [''patch''], ro_resourceNames = [ow_name owner]\<rparr>,
                dr_roleBinding = \<lparr>rb_meta = meta (base @ ''-status''), rb_subject = (base, namespace), rb_role = base @ ''-status''\<rparr>,
                dr_deployment = worker_deployment namespace owner spec workerImage base hash,
                dr_hash = hash\<rparr>)))"

subsection \<open>The objects fit together\<close>

lemma desiredResources_Inr:
  assumes "desiredResources is_url json digest namespace owner spec workerImage = Inr r"
  obtains base cfg where "workerResourceName (ow_name owner) = Inr base" "renderWorkerConfig is_url (ow_name owner) spec = Inr cfg"
    "dr_hash r = configHash digest cfg" "cm_data (dr_configMap r) = [(''config.json'', json cfg)]"
    "dr_deployment r = worker_deployment namespace owner spec workerImage base (dr_hash r)"
    "dr_serviceAccount r = meta_of namespace owner base" "cm_meta (dr_configMap r) = meta_of namespace owner (base @ ''-config'')"
    "dr_role r = \<lparr>ro_meta = meta_of namespace owner (base @ ''-status''), ro_apiGroups = [''arckive.org''], ro_resources = [''indexers/status''],
                   ro_verbs = [''patch''], ro_resourceNames = [ow_name owner]\<rparr>"
    "dr_roleBinding r = \<lparr>rb_meta = meta_of namespace owner (base @ ''-status''), rb_subject = (base, namespace), rb_role = base @ ''-status''\<rparr>"
  using assms by (auto simp: desiredResources_def bindE_Inr Let_def)

lemma rendered_contracts:
  assumes "renderWorkerConfig is_url crName spec = Inr cfg"
  shows "map (\<lambda>c. (cc_name c, cc_abiPath c)) (wc_contracts cfg) =
    map (\<lambda>c. (sc_name c, map_option (\<lambda>(_, key). ABI_MOUNT_DIR @ ''/'' @ sc_name c @ ''/'' @ key) (config_map_ref c))) (is_contracts spec)"
proof -
  have "mapE ContractConfigSchema (map render_contract (is_contracts spec)) = Inr (wc_contracts cfg)"
    using assms by (auto simp: renderWorkerConfig_def parseWorkerConfig_def Let_def bindE_Inr)
  then have "list_all2 (\<lambda>c x. ContractConfigSchema (render_contract c) = Inr x) (is_contracts spec) (wc_contracts cfg)"
    unfolding mapE_Inr by (simp add: list.rel_map)
  then show ?thesis
    by (rule list_all2_induct)
       (auto simp: ContractConfigSchema_def bindE_Inr render_contract_def config_map_ref_def split: option.split)
qed


definition mounted_spec :: indexer_spec where
  "mounted_spec = sample_spec\<lparr>is_contracts := map (\<lambda>c. c\<lparr>sc_abi := Some \<lparr>ar_configMap = Some (''abis'', ''usdc.json''), ar_inline = None\<rparr>\<rparr>) (is_contracts sample_spec),
     is_insights := Some \<lparr>si_url = ''https://gate'', si_header = Some (''laya'', ''header''), si_rpc = None, si_startBlock = None\<rparr>\<rparr>"


subsection \<open>Secrets stay out of the configuration\<close>

definition with_secrets :: "(string \<times> string) \<Rightarrow> (string \<times> string) option \<Rightarrow> indexer_spec \<Rightarrow> indexer_spec" where
  "with_secrets dsn header spec = spec\<lparr>is_dsnSecret := dsn, is_insights := map_option (\<lambda>i. i\<lparr>si_header := header\<rparr>) (is_insights spec)\<rparr>"

text \<open>
  Which Secrets an Indexer names never shows outside the worker's environment: two specs that
  differ only in their Secret references render the same ConfigMap, hash, roles, mounts and volumes,
  so no token or reference to one reaches the configuration file or its hash.
\<close>

theorem secrets_stay_in_env:
  "map_sum id (\<lambda>r. r\<lparr>dr_deployment := (dr_deployment r)\<lparr>dp_env := []\<rparr>\<rparr>)
     (desiredResources is_url json digest namespace owner (with_secrets dsn header spec) workerImage) =
   map_sum id (\<lambda>r. r\<lparr>dr_deployment := (dr_deployment r)\<lparr>dp_env := []\<rparr>\<rparr>)
     (desiredResources is_url json digest namespace owner spec workerImage)"
proof -
  have "renderWorkerConfig is_url crName (with_secrets dsn header spec) = renderWorkerConfig is_url crName spec" for crName
    by (simp add: renderWorkerConfig_def with_secrets_def Let_def option.map_comp comp_def)
  moreover have "mounted_contracts (with_secrets dsn header spec) = mounted_contracts spec"
    by (simp add: mounted_contracts_def with_secrets_def)
  then have "(worker_deployment namespace owner (with_secrets dsn header spec) workerImage base hash)\<lparr>dp_env := []\<rparr> =
      (worker_deployment namespace owner spec workerImage base hash)\<lparr>dp_env := []\<rparr>" for base hash
    by (simp add: worker_deployment_def)
  ultimately show ?thesis
    by (cases "workerResourceName (ow_name owner)"; cases "renderWorkerConfig is_url (ow_name owner) spec")
       (simp_all add: desiredResources_def Let_def)
qed

text \<open>
  Nothing keeps two contracts of a spec from having one name: the schema admits it, and the
  Deployment rendered from it has two volumes of the same name, which the API server refuses.
\<close>

theorem duplicate_volumes:
  "(let spec = mounted_spec\<lparr>is_contracts := is_contracts mounted_spec @ is_contracts mounted_spec\<rparr>
    in IndexerSpecSchema (\<lambda>_. True) spec \<and>
       (case desiredResources (\<lambda>_. True) (\<lambda>_. ''{}'') (\<lambda>_. ''d34db33f'') ''ns'' \<lparr>ow_name = ''arc'', ow_uid = ''u1''\<rparr> spec ''worker:1'' of
          Inl _ \<Rightarrow> False | Inr r \<Rightarrow> map vo_name (dp_volumes (dr_deployment r)) = [''config'', ''abi-usdc'', ''abi-usdc'']))"
  by code_simp

end
