(* ===== verification/Reconcile.thy ===== *)
theory Reconcile
  imports Gate Resources
begin

text \<open>
  \<open>operator/src/reconcile.ts\<close> and the writes of \<open>operator/src/kube.ts\<close>: one reconcile of an Indexer,
  from its checks to the objects it applies and the condition it reports. The API server is a
  parameter: what a get answers and which of the requests sent fail.
\<close>

subsection \<open>The API server\<close>

datatype kube_write =
    ApplyServiceAccount resource_meta
  | ApplyRole role
  | ApplyRoleBinding role_binding
  | ApplyConfigMap config_map
  | ApplyDeployment deployment
  | PatchStatus string string cr_status   \<comment> \<open>namespace, name\<close>

text \<open>A get answers \<open>None\<close> on 404; \<open>kb_fails n\<close> is the error of the \<open>n\<close>-th write, if it has one.\<close>

record kube =
  kb_configMap :: "string \<Rightarrow> string \<Rightarrow> failure + (string \<times> string) list option"
  kb_secret :: "string \<Rightarrow> string \<Rightarrow> failure + (string \<times> string) list option"
  kb_fails :: "nat \<Rightarrow> failure option"

type_synonym 'a api = "kube \<Rightarrow> kube_write list \<Rightarrow> (failure + 'a) \<times> kube_write list"

definition returnA :: "'a \<Rightarrow> 'a api" where
  "returnA a kb ws = (Inr a, ws)"

definition bindA :: "'a api \<Rightarrow> ('a \<Rightarrow> 'b api) \<Rightarrow> 'b api" where
  "bindA m f kb ws = (case m kb ws of (Inl e, ws) \<Rightarrow> (Inl e, ws) | (Inr a, ws) \<Rightarrow> f a kb ws)"

definition readA :: "(kube \<Rightarrow> failure + 'a) \<Rightarrow> 'a api" where
  "readA f kb ws = (f kb, ws)"

text \<open>A request that fails was still sent.\<close>

definition writeA :: "kube_write \<Rightarrow> unit api" where
  "writeA w kb ws = (case kb_fails kb (length ws) of Some e \<Rightarrow> Inl e | None \<Rightarrow> Inr (), ws @ [w])"

subsection \<open>Reconciling\<close>

record reconcile_env =
  re_isUrl :: "string \<Rightarrow> bool"
  re_json :: "worker_config \<Rightarrow> string"
  re_digest :: "worker_config \<Rightarrow> string"
  re_image :: string
  re_issues :: "indexer \<Rightarrow> string"   \<comment> \<open>the schema's issues, joined\<close>
  re_now :: string

definition new_condition :: "reconcile_env \<Rightarrow> bool \<Rightarrow> string \<Rightarrow> string option \<Rightarrow> condition" where
  "new_condition env st reason msg =
     \<lparr>cd_type = ''Provisioned'', cd_status = st, cd_reason = reason, cd_message = truthy msg, cd_time = re_now env\<rparr>"

definition provisioned :: "indexer \<Rightarrow> condition option" where
  "provisioned cr = (case Option.bind (ix_status cr) cs_conditions of
     Some cs \<Rightarrow> List.find (\<lambda>c. cd_type c = ''Provisioned'') cs | None \<Rightarrow> None)"

definition condition_unchanged :: "indexer \<Rightarrow> condition \<Rightarrow> bool" where
  "condition_unchanged cr c \<longleftrightarrow> Option.bind (ix_status cr) cs_observedGeneration = generation_of cr \<and>
     (case provisioned cr of Some p \<Rightarrow> cd_status p = cd_status c \<and> cd_reason p = cd_reason c \<and> cd_message p = cd_message c | None \<Rightarrow> False)"

definition setCondition :: "string \<Rightarrow> string \<Rightarrow> indexer \<Rightarrow> condition \<Rightarrow> unit api" where
  "setCondition namespace name cr c =
     (if condition_unchanged cr c then returnA ()
      else writeA (PatchStatus namespace name \<lparr>cs_observedGeneration = generation_of cr, cs_conditions = Some [c]\<rparr>))"

definition has_data :: "(string \<times> string) list option \<Rightarrow> string \<Rightarrow> bool" where
  "has_data obj key \<longleftrightarrow> (case obj of None \<Rightarrow> False | Some d \<Rightarrow> truthy (map_of d key) \<noteq> None)"

text \<open>The first contract whose mounted ABI is not there.\<close>

fun missing_abi :: "string \<Rightarrow> spec_contract list \<Rightarrow> (string \<times> string) option api" where
  "missing_abi namespace [] = returnA None"
| "missing_abi namespace (c # cs) =
     (case config_map_ref c of
        None \<Rightarrow> missing_abi namespace cs
      | Some (n, key) \<Rightarrow>
          bindA (readA (\<lambda>kb. kb_configMap kb namespace n)) (\<lambda>cm.
            if has_data cm key then missing_abi namespace cs else returnA (Some (n, key))))"

definition missing_secret :: "string \<Rightarrow> (string \<times> string) option \<Rightarrow> (string \<times> string) option api" where
  "missing_secret namespace ref =
     (case ref of None \<Rightarrow> returnA None
      | Some (n, key) \<Rightarrow>
          bindA (readA (\<lambda>kb. kb_secret kb namespace n)) (\<lambda>s. returnA (if has_data s key then None else Some (n, key))))"

definition not_found :: "string \<Rightarrow> string \<times> string \<Rightarrow> string option" where
  "not_found what = (\<lambda>(n, key). Some (what @ '' '' @ n @ ''/'' @ key @ '' not found''))"

definition apply_desired :: "desired_resources \<Rightarrow> unit api" where
  "apply_desired d =
     bindA (writeA (ApplyServiceAccount (dr_serviceAccount d))) (\<lambda>_.
     bindA (writeA (ApplyRole (dr_role d))) (\<lambda>_.
     bindA (writeA (ApplyRoleBinding (dr_roleBinding d))) (\<lambda>_.
     bindA (writeA (ApplyConfigMap (dr_configMap d))) (\<lambda>_.
       writeA (ApplyDeployment (dr_deployment d))))))"

definition waiting_for :: "reconcile_env \<Rightarrow> string \<Rightarrow> string \<Rightarrow> indexer \<Rightarrow> string \<Rightarrow> string option \<Rightarrow> reconcile_result api" where
  "waiting_for env namespace name cr reason msg =
     bindA (setCondition namespace name cr (new_condition env False reason msg)) (\<lambda>_. returnA Waiting)"

definition valid_spec :: "reconcile_env \<Rightarrow> indexer \<Rightarrow> indexer_spec option" where
  "valid_spec env cr = (case ix_spec cr of Some s \<Rightarrow> if IndexerSpecSchema (re_isUrl env) s then Some s else None | None \<Rightarrow> None)"

definition reconcile_spec :: "reconcile_env \<Rightarrow> string \<Rightarrow> string \<Rightarrow> string \<Rightarrow> indexer \<Rightarrow> indexer_spec \<Rightarrow> reconcile_result api" where
  "reconcile_spec env namespace name uid cr spec =
     bindA (missing_abi namespace (is_contracts spec)) (\<lambda>abi.
       case abi of Some ref \<Rightarrow> waiting_for env namespace name cr ''MissingAbiConfigMap'' (not_found ''ConfigMap'' ref)
       | None \<Rightarrow>
           bindA (missing_secret namespace (Some (is_dsnSecret spec))) (\<lambda>dsn.
             case dsn of Some ref \<Rightarrow> waiting_for env namespace name cr ''MissingDsnSecret'' (not_found ''Secret'' ref)
             | None \<Rightarrow>
                 bindA (missing_secret namespace (Option.bind (is_insights spec) si_header)) (\<lambda>header.
                   case header of Some ref \<Rightarrow> waiting_for env namespace name cr ''MissingInsightsSecret'' (not_found ''Secret'' ref)
                   | None \<Rightarrow>
                       bindA (readA (\<lambda>_. desiredResources (re_isUrl env) (re_json env) (re_digest env) namespace
                                \<lparr>ow_name = name, ow_uid = uid\<rparr> spec (re_image env))) (\<lambda>desired.
                       bindA (apply_desired desired) (\<lambda>_.
                       bindA (setCondition namespace name cr (new_condition env True ''Reconciled'' None)) (\<lambda>_.
                         returnA OkResult))))))"

definition reconcile :: "reconcile_env \<Rightarrow> indexer \<Rightarrow> reconcile_result api" where
  "reconcile env cr =
     (case (truthy (Option.bind (ix_meta cr) om_name), truthy (Option.bind (ix_meta cr) om_namespace), truthy (Option.bind (ix_meta cr) om_uid)) of
        (Some name, Some namespace, Some uid) \<Rightarrow>
          (case valid_spec env cr of
             None \<Rightarrow> bindA (setCondition namespace name cr (new_condition env False ''InvalidSpec'' (Some (re_issues env cr)))) (\<lambda>_. returnA OkResult)
           | Some spec \<Rightarrow> reconcile_spec env namespace name uid cr spec)
      | _ \<Rightarrow> returnA OkResult)"

text \<open>\<open>main.ts\<close> hands the gate this: a throw is a failed reconcile.\<close>

definition safeReconcile :: "reconcile_env \<Rightarrow> indexer \<Rightarrow> kube \<Rightarrow> kube_write list \<Rightarrow> reconcile_result \<times> kube_write list" where
  "safeReconcile env cr kb ws = (case reconcile env cr kb ws of (Inl e, ws) \<Rightarrow> (Failed, ws) | (Inr r, ws) \<Rightarrow> (r, ws))"

subsection \<open>What a reconcile decides\<close>

text \<open>
  The specification of a reconcile: from the spec and what the cluster answers, either a reason to
  report and nothing else, or the objects to apply.
\<close>

datatype verdict = Invalid string | Missing string string | Provision desired_resources

fun lookup_all :: "(string \<Rightarrow> failure + (string \<times> string) list option) \<Rightarrow> (string \<times> string) list \<Rightarrow> failure + (string \<times> string) option" where
  "lookup_all get [] = Inr None"
| "lookup_all get ((n, key) # refs) = bindE (get n) (\<lambda>obj. if has_data obj key then lookup_all get refs else Inr (Some (n, key)))"

definition abi_refs :: "indexer_spec \<Rightarrow> (string \<times> string) list" where
  "abi_refs spec = concat (map (\<lambda>c. case config_map_ref c of Some r \<Rightarrow> [r] | None \<Rightarrow> []) (is_contracts spec))"

definition header_refs :: "indexer_spec \<Rightarrow> (string \<times> string) list" where
  "header_refs spec = (case Option.bind (is_insights spec) si_header of Some r \<Rightarrow> [r] | None \<Rightarrow> [])"

definition decide :: "reconcile_env \<Rightarrow> kube \<Rightarrow> string \<Rightarrow> string \<Rightarrow> string \<Rightarrow> indexer \<Rightarrow> failure + verdict" where
  "decide env kb namespace name uid cr =
     (case valid_spec env cr of
        None \<Rightarrow> Inr (Invalid (re_issues env cr))
      | Some spec \<Rightarrow>
          bindE (lookup_all (kb_configMap kb namespace) (abi_refs spec)) (\<lambda>abi.
            case abi of Some r \<Rightarrow> Inr (Missing ''MissingAbiConfigMap'' (the (not_found ''ConfigMap'' r)))
            | None \<Rightarrow>
                bindE (lookup_all (kb_secret kb namespace) [is_dsnSecret spec]) (\<lambda>dsn.
                  case dsn of Some r \<Rightarrow> Inr (Missing ''MissingDsnSecret'' (the (not_found ''Secret'' r)))
                  | None \<Rightarrow>
                      bindE (lookup_all (kb_secret kb namespace) (header_refs spec)) (\<lambda>header.
                        case header of Some r \<Rightarrow> Inr (Missing ''MissingInsightsSecret'' (the (not_found ''Secret'' r)))
                        | None \<Rightarrow> bindE (desiredResources (re_isUrl env) (re_json env) (re_digest env) namespace
                             \<lparr>ow_name = name, ow_uid = uid\<rparr> spec (re_image env)) (\<lambda>d. Inr (Provision d))))))"

primrec verdict_condition :: "reconcile_env \<Rightarrow> verdict \<Rightarrow> condition" where
  "verdict_condition env (Invalid issues) = new_condition env False ''InvalidSpec'' (Some issues)"
| "verdict_condition env (Missing reason msg) = new_condition env False reason (Some msg)"
| "verdict_condition env (Provision d) = new_condition env True ''Reconciled'' None"

primrec verdict_writes :: "verdict \<Rightarrow> kube_write list" where
  "verdict_writes (Invalid _) = []"
| "verdict_writes (Missing _ _) = []"
| "verdict_writes (Provision d) = [ApplyServiceAccount (dr_serviceAccount d), ApplyRole (dr_role d), ApplyRoleBinding (dr_roleBinding d),
     ApplyConfigMap (dr_configMap d), ApplyDeployment (dr_deployment d)]"

primrec verdict_result :: "verdict \<Rightarrow> reconcile_result" where
  "verdict_result (Invalid _) = OkResult"
| "verdict_result (Missing _ _) = Waiting"
| "verdict_result (Provision _) = OkResult"

text \<open>Requests are sent in order until one fails.\<close>

fun send_writes :: "kube_write list \<Rightarrow> unit api" where
  "send_writes [] = returnA ()"
| "send_writes (w # ws) = bindA (writeA w) (\<lambda>_. send_writes ws)"

definition condition_write :: "string \<Rightarrow> string \<Rightarrow> indexer \<Rightarrow> condition \<Rightarrow> kube_write list" where
  "condition_write namespace name cr c =
     (if condition_unchanged cr c then [] else [PatchStatus namespace name \<lparr>cs_observedGeneration = generation_of cr, cs_conditions = Some [c]\<rparr>])"

lemma bindA_returnA [simp]: "bindA (returnA a) f = f a" "bindA m returnA = m"
  by (auto simp: fun_eq_iff bindA_def returnA_def split: prod.split sum.split)

lemma bindA_assoc: "bindA (bindA m f) g = bindA m (\<lambda>a. bindA (f a) g)"
  by (auto simp: fun_eq_iff bindA_def split: prod.split sum.split)

lemma bindA_readA: "bindA (readA f) g kb ws = (case f kb of Inl e \<Rightarrow> (Inl e, ws) | Inr a \<Rightarrow> g a kb ws)"
  by (simp add: bindA_def readA_def split: sum.split)

lemma send_writes_append: "send_writes (xs @ ys) = bindA (send_writes xs) (\<lambda>_. send_writes ys)"
  by (induction xs) (simp_all add: bindA_assoc)

lemma setCondition_sends: "setCondition namespace name cr c = send_writes (condition_write namespace name cr c)"
  by (auto simp: setCondition_def condition_write_def fun_eq_iff bindA_def returnA_def split: prod.split sum.split)

lemma apply_desired_sends: "apply_desired d = send_writes (verdict_writes (Provision d))"
  by (simp add: apply_desired_def fun_eq_iff bindA_def returnA_def split: prod.split sum.split)

lemma missing_abi_reads: "missing_abi namespace cs kb ws =
    (lookup_all (kb_configMap kb namespace) (concat (map (\<lambda>c. case config_map_ref c of Some r \<Rightarrow> [r] | None \<Rightarrow> []) cs)), ws)"
  by (induction cs) (auto simp: returnA_def bindA_readA split: option.split sum.split)

lemma missing_secret_reads: "missing_secret namespace (Some ref) kb ws = (lookup_all (kb_secret kb namespace) [ref], ws)"
  "missing_secret namespace None kb ws = (Inr None, ws)"
  by (cases ref) (auto simp: missing_secret_def bindA_readA returnA_def split: sum.split)

lemma reconcile_decides:
  assumes "truthy (Option.bind (ix_meta cr) om_name) = Some name" "truthy (Option.bind (ix_meta cr) om_namespace) = Some namespace"
    "truthy (Option.bind (ix_meta cr) om_uid) = Some uid"
  shows "reconcile env cr kb ws = (case decide env kb namespace name uid cr of
      Inl e \<Rightarrow> (Inl e, ws)
    | Inr v \<Rightarrow> bindA (send_writes (verdict_writes v @ condition_write namespace name cr (verdict_condition env v)))
        (\<lambda>_. returnA (verdict_result v)) kb ws)"
proof -
  have nf: "not_found what r = Some (the (not_found what r))" for what r by (cases r) (simp add: not_found_def)
  have wait: "waiting_for env namespace name cr reason (not_found what r) = bindA (send_writes
      (condition_write namespace name cr (new_condition env False reason (Some (the (not_found what r)))))) (\<lambda>_. returnA Waiting)" for reason what r
    using nf [of what r] by (simp add: waiting_for_def setCondition_sends)
  have secret: "missing_secret namespace (Option.bind (is_insights spec) si_header) kb ws =
      (lookup_all (kb_secret kb namespace) (header_refs spec), ws)" for spec ws
    by (cases "Option.bind (is_insights spec) si_header") (simp_all add: missing_secret_reads header_refs_def)
  show ?thesis
  proof (cases "valid_spec env cr")
    case None
    then show ?thesis by (simp add: reconcile_def assms decide_def setCondition_sends)
  next
    case (Some spec)
    have prov: "bindA (apply_desired d) (\<lambda>_. bindA (setCondition namespace name cr c) (\<lambda>_. returnA OkResult)) =
        bindA (send_writes (verdict_writes (Provision d) @ condition_write namespace name cr c)) (\<lambda>_. returnA OkResult)" for d c
      unfolding apply_desired_sends setCondition_sends send_writes_append bindA_assoc by (rule refl)
    show ?thesis
      unfolding reconcile_def assms prod.case option.case Some reconcile_spec_def decide_def prov
      by (simp add: bindA_def [of "missing_abi _ _"] bindA_def [of "missing_secret _ _"] bindA_readA missing_abi_reads missing_secret_reads(1) secret
          abi_refs_def wait bindE_def del: verdict_writes.simps(3) split: sum.split option.split)
  qed
qed

subsection \<open>No reconcile feeds itself\<close>

text \<open>What a merge patch of the status subresource makes of the object.\<close>

definition patched :: "cr_status \<Rightarrow> indexer \<Rightarrow> indexer" where
  "patched st cr = cr\<lparr>ix_status := Some
     \<lparr>cs_observedGeneration = (case cs_observedGeneration st of Some n \<Rightarrow> Some n | None \<Rightarrow> Option.bind (ix_status cr) cs_observedGeneration),
      cs_conditions = cs_conditions st\<rparr>\<rparr>"

fun apply_patches :: "kube_write list \<Rightarrow> indexer \<Rightarrow> indexer" where
  "apply_patches [] cr = cr"
| "apply_patches (PatchStatus _ _ st # ws) cr = apply_patches ws (patched st cr)"
| "apply_patches (_ # ws) cr = apply_patches ws cr"

fun is_patch :: "kube_write \<Rightarrow> bool" where
  "is_patch (PatchStatus _ _ _) \<longleftrightarrow> True"
| "is_patch _ \<longleftrightarrow> False"

lemma send_writes_prefix:
  assumes "send_writes xs kb ws = (r, ws')"
  shows "\<exists>ys zs. xs = ys @ zs \<and> ws' = ws @ ys \<and> (r = Inr () \<longleftrightarrow> zs = [] \<and> (\<forall>i < length xs. kb_fails kb (length ws + i) = None)) "
  using assms
proof (induction xs arbitrary: ws)
  case Nil
  then show ?case by (auto simp: returnA_def)
next
  case (Cons x xs)
  show ?case
  proof (cases "kb_fails kb (length ws)")
    case None
    then have "send_writes xs kb (ws @ [x]) = (r, ws')" using Cons.prems by (simp add: bindA_def writeA_def)
    from Cons.IH [OF this] obtain ys zs where i: "xs = ys @ zs" "ws' = (ws @ [x]) @ ys"
      "r = Inr () \<longleftrightarrow> zs = [] \<and> (\<forall>i < length xs. kb_fails kb (length (ws @ [x]) + i) = None)" by blast
    have "(\<forall>i < length (x # xs). kb_fails kb (length ws + i) = None) \<longleftrightarrow> (\<forall>i < length xs. kb_fails kb (length (ws @ [x]) + i) = None)"
      using None by (simp add: All_less_Suc2)
    with i show ?thesis by (intro exI [of _ "x # ys"] exI [of _ zs]) simp
  next
    case (Some e)
    then have "r = Inl e" "ws' = ws @ [x]" using Cons.prems by (auto simp: bindA_def writeA_def)
    moreover have "\<not> (\<forall>i < length (x # xs). kb_fails kb (length ws + i) = None)" using Some by force
    ultimately show ?thesis by (intro exI [of _ "[x]"] exI [of _ xs]) auto
  qed
qed

lemma send_writes_ok: "(\<And>i. i < length xs \<Longrightarrow> kb_fails kb (length ws + i) = None) \<Longrightarrow> send_writes xs kb ws = (Inr (), ws @ xs)"
proof (induction xs arbitrary: ws)
  case Nil
  then show ?case by (simp add: returnA_def)
next
  case (Cons x xs)
  have "kb_fails kb (length ws) = None" using Cons.prems [of 0] by simp
  moreover have "send_writes xs kb (ws @ [x]) = (Inr (), (ws @ [x]) @ xs)"
    by (rule Cons.IH) (use Cons.prems [of "Suc _"] in simp)
  ultimately show ?case by (simp add: bindA_def writeA_def)
qed

lemma reconcile_Inr:
  assumes "reconcile env cr kb [] = (Inr r, ws)"
    and "truthy (Option.bind (ix_meta cr) om_name) = Some name" "truthy (Option.bind (ix_meta cr) om_namespace) = Some namespace"
    "truthy (Option.bind (ix_meta cr) om_uid) = Some uid"
  obtains v where "decide env kb namespace name uid cr = Inr v" "r = verdict_result v"
    "ws = verdict_writes v @ condition_write namespace name cr (verdict_condition env v)"
proof -
  obtain v where v: "decide env kb namespace name uid cr = Inr v"
    using assms(1) unfolding reconcile_decides [OF assms(2-4)] by (auto split: sum.splits)
  let ?ws = "verdict_writes v @ condition_write namespace name cr (verdict_condition env v)"
  have run: "bindA (send_writes ?ws) (\<lambda>_. returnA (verdict_result v)) kb [] = (Inr r, ws)"
    using assms(1) unfolding reconcile_decides [OF assms(2-4)] by (simp add: v)
  obtain q ws' where q: "send_writes ?ws kb [] = (q, ws')" by fastforce
  with run have "q = Inr ()" "ws' = ws" "r = verdict_result v" by (auto simp: bindA_def returnA_def split: sum.splits)
  with send_writes_prefix [OF q] v show thesis by (auto intro: that)
qed

lemma apply_patches_writes:
  "\<not> list_ex is_patch (verdict_writes v)" "apply_patches (verdict_writes v @ ws) cr = apply_patches ws cr"
  by (cases v; simp)+

lemma patched_fields [simp]: "ix_meta (patched st cr) = ix_meta cr" "ix_spec (patched st cr) = ix_spec cr"
  "generation_of (patched st cr) = generation_of cr" "valid_spec env (patched st cr) = valid_spec env cr"
  by (simp_all add: patched_def generation_of_def valid_spec_def)

lemma condition_write_settles:
  assumes "generation_of cr = Some n" "cd_type c = ''Provisioned''"
    "cd_status c' = cd_status c" "cd_reason c' = cd_reason c" "cd_message c' = cd_message c"
  shows "condition_unchanged (apply_patches (condition_write namespace name cr c) cr) c'"
proof (cases "condition_unchanged cr c")
  case True
  then show ?thesis using assms by (auto simp: condition_write_def condition_unchanged_def split: option.splits)
next
  case False
  then have "apply_patches (condition_write namespace name cr c) cr = patched \<lparr>cs_observedGeneration = generation_of cr, cs_conditions = Some [c]\<rparr> cr"
    by (simp add: condition_write_def)
  then show ?thesis using assms by (simp add: condition_unchanged_def provisioned_def patched_def generation_of_def)
qed

text \<open>
  C12: A reconcile's own status patch does not make the next one patch again: on the object the patch
  made, with the cluster answering the same, the next reconcile reaches the same outcome and sends no
  status patch, however much later it runs and whichever of its requests fail.
\<close>

theorem reconcile_quiet:
  assumes "reconcile env cr kb [] = (Inr r, ws)" "generation_of cr = Some n"
    "reconcile (env\<lparr>re_now := later\<rparr>) (apply_patches ws cr) (kb\<lparr>kb_fails := fails\<rparr>) [] = (r', ws')"
    "re_issues env (apply_patches ws cr) = re_issues env cr"
  shows "\<not> list_ex is_patch ws' \<and> (case r' of Inr x \<Rightarrow> x = r | Inl _ \<Rightarrow> True)"
proof (cases "truthy (Option.bind (ix_meta cr) om_name) = None \<or> truthy (Option.bind (ix_meta cr) om_namespace) = None \<or>
    truthy (Option.bind (ix_meta cr) om_uid) = None")
  case True
  then have e: "reconcile env' cr' kb' [] = (Inr OkResult, [])" if "ix_meta cr' = ix_meta cr" for env' cr' kb'
    using that by (auto simp: reconcile_def returnA_def split: option.split)
  from e [of cr env kb] assms(1) have "r = OkResult" "ws = []" by simp_all
  with e [of cr] assms(3) show ?thesis by auto
next
  case False
  then obtain name namespace uid where m: "truthy (Option.bind (ix_meta cr) om_name) = Some name"
    "truthy (Option.bind (ix_meta cr) om_namespace) = Some namespace" "truthy (Option.bind (ix_meta cr) om_uid) = Some uid" by auto
  obtain v where v: "decide env kb namespace name uid cr = Inr v" "r = verdict_result v"
    "ws = verdict_writes v @ condition_write namespace name cr (verdict_condition env v)"
    by (rule reconcile_Inr [OF assms(1) m])
  let ?cr = "apply_patches ws cr" and ?env = "env\<lparr>re_now := later\<rparr>" and ?kb = "kb\<lparr>kb_fails := fails\<rparr>"
  have cr: "?cr = apply_patches (condition_write namespace name cr (verdict_condition env v)) cr" by (simp add: v(3) apply_patches_writes)
  have fields: "ix_meta ?cr = ix_meta cr" "valid_spec ?env ?cr = valid_spec env cr"
    by (cases "ix_spec cr"; simp add: cr condition_write_def valid_spec_def)+
  have d: "decide ?env ?kb namespace name uid ?cr = Inr v"
  proof -
    have same: "re_isUrl ?env = re_isUrl env" "re_json ?env = re_json env" "re_digest ?env = re_digest env" "re_image ?env = re_image env"
      "kb_configMap ?kb = kb_configMap kb" "kb_secret ?kb = kb_secret kb" "re_issues ?env ?cr = re_issues env cr"
      using assms(4) by simp_all
    have "decide ?env ?kb namespace name uid ?cr = decide env kb namespace name uid cr"
      unfolding decide_def fields(2) same by (rule refl)
    then show ?thesis using v(1) by simp
  qed
  have "condition_unchanged ?cr (verdict_condition ?env v)"
    unfolding cr by (rule condition_write_settles [OF assms(2)]) (cases v; simp add: new_condition_def)+
  then have none: "condition_write namespace name ?cr (verdict_condition ?env v) = []" by (simp add: condition_write_def)
  have run: "bindA (send_writes (verdict_writes v)) (\<lambda>_. returnA (verdict_result v)) ?kb [] = (r', ws')"
    using assms(3) by (simp add: reconcile_decides [OF m [folded fields(1)]] d none)
  obtain q ws2 where q: "send_writes (verdict_writes v) ?kb [] = (q, ws2)" by fastforce
  then have "ws' = ws2" "case r' of Inr x \<Rightarrow> x = verdict_result v | Inl _ \<Rightarrow> True"
    using run by (auto simp: bindA_def returnA_def split: sum.splits)
  moreover obtain ys zs where "verdict_writes v = ys @ zs" "ws2 = ys" using send_writes_prefix [OF q] by auto
  then have "\<not> list_ex is_patch ws2" using apply_patches_writes(1) [of v] by (metis list_ex_append)
  ultimately show ?thesis unfolding v(2) by simp
qed

definition sample_reconcile :: reconcile_env where
  "sample_reconcile = \<lparr>re_isUrl = (\<lambda>_. True), re_json = (\<lambda>_. ''{}''), re_digest = (\<lambda>_. ''d34db33f''), re_image = ''worker:1'',
     re_issues = (\<lambda>_. ''issues''), re_now = ''t0''\<rparr>"

definition provisioned_cr :: indexer where
  "provisioned_cr = \<lparr>ix_meta = Some \<lparr>om_name = Some ''arc'', om_namespace = Some ''ns'', om_uid = Some ''u1'', om_generation = Some 1\<rparr>,
     ix_spec = Some mounted_spec, ix_status = None\<rparr>"

definition sample_kube :: kube where
  "sample_kube = \<lparr>kb_configMap = (\<lambda>_ _. Inr (Some [(''usdc.json'', ''[]'')])), kb_secret = (\<lambda>_ _. Inr (Some [(''url'', ''eA=='')])),
     kb_fails = (\<lambda>_. None)\<rparr>"

text \<open>The header's Secret is not there: the first reconcile reports it, the second one has nothing to say.\<close>

theorem reconcile_quiet_witness:
  "(let (r, ws) = reconcile sample_reconcile provisioned_cr sample_kube [];
        (r', ws') = reconcile (sample_reconcile\<lparr>re_now := ''t1''\<rparr>) (apply_patches ws provisioned_cr) (sample_kube\<lparr>kb_fails := (\<lambda>_. None)\<rparr>) []
    in r = Inr Waiting \<and> length ws = 1 \<and> list_ex is_patch ws \<and> \<not> list_ex is_patch ws')"
proof -
  obtain q ws where run: "reconcile sample_reconcile provisioned_cr sample_kube [] = (q, ws)" by fastforce
  obtain q' ws' where run': "reconcile (sample_reconcile\<lparr>re_now := ''t1''\<rparr>) (apply_patches ws provisioned_cr) (sample_kube\<lparr>kb_fails := (\<lambda>_. None)\<rparr>) [] = (q', ws')"
    by fastforce
  have "(case reconcile sample_reconcile provisioned_cr sample_kube [] of (r, ws) \<Rightarrow> r = Inr Waiting \<and> length ws = 1 \<and> list_ex is_patch ws)"
    by code_simp
  then have q: "q = Inr Waiting" "length ws = 1" "list_ex is_patch ws" by (simp_all add: run)
  have "\<not> list_ex is_patch ws'"
    using reconcile_quiet [OF run [unfolded q(1)] _ run'] by (simp add: provisioned_cr_def generation_of_def sample_reconcile_def)
  with q show ?thesis by (simp add: run run')
qed

text \<open>
  C18: A reconcile does what its verdict says and no more: it sends the service account, role, binding,
  ConfigMap and Deployment, in this order, only when every ConfigMap and Secret the spec names was found
  holding its key, ends there if a request fails, and reports the verdict last; without name, namespace
  or uid it sends nothing.
\<close>

theorem reconcile_follows_verdict:
  "case (truthy (Option.bind (ix_meta cr) om_name), truthy (Option.bind (ix_meta cr) om_namespace), truthy (Option.bind (ix_meta cr) om_uid)) of
     (Some name, Some namespace, Some uid) \<Rightarrow>
       (case decide env kb namespace name uid cr of
          Inl e \<Rightarrow> safeReconcile env cr kb [] = (Failed, [])
        | Inr v \<Rightarrow>
            (let ws = verdict_writes v @ condition_write namespace name cr (verdict_condition env v);
                 (r, sent) = safeReconcile env cr kb []
             in (\<exists>rest. ws = sent @ rest) \<and>
                (if list_ex (\<lambda>i. kb_fails kb i \<noteq> None) [0..<length ws] then r = Failed else r = verdict_result v \<and> sent = ws)))
   | _ \<Rightarrow> safeReconcile env cr kb [] = (OkResult, [])"
proof (cases "truthy (Option.bind (ix_meta cr) om_name) = None \<or> truthy (Option.bind (ix_meta cr) om_namespace) = None \<or>
    truthy (Option.bind (ix_meta cr) om_uid) = None")
  case True
  then show ?thesis by (auto simp: safeReconcile_def reconcile_def returnA_def split: option.split)
next
  case False
  then obtain name namespace uid where m: "truthy (Option.bind (ix_meta cr) om_name) = Some name"
    "truthy (Option.bind (ix_meta cr) om_namespace) = Some namespace" "truthy (Option.bind (ix_meta cr) om_uid) = Some uid" by auto
  show ?thesis
  proof (cases "decide env kb namespace name uid cr")
    case (Inl e)
    then show ?thesis by (simp add: m safeReconcile_def reconcile_decides [OF m])
  next
    case (Inr v)
    let ?ws = "verdict_writes v @ condition_write namespace name cr (verdict_condition env v)"
    obtain q ws' where q: "send_writes ?ws kb [] = (q, ws')" by fastforce
    from send_writes_prefix [OF q, unfolded list.size add_0 append_Nil] obtain ys zs where p: "?ws = ys @ zs" "ws' = ys"
      "q = Inr () \<longleftrightarrow> zs = [] \<and> (\<forall>i < length ?ws. kb_fails kb i = None)" by blast
    have safe: "safeReconcile env cr kb [] = (case q of Inl e \<Rightarrow> (Failed, ws') | Inr _ \<Rightarrow> (verdict_result v, ws'))"
      by (simp add: safeReconcile_def reconcile_decides [OF m] Inr bindA_def q returnA_def split: sum.split)
    have fails: "list_ex (\<lambda>i. kb_fails kb i \<noteq> None) [0..<length ?ws] \<longleftrightarrow> \<not> (\<forall>i < length ?ws. kb_fails kb i = None)"
      by (auto simp: list_ex_iff)
    show ?thesis
    proof (cases "q = Inr ()")
      case True
      with p safe fails show ?thesis unfolding m prod.case option.case Inr sum.case Let_def by simp
    next
      case q': False
      then obtain e where e: "q = Inl e" by (cases q) auto
      have "\<not> (\<forall>i < length ?ws. kb_fails kb i = None)"
        using q' p send_writes_ok [of ?ws kb "[]"] q by auto
      then show ?thesis using p safe fails e unfolding m prod.case option.case Inr sum.case Let_def by auto
    qed
  qed
qed

end
