(* ===== verification/CrStatus.thy ===== *)
theory CrStatus
  imports Signal
begin

text \<open>
  \<open>worker/src/crstatus.ts\<close>, \<open>health.ts\<close> and the last lines of \<open>main.ts\<close>: what a worker reports of itself.
  It server-side applies its fields of the Indexer's status under its own field manager. The API
  server is a parameter with the documented law of that request; the theorem says what a reader of
  the resource sees after any sequence of reports.
\<close>

subsection \<open>Where to report\<close>

record cr_target =
  cr_baseUrl :: string
  cr_token :: string
  cr_ca :: string
  cr_namespace :: string
  cr_name :: string

definition SA_DIR :: string where
  "SA_DIR = ''/var/run/secrets/kubernetes.io/serviceaccount''"

text \<open>\<open>trimmed\<close> is \<open>trim()\<close>; \<open>readFile\<close> answers a file's text or throws.\<close>

definition crStatusTargetFromEnv ::
    "(string \<Rightarrow> string) \<Rightarrow> (string \<Rightarrow> failure + string) \<Rightarrow> (string \<Rightarrow> string option) \<Rightarrow> failure + cr_target option" where
  "crStatusTargetFromEnv trimmed readFile env =
     (case (env ''INDEXER_CR_NAME'', env ''KUBERNETES_SERVICE_HOST'') of
        (Some name, Some host) \<Rightarrow>
          if name = [] \<or> host = [] then Inr None
          else
            let port = (case env ''KUBERNETES_SERVICE_PORT_HTTPS'' of Some p \<Rightarrow> p
                  | None \<Rightarrow> (case env ''KUBERNETES_SERVICE_PORT'' of Some p \<Rightarrow> p | None \<Rightarrow> ''443''))
            in bindE (case env ''INDEXER_CR_NAMESPACE'' of Some ns \<Rightarrow> Inr ns
                 | None \<Rightarrow> bindE (readFile (SA_DIR @ ''/namespace'')) (\<lambda>s. Inr (trimmed s))) (\<lambda>namespace.
               bindE (readFile (SA_DIR @ ''/token'')) (\<lambda>token.
               bindE (readFile (SA_DIR @ ''/ca.crt'')) (\<lambda>ca.
               Inr (Some \<lparr>cr_baseUrl = ''https://'' @ host @ '':'' @ port, cr_token = trimmed token, cr_ca = ca,
                 cr_namespace = namespace, cr_name = name\<rparr>))))
      | _ \<Rightarrow> Inr None)"

definition status_path :: "cr_target \<Rightarrow> string" where
  "status_path target = ''/apis/arckive.org/v1alpha1/namespaces/'' @ cr_namespace target @ ''/indexers/'' @ cr_name target @
     ''/status'' @ ''?fieldManager=arckive-worker&force=true&fieldValidation=Strict''"

subsection \<open>What is reported\<close>

datatype status_value = Str string | Num int

type_synonym cr_status = "(string \<times> status_value) list"

definition phase_text :: "phase \<Rightarrow> string" where
  "phase_text p = (case p of Provisioning \<Rightarrow> ''Provisioning'' | Backfilling \<Rightarrow> ''Backfilling'' | Live \<Rightarrow> ''Live'' | Degraded \<Rightarrow> ''Degraded'')"

text \<open>The status of a push of \<open>startCrStatusLoop\<close>.\<close>

definition push_status :: "phase_tracker \<Rightarrow> cr_status" where
  "push_status tracker =
     [(''phase'', Str (phase_text (pt_phase tracker))), (''currentBlock'', Num (pt_currentBlock tracker)),
      (''headBlock'', Num (pt_headBlock tracker)), (''lag'', Num (pt_lag tracker))] @
     (case pt_lastError tracker of Some e \<Rightarrow> if e = [] then [] else [(''lastError'', Str e)] | None \<Rightarrow> [])"

definition fatal_status :: "string \<Rightarrow> cr_status" where
  "fatal_status message = [(''phase'', Str ''Degraded''), (''lastError'', Str message)]"

text \<open>
  \<open>reportFatalToCr\<close>: what is patched, if anything. Whatever throws, the target or the patch, is caught.
  \<open>main\<close> calls it for a layout error only.
\<close>

definition reportFatalToCr :: "string \<Rightarrow> failure + cr_target option \<Rightarrow> (cr_target \<times> cr_status) option" where
  "reportFatalToCr message target =
     (case target of Inr (Some t) \<Rightarrow> Some (t, fatal_status message) | _ \<Rightarrow> None)"

definition on_fatal :: "failure \<Rightarrow> failure + cr_target option \<Rightarrow> (cr_target \<times> cr_status) option" where
  "on_fatal err target = (case err of LayoutError m \<Rightarrow> reportFatalToCr m target | _ \<Rightarrow> None)"

text \<open>\<open>/healthz\<close> of the health server: the status code, the phase and the last error.\<close>

definition healthz :: "phase_tracker \<Rightarrow> nat \<times> string \<times> string option" where
  "healthz tracker = (if pt_healthy tracker then 200 else 503, phase_text (pt_phase tracker), pt_lastError tracker)"

subsection \<open>What a reader sees\<close>

text \<open>
  Server-side apply with \<open>force\<close>, as documented: the applied fields take their values and belong to the
  manager; a field that belonged to it alone and is not applied any more is removed; the others stay.
  \<open>field\<close> reads a field of the resource's status, \<open>own\<close> tells whether it belongs to the worker alone.
\<close>

definition server_side_apply ::
    "('o \<Rightarrow> string \<Rightarrow> status_value option) \<Rightarrow> ('o \<Rightarrow> string \<Rightarrow> bool) \<Rightarrow> (cr_status \<Rightarrow> 'o \<Rightarrow> 'o) \<Rightarrow> bool" where
  "server_side_apply field own apply_status \<longleftrightarrow> (\<forall>body res k.
     field (apply_status body res) k = (case map_of body k of Some v \<Rightarrow> Some v | None \<Rightarrow> if own res k then None else field res k) \<and>
     own (apply_status body res) k = (map_of body k \<noteq> None))"

text \<open>A worker's life: pushes of its tracker and fatal reports, each of which arrives or fails.\<close>

datatype report = Push phase_tracker bool | Fatal string bool

fun report_status :: "report \<Rightarrow> cr_status option" where
  "report_status (Push tracker arrives) = (if arrives then Some (push_status tracker) else None)"
| "report_status (Fatal message arrives) = (if arrives then Some (fatal_status message) else None)"

definition run_reports :: "(cr_status \<Rightarrow> 'o \<Rightarrow> 'o) \<Rightarrow> report list \<Rightarrow> 'o \<Rightarrow> 'o" where
  "run_reports apply_status reports res = fold apply_status (List.map_filter report_status reports) res"

definition worker_fields :: "string set" where
  "worker_fields = {''phase'', ''currentBlock'', ''headBlock'', ''lag'', ''lastError''}"

lemma push_status_fields: "map_of (push_status tracker) k \<noteq> None \<Longrightarrow> k \<in> worker_fields"
  by (auto simp: push_status_def worker_fields_def split: option.splits if_splits)

lemma fatal_status_fields: "map_of (fatal_status m) k \<noteq> None \<Longrightarrow> k \<in> worker_fields"
  by (auto simp: fatal_status_def worker_fields_def split: if_splits)

lemma report_status_fields: "report_status r = Some body \<Longrightarrow> map_of body k \<noteq> None \<Longrightarrow> k \<in> worker_fields"
  using push_status_fields fatal_status_fields by (cases r) (fastforce split: if_splits)+

lemma apply_fields:
  assumes "server_side_apply field own apply_status" "\<And>k. own res k \<longleftrightarrow> k \<in> worker_fields \<and> field res k \<noteq> None"
    "\<And>k. map_of body k \<noteq> None \<Longrightarrow> k \<in> worker_fields"
  shows "field (apply_status body res) k = (if k \<in> worker_fields then map_of body k else field res k)"
    "own (apply_status body res) k \<longleftrightarrow> k \<in> worker_fields \<and> field (apply_status body res) k \<noteq> None"
  using assms by (auto simp: server_side_apply_def split: option.splits)

text \<open>
  After any reports, lost ones included, the worker's fields of the resource are exactly those of
  the last report that arrived, so that an error that is over disappears, and the other fields, the
  operator's, are as they were.
\<close>

theorem cr_status_exact:
  assumes "server_side_apply field own apply_status" "\<And>k. own res k \<longleftrightarrow> k \<in> worker_fields \<and> field res k \<noteq> None"
    "List.map_filter report_status reports \<noteq> []"
  shows "field (run_reports apply_status reports res) k =
    (if k \<in> worker_fields then map_of (last (List.map_filter report_status reports)) k else field res k)"
proof -
  have known: "\<And>body k. body \<in> set (List.map_filter report_status reports) \<Longrightarrow> map_of body k \<noteq> None \<Longrightarrow> k \<in> worker_fields"
    using report_status_fields by (force simp: List.map_filter_def)
  have "field (fold apply_status bodies res) k =
      (if k \<in> worker_fields then map_of (last bodies) k else field res k)"
    if "bodies \<noteq> []" "\<And>body k. body \<in> set bodies \<Longrightarrow> map_of body k \<noteq> None \<Longrightarrow> k \<in> worker_fields"
      "\<And>k. own res k \<longleftrightarrow> k \<in> worker_fields \<and> field res k \<noteq> None" for bodies res
    using that
  proof (induction bodies arbitrary: res)
    case (Cons body bodies)
    have "\<And>k. map_of body k \<noteq> None \<Longrightarrow> k \<in> worker_fields" using Cons.prems(2) [of body] by simp
    note step = apply_fields [OF assms(1) Cons.prems(3) this]
    show ?case
    proof (cases "bodies = []")
      case True
      then show ?thesis using step(1) Cons.prems(2) by auto
    next
      case False
      then have "field (fold apply_status bodies (apply_status body res)) k =
          (if k \<in> worker_fields then map_of (last bodies) k else field (apply_status body res) k)"
        by (intro Cons.IH step(2)) (use Cons.prems(2) in auto)
      then show ?thesis using False step(1) Cons.prems(2) by auto
    qed
  qed simp
  then show ?thesis using assms(2,3) known unfolding run_reports_def by blast
qed

text \<open>A server that does as documented, and a worker that recovers from an error.\<close>

record sample_resource =
  sr_field :: "string \<Rightarrow> status_value option"
  sr_own :: "string \<Rightarrow> bool"

definition sample_apply :: "cr_status \<Rightarrow> sample_resource \<Rightarrow> sample_resource" where
  "sample_apply body res = \<lparr>sr_field = (\<lambda>k. case map_of body k of Some v \<Rightarrow> Some v | None \<Rightarrow> if sr_own res k then None else sr_field res k),
     sr_own = (\<lambda>k. map_of body k \<noteq> None)\<rparr>"

definition sample_reports :: "report list" where
  "sample_reports = [Push (pt_set Degraded (Some ''rpc'') new_phase_tracker) True, Push (pt_setBlocks 5 9 (pt_set Live None new_phase_tracker)) True,
     Push new_phase_tracker False]"

definition sample_resource :: sample_resource where
  "sample_resource = \<lparr>sr_field = [''observedGeneration'' \<mapsto> Num 1], sr_own = (\<lambda>_. False)\<rparr>"

lemma sample_server: "server_side_apply sr_field sr_own sample_apply"
  by (simp add: server_side_apply_def sample_apply_def)

theorem cr_status_exact_witness:
  "sr_field (run_reports sample_apply sample_reports sample_resource) ''lastError'' = None \<and>
   sr_field (run_reports sample_apply sample_reports sample_resource) ''lag'' = Some (Num 4) \<and>
   sr_field (run_reports sample_apply sample_reports sample_resource) ''observedGeneration'' = Some (Num 1)"
proof -
  have start: "sr_own sample_resource k \<longleftrightarrow> k \<in> worker_fields \<and> sr_field sample_resource k \<noteq> None" for k
    by (simp add: sample_resource_def worker_fields_def)
  have "List.map_filter report_status sample_reports \<noteq> []" "last (List.map_filter report_status sample_reports) =
      push_status (pt_setBlocks 5 9 (pt_set Live None new_phase_tracker))"
    by (simp_all add: sample_reports_def List.map_filter_def)
  then show ?thesis using cr_status_exact [OF sample_server start, of sample_reports]
    by (simp add: worker_fields_def push_status_def pt_setBlocks_def pt_set_def new_phase_tracker_def pt_lag_def sample_resource_def)
qed

text \<open>
  A fatal report leaves the block numbers out to keep the last progress on the resource; as they belong
  to the worker alone, leaving them out removes them.
\<close>

theorem fatal_report_clears_progress:
  "sr_field (run_reports sample_apply [Push (pt_setBlocks 5 9 new_phase_tracker) True] sample_resource) ''currentBlock'' = Some (Num 5) \<and>
   sr_field (run_reports sample_apply [Push (pt_setBlocks 5 9 new_phase_tracker) True, Fatal ''layout'' True] sample_resource) ''currentBlock'' = None"
  by (simp add: run_reports_def List.map_filter_def sample_apply_def push_status_def fatal_status_def sample_resource_def
      pt_setBlocks_def new_phase_tracker_def)

end
