(* ===== verification/Format.thy ===== *)
theory Format
  imports Laya
begin

text \<open>
  \<open>explorer/lib/format.ts\<close>: how the explorer prints amounts. An amount is an integer number of a
  token's smallest unit and is printed without passing through a float; the theorems say that no
  digit is lost on the way and that the pages round half up. Texts are UTF-8: the minus sign and
  the ellipsis are their bytes.
\<close>

subsection \<open>Units and decimals\<close>

definition ZERO_ADDRESS :: string where
  "ZERO_ADDRESS = ''0x'' @ replicate 40 (CHR ''0'')"

definition minus_sign :: string where
  "minus_sign = [CHR 0xE2, CHR 0x88, CHR 0x92]"

definition ellipsis :: string where
  "ellipsis = [CHR 0xE2, CHR 0x80, CHR 0xA6]"

definition padStart :: "nat \<Rightarrow> string \<Rightarrow> string" where
  "padStart n s = replicate (n - length s) (CHR ''0'') @ s"

text \<open>\<open>replace(/0+$/, '')\<close>\<close>

definition strip_zeros :: "string \<Rightarrow> string" where
  "strip_zeros s = rev (dropWhile (\<lambda>c. c = CHR ''0'') (rev s))"

definition unitsToDecimal :: "int \<Rightarrow> nat \<Rightarrow> string" where
  "unitsToDecimal raw decimals =
     (let v = nat \<bar>raw\<bar>; base = 10 ^ decimals;
          fr = (if decimals = 0 then [] else strip_zeros (padStart decimals (show_nat (v mod base))))
      in (if raw < 0 then ''-'' else []) @ show_nat (v div base) @ (if fr = [] then [] else ''.'' @ fr))"

text \<open>A comma before every group of three digits counted from the right.\<close>

fun group_digits :: "string \<Rightarrow> string" where
  "group_digits [] = []"
| "group_digits (c # cs) = c # (if cs \<noteq> [] \<and> length cs mod 3 = 0 then CHR '','' # group_digits cs else group_digits cs)"

text \<open>\<open>/^(-?)(\d+)(?:\.(\d+))?$/\<close>: the sign, the integer digits, the fraction digits.\<close>

definition parse_decimal :: "string \<Rightarrow> (bool \<times> string \<times> string) option" where
  "parse_decimal s =
     (let neg = startsWith ''-'' s; r = (if neg then drop 1 s else s);
          i = takeWhile is_digit r; rest = dropWhile is_digit r
      in if i = [] then None
         else case rest of [] \<Rightarrow> Some (neg, i, [])
              | c # f \<Rightarrow> if c = CHR ''.'' \<and> f \<noteq> [] \<and> list_all is_digit f then Some (neg, i, f) else None)"

definition scaled :: "string \<Rightarrow> nat \<Rightarrow> string + bool \<times> nat \<times> bool" where
  "scaled dec places =
     (case parse_decimal (trim dec) of
        None \<Rightarrow> Inl (''not a decimal: '' @ dec)
      | Some (below, i, fr) \<Rightarrow>
          let v = read_nat (i @ take places (fr @ replicate places (CHR ''0'')));
              v = (if places < length fr \<and> (of_char (fr ! places) :: nat) \<ge> 53 then v + 1 else v);
              nonzero = list_ex (\<lambda>c. 49 \<le> (of_char c :: nat) \<and> (of_char c :: nat) \<le> 57) (i @ fr)
          in Inr (below \<and> nonzero, v, nonzero))"

subsection \<open>Amounts on the pages\<close>

definition fmtAmount :: "string \<Rightarrow> string + string" where
  "fmtAmount dec = bindE (scaled dec 2) (\<lambda>(neg, cents, nonzero).
     let sign = (if neg then minus_sign else []) in
     Inr (if cents = 0 then (if nonzero then sign @ ''<0.01'' else ''0.00'')
          else sign @ group_digits (show_nat (cents div 100)) @ ''.'' @ padStart 2 (show_nat (cents mod 100))))"

definition fmtWhole :: "string \<Rightarrow> string + string" where
  "fmtWhole dec = bindE (scaled dec 0) (\<lambda>(neg, units, _).
     Inr ((if neg \<and> 0 < units then minus_sign else []) @ group_digits (show_nat units)))"

definition fmtSigned :: "string \<Rightarrow> string + string" where
  "fmtSigned dec = bindE (scaled dec 2) (\<lambda>(neg, _, nonzero).
     if \<not> nonzero then Inr ''0.00''
     else if neg then fmtAmount dec else bindE (fmtAmount dec) (\<lambda>s. Inr (''+'' @ s)))"

definition fmtInt :: "int \<Rightarrow> string" where
  "fmtInt n = (let s = show_int n in
     if startsWith ''-'' s then minus_sign @ group_digits (drop 1 s) else group_digits s)"

text \<open>\<open>Math.round\<close> of a quotient of integers.\<close>

definition pct :: "nat \<Rightarrow> nat \<Rightarrow> nat" where
  "pct part whole = (if 0 < whole then (2 * 100 * part + whole) div (2 * whole) else 0)"

definition fmtTime :: "nat \<Rightarrow> string" where
  "fmtTime unix = (let s = unix mod 86400 in
     padStart 2 (show_nat (s div 3600)) @ '':'' @ padStart 2 (show_nat (s div 60 mod 60)) @ '':'' @ padStart 2 (show_nat (s mod 60)))"

definition shortAddr :: "string \<Rightarrow> string" where
  "shortAddr a = take 6 a @ ellipsis @ drop (length a - 4) a"

definition shortHash :: "string \<Rightarrow> string" where
  "shortHash h = take 10 h @ ellipsis @ drop (length h - 6) h"

text \<open>\<open>parts.ts\<close>: a sentence is plain text, bold runs and addresses.\<close>

datatype part = Text string | Bold string | Addr_link string

subsection \<open>Digits\<close>

lemma is_digit_zero [simp]: "is_digit (CHR ''0'')" by (simp add: is_digit_def)

lemma list_all_zeros [simp]: "list_all is_digit (replicate n (CHR ''0''))"
  by (induction n) simp_all

lemma pow10_split: "k \<le> d \<Longrightarrow> (10 :: nat) ^ d = 10 ^ (d - k) * 10 ^ k"
  by (simp flip: power_add)

lemma read_nat_append: "read_nat (a @ b) = read_nat a * 10 ^ length b + read_nat b"
proof (induction b rule: rev_induct)
  case (snoc c b)
  then show ?case by (simp add: read_nat_def algebra_simps)
qed (simp add: read_nat_def)

lemma read_nat_single [simp]: "read_nat [c] = of_char c - 48" by (simp add: read_nat_def)

lemma read_nat_bound: "list_all is_digit ds \<Longrightarrow> read_nat ds < 10 ^ length ds"
proof (induction ds rule: rev_induct)
  case (snoc c ds)
  then have "read_nat ds + 1 \<le> 10 ^ length ds" "(of_char c :: nat) \<le> 57" by (auto simp: is_digit_def)
  then show ?case by (simp add: read_nat_append)
qed (simp add: read_nat_def)

lemma read_nat_zeros [simp]: "read_nat (replicate n (CHR ''0'')) = 0"
  by (induction n) (simp_all add: read_nat_def)

lemma read_nat_0_iff: "list_all is_digit ds \<Longrightarrow> read_nat ds = 0 \<longleftrightarrow> \<not> list_ex (\<lambda>c. 49 \<le> (of_char c :: nat) \<and> (of_char c :: nat) \<le> 57) ds"
  by (induction ds rule: rev_induct) (auto simp: read_nat_append is_digit_def read_nat_def [of "[]"])

lemma list_all_show_nat [simp]: "list_all is_digit (show_nat n)"
  using show_nat_digits by (auto simp: list_all_iff)

lemma length_show_nat_le: "n < 10 ^ d \<Longrightarrow> 0 < d \<Longrightarrow> length (show_nat n) \<le> d"
proof (induction d arbitrary: n)
  case (Suc d)
  show ?case
  proof (cases "n < 10")
    case False
    then have "0 < d" using Suc.prems by (cases d) auto
    then have "length (show_nat (n div 10)) \<le> d" using Suc by (simp add: less_mult_imp_div_less)
    then show ?thesis using False by (simp add: show_nat.simps [of n])
  qed (simp add: show_nat.simps [of n])
qed simp

lemma padStart_digits:
  assumes "r < 10 ^ d" "0 < d"
  shows "length (padStart d (show_nat r)) = d" "read_nat (padStart d (show_nat r)) = r" "list_all is_digit (padStart d (show_nat r))"
  using length_show_nat_le [OF assms] by (simp_all add: padStart_def read_nat_append list_all_iff show_nat_digits)
    (use show_nat_digits in fastforce)

text \<open>The digits of a prefix are the number divided by the power of ten of the rest.\<close>

lemma read_nat_take:
  assumes "list_all is_digit ds" "k \<le> length ds"
  shows "read_nat (take k ds) = read_nat ds div 10 ^ (length ds - k)"
proof -
  have "list_all is_digit (drop k ds)" using assms(1) by (metis append_take_drop_id list_all_append)
  then have "read_nat (drop k ds) < 10 ^ (length ds - k)" using read_nat_bound by fastforce
  moreover have "read_nat ds = read_nat (take k ds) * 10 ^ (length ds - k) + read_nat (drop k ds)"
    using read_nat_append [of "take k ds" "drop k ds"] by simp
  ultimately show ?thesis by (simp add: div_mult_self3)
qed

lemma strip_zeros_split: "\<exists>m. s = strip_zeros s @ replicate m (CHR ''0'')"
proof -
  define z where "z = takeWhile (\<lambda>c. c = CHR ''0'') (rev s)"
  have "rev s = z @ dropWhile (\<lambda>c. c = CHR ''0'') (rev s)" by (simp add: z_def)
  then have "s = strip_zeros s @ rev z" by (metis rev_append rev_rev_ident strip_zeros_def)
  moreover have "\<forall>c\<in>set z. c = CHR ''0''" unfolding z_def by (metis set_takeWhileD)
  then have "z = replicate (length z) (CHR ''0'')" by (simp add: replicate_eqI)
  then have "rev z = replicate (length z) (CHR ''0'')" by (metis rev_replicate)
  ultimately show ?thesis by metis
qed

subsection \<open>No digit is lost\<close>

lemma take_padded: "take p (s @ replicate p c) = take p ((s @ replicate m c) @ replicate p c)"
proof -
  have "replicate m c @ replicate p c = replicate (m + p) c" by (simp add: replicate_add)
  moreover have "p - length s \<le> m + p" by simp
  ultimately show ?thesis by (simp add: min_absorb1)
qed

lemma half_up: "0 < D \<Longrightarrow> x div D + (if 5 \<le> 10 * x div D mod 10 then 1 else 0) = (2 * x + D) div (2 * D)" for x D :: nat
proof -
  assume D: "0 < D"
  define q r where "q = x div D" and "r = x mod D"
  have x: "x = q * D + r" and r: "r < D" using D by (simp_all add: q_def r_def)
  have "10 * x div D = 10 * q + 10 * r div D" using D by (simp add: x algebra_simps)
  moreover have "10 * r div D < 10" using r D by (simp add: less_mult_imp_div_less)
  ultimately have dig: "10 * x div D mod 10 = 10 * r div D" by simp
  have five: "5 \<le> 10 * r div D \<longleftrightarrow> D \<le> 2 * r"
    using D by (simp add: less_eq_div_iff_mult_less_eq)
  have "(2 * x + D) div (2 * D) = q + (2 * r + D) div (2 * D)"
    using div_mult_self1 [of "2 * D" "2 * r + D" q] D by (simp add: x algebra_simps)
  also have "(2 * r + D) div (2 * D) = (if D \<le> 2 * r then 1 else 0)"
    using r by (auto intro!: div_nat_eqI)
  finally show ?thesis using dig five by (simp add: q_def)
qed

text \<open>A decimal with \<open>d\<close> fraction digits, some of its trailing zeros left out, read at \<open>p\<close> places.\<close>

lemma read_places:
  assumes "list_all is_digit i" "list_all is_digit (f @ replicate m (CHR ''0''))" "length (f @ replicate m (CHR ''0'')) = d"
  shows "read_nat (i @ take p (f @ replicate p (CHR ''0''))) = (read_nat i * 10 ^ d + read_nat (f @ replicate m (CHR ''0''))) * 10 ^ p div 10 ^ d"
proof -
  define full where "full = f @ replicate m (CHR ''0'')"
  define ds where "ds = full @ replicate p (CHR ''0'')"
  have ds: "list_all is_digit ds" "length ds = d + p" "read_nat ds = read_nat full * 10 ^ p"
    using assms by (simp_all add: ds_def full_def read_nat_append power_add)
  have "take p (f @ replicate p (CHR ''0'')) = take p ds" unfolding ds_def full_def by (rule take_padded)
  moreover have "read_nat (take p ds) = read_nat full * 10 ^ p div 10 ^ d" using read_nat_take [of ds p] ds by simp
  moreover have "length (take p ds) = p" using ds by simp
  moreover have "(a * 10 ^ d + b) * 10 ^ p div 10 ^ d = a * 10 ^ p + b * 10 ^ p div 10 ^ d" for a b :: nat
    using div_mult_self1 [of "10 ^ d" "b * 10 ^ p" "a * 10 ^ p"] by (simp add: algebra_simps)
  ultimately show ?thesis by (simp add: read_nat_append full_def)
qed

lemma digit_at:
  assumes "list_all is_digit (f @ replicate m (CHR ''0''))" "length (f @ replicate m (CHR ''0'')) = d" "p < length f"
  shows "(of_char (f ! p) :: nat) - 48 = read_nat (f @ replicate m (CHR ''0'')) * 10 ^ Suc p div 10 ^ d mod 10"
proof -
  define full where "full = f @ replicate m (CHR ''0'')"
  have p: "p < length full" "full ! p = f ! p" using assms(3) by (simp_all add: full_def nth_append)
  have digits: "list_all is_digit full" "length full = d" using assms by (simp_all add: full_def)
  have "read_nat (take (Suc p) full) mod 10 = (of_char (f ! p) - 48 :: nat)"
  proof -
    have "is_digit (f ! p)" using digits p by (auto simp: list_all_length)
    then have "of_char (f ! p) - 48 < (10 :: nat)" by (auto simp: is_digit_def)
    then show ?thesis using p by (simp add: take_Suc_conv_app_nth read_nat_append)
  qed
  moreover have "read_nat (take (Suc p) full) = read_nat full div 10 ^ (d - Suc p)"
    using read_nat_take [of full "Suc p"] digits p by simp
  moreover have "read_nat full * 10 ^ Suc p div 10 ^ d = read_nat full div 10 ^ (d - Suc p)"
  proof -
    have "(10 :: nat) ^ d = 10 ^ (d - Suc p) * 10 ^ Suc p" using p digits by (intro pow10_split) simp
    then show ?thesis by (simp only:) simp
  qed
  ultimately show ?thesis by (simp add: full_def)
qed

lemma digit_beyond:
  assumes "d \<le> p"
  shows "(r :: nat) * 10 ^ Suc p div 10 ^ d mod 10 = 0"
proof -
  have "(10 :: nat) ^ Suc p = 10 ^ (p - d) * 10 * 10 ^ d" using assms by (simp flip: power_add)
  then show ?thesis by (simp only: mult.assoc [symmetric]) simp
qed

text \<open>A digit position that the text left out is a zero of the number.\<close>

lemma digit_left_out:
  assumes "list_all is_digit (f @ replicate m (CHR ''0''))" "length (f @ replicate m (CHR ''0'')) = d" "length f \<le> p"
  shows "read_nat (f @ replicate m (CHR ''0'')) * 10 ^ Suc p div 10 ^ d mod 10 = 0"
proof (cases "d \<le> p")
  case False
  have "(10 :: nat) ^ d = 10 ^ (d - Suc p) * 10 ^ Suc p" using False by (intro pow10_split) simp
  moreover have "(10 :: nat) ^ m = 10 ^ (Suc p - length f) * 10 ^ (d - Suc p)"
  proof -
    have "m = (Suc p - length f) + (d - Suc p)" using assms(2,3) False by simp
    then show ?thesis by (metis power_add)
  qed
  moreover have "(10 :: nat) ^ (Suc p - length f) = 10 * 10 ^ (p - length f)" using assms(3) by (simp add: Suc_diff_le)
  ultimately show ?thesis by (simp add: read_nat_append mult.assoc)
qed (rule digit_beyond)

lemma trim_id: "s \<noteq> [] \<Longrightarrow> \<not> is_space (hd s) \<Longrightarrow> \<not> is_space (List.last s) \<Longrightarrow> trim s = s"
proof -
  assume s: "s \<noteq> []" "\<not> is_space (hd s)" "\<not> is_space (List.last s)"
  then have "dropWhile is_space s = s" by (simp add: dropWhile_eq_self_iff)
  moreover have "dropWhile is_space (rev s) = rev s" using s by (simp add: dropWhile_eq_self_iff hd_rev)
  ultimately show ?thesis by (simp add: trim_def)
qed

lemma digit_not_space: "is_digit c \<Longrightarrow> \<not> is_space c"
  by (auto simp: is_digit_def is_space_def)

lemma hd_show_nat: "is_digit (hd (show_nat n))" "is_digit (List.last (show_nat n))"
  using show_nat_digits by (metis hd_in_set show_nat_nonempty) (metis last_in_set show_nat_digits show_nat_nonempty)

lemma takeWhile_digits: "list_all P xs \<Longrightarrow> takeWhile P (xs @ ys) = xs @ takeWhile P ys"
  and dropWhile_digits: "list_all P xs \<Longrightarrow> dropWhile P (xs @ ys) = dropWhile P ys"
  by (induction xs) simp_all

lemma not_digits [simp]: "\<not> is_digit (CHR ''.'')" "\<not> is_digit (CHR ''-'')" "\<not> is_space (CHR ''-'')"
  by (simp_all add: is_digit_def is_space_def)

lemma parse_decimal_print:
  assumes "list_all is_digit i" "i \<noteq> []" "list_all is_digit f"
  shows "parse_decimal ((if s then ''-'' else []) @ i @ (if f = [] then [] else ''.'' @ f)) = Some (s, i, f)"
proof -
  obtain c j where i: "i = c # j" "is_digit c" using assms by (cases i) auto
  define z where "z = (if f = [] then [] else ''.'' @ f)"
  have "c \<noteq> CHR ''-''" using i by auto
  then have pre: "startsWith ''-'' ((if s then ''-'' else []) @ i @ z) = s" by (simp add: startsWith_def i)
  have r: "(if s then drop 1 ((if s then ''-'' else []) @ i @ z) else (if s then ''-'' else []) @ i @ z) = i @ z" by simp
  have cut1: "takeWhile is_digit (i @ z) = i" "dropWhile is_digit (i @ z) = z"
    using assms by (simp_all add: z_def takeWhile_digits dropWhile_digits)
  have "parse_decimal ((if s then ''-'' else []) @ i @ z) = Some (s, i, f)"
    unfolding parse_decimal_def pre r Let_def cut1 using assms by (simp add: z_def)
  then show ?thesis unfolding z_def .
qed

text \<open>The fraction digits that are printed, and the zeros that are not.\<close>

lemma fraction_digits:
  assumes "r < 10 ^ d"
  obtains m where
    "list_all is_digit ((if d = 0 then [] else strip_zeros (padStart d (show_nat r))) @ replicate m (CHR ''0''))"
    "length ((if d = 0 then [] else strip_zeros (padStart d (show_nat r))) @ replicate m (CHR ''0'')) = d"
    "read_nat ((if d = 0 then [] else strip_zeros (padStart d (show_nat r))) @ replicate m (CHR ''0'')) = r"
proof (cases "d = 0")
  case True
  then show thesis using assms that [of 0] by (simp add: read_nat_def)
next
  case False
  obtain m where "padStart d (show_nat r) = strip_zeros (padStart d (show_nat r)) @ replicate m (CHR ''0'')"
    using strip_zeros_split by blast
  then show thesis using padStart_digits [OF assms] False that [of m] by simp
qed

lemma list_ex_digits_append: "list_ex P (i @ f) \<longleftrightarrow> list_ex P i \<or> list_ex P f" by simp

text \<open>A digit of the fraction is a digit of the whole number.\<close>

lemma shifted_digit: "(v mod 10 ^ d) * 10 ^ Suc p div 10 ^ d mod 10 = 10 * (v * 10 ^ p) div 10 ^ d mod (10 :: nat)"
proof -
  have "10 * ((a * D + b) * 10 ^ p) = b * 10 ^ Suc p + (10 * (a * 10 ^ p)) * D" for a b D :: nat
    by (simp add: algebra_simps)
  from this [of "v div 10 ^ d" "10 ^ d" "v mod 10 ^ d"]
  have "10 * (v * 10 ^ p) = (v mod 10 ^ d) * 10 ^ Suc p + (10 * ((v div 10 ^ d) * 10 ^ p)) * 10 ^ d" unfolding div_mult_mod_eq .
  then have "10 * (v * 10 ^ p) div 10 ^ d = (v mod 10 ^ d) * 10 ^ Suc p div 10 ^ d + 10 * ((v div 10 ^ d) * 10 ^ p)"
    by (simp only: div_mult_self1) simp
  then show ?thesis by simp
qed

text \<open>The printed decimal read back at \<open>p\<close> places.\<close>

lemma scaled_units:
  "scaled (unitsToDecimal raw d) p = Inr (raw < 0, (2 * (nat \<bar>raw\<bar> * 10 ^ p) + 10 ^ d) div (2 * 10 ^ d), raw \<noteq> 0)"
proof -
  define v where "v = nat \<bar>raw\<bar>"
  define i where "i = show_nat (v div 10 ^ d)"
  define f where "f = (if d = 0 then [] else strip_zeros (padStart d (show_nat (v mod 10 ^ d))))"
  obtain m where m: "list_all is_digit (f @ replicate m (CHR ''0''))" "length (f @ replicate m (CHR ''0'')) = d"
    "read_nat (f @ replicate m (CHR ''0'')) = v mod 10 ^ d"
    using fraction_digits [of "v mod 10 ^ d" d] unfolding f_def by auto
  have fd: "list_all is_digit f" and id: "list_all is_digit i" "i \<noteq> []" using m by (simp_all add: i_def)
  have out: "unitsToDecimal raw d = (if raw < 0 then ''-'' else []) @ i @ (if f = [] then [] else ''.'' @ f)"
    by (simp add: unitsToDecimal_def Let_def v_def i_def f_def)
  have "\<not> is_space (List.last f)" if "f \<noteq> []"
    using fd that last_in_set [OF that] digit_not_space by (simp add: list_all_iff)
  then have trimmed: "trim (unitsToDecimal raw d) = unitsToDecimal raw d"
    unfolding out using hd_show_nat [of "v div 10 ^ d"] by (intro trim_id) (auto simp: i_def digit_not_space hd_append)
  have nonzero: "list_ex (\<lambda>c. 49 \<le> (of_char c :: nat) \<and> (of_char c :: nat) \<le> 57) (i @ f) \<longleftrightarrow> raw \<noteq> 0"
  proof -
    have "read_nat f * 10 ^ m = v mod 10 ^ d" using m(3) by (simp add: read_nat_append)
    moreover have "v = 0 \<longleftrightarrow> v div 10 ^ d = 0 \<and> v mod 10 ^ d = 0" by (metis div_mult_mod_eq add_0 mult_0 div_0 mod_0)
    ultimately have "read_nat i = 0 \<and> read_nat f = 0 \<longleftrightarrow> v = 0" by (auto simp: i_def)
    then show ?thesis using read_nat_0_iff [OF id(1)] read_nat_0_iff [OF fd] by (auto simp: v_def)
  qed
  have round: "scaled (unitsToDecimal raw d) p = Inr (raw < 0, (2 * (v * 10 ^ p) + 10 ^ d) div (2 * 10 ^ d), raw \<noteq> 0)"
  proof -
    have whole_units: "read_nat (i @ take p (f @ replicate p (CHR ''0''))) = v * 10 ^ p div 10 ^ d"
      using read_places [OF id(1) m(1,2), of p] unfolding m(3) i_def read_show_nat div_mult_mod_eq .
    have "(p < length f \<and> (of_char (f ! p) :: nat) \<ge> 53) \<longleftrightarrow> 5 \<le> (v mod 10 ^ d) * 10 ^ Suc p div 10 ^ d mod 10"
    proof (cases "p < length f")
      case True
      then show ?thesis using digit_at [OF m(1,2) True] m(3) by auto
    next
      case False
      then show ?thesis using digit_left_out [OF m(1,2), of p] m(3) by auto
    qed
    also have "\<dots> \<longleftrightarrow> 5 \<le> 10 * (v * 10 ^ p) div 10 ^ d mod 10" by (simp only: shifted_digit)
    finally have digit: "(p < length f \<and> (of_char (f ! p) :: nat) \<ge> 53) \<longleftrightarrow> 5 \<le> 10 * (v * 10 ^ p) div 10 ^ d mod 10" .
    have parsed: "parse_decimal (trim (unitsToDecimal raw d)) = Some (raw < 0, i, f)"
      unfolding trimmed unfolding out by (rule parse_decimal_print [OF id fd])
    show ?thesis
      unfolding scaled_def parsed option.case prod.case Let_def whole_units digit nonzero using half_up [of "10 ^ d" "v * 10 ^ p"]
      by auto
  qed
  then show ?thesis by (simp add: v_def)
qed

text \<open>
  C36: No digit of an amount is lost: reading the printed decimal of \<open>raw\<close> units at any number of places
  gives its sign, its exact value scaled and rounded half up, and whether it is nonzero. At the token's
  own number of decimals that is the amount itself.
\<close>

theorem amount_exact:
  "scaled (unitsToDecimal raw d) p = Inr (raw < 0, (2 * (nat \<bar>raw\<bar> * 10 ^ p) + 10 ^ d) div (2 * 10 ^ d), raw \<noteq> 0) \<and>
   scaled (unitsToDecimal raw d) d = Inr (raw < 0, nat \<bar>raw\<bar>, raw \<noteq> 0)"
proof -
  have "(2 * (v * 10 ^ d) + 10 ^ d) div (2 * 10 ^ d) = v" for v :: nat by (rule div_nat_eqI) (simp_all add: algebra_simps)
  then show ?thesis by (simp add: scaled_units)
qed

lemma fmtAmount_units: "\<exists>s. fmtAmount (unitsToDecimal raw d) = Inr s"
  by (simp add: fmtAmount_def scaled_units Let_def)

text \<open>Grouping only adds commas.\<close>

lemma group_digits_digits: "list_all is_digit ds \<Longrightarrow> filter is_digit (group_digits ds) = ds"
  by (induction ds rule: group_digits.induct) (auto simp: is_digit_def)

end
