(* ===== verification/Hub.thy ===== *)
theory Hub
  imports Format "HOL-Library.Sublist"
begin

text \<open>
  \<open>explorer/lib/hub.ts\<close>, the framing of \<open>sse.ts\<close>, the queue of \<open>streamroute.ts\<close> and what the
  browser's \<open>stream-client.ts\<close> makes of it: the fan-out of the tape to the viewers. A sink is the
  number of its stream; its queue is kept beside the hub. Frames stay structured; their text is
  \<open>frame_text\<close> over the JSON printer. Block numbers and times are integers.
\<close>

subsection \<open>Messages (\<open>types.ts\<close>)\<close>

record move =
  mv_tx :: string
  mv_li :: nat
  mv_from :: string
  mv_to :: string
  mv_fromName :: "string option"
  mv_toName :: "string option"
  mv_value :: string
  mv_lane :: "string option"

record block_msg =
  bm_n :: int
  bm_t :: int
  bm_moves :: "move list"

record largest = move +
  lg_n :: int
  lg_t :: int

record stats_msg =
  sm_count :: nat
  sm_usdc :: string
  sm_perSec :: rat
  sm_lanes :: "(string \<times> nat) list"
  sm_largest :: "largest list"
  sm_headT :: "int option"
  sm_now :: int

datatype payload =
    Hello "block_msg list" "stats_msg option"
  | Block block_msg
  | Stats stats_msg

text \<open>What a stream carries: an event with its id, the heartbeat comment, the retry field.\<close>

datatype frame = Event payload "int option" | Heartbeat | Retry

type_synonym chunk = "frame list"

fun event_name :: "payload \<Rightarrow> string" where
  "event_name (Hello _ _) = ''hello''"
| "event_name (Block _) = ''block''"
| "event_name (Stats _) = ''stats''"

fun frame_text :: "(payload \<Rightarrow> string) \<Rightarrow> frame \<Rightarrow> string" where
  "frame_text json (Event p i) =
     (case i of None \<Rightarrow> [] | Some n \<Rightarrow> ''id: '' @ show_int n @ nl) @
     ''event: '' @ event_name p @ nl @ ''data: '' @ json p @ nl @ nl"
| "frame_text json Heartbeat = '': hb'' @ nl @ nl"
| "frame_text json Retry = ''retry: 3000'' @ nl @ nl"

text \<open>\<open>header?.trim() || query?.trim() || ''\<close>, then \<open>/^\d{1,15}$/\<close>.\<close>

definition parseLastEventId :: "string option \<Rightarrow> string option \<Rightarrow> int option" where
  "parseLastEventId header query =
     (let v = (case truthy (map_option trim header) of Some h \<Rightarrow> h
               | None \<Rightarrow> (case truthy (map_option trim query) of Some q \<Rightarrow> q | None \<Rightarrow> []))
      in if list_all is_digit v \<and> 1 \<le> length v \<and> length v \<le> 15 then Some (int (read_nat v)) else None)"

subsection \<open>A stream's queue\<close>

text \<open>
  \<open>ReadableStream\<close> with a queue of at most 64 chunks. A stream that was closed or cancelled takes
  nothing more; what a closed one still holds can be read.
\<close>

definition QUEUE_MAX :: nat where "QUEUE_MAX = 64"

record stream =
  sr_queue :: "chunk list"
  sr_open :: bool

definition new_stream :: stream where
  "new_stream = \<lparr>sr_queue = [], sr_open = True\<rparr>"

definition sink_send :: "chunk \<Rightarrow> stream \<Rightarrow> bool \<times> stream" where
  "sink_send c s = (if sr_open s \<and> length (sr_queue s) < QUEUE_MAX then (True, s\<lparr>sr_queue := sr_queue s @ [c]\<rparr>) else (False, s))"

definition sink_close :: "stream \<Rightarrow> stream" where
  "sink_close s = s\<lparr>sr_open := False\<rparr>"

definition sink_cancel :: "stream \<Rightarrow> stream" where
  "sink_cancel s = \<lparr>sr_queue = [], sr_open = False\<rparr>"

subsection \<open>The hub\<close>

record hub =
  hb_blocks :: "block_msg list"
  hb_stats :: "stats_msg option"
  hb_sinks :: "nat list"
  hb_trimmedThrough :: int
  hb_hello :: "chunk option"
  hb_streams :: "nat \<Rightarrow> stream"
  hb_maxStreams :: nat
  hb_bufferMoves :: nat

definition new_hub :: "nat \<Rightarrow> nat \<Rightarrow> hub" where
  "new_hub maxStreams bufferMoves =
     \<lparr>hb_blocks = [], hb_stats = None, hb_sinks = [], hb_trimmedThrough = - 1, hb_hello = None,
      hb_streams = (\<lambda>_. new_stream), hb_maxStreams = maxStreams, hb_bufferMoves = bufferMoves\<rparr>"

definition full :: "hub \<Rightarrow> bool" where
  "full h \<longleftrightarrow> length (hb_sinks h) \<ge> hb_maxStreams h"

definition newest :: "hub \<Rightarrow> int option" where
  "newest h = (if hb_blocks h = [] then None else Some (bm_n (List.last (hb_blocks h))))"

text \<open>The loop of \<open>hello()\<close>, over the blocks from the newest.\<close>

fun hello_blocks :: "nat \<Rightarrow> block_msg list \<Rightarrow> block_msg list \<Rightarrow> block_msg list" where
  "hello_blocks left [] out = out"
| "hello_blocks left (b # bs) out =
     (if left = 0 then out
      else let moves = drop (length (bm_moves b) - left) (bm_moves b)
           in hello_blocks (left - length moves) bs (b\<lparr>bm_moves := moves\<rparr> # out))"

definition hello :: "hub \<Rightarrow> payload" where
  "hello h = Hello (hello_blocks (hb_bufferMoves h) (rev (hb_blocks h)) []) (hb_stats h)"

definition helloFrame :: "hub \<Rightarrow> chunk \<times> hub" where
  "helloFrame h = (case hb_hello h of Some c \<Rightarrow> (c, h)
     | None \<Rightarrow> let c = [Event (hello h) (newest h)] in (c, h\<lparr>hb_hello := Some c\<rparr>))"

fun trim_loop :: "nat \<Rightarrow> nat \<Rightarrow> block_msg list \<Rightarrow> int \<Rightarrow> block_msg list \<times> int" where
  "trim_loop k moves (b # b' # bs) through =
     (if moves - length (bm_moves b) \<ge> k
      then trim_loop k (moves - length (bm_moves b)) (b' # bs) (max through (bm_n b))
      else (b # b' # bs, through))"
| "trim_loop k moves bs through = (bs, through)"

definition trim_buffer :: "hub \<Rightarrow> hub" where
  "trim_buffer h =
     (let (bs, through) = trim_loop (hb_bufferMoves h) (sum_list (map (\<lambda>b. length (bm_moves b)) (hb_blocks h)))
                            (hb_blocks h) (hb_trimmedThrough h)
      in h\<lparr>hb_blocks := bs, hb_trimmedThrough := through\<rparr>)"

definition seed :: "block_msg list \<Rightarrow> int \<Rightarrow> hub \<Rightarrow> hub" where
  "seed blocks releasedTo h =
     (trim_buffer (h\<lparr>hb_blocks := blocks,
        hb_trimmedThrough := (case blocks of b # _ \<Rightarrow> bm_n b | [] \<Rightarrow> releasedTo)\<rparr>))\<lparr>hb_hello := None\<rparr>"

definition send :: "nat \<Rightarrow> chunk \<Rightarrow> hub \<Rightarrow> bool \<times> hub" where
  "send s c h = (let (ok, st) = sink_send c (hb_streams h s) in (ok, h\<lparr>hb_streams := (hb_streams h)(s := st)\<rparr>))"

definition unsubscribe :: "nat \<Rightarrow> hub \<Rightarrow> hub" where
  "unsubscribe s h = h\<lparr>hb_sinks := remove1 s (hb_sinks h)\<rparr>"

definition drop_sink :: "nat \<Rightarrow> hub \<Rightarrow> hub" where
  "drop_sink s h = (unsubscribe s h)\<lparr>hb_streams := (hb_streams h)(s := sink_close (hb_streams h s))\<rparr>"

fun broadcast_to :: "chunk \<Rightarrow> nat list \<Rightarrow> hub \<Rightarrow> hub" where
  "broadcast_to c [] h = h"
| "broadcast_to c (s # ss) h = (case send s c h of (ok, h) \<Rightarrow> broadcast_to c ss (if ok then h else drop_sink s h))"

definition broadcast :: "chunk \<Rightarrow> hub \<Rightarrow> hub" where
  "broadcast c h = broadcast_to c (hb_sinks h) h"

definition reseed :: "block_msg list \<Rightarrow> int \<Rightarrow> hub \<Rightarrow> hub" where
  "reseed blocks releasedTo h = (case helloFrame (seed blocks releasedTo h) of (c, h) \<Rightarrow> broadcast c h)"

definition publishBlocks :: "block_msg list \<Rightarrow> hub \<Rightarrow> hub" where
  "publishBlocks blocks h =
     (if blocks = [] then h
      else broadcast (map (\<lambda>b. Event (Block b) (Some (bm_n b))) blocks)
             ((trim_buffer (h\<lparr>hb_blocks := hb_blocks h @ blocks\<rparr>))\<lparr>hb_hello := None\<rparr>))"

definition publishStats :: "stats_msg \<Rightarrow> hub \<Rightarrow> hub" where
  "publishStats s h = broadcast [Event (Stats s) None] (h\<lparr>hb_stats := Some s, hb_hello := None\<rparr>)"

definition heartbeat :: "hub \<Rightarrow> hub" where
  "heartbeat h = broadcast [Heartbeat] h"

definition closeAll :: "hub \<Rightarrow> hub" where
  "closeAll h = fold drop_sink (hb_sinks h) h"

text \<open>Sends chunks until one is refused.\<close>

fun send_all :: "nat \<Rightarrow> chunk list \<Rightarrow> hub \<Rightarrow> bool \<times> hub" where
  "send_all s [] h = (True, h)"
| "send_all s (c # cs) h = (case send s c h of (ok, h) \<Rightarrow> if ok then send_all s cs h else (False, h))"

definition resumable :: "int option \<Rightarrow> hub \<Rightarrow> int option" where
  "resumable lastEventId h = (case (lastEventId, newest h) of
     (Some l, Some n) \<Rightarrow> if l \<ge> hb_trimmedThrough h \<and> l \<le> n then Some l else None | _ \<Rightarrow> None)"

definition subscribe :: "nat \<Rightarrow> int option \<Rightarrow> hub \<Rightarrow> bool \<times> hub" where
  "subscribe s lastEventId h =
     (if full h then (False, h)
      else
        let (ok, h) = send s [Retry] (h\<lparr>hb_sinks := hb_sinks h @ [s]\<rparr>);
            (ok, h) = (if \<not> ok then (ok, h)
              else case resumable lastEventId h of
                Some l \<Rightarrow>
                  send_all s
                    (map (\<lambda>b. [Event (Block b) (Some (bm_n b))]) (filter (\<lambda>b. l < bm_n b) (hb_blocks h)) @
                     (case hb_stats h of Some st \<Rightarrow> [[Event (Stats st) None]] | None \<Rightarrow> [])) h
              | None \<Rightarrow> (case helloFrame h of (c, h) \<Rightarrow> send s c h))
        in if ok then (True, h) else (False, drop_sink s h))"

subsection \<open>A viewer\<close>

text \<open>
  The blocks a page has been handed since its last \<open>hello\<close>, and the last event id it saw. A frame
  without an id keeps the last one, as \<open>EventSource\<close> does.
\<close>

record viewer =
  vw_blocks :: "block_msg list"
  vw_last :: "int option"

definition new_viewer :: viewer where
  "new_viewer = \<lparr>vw_blocks = [], vw_last = None\<rparr>"

fun receive :: "frame \<Rightarrow> viewer \<Rightarrow> viewer" where
  "receive (Event p i) v =
     (let v = (case i of Some n \<Rightarrow> v\<lparr>vw_last := Some n\<rparr> | None \<Rightarrow> v)
      in case p of Hello bs _ \<Rightarrow> v\<lparr>vw_blocks := bs\<rparr> | Block b \<Rightarrow> v\<lparr>vw_blocks := vw_blocks v @ [b]\<rparr> | Stats _ \<Rightarrow> v)"
| "receive Heartbeat v = v"
| "receive Retry v = v"

text \<open>The wait before the page's own reconnect, jittered by a number in \<open>[0, 1)\<close>.\<close>

definition backoff_base :: "nat \<Rightarrow> int" where
  "backoff_base attempt = min 30000 (1000 * 2 ^ attempt)"

definition backoffMs :: "nat \<Rightarrow> rat \<Rightarrow> int" where
  "backoffMs attempt random = \<lfloor>of_int (backoff_base attempt) * (3 / 4 + random / 2) + 1 / 2\<rfloor>"

interpretation viewer_backoff: doubling_backoff backoff_base 1000 30000
  by unfold_locales (auto simp: backoff_base_def)

lemma backoffMs_bounds:
  assumes "0 \<le> random" "random < 1"
  shows "750 \<le> backoffMs attempt random \<and> backoffMs attempt random \<le> 37500"
proof -
  define b :: rat where "b = of_int (backoff_base attempt)"
  have "of_int 1000 \<le> b" "b \<le> of_int 30000"
    unfolding b_def of_int_le_iff using viewer_backoff.delay_bounds [of attempt] by blast+
  then have b: "1000 \<le> b" "b \<le> 30000" by simp_all
  have "1000 * (3 / 4) \<le> b * (3 / 4 + random / 2)" using b assms by (intro mult_mono) auto
  moreover have "b * (3 / 4 + random / 2) \<le> 30000 * (5 / 4)" using b assms by (intro mult_mono) auto
  ultimately show ?thesis unfolding backoffMs_def b_def [symmetric] by (auto simp: le_floor_iff floor_le_iff)
qed

subsection \<open>The chain behind the tape\<close>

text \<open>
  A movement as the tape shows it, its lane aside (it may be released before its lane is read).
  \<open>chain\<close> is the list of all blocks with movements, in order.
\<close>

definition strip_move :: "move \<Rightarrow> move" where
  "strip_move m = m\<lparr>mv_lane := None\<rparr>"

definition block_rows :: "block_msg \<Rightarrow> (int \<times> int \<times> move) list" where
  "block_rows b = map (\<lambda>m. (bm_n b, bm_t b, strip_move m)) (bm_moves b)"

definition rows_of :: "block_msg list \<Rightarrow> (int \<times> int \<times> move) list" where
  "rows_of bs = concat (map block_rows bs)"

definition same_blocks :: "block_msg list \<Rightarrow> block_msg list \<Rightarrow> bool" where
  "same_blocks bs cs \<longleftrightarrow> list_all2 (\<lambda>b c. bm_n b = bm_n c \<and> block_rows b = block_rows c) bs cs"

definition chain_sorted :: "block_msg list \<Rightarrow> bool" where
  "chain_sorted chain \<longleftrightarrow> sorted_wrt (<) (map bm_n chain)"

definition between :: "block_msg list \<Rightarrow> int \<Rightarrow> int \<Rightarrow> block_msg list" where
  "between chain lo hi = filter (\<lambda>b. lo < bm_n b \<and> bm_n b \<le> hi) chain"

definition upto_block :: "block_msg list \<Rightarrow> int \<Rightarrow> (int \<times> int \<times> move) list" where
  "upto_block chain l = rows_of (filter (\<lambda>b. bm_n b \<le> l) chain)"

lemma rows_of_simps [simp]: "rows_of [] = []" "rows_of (b # bs) = block_rows b @ rows_of bs" "rows_of (bs @ cs) = rows_of bs @ rows_of cs"
  by (simp_all add: rows_of_def)

lemma same_blocks_rows: "same_blocks bs cs \<Longrightarrow> rows_of bs = rows_of cs"
  unfolding same_blocks_def by (induction rule: list_all2_induct) simp_all

lemma same_blocks_append:
  "same_blocks bs cs \<Longrightarrow> same_blocks bs' cs' \<Longrightarrow> same_blocks (bs @ bs') (cs @ cs')"
  unfolding same_blocks_def by (rule list_all2_appendI)

lemma same_blocks_filter:
  "same_blocks bs cs \<Longrightarrow> same_blocks (filter (\<lambda>b. P (bm_n b)) bs) (filter (\<lambda>b. P (bm_n b)) cs)"
  unfolding same_blocks_def by (induction rule: list_all2_induct) simp_all

lemma same_blocks_Nil [simp]: "same_blocks [] cs \<longleftrightarrow> cs = []" "same_blocks bs [] \<longleftrightarrow> bs = []"
  by (simp_all add: same_blocks_def)

lemma same_blocks_Cons: "same_blocks (b # bs) cs \<longleftrightarrow> (\<exists>c cs'. cs = c # cs' \<and> bm_n b = bm_n c \<and> block_rows b = block_rows c \<and> same_blocks bs cs')"
  by (auto simp: same_blocks_def list_all2_Cons1)

lemma chain_sorted_Cons: "chain_sorted (b # bs) \<longleftrightarrow> (\<forall>c\<in>set bs. bm_n b < bm_n c) \<and> chain_sorted bs"
  by (auto simp: chain_sorted_def)

lemma between_split:
  assumes "chain_sorted chain" "lo \<le> mid" "mid \<le> hi"
  shows "between chain lo hi = between chain lo mid @ between chain mid hi"
  using assms
proof (induction chain)
  case (Cons b bs)
  have IH: "between bs lo hi = between bs lo mid @ between bs mid hi" using Cons by (simp add: chain_sorted_Cons)
  show ?case
  proof (cases "bm_n b \<le> mid")
    case True
    then show ?thesis using IH Cons.prems by (auto simp: between_def)
  next
    case False
    then have "\<forall>c\<in>set bs. mid < bm_n c" using Cons.prems by (auto simp: chain_sorted_Cons)
    then have "between bs lo mid = []" by (auto simp: between_def filter_empty_conv)
    then show ?thesis using IH False Cons.prems by (auto simp: between_def)
  qed
qed (simp add: between_def)

lemma upto_split:
  assumes "chain_sorted chain" "lo \<le> hi"
  shows "upto_block chain hi = upto_block chain lo @ rows_of (between chain lo hi)"
  using assms
proof (induction chain)
  case (Cons b bs)
  have IH: "upto_block bs hi = upto_block bs lo @ rows_of (between bs lo hi)" using Cons by (simp add: chain_sorted_Cons)
  show ?case
  proof (cases "bm_n b \<le> lo")
    case True
    then show ?thesis using IH Cons.prems by (auto simp: between_def upto_block_def)
  next
    case False
    then have "\<forall>c\<in>set bs. lo < bm_n c" using Cons.prems by (auto simp: chain_sorted_Cons)
    then have "filter (\<lambda>b. bm_n b \<le> lo) bs = []" by (auto simp: filter_empty_conv)
    then show ?thesis using IH False Cons.prems by (auto simp: between_def upto_block_def)
  qed
qed (simp add: between_def upto_block_def)

text \<open>The first block of a stretch, and what is left of it.\<close>

lemma between_Cons:
  assumes "chain_sorted chain" "between chain lo hi = b # bs"
  shows "lo < bm_n b" "bm_n b \<le> hi" "between chain lo (bm_n b) = [b]" "between chain (bm_n b) hi = bs"
proof -
  have b: "b \<in> set (between chain lo hi)" using assms by simp
  then show r: "lo < bm_n b" "bm_n b \<le> hi" by (auto simp: between_def)
  have "chain_sorted (b # bs)"
    using assms(1) unfolding assms(2) [symmetric] by (simp add: between_def chain_sorted_def sorted_wrt_map sorted_wrt_filter)
  then have later: "\<forall>c\<in>set bs. bm_n b < bm_n c" by (simp add: chain_sorted_Cons)
  have all: "b # bs = between chain lo (bm_n b) @ between chain (bm_n b) hi"
    using between_split [OF assms(1), of lo "bm_n b" hi] r assms(2) by simp
  have "b \<in> set (between chain lo (bm_n b))" using b r by (auto simp: between_def)
  then obtain xs where xs: "between chain lo (bm_n b) = b # xs" using all by (cases "between chain lo (bm_n b)") auto
  then have "bs = xs @ between chain (bm_n b) hi" using all by simp
  moreover have "xs = []"
  proof (rule ccontr)
    assume "xs \<noteq> []"
    then obtain c ys where c: "xs = c # ys" by (cases xs) auto
    then have "c \<in> set bs" using \<open>bs = xs @ _\<close> by simp
    moreover have "c \<in> set (between chain lo (bm_n b))" using xs c by simp
    then have "bm_n c \<le> bm_n b" by (simp add: between_def)
    ultimately show False using later by fastforce
  qed
  ultimately show "between chain lo (bm_n b) = [b]" "between chain (bm_n b) hi = bs" using xs by simp_all
qed

lemma between_drop:
  assumes "chain_sorted chain" "between chain lo hi = pre @ bs" "pre \<noteq> []"
  shows "between chain (bm_n (List.last pre)) hi = bs" "lo < bm_n (List.last pre)" "bm_n (List.last pre) \<le> hi"
proof -
  have "between chain (bm_n (List.last pre)) hi = bs \<and> lo < bm_n (List.last pre) \<and> bm_n (List.last pre) \<le> hi"
    using assms(2,3)
  proof (induction pre arbitrary: lo)
    case (Cons b pre)
    then have b: "between chain lo hi = b # pre @ bs" by simp
    note B = between_Cons [OF assms(1) b]
    show ?case
    proof (cases "pre = []")
      case False
      then show ?thesis using Cons.IH [OF B(4)] B by auto
    qed (use B in simp)
  qed simp
  then show "between chain (bm_n (List.last pre)) hi = bs" "lo < bm_n (List.last pre)" "bm_n (List.last pre) \<le> hi" by simp_all
qed

subsection \<open>What a viewer's tape is worth\<close>

text \<open>
  \<open>tape_ok\<close>: the rows handed over since the last hello are the newest ones up to the last id seen,
  without a gap. \<open>tape_live r\<close>: they are the newest ones up to block \<open>r\<close>.
\<close>

definition tape_ok :: "block_msg list \<Rightarrow> viewer \<Rightarrow> bool" where
  "tape_ok chain v \<longleftrightarrow> rows_of (vw_blocks v) = [] \<or>
     (\<exists>l. vw_last v = Some l \<and> suffix (rows_of (vw_blocks v)) (upto_block chain l))"

definition tape_live :: "block_msg list \<Rightarrow> int \<Rightarrow> viewer \<Rightarrow> bool" where
  "tape_live chain r v \<longleftrightarrow> suffix (rows_of (vw_blocks v)) (upto_block chain r) \<and>
     (rows_of (vw_blocks v) = [] \<or> (\<exists>l. vw_last v = Some l \<and> upto_block chain l = upto_block chain r))"

lemma live_ok: "tape_live chain r v \<Longrightarrow> tape_ok chain v"
  by (auto simp: tape_live_def tape_ok_def)

lemma ok_live: "tape_ok chain v \<Longrightarrow> vw_last v = Some l \<Longrightarrow> tape_live chain l v"
  by (auto simp: tape_live_def tape_ok_def)

text \<open>Every stop on the way through the frames is gapless.\<close>

fun good :: "block_msg list \<Rightarrow> frame list \<Rightarrow> viewer \<Rightarrow> bool" where
  "good chain [] v = tape_ok chain v"
| "good chain (f # fs) v = (tape_ok chain v \<and> good chain fs (receive f v))"

lemma good_append: "good chain (fs @ gs) v \<longleftrightarrow> good chain fs v \<and> good chain gs (fold receive fs v)"
proof (induction fs arbitrary: v)
  case Nil
  show ?case by (cases gs) auto
qed auto

lemma good_start: "good chain fs v \<Longrightarrow> tape_ok chain v"
  by (cases fs) auto

lemma good_end: "good chain fs v \<Longrightarrow> tape_ok chain (fold receive fs v)"
  by (induction fs arbitrary: v) auto

definition block_frames :: "block_msg list \<Rightarrow> frame list" where
  "block_frames bs = map (\<lambda>b. Event (Block b) (Some (bm_n b))) bs"

lemma live_block:
  assumes "chain_sorted chain" "tape_live chain r v" "between chain r (bm_n b) = [c]" "block_rows b = block_rows c" "r \<le> bm_n b"
  shows "tape_live chain (bm_n b) (receive (Event (Block b) (Some (bm_n b))) v)"
proof -
  have "upto_block chain (bm_n b) = upto_block chain r @ block_rows b"
    using upto_split [OF assms(1,5)] assms(3,4) by simp
  then show ?thesis using assms(2) by (auto simp: tape_live_def suffix_def)
qed

lemma live_blocks:
  assumes "chain_sorted chain" "tape_live chain r v" "same_blocks bs (between chain r to)" "r \<le> to"
  shows "good chain (block_frames bs) v \<and> tape_live chain to (fold receive (block_frames bs) v)"
  using assms(2-)
proof (induction bs arbitrary: r v)
  case Nil
  then have "upto_block chain to = upto_block chain r" using upto_split [OF assms(1), of r to] by simp
  then show ?case using Nil live_ok by (auto simp: block_frames_def tape_live_def)
next
  case (Cons b bs)
  obtain c cs where c: "between chain r to = c # cs" "bm_n b = bm_n c" "block_rows b = block_rows c" "same_blocks bs cs"
    using Cons.prems(2) by (auto simp: same_blocks_Cons)
  note B = between_Cons [OF assms(1) c(1)]
  have "tape_live chain (bm_n b) (receive (Event (Block b) (Some (bm_n b))) v)"
    using B c by (intro live_block [OF assms(1) Cons.prems(1)]) auto
  from Cons.IH [OF this] show ?case using B c live_ok [OF Cons.prems(1)] by (simp add: block_frames_def)
qed

text \<open>Frames that do not touch the tape.\<close>

lemma live_stats: "tape_live chain r v \<Longrightarrow> tape_live chain r (receive (Event (Stats s) None) v)"
  by (simp add: tape_live_def)

subsection \<open>What the buffer is worth\<close>

definition hub_ok :: "block_msg list \<Rightarrow> int \<Rightarrow> hub \<Rightarrow> bool" where
  "hub_ok chain r h \<longleftrightarrow>
     (\<exists>lo. lo \<le> hb_trimmedThrough h \<and> lo \<le> r \<and> same_blocks (hb_blocks h) (between chain lo r)) \<and>
     (case hb_hello h of Some c \<Rightarrow> c = [Event (hello h) (newest h)] | None \<Rightarrow> True)"

lemma new_hub_ok: "hub_ok chain (- 1) (new_hub maxStreams bufferMoves)"
  unfolding hub_ok_def by (auto simp: new_hub_def between_def)

lemma hello_blocks_rows:
  "rows_of (hello_blocks left bs out) = drop (length (rows_of (rev bs)) - left) (rows_of (rev bs)) @ rows_of out"
proof (induction left bs out rule: hello_blocks.induct)
  case (2 left b bs out)
  show ?case
  proof (cases "left = 0")
    case False
    define moves where "moves = drop (length (bm_moves b) - left) (bm_moves b)"
    have "block_rows (b\<lparr>bm_moves := moves\<rparr>) = drop (length (block_rows b) - left) (block_rows b)"
      by (simp add: block_rows_def moves_def drop_map)
    moreover have "left - length moves = left - length (block_rows b)" by (simp add: moves_def block_rows_def)
    ultimately show ?thesis
      using 2 [OF False moves_def] False
      by (cases "left \<le> length (block_rows b)") (simp_all add: moves_def [symmetric] Let_def add.commute)
  qed simp
qed simp

text \<open>A hello shows exactly the last \<open>bufferMoves\<close> movements of the buffer.\<close>

lemma hello_rows: "hello h = Hello bs st \<Longrightarrow> rows_of bs = drop (length (rows_of (hb_blocks h)) - hb_bufferMoves h) (rows_of (hb_blocks h))"
  by (auto simp: hello_def hello_blocks_rows)

lemma same_blocks_last: "same_blocks bs cs \<Longrightarrow> bs \<noteq> [] \<Longrightarrow> cs \<noteq> [] \<and> bm_n (List.last bs) = bm_n (List.last cs)"
  unfolding same_blocks_def by (induction rule: list_all2_induct) auto

lemma newest_bound:
  assumes "same_blocks (hb_blocks h) (between chain lo r)" "newest h = Some n"
  shows "lo < n" "n \<le> r"
proof -
  have ne: "hb_blocks h \<noteq> []" "n = bm_n (List.last (hb_blocks h))" using assms(2) by (auto simp: newest_def split: if_splits)
  have "List.last (between chain lo r) \<in> set (between chain lo r)" "n = bm_n (List.last (between chain lo r))"
    using same_blocks_last [OF assms(1) ne(1)] ne(2) by simp_all
  then show "lo < n" "n \<le> r" by (auto simp: between_def)
qed

lemma upto_newest:
  assumes "chain_sorted chain" "same_blocks (hb_blocks h) (between chain lo r)" "newest h = Some n"
  shows "upto_block chain n = upto_block chain r"
proof -
  have ne: "hb_blocks h \<noteq> []" "n = bm_n (List.last (hb_blocks h))" using assms(3) by (auto simp: newest_def split: if_splits)
  have ne': "between chain lo r \<noteq> []" "n = bm_n (List.last (between chain lo r))"
    using same_blocks_last [OF assms(2) ne(1)] ne(2) by simp_all
  with between_drop [OF assms(1), of lo r "between chain lo r" "[]"] ne'
  have "between chain n r = []" "n \<le> r" by simp_all
  then show ?thesis using upto_split [OF assms(1), of n r] by simp
qed

text \<open>After a hello the tape is live, whatever it was before.\<close>

lemma hello_live:
  assumes "chain_sorted chain" "hub_ok chain r h"
  shows "tape_live chain r (receive (Event (hello h) (newest h)) v)"
proof -
  obtain lo where lo: "lo \<le> r" "same_blocks (hb_blocks h) (between chain lo r)" using assms(2) by (auto simp: hub_ok_def)
  obtain bs st where hello: "hello h = Hello bs st" by (simp add: hello_def)
  have rows: "rows_of (hb_blocks h) = rows_of (between chain lo r)" using lo by (simp add: same_blocks_rows)
  have "suffix (rows_of bs) (rows_of (between chain lo r))" unfolding hello_rows [OF hello] rows by (rule suffix_drop)
  then have suffix: "suffix (rows_of bs) (upto_block chain r)"
    unfolding upto_split [OF assms(1) lo(1)] by (rule suffix_order.trans) (simp add: suffix_def)
  show ?thesis
  proof (cases "newest h")
    case None
    then have "hb_blocks h = []" by (simp add: newest_def split: if_splits)
    then show ?thesis using None suffix hello_rows [OF hello] by (simp add: tape_live_def hello)
  next
    case (Some n)
    then show ?thesis using suffix upto_newest [OF assms(1) lo(2) Some] by (simp add: tape_live_def hello)
  qed
qed

text \<open>Trimming keeps a suffix of the buffer and remembers the newest block that went.\<close>

lemma trim_loop_split:
  "trim_loop k m bs t = (bs', t') \<Longrightarrow> \<exists>pre. bs = pre @ bs' \<and> t \<le> t' \<and> (\<forall>b\<in>set pre. bm_n b \<le> t')"
proof (induction k m bs t rule: trim_loop.induct)
  case (1 k moves b b' bs through)
  show ?case
  proof (cases "moves - length (bm_moves b) \<ge> k")
    case True
    then obtain pre where "b' # bs = pre @ bs'" "max through (bm_n b) \<le> t'" "\<forall>b\<in>set pre. bm_n b \<le> t'"
      using 1 by auto
    then show ?thesis by (intro exI [of _ "b # pre"]) auto
  qed (use 1 in auto)
qed auto

lemma same_blocks_append_left:
  "same_blocks (pre @ bs) cs \<Longrightarrow> \<exists>pre' cs'. cs = pre' @ cs' \<and> same_blocks pre pre' \<and> same_blocks bs cs'"
  unfolding same_blocks_def by (auto simp: list_all2_append1)

lemma trim_buffer_ok:
  assumes "chain_sorted chain" "same_blocks (hb_blocks h) (between chain lo r)" "lo \<le> hb_trimmedThrough h" "lo \<le> r"
  shows "hub_ok chain r ((trim_buffer h)\<lparr>hb_hello := None\<rparr>)"
proof -
  obtain bs t where loop: "trim_loop (hb_bufferMoves h) (sum_list (map (\<lambda>b. length (bm_moves b)) (hb_blocks h)))
                            (hb_blocks h) (hb_trimmedThrough h) = (bs, t)" by fastforce
  obtain pre where pre: "hb_blocks h = pre @ bs" "hb_trimmedThrough h \<le> t" "\<forall>b\<in>set pre. bm_n b \<le> t"
    using trim_loop_split [OF loop] by blast
  obtain pre' cs where cs: "between chain lo r = pre' @ cs" "same_blocks pre pre'" "same_blocks bs cs"
    using same_blocks_append_left [of pre bs] assms(2) pre(1) by metis
  have "\<exists>lo. lo \<le> t \<and> lo \<le> r \<and> same_blocks bs (between chain lo r)"
  proof (cases "pre = []")
    case True
    then have "same_blocks bs (between chain lo r)" using assms(2) pre(1) by simp
    then show ?thesis using assms(3,4) pre(2) by (intro exI [of _ lo]) simp
  next
    case False
    note p = same_blocks_last [OF cs(2) False]
    note B = between_drop [OF assms(1) cs(1)]
    have "bm_n (List.last pre) \<le> t" using pre(3) False by simp
    then show ?thesis using B p cs(3) by (intro exI [of _ "bm_n (List.last pre')"]) simp
  qed
  then show ?thesis by (simp add: hub_ok_def trim_buffer_def loop)
qed

lemma seed_ok:
  assumes "chain_sorted chain" "same_blocks bs (between chain lo r)" "lo \<le> r"
  shows "hub_ok chain r (seed bs r h)"
proof -
  have "lo \<le> (case bs of b # _ \<Rightarrow> bm_n b | [] \<Rightarrow> r)"
  proof (cases bs)
    case (Cons b bs')
    then have "lo < bm_n b" using assms(2) between_Cons(1) [OF assms(1)] by (auto simp: same_blocks_Cons)
    then show ?thesis using Cons by simp
  qed (use assms in simp)
  then show ?thesis unfolding seed_def using assms by (intro trim_buffer_ok [OF assms(1), of _ lo]) simp_all
qed

lemma append_ok:
  assumes "chain_sorted chain" "hub_ok chain r h" "same_blocks bs (between chain r to)" "r \<le> to"
  shows "hub_ok chain to ((trim_buffer (h\<lparr>hb_blocks := hb_blocks h @ bs\<rparr>))\<lparr>hb_hello := None\<rparr>)"
proof -
  obtain lo where lo: "lo \<le> hb_trimmedThrough h" "lo \<le> r" "same_blocks (hb_blocks h) (between chain lo r)"
    using assms(2) by (auto simp: hub_ok_def)
  have "same_blocks (hb_blocks h @ bs) (between chain lo to)"
    unfolding between_split [OF assms(1) lo(2) assms(4)] by (rule same_blocks_append [OF lo(3) assms(3)])
  then show ?thesis using lo assms(4) by (intro trim_buffer_ok [OF assms(1), of _ lo]) simp_all
qed

subsection \<open>Fan-out\<close>

definition same_tape :: "hub \<Rightarrow> hub \<Rightarrow> bool" where
  "same_tape h h' \<longleftrightarrow> hb_blocks h' = hb_blocks h \<and> hb_stats h' = hb_stats h \<and> hb_trimmedThrough h' = hb_trimmedThrough h \<and>
     hb_hello h' = hb_hello h \<and> hb_maxStreams h' = hb_maxStreams h \<and> hb_bufferMoves h' = hb_bufferMoves h"

lemma same_tape_refl [simp]: "same_tape h h" by (simp add: same_tape_def)

lemma same_tape_trans: "same_tape h h' \<Longrightarrow> same_tape h' h'' \<Longrightarrow> same_tape h h''" by (simp add: same_tape_def)

lemma same_tape_ok: "same_tape h h' \<Longrightarrow> hub_ok chain r h \<Longrightarrow> hub_ok chain r h'"
  by (simp add: hub_ok_def same_tape_def hello_def newest_def split: option.splits)

lemma send_effect:
  assumes "send s c h = (ok, h')"
  shows "same_tape h h'" "hb_sinks h' = hb_sinks h" "\<And>t. t \<noteq> s \<Longrightarrow> hb_streams h' t = hb_streams h t"
    "sr_queue (hb_streams h' s) = sr_queue (hb_streams h s) @ (if ok then [c] else [])"
  using assms by (auto simp: send_def sink_send_def same_tape_def split: if_splits)

lemma drop_effect:
  "same_tape h (drop_sink s h)" "hb_sinks (drop_sink s h) = remove1 s (hb_sinks h)"
  "sr_queue (hb_streams (drop_sink s h) t) = sr_queue (hb_streams h t)"
  "t \<noteq> s \<Longrightarrow> hb_streams (drop_sink s h) t = hb_streams h t"
  by (simp_all add: drop_sink_def unsubscribe_def same_tape_def sink_close_def)

lemma broadcast_to_effect:
  fixes c :: chunk
  assumes "distinct ss" "distinct (hb_sinks h)"
  defines "h' \<equiv> broadcast_to c ss h"
  shows "same_tape h h' \<and> distinct (hb_sinks h') \<and> set (hb_sinks h') \<subseteq> set (hb_sinks h) \<and>
    (\<forall>s. s \<notin> set ss \<longrightarrow> hb_streams h' s = hb_streams h s \<and> (s \<in> set (hb_sinks h') \<longleftrightarrow> s \<in> set (hb_sinks h))) \<and>
    (\<forall>s\<in>set ss. sr_queue (hb_streams h' s) = sr_queue (hb_streams h s) @ [c] \<or>
                  (sr_queue (hb_streams h' s) = sr_queue (hb_streams h s) \<and> s \<notin> set (hb_sinks h')))"
  using assms(1,2) unfolding h'_def
proof (induction ss arbitrary: h)
  case (Cons s ss)
  obtain ok h1 where send: "send s c h = (ok, h1)" by fastforce
  define h2 where "h2 = (if ok then h1 else drop_sink s h1)"
  have run: "broadcast_to c (s # ss) h = broadcast_to c ss h2" by (simp add: send h2_def)
  note E = send_effect [OF send]
  have tape2: "same_tape h h2"
    using E(1) same_tape_trans [OF E(1) drop_effect(1)] by (simp add: h2_def)
  have sinks2: "hb_sinks h2 = (if ok then hb_sinks h else remove1 s (hb_sinks h))"
    using E(2) by (simp add: h2_def drop_effect(2))
  have queue2: "sr_queue (hb_streams h2 s) = sr_queue (hb_streams h s) @ (if ok then [c] else [])"
    using E(4) by (simp add: h2_def drop_effect(3))
  have other2: "hb_streams h2 t = hb_streams h t" if "t \<noteq> s" for t
    using E(3) [OF that] drop_effect(4) [OF that] by (simp add: h2_def)
  have h2: "distinct (hb_sinks h2)" "set (hb_sinks h2) \<subseteq> set (hb_sinks h)"
    "t \<noteq> s \<Longrightarrow> t \<in> set (hb_sinks h2) \<longleftrightarrow> t \<in> set (hb_sinks h)" "\<not> ok \<Longrightarrow> s \<notin> set (hb_sinks h2)" for t
    using Cons.prems set_remove1_subset [of s "hb_sinks h"] by (auto simp: sinks2)
  have s: "s \<notin> set ss" "distinct ss" using Cons.prems by simp_all
  define g where "g = broadcast_to c ss h2"
  have IH: "same_tape h2 g" "distinct (hb_sinks g)" "set (hb_sinks g) \<subseteq> set (hb_sinks h2)"
    "t \<notin> set ss \<Longrightarrow> hb_streams g t = hb_streams h2 t" "t \<notin> set ss \<Longrightarrow> t \<in> set (hb_sinks g) \<longleftrightarrow> t \<in> set (hb_sinks h2)"
    "t \<in> set ss \<Longrightarrow> sr_queue (hb_streams g t) = sr_queue (hb_streams h2 t) @ [c] \<or>
      (sr_queue (hb_streams g t) = sr_queue (hb_streams h2 t) \<and> t \<notin> set (hb_sinks g))" for t
    using Cons.IH [OF s(2) h2(1)] unfolding g_def by blast+
  have outside: "hb_streams g t = hb_streams h t \<and> (t \<in> set (hb_sinks g) \<longleftrightarrow> t \<in> set (hb_sinks h))" if "t \<notin> set (s # ss)" for t
    using that IH(4,5) [of t] other2 [of t] h2(3) [of t] by simp
  have inside: "sr_queue (hb_streams g t) = sr_queue (hb_streams h t) @ [c] \<or>
      (sr_queue (hb_streams g t) = sr_queue (hb_streams h t) \<and> t \<notin> set (hb_sinks g))" if "t \<in> set (s # ss)" for t
  proof (cases "t = s")
    case True
    then show ?thesis using IH(4,5) [OF s(1)] queue2 h2(4) by (cases ok) auto
  next
    case False
    then show ?thesis using that IH(6) [of t] other2 [OF False] by simp
  qed
  show ?case unfolding run g_def [symmetric]
  proof (intro conjI)
    show "same_tape h g" by (rule same_tape_trans [OF tape2 IH(1)])
    show "set (hb_sinks g) \<subseteq> set (hb_sinks h)" by (rule order_trans [OF IH(3) h2(2)])
  qed (rule IH(2), intro allI impI, erule outside, intro ballI, erule inside)
qed simp

lemma broadcast_effect:
  assumes "distinct (hb_sinks h)"
  shows "same_tape h (broadcast c h)" "distinct (hb_sinks (broadcast c h))" "set (hb_sinks (broadcast c h)) \<subseteq> set (hb_sinks h)"
    "s \<notin> set (hb_sinks h) \<Longrightarrow> hb_streams (broadcast c h) s = hb_streams h s"
    "sr_queue (hb_streams (broadcast c h) s) = sr_queue (hb_streams h s) @ [c] \<or>
      (sr_queue (hb_streams (broadcast c h) s) = sr_queue (hb_streams h s) \<and> s \<notin> set (hb_sinks (broadcast c h)))"
proof -
  note B = broadcast_to_effect [OF assms assms, of c, folded broadcast_def]
  show 1: "same_tape h (broadcast c h)" "distinct (hb_sinks (broadcast c h))" "set (hb_sinks (broadcast c h)) \<subseteq> set (hb_sinks h)"
    using B by blast+
  show 2: "hb_streams (broadcast c h) s = hb_streams h s" if "s \<notin> set (hb_sinks h)" for s using B that by blast
  show "sr_queue (hb_streams (broadcast c h) s) = sr_queue (hb_streams h s) @ [c] \<or>
      (sr_queue (hb_streams (broadcast c h) s) = sr_queue (hb_streams h s) \<and> s \<notin> set (hb_sinks (broadcast c h)))"
  proof (cases "s \<in> set (hb_sinks h)")
    case True
    then show ?thesis using B by blast
  next
    case False
    then show ?thesis using 2 [OF False] 1(3) by auto
  qed
qed

lemma send_all_effect:
  assumes "send_all s cs h = (ok, h')"
  shows "same_tape h h' \<and> hb_sinks h' = hb_sinks h \<and> (\<forall>t. t \<noteq> s \<longrightarrow> hb_streams h' t = hb_streams h t) \<and>
    (ok \<longrightarrow> sr_queue (hb_streams h' s) = sr_queue (hb_streams h s) @ cs)"
  using assms
proof (induction s cs h rule: send_all.induct)
  case (2 s c cs h)
  obtain ok1 h1 where send: "send s c h = (ok1, h1)" by fastforce
  note E = send_effect [OF send]
  show ?case
  proof (cases ok1)
    case True
    then show ?thesis using 2 send E same_tape_trans by fastforce
  qed (use 2 send E in auto)
qed simp

text \<open>The cached hello frame is the hello.\<close>

lemma helloFrame_effect:
  assumes "hub_ok chain r h" "helloFrame h = (c, h')"
  shows "c = [Event (hello h) (newest h)]" "hub_ok chain r h'" "hb_sinks h' = hb_sinks h" "hb_streams h' = hb_streams h"
    "hb_maxStreams h' = hb_maxStreams h" "hello h' = hello h" "newest h' = newest h"
  using assms by (auto simp: helloFrame_def hub_ok_def hello_def newest_def Let_def split: option.splits)

lemma frame_good:
  assumes "tape_ok chain v" "tape_live chain r (receive f v)"
  shows "good chain [f] v" "tape_live chain r (fold receive [f] v)"
  using assms live_ok by auto

text \<open>
  Subscribing: on success the stream holds a way back to the live tape, from whatever gapless tape the
  viewer kept; on refusal nothing but that stream has changed.
\<close>

lemma subscribe_effect:
  assumes sorted: "chain_sorted chain" and ok: "hub_ok chain r h"
    and fresh: "s \<notin> set (hb_sinks h)" "sr_queue (hb_streams h s) = []"
    and last: "lastEventId = None \<or> lastEventId = vw_last v" and tape: "tape_ok chain v"
    and sub: "subscribe s lastEventId h = (accepted, h')"
  shows "hub_ok chain r h' \<and> (\<forall>t. t \<noteq> s \<longrightarrow> hb_streams h' t = hb_streams h t) \<and>
    (if accepted then hb_sinks h' = hb_sinks h @ [s] \<and> good chain (concat (sr_queue (hb_streams h' s))) v \<and>
                      tape_live chain r (fold receive (concat (sr_queue (hb_streams h' s))) v)
     else hb_sinks h' = hb_sinks h)"
proof (cases "full h")
  case True
  then show ?thesis using sub ok by (auto simp: subscribe_def)
next
  case False
  define h0 where "h0 = h\<lparr>hb_sinks := hb_sinks h @ [s]\<rparr>"
  have "same_tape h h0" by (simp add: same_tape_def h0_def)
  then have h0: "hub_ok chain r h0" using ok by (rule same_tape_ok)
  obtain ok1 h1 where s1: "send s [Retry] h0 = (ok1, h1)" by fastforce
  note E1 = send_effect [OF s1]
  have h1: "hub_ok chain r h1" "hb_sinks h1 = hb_sinks h @ [s]" "\<And>t. t \<noteq> s \<Longrightarrow> hb_streams h1 t = hb_streams h t"
    "ok1 \<Longrightarrow> sr_queue (hb_streams h1 s) = [[Retry]]"
    using E1 same_tape_ok [OF _ h0] fresh by (auto simp: h0_def)
  define first where "first = (case resumable lastEventId h1 of
      Some l \<Rightarrow> send_all s
        (map (\<lambda>b. [Event (Block b) (Some (bm_n b))]) (filter (\<lambda>b. l < bm_n b) (hb_blocks h1)) @
         (case hb_stats h1 of Some st \<Rightarrow> [[Event (Stats st) None]] | None \<Rightarrow> [])) h1
    | None \<Rightarrow> (case helloFrame h1 of (c, h) \<Rightarrow> send s c h))"
  obtain ok2 h2 where r: "first = (ok2, h2)" by fastforce
  have first_ok: "hub_ok chain r h2 \<and> hb_sinks h2 = hb_sinks h @ [s] \<and> (\<forall>t. t \<noteq> s \<longrightarrow> hb_streams h2 t = hb_streams h t) \<and>
      (ok2 \<longrightarrow> good chain (concat (sr_queue (hb_streams h2 s))) v \<and> tape_live chain r (fold receive (concat (sr_queue (hb_streams h2 s))) v))"
    if ok1
  proof (cases "resumable lastEventId h1")
    case None
    obtain c h3 where hf: "helloFrame h1 = (c, h3)" by fastforce
    note H = helloFrame_effect [OF h1(1) hf]
    have s3: "send s c h3 = (ok2, h2)" using r by (simp add: first_def None hf)
    note E3 = send_effect [OF s3]
    have live: "tape_live chain r (receive (Event (hello h1) (newest h1)) v)" by (rule hello_live [OF sorted h1(1)])
    show ?thesis using E3 H h1 that same_tape_ok [OF E3(1) H(2)] live live_ok [OF live] tape by (auto simp: H(1))
  next
    case (Some l)
    then obtain n where n: "lastEventId = Some l" "newest h1 = Some n" "hb_trimmedThrough h1 \<le> l" "l \<le> n"
      by (auto simp: resumable_def split: option.splits if_splits)
    obtain lo where lo: "lo \<le> hb_trimmedThrough h1" "lo \<le> r" "same_blocks (hb_blocks h1) (between chain lo r)"
      using h1(1) by (auto simp: hub_ok_def)
    have l: "lo \<le> l" "l \<le> r" using n lo newest_bound [OF lo(3) n(2)] by simp_all
    define later where "later = filter (\<lambda>b. l < bm_n b) (hb_blocks h1)"
    have same: "same_blocks later (between chain l r)"
    proof -
      have "filter (\<lambda>b. l < bm_n b) (between chain lo r) = between chain l r"
        unfolding between_def using l by (simp add: conj_commute) (rule filter_cong, auto)
      then show ?thesis unfolding later_def using same_blocks_filter [OF lo(3), of "\<lambda>n. l < n"] by simp
    qed
    have "vw_last v = Some l" using last n(1) by auto
    then have start: "tape_live chain l v" by (rule ok_live [OF tape])
    note B = live_blocks [OF sorted start same l(2)]
    define sts where "sts = (case hb_stats h1 of Some st \<Rightarrow> [[Event (Stats st) None]] | None \<Rightarrow> [])"
    have s4: "send_all s (map (\<lambda>b. [Event (Block b) (Some (bm_n b))]) later @ sts) h1 = (ok2, h2)"
      using r by (simp add: first_def Some later_def sts_def)
    note E4 = send_all_effect [OF s4]
    have frames: "concat (map (\<lambda>b. [Event (Block b) (Some (bm_n b))]) later) = block_frames later"
      by (simp add: block_frames_def concat_map_singleton)
    have queue: "ok2 \<Longrightarrow> concat (sr_queue (hb_streams h2 s)) = Retry # block_frames later @ concat sts"
      using E4 h1(4) [OF that] frames by simp
    have "good chain (Retry # block_frames later @ concat sts) v \<and> tape_live chain r (fold receive (Retry # block_frames later @ concat sts) v)"
      using B tape live_ok by (cases "hb_stats h1") (auto simp: sts_def good_append live_stats good_end)
    moreover have "same_tape h1 h2" "hb_sinks h2 = hb_sinks h @ [s]" "\<forall>t. t \<noteq> s \<longrightarrow> hb_streams h2 t = hb_streams h t"
      using E4 h1(2,3) by auto
    ultimately show ?thesis using same_tape_ok [OF _ h1(1)] queue by simp
  qed
  have all: "subscribe s lastEventId h = (case if ok1 then first else (ok1, h1) of (ok, h) \<Rightarrow> if ok then (True, h) else (False, drop_sink s h))"
    using False by (simp add: subscribe_def Let_def h0_def [symmetric] s1 first_def)
  have drop: "hub_ok chain r (drop_sink s g) \<and> hb_sinks (drop_sink s g) = hb_sinks h" if "hub_ok chain r g" "hb_sinks g = hb_sinks h @ [s]" for g
    using that same_tape_ok [OF drop_effect(1)] fresh(1) by (simp add: drop_effect(2) remove1_append)
  show ?thesis
    using sub first_ok r h1 drop [of h1] drop [of h2] drop_effect(4)
    unfolding all by (cases ok1; cases ok2) auto
qed

end
