(* ===== verification/Pacing.thy ===== *)
theory Pacing
  imports Hub "HOL-Library.Sublist"
begin

text \<open>
  \<open>explorer/lib/pacing.ts\<close> and the part of \<open>components/HomeLive.tsx\<close> that feeds it: the rows that
  arrive over the stream are spread over time, wait while the tape is held and enter the tape on a
  frame. The theorems say that the tape shows no movement twice and newest first, and that nothing
  waits long once the tape is let go. Clock readings are rationals in milliseconds.
\<close>

subsection \<open>The pacer\<close>

record pacer_options =
  po_gapsKept :: nat
  po_minGapMs :: rat
  po_maxGapMs :: rat
  po_defaultGapMs :: rat
  po_maxBacklogMs :: rat
  po_drainMs :: rat
  po_maxQueue :: nat
  po_coalesceMs :: rat

definition PACING :: pacer_options where
  "PACING = \<lparr>po_gapsKept = 20, po_minGapMs = 100, po_maxGapMs = 2000, po_defaultGapMs = 500,
     po_maxBacklogMs = 3000, po_drainMs = 1000, po_maxQueue = 128, po_coalesceMs = 50\<rparr>"

record 'a entry =
  en_item :: 'a
  en_due :: rat
  en_arrival :: nat
  en_idx :: nat

record arrival =
  ar_id :: nat
  ar_start :: rat
  ar_last :: rat
  ar_base :: rat
  ar_count :: nat

record 'a row_pacer =
  rp_q :: "'a entry list"
  rp_gaps :: "rat list"
  rp_arrival :: "arrival option"
  rp_paused :: bool
  rp_skipped :: nat

definition new_row_pacer :: "'a row_pacer" where
  "new_row_pacer = \<lparr>rp_q = [], rp_gaps = [], rp_arrival = None, rp_paused = False, rp_skipped = 0\<rparr>"

definition median :: "rat list \<Rightarrow> rat" where
  "median s = (let mid = length s div 2 in if odd (length s) then s ! mid else (s ! (mid - 1) + s ! mid) / 2)"

definition interval :: "pacer_options \<Rightarrow> 'a row_pacer \<Rightarrow> rat" where
  "interval opt p =
     (if rp_gaps p = [] then po_defaultGapMs opt
      else min (po_maxGapMs opt) (max (po_minGapMs opt) (median (sort (rp_gaps p)))))"

text \<open>Which arrival a push belongs to: the current one, or a new one whose gap is remembered.\<close>

definition arrive :: "pacer_options \<Rightarrow> rat \<Rightarrow> 'a row_pacer \<Rightarrow> arrival \<times> rat list" where
  "arrive opt now p =
     (let base = (if rp_q p = [] then now else max now (en_due (last (rp_q p)))) in
      case rp_arrival p of
        None \<Rightarrow> (\<lparr>ar_id = 1, ar_start = now, ar_last = now, ar_base = base, ar_count = 0\<rparr>, rp_gaps p)
      | Some a \<Rightarrow>
          if now - ar_last a < po_coalesceMs opt then (a\<lparr>ar_last := now\<rparr>, rp_gaps p)
          else (\<lparr>ar_id = ar_id a + 1, ar_start = now, ar_last = now, ar_base = base, ar_count = 0\<rparr>,
                (let gaps = rp_gaps p @ [now - ar_start a] in if po_gapsKept opt < length gaps then drop 1 gaps else gaps)))"

text \<open>The loop from the queue's end over the arrival's rows; the list is the queue reversed.\<close>

fun close_up :: "nat \<Rightarrow> rat \<Rightarrow> rat \<Rightarrow> 'a entry list \<Rightarrow> 'a entry list" where
  "close_up a base step [] = []"
| "close_up a base step (e # es) =
     (if en_arrival e = a then e\<lparr>en_due := base + step * of_nat (en_idx e)\<rparr> # close_up a base step es else e # es)"

definition respread :: "pacer_options \<Rightarrow> rat \<Rightarrow> 'a row_pacer \<Rightarrow> 'a row_pacer" where
  "respread opt now p = p\<lparr>rp_q := map2 (\<lambda>e i. e\<lparr>en_due := now + po_drainMs opt / of_nat (length (rp_q p)) * of_nat i\<rparr>)
     (rp_q p) [0..<length (rp_q p)]\<rparr>"

text \<open>The queue once the arrival's new rows are in it and all its rows are spread over one interval.\<close>

definition enqueue :: "pacer_options \<Rightarrow> arrival \<Rightarrow> 'a list \<Rightarrow> 'a row_pacer \<Rightarrow> 'a entry list" where
  "enqueue opt a items p =
     (let new = map2 (\<lambda>item i. \<lparr>en_item = item, en_due = 0, en_arrival = ar_id a, en_idx = i\<rparr>) items
            [ar_count a..<ar_count a + length items];
          step = interval opt p / of_nat (ar_count a + length items)
      in rev (close_up (ar_id a) (ar_base a) step (rev (rp_q p @ new))))"

definition push :: "pacer_options \<Rightarrow> 'a list \<Rightarrow> rat \<Rightarrow> 'a row_pacer \<Rightarrow> 'a row_pacer" where
  "push opt items now p =
     (case arrive opt now p of (a, gaps) \<Rightarrow>
      let p = p\<lparr>rp_gaps := gaps, rp_arrival := Some a\<rparr> in
      if items = [] then p
      else
        let q = enqueue opt a items p;
            over = length q - po_maxQueue opt;
            p = p\<lparr>rp_q := drop over q, rp_arrival := Some (a\<lparr>ar_count := ar_count a + length items\<rparr>),
                  rp_skipped := rp_skipped p + over\<rparr>
        in if \<not> rp_paused p \<and> po_maxBacklogMs opt < en_due (last (rp_q p)) - now then respread opt now p else p)"

definition take_due :: "rat \<Rightarrow> 'a row_pacer \<Rightarrow> 'a list \<times> 'a row_pacer" where
  "take_due now p =
     (if rp_paused p then ([], p)
      else (map en_item (takeWhile (\<lambda>e. en_due e \<le> now) (rp_q p)), p\<lparr>rp_q := dropWhile (\<lambda>e. en_due e \<le> now) (rp_q p)\<rparr>))"

definition pause :: "'a row_pacer \<Rightarrow> 'a row_pacer" where
  "pause p = p\<lparr>rp_paused := True\<rparr>"

definition resume :: "pacer_options \<Rightarrow> rat \<Rightarrow> 'a row_pacer \<Rightarrow> 'a row_pacer" where
  "resume opt now p =
     (if \<not> rp_paused p then p
      else let p = p\<lparr>rp_paused := False, rp_skipped := 0\<rparr> in if rp_q p = [] then p else respread opt now p)"

definition clear :: "'a row_pacer \<Rightarrow> 'a row_pacer" where
  "clear p = p\<lparr>rp_arrival := None, rp_q := [], rp_skipped := 0\<rparr>"

definition waiting :: "'a row_pacer \<Rightarrow> nat" where
  "waiting p = length (rp_q p) + rp_skipped p"

subsection \<open>The home page's tape (\<open>HomeLive.tsx\<close>, \<open>homestory.ts\<close>)\<close>

definition TAPE_ROWS :: nat where "TAPE_ROWS = 32"

record tape_row = move +
  tr_n :: int
  tr_t :: int
  tr_fresh :: bool

definition row_of :: "block_msg \<Rightarrow> bool \<Rightarrow> move \<Rightarrow> tape_row" where
  "row_of b fresh m = \<lparr>mv_tx = mv_tx m, mv_li = mv_li m, mv_from = mv_from m, mv_to = mv_to m, mv_fromName = mv_fromName m,
     mv_toName = mv_toName m, mv_value = mv_value m, mv_lane = mv_lane m, tr_n = bm_n b, tr_t = bm_t b, tr_fresh = fresh\<rparr>"

definition tape_rows_of :: "block_msg \<Rightarrow> bool \<Rightarrow> tape_row list" where
  "tape_rows_of b fresh = map (row_of b fresh) (bm_moves b)"

definition row_key :: "tape_row \<Rightarrow> string" where
  "row_key r = show_int (tr_n r) @ '':'' @ show_nat (mv_li r)"

definition newestFirst :: "block_msg list \<Rightarrow> tape_row list" where
  "newestFirst blocks = take TAPE_ROWS (rev (concat (map (\<lambda>b. tape_rows_of b False) blocks)))"

record hello_plan =
  hp_newest :: "(int \<times> int) option"
  hp_replace :: bool

definition newest_of :: "block_msg list \<Rightarrow> (int \<times> int) option" where
  "newest_of blocks = (if blocks = [] then None else Some (bm_n (last blocks), bm_t (last blocks)))"

definition helloPlan :: "block_msg list \<Rightarrow> bool \<Rightarrow> hello_plan" where
  "helloPlan blocks paused = \<lparr>hp_newest = newest_of blocks, hp_replace = (blocks \<noteq> [] \<and> \<not> paused)\<rparr>"

record home =
  hm_rows :: "tape_row list"
  hm_pacer :: "tape_row row_pacer"
  hm_newest :: "(int \<times> int) option"
  hm_stats :: "stats_msg option"
  hm_hover :: bool
  hm_focus :: bool
  hm_waiting :: nat

definition open_home :: "block_msg list \<Rightarrow> stats_msg option \<Rightarrow> home" where
  "open_home blocks st = \<lparr>hm_rows = newestFirst blocks, hm_pacer = new_row_pacer, hm_newest = newest_of blocks,
     hm_stats = st, hm_hover = False, hm_focus = False, hm_waiting = 0\<rparr>"

definition on_hello :: "block_msg list \<Rightarrow> stats_msg option \<Rightarrow> home \<Rightarrow> home" where
  "on_hello blocks st h =
     (let plan = helloPlan blocks (rp_paused (hm_pacer h)) in
      h\<lparr>hm_pacer := clear (hm_pacer h), hm_newest := hp_newest plan,
        hm_rows := (if hp_replace plan then newestFirst blocks else hm_rows h),
        hm_stats := (case st of Some s \<Rightarrow> Some s | None \<Rightarrow> hm_stats h)\<rparr>)"

definition on_block :: "block_msg \<Rightarrow> rat \<Rightarrow> home \<Rightarrow> home" where
  "on_block b now h =
     (if (case hm_newest h of Some (n, _) \<Rightarrow> bm_n b \<le> n | None \<Rightarrow> False) then h
      else h\<lparr>hm_newest := Some (bm_n b, bm_t b), hm_pacer := push PACING (tape_rows_of b True) now (hm_pacer h)\<rparr>)"

definition tick :: "rat \<Rightarrow> home \<Rightarrow> home" where
  "tick now h =
     (case take_due now (hm_pacer h) of (due, p) \<Rightarrow>
      h\<lparr>hm_pacer := p, hm_rows := (if due = [] then hm_rows h else take TAPE_ROWS (rev due @ hm_rows h)),
        hm_waiting := (if rp_paused p then waiting p else 0)\<rparr>)"

datatype hold = Hover | Focus

definition holdTape :: "hold \<Rightarrow> bool \<Rightarrow> rat \<Rightarrow> home \<Rightarrow> home" where
  "holdTape why on now h =
     (let h = (case why of Hover \<Rightarrow> h\<lparr>hm_hover := on\<rparr> | Focus \<Rightarrow> h\<lparr>hm_focus := on\<rparr>) in
      h\<lparr>hm_pacer := (if hm_hover h \<or> hm_focus h then pause (hm_pacer h) else resume PACING now (hm_pacer h))\<rparr>)"

subsection \<open>The queue as a list\<close>

text \<open>What waits, oldest first. Every operation acts on it as on a bounded queue.\<close>

definition queued :: "'a row_pacer \<Rightarrow> 'a list" where
  "queued p = map en_item (rp_q p)"

lemma length_queued: "length (queued p) = length (rp_q p)" by (simp add: queued_def)

lemma close_up_items: "map en_item (close_up a base step es) = map en_item es"
  by (induction es) simp_all

lemma length_close_up [simp]: "length (close_up a base step es) = length es"
  by (induction es) simp_all

lemma map_map2_fst: "length ys = length xs \<Longrightarrow> (\<And>x y. f (g x y) = h x) \<Longrightarrow> map f (map2 g xs ys) = map h xs"
  by (induction xs ys rule: list_induct2') simp_all

lemma respread_queued [simp]: "queued (respread opt now p) = queued p"
  unfolding queued_def respread_def by (simp add: map_map2_fst [where h = en_item] del: map_map)

lemma respread_simps [simp]: "rp_paused (respread opt now p) = rp_paused p" "rp_arrival (respread opt now p) = rp_arrival p"
  "rp_skipped (respread opt now p) = rp_skipped p"
  by (simp_all add: respread_def)

lemma enqueue_items: "map en_item (enqueue opt a items p) = queued p @ items"
proof -
  have "map en_item (map2 (\<lambda>item i. \<lparr>en_item = item, en_due = 0, en_arrival = ar_id a, en_idx = i\<rparr>) items [ar_count a..<ar_count a + length items]) = items"
    by (subst map_map2_fst [where h = id]) auto
  then show ?thesis by (simp add: enqueue_def Let_def close_up_items queued_def flip: rev_map del: map_map)
qed

lemma length_enqueue: "length (enqueue opt a items p) = length (queued p) + length items"
  using arg_cong [OF enqueue_items, of length] by simp

lemma push_paused [simp]: "rp_paused (push opt items now p) = rp_paused p"
  by (simp add: push_def Let_def split: prod.splits)

lemma push_queued:
  "queued (push opt items now p) = (if items = [] then queued p else drop (length (queued p) + length items - po_maxQueue opt) (queued p @ items))"
proof (cases "arrive opt now p")
  case (Pair a gaps)
  define p' where "p' = p\<lparr>rp_gaps := gaps, rp_arrival := Some a\<rparr>"
  have q: "queued p' = queued p" by (simp add: p'_def queued_def)
  have "queued (push opt items now p) =
      (if items = [] then queued p' else map en_item (drop (length (enqueue opt a items p') - po_maxQueue opt) (enqueue opt a items p')))"
    by (simp add: push_def Pair Let_def) (simp add: queued_def p'_def)
  then show ?thesis by (simp add: q enqueue_items length_enqueue flip: drop_map)
qed

lemma take_due_queued: "queued p = fst (take_due now p) @ queued (snd (take_due now p))"
  by (simp add: take_due_def queued_def flip: map_append)

lemma take_due_paused [simp]: "rp_paused (snd (take_due now p)) = rp_paused p"
  by (simp add: take_due_def)

lemma resume_queued [simp]: "queued (resume opt now p) = queued p"
  by (simp add: resume_def Let_def) (simp add: queued_def)

lemma pause_queued [simp]: "queued (pause p) = queued p" by (simp add: pause_def queued_def)

lemma clear_queued [simp]: "queued (clear p) = []" by (simp add: clear_def queued_def)

subsection \<open>Due times\<close>

text \<open>
  Options under which a drained backlog lies within the limit. Of a queued row: its arrival is the
  current one or an older one, and its place lies within the arrival; while the tape runs it is due
  within the limit from the last event.
\<close>

definition good_options :: "pacer_options \<Rightarrow> bool" where
  "good_options opt \<longleftrightarrow> 0 \<le> po_minGapMs opt \<and> 0 \<le> po_maxGapMs opt \<and> 0 \<le> po_defaultGapMs opt \<and> 0 \<le> po_drainMs opt \<and>
     po_drainMs opt \<le> po_maxBacklogMs opt \<and> 0 < po_maxQueue opt"

definition places_ok :: "'a row_pacer \<Rightarrow> bool" where
  "places_ok p \<longleftrightarrow> (\<forall>e\<in>set (rp_q p). case rp_arrival p of None \<Rightarrow> False
     | Some a \<Rightarrow> en_arrival e \<le> ar_id a \<and> (en_arrival e = ar_id a \<longrightarrow> en_idx e < ar_count a))"

definition due_within :: "pacer_options \<Rightarrow> rat \<Rightarrow> 'a row_pacer \<Rightarrow> bool" where
  "due_within opt now p \<longleftrightarrow> (\<forall>e\<in>set (rp_q p). en_due e \<le> now + po_maxBacklogMs opt)"

definition paced :: "pacer_options \<Rightarrow> rat \<Rightarrow> 'a row_pacer \<Rightarrow> bool" where
  "paced opt now p \<longleftrightarrow> places_ok p \<and> length (rp_q p) \<le> po_maxQueue opt \<and> (rp_paused p \<or> due_within opt now p)"

lemmas paced_defs = paced_def places_ok_def due_within_def

lemma good_PACING: "good_options PACING" by (simp add: good_options_def PACING_def)

lemma interval_nonneg: "good_options opt \<Longrightarrow> 0 \<le> interval opt p"
  by (simp add: interval_def good_options_def max.coboundedI1)

lemma respread_entry:
  assumes "e \<in> set (rp_q (respread opt now p))"
  obtains e' i where "e' \<in> set (rp_q p)" "i < length (rp_q p)"
    "e = e'\<lparr>en_due := now + po_drainMs opt / of_nat (length (rp_q p)) * of_nat i\<rparr>"
proof -
  from assms obtain e' i where "(e', i) \<in> set (zip (rp_q p) [0..<length (rp_q p)])"
    "e = e'\<lparr>en_due := now + po_drainMs opt / of_nat (length (rp_q p)) * of_nat i\<rparr>" by (auto simp: respread_def)
  moreover from this(1) have "e' \<in> set (rp_q p)" "i < length (rp_q p)" by (auto dest: set_zip_leftD set_zip_rightD)
  ultimately show thesis using that by blast
qed

lemma respread_within:
  assumes "good_options opt"
  shows "due_within opt now (respread opt now p)"
  unfolding due_within_def
proof
  fix e assume "e \<in> set (rp_q (respread opt now p))"
  then obtain i where i: "i < length (rp_q p)" and due: "en_due e = now + po_drainMs opt / of_nat (length (rp_q p)) * of_nat i"
    by (rule respread_entry) simp
  have "po_drainMs opt / of_nat (length (rp_q p)) * of_nat i \<le> po_drainMs opt / of_nat (length (rp_q p)) * of_nat (length (rp_q p))"
    using i assms by (intro mult_left_mono) (auto simp: good_options_def)
  also have "\<dots> = po_drainMs opt" using i by auto
  finally show "en_due e \<le> now + po_maxBacklogMs opt" using assms due by (simp add: good_options_def)
qed

lemma respread_places: "places_ok p \<Longrightarrow> places_ok (respread opt now p)"
  by (auto simp: places_ok_def split: option.splits elim!: respread_entry)

lemma length_respread [simp]: "length (rp_q (respread opt now p)) = length (rp_q p)"
  by (simp add: respread_def)

lemma close_up_entry:
  assumes "e \<in> set (close_up a base step es)"
  obtains "e \<in> set es" | e' where "e' \<in> set es" "en_arrival e' = a" "en_arrival e = a" "en_idx e = en_idx e'"
    "en_due e = base + step * of_nat (en_idx e)"
proof -
  have "e \<in> set es \<or> (\<exists>e'\<in>set es. en_arrival e' = a \<and> en_arrival e = a \<and> en_idx e = en_idx e' \<and> en_due e = base + step * of_nat (en_idx e))"
    using assms by (induction es) (auto split: if_splits)
  then show thesis using that by blast
qed

lemma close_up_append: "(\<forall>e\<in>set new. en_arrival e = a) \<Longrightarrow>
  close_up a base step (new @ es) = map (\<lambda>e. e\<lparr>en_due := base + step * of_nat (en_idx e)\<rparr>) new @ close_up a base step es"
  by (induction new) simp_all

text \<open>A row of the queue after a push waited before, or is a row of the arrival, due at its place.\<close>

lemma enqueue_entry:
  assumes "e \<in> set (enqueue opt a items p)" "places_ok (p\<lparr>rp_arrival := Some a\<rparr>)"
  shows "en_arrival e \<le> ar_id a" "en_arrival e = ar_id a \<Longrightarrow> en_idx e < ar_count a + length items"
    "e \<in> set (rp_q p) \<or> en_idx e < ar_count a + length items \<and>
       en_due e = ar_base a + interval opt p / of_nat (ar_count a + length items) * of_nat (en_idx e)"
proof -
  let ?new = "map2 (\<lambda>item i. \<lparr>en_item = item, en_due = 0, en_arrival = ar_id a, en_idx = i\<rparr>) items [ar_count a..<ar_count a + length items]"
  let ?step = "interval opt p / of_nat (ar_count a + length items)"
  have new: "\<forall>e\<in>set (rev ?new). en_arrival e = ar_id a \<and> en_idx e < ar_count a + length items"
    by (auto dest: set_zip_rightD)
  have "e \<in> set (map (\<lambda>e. e\<lparr>en_due := ar_base a + ?step * of_nat (en_idx e)\<rparr>) (rev ?new)) \<or> e \<in> set (close_up (ar_id a) (ar_base a) ?step (rev (rp_q p)))"
    using assms(1) new by (auto simp: enqueue_def Let_def close_up_append)
  then have *: "en_arrival e \<le> ar_id a \<and> (en_arrival e = ar_id a \<longrightarrow> en_idx e < ar_count a + length items) \<and>
      (e \<in> set (rp_q p) \<or> en_idx e < ar_count a + length items \<and> en_due e = ar_base a + ?step * of_nat (en_idx e))"
  proof
    assume "e \<in> set (map (\<lambda>e. e\<lparr>en_due := ar_base a + ?step * of_nat (en_idx e)\<rparr>) (rev ?new))"
    then show ?thesis using new by auto
  next
    assume "e \<in> set (close_up (ar_id a) (ar_base a) ?step (rev (rp_q p)))"
    then show ?thesis using assms(2) by (elim close_up_entry) (auto simp: places_ok_def intro: trans_less_add1)
  qed
  then show "en_arrival e \<le> ar_id a" "en_arrival e = ar_id a \<Longrightarrow> en_idx e < ar_count a + length items"
    "e \<in> set (rp_q p) \<or> en_idx e < ar_count a + length items \<and> en_due e = ar_base a + ?step * of_nat (en_idx e)" by blast+
qed

lemma enqueue_last:
  assumes "items \<noteq> []"
  shows "enqueue opt a items p \<noteq> []"
    "en_due (last (enqueue opt a items p)) = ar_base a + interval opt p / of_nat (ar_count a + length items) * of_nat (ar_count a + length items - 1)"
proof -
  obtain xs x where items: "items = xs @ [x]" using assms by (cases items rule: rev_cases) auto
  show "enqueue opt a items p \<noteq> []"
    using length_enqueue [of opt a items p] assms by (cases "enqueue opt a items p") auto
  show "en_due (last (enqueue opt a items p)) = ar_base a + interval opt p / of_nat (ar_count a + length items) * of_nat (ar_count a + length items - 1)"
    by (simp add: enqueue_def Let_def items)
qed

lemma arrive_places: "arrive opt now p = (a, gaps) \<Longrightarrow> places_ok p \<Longrightarrow> places_ok (p\<lparr>rp_gaps := gaps, rp_arrival := Some a\<rparr>)"
  by (fastforce simp: arrive_def places_ok_def Let_def split: option.splits if_splits)

lemma push_paced:
  assumes opt: "good_options opt" and p: "paced opt t p" and now: "t \<le> now"
  shows "paced opt now (push opt items now p)"
proof (cases "arrive opt now p")
  case (Pair a gaps)
  define p0 where "p0 = p\<lparr>rp_gaps := gaps, rp_arrival := Some a\<rparr>"
  have p0: "places_ok p0" using arrive_places [OF Pair] p by (simp add: p0_def paced_def)
  show ?thesis
  proof (cases "items = []")
    case True
    then have "push opt items now p = p0" by (simp add: push_def Pair p0_def)
    then show ?thesis using p p0 now by (auto simp: paced_def due_within_def p0_def intro: order_trans)
  next
    case False
    define n where "n = ar_count a + length items"
    define q where "q = enqueue opt a items p0"
    define p1 where "p1 = p0\<lparr>rp_q := drop (length q - po_maxQueue opt) q, rp_arrival := Some (a\<lparr>ar_count := n\<rparr>),
      rp_skipped := rp_skipped p0 + (length q - po_maxQueue opt)\<rparr>"
    have push: "push opt items now p = (if \<not> rp_paused p1 \<and> po_maxBacklogMs opt < en_due (last (rp_q p1)) - now then respread opt now p1 else p1)"
      using False by (simp add: push_def Pair p1_def q_def p0_def n_def Let_def)
    have q: "\<And>e. e \<in> set q \<Longrightarrow> en_arrival e \<le> ar_id a" "\<And>e. e \<in> set q \<Longrightarrow> en_arrival e = ar_id a \<Longrightarrow> en_idx e < n"
      "\<And>e. e \<in> set q \<Longrightarrow> e \<in> set (rp_q p) \<or> en_idx e < n \<and> en_due e = ar_base a + interval opt p0 / of_nat n * of_nat (en_idx e)"
      using enqueue_entry [of _ opt a items p0] p0 by (auto simp: q_def n_def p0_def)
    have sub: "\<And>e. e \<in> set (rp_q p1) \<Longrightarrow> e \<in> set q" by (auto simp: p1_def dest: in_set_dropD)
    have places: "places_ok p1" using q sub by (auto simp: places_ok_def p1_def)
    have len: "length (rp_q p1) \<le> po_maxQueue opt" by (simp add: p1_def)
    have "q \<noteq> []" using enqueue_last [OF False] by (simp add: q_def)
    then have "last (rp_q p1) = last q" using opt by (simp add: p1_def good_options_def)
    then have last: "en_due (last (rp_q p1)) = ar_base a + interval opt p0 / of_nat n * of_nat (n - 1)"
      using enqueue_last [OF False] by (simp add: q_def n_def)
    have "due_within opt now p1" if "\<not> rp_paused p1" "\<not> po_maxBacklogMs opt < en_due (last (rp_q p1)) - now"
      unfolding due_within_def
    proof
      fix e assume "e \<in> set (rp_q p1)"
      then consider "e \<in> set (rp_q p)" | "en_idx e \<le> n - 1" "en_due e = ar_base a + interval opt p0 / of_nat n * of_nat (en_idx e)"
        using q(3) sub by fastforce
      then show "en_due e \<le> now + po_maxBacklogMs opt"
      proof cases
        case 1
        then show ?thesis using p that(1) now by (fastforce simp: paced_def due_within_def p1_def p0_def)
      next
        case 2
        have "interval opt p0 / of_nat n * of_nat (en_idx e) \<le> interval opt p0 / of_nat n * of_nat (n - 1)"
          using 2(1) interval_nonneg [OF opt, of p0] by (intro mult_left_mono) auto
        then show ?thesis using that(2) last 2(2) by simp
      qed
    qed
    then show ?thesis using places len push respread_within [OF opt] respread_places [OF places]
      by (auto simp: paced_def)
  qed
qed

lemma take_due_paced: "paced opt t p \<Longrightarrow> t \<le> now \<Longrightarrow> paced opt now (snd (take_due now p))"
  by (fastforce simp: paced_defs take_due_def dest: set_dropWhileD intro: order_trans [OF length_dropWhile_le] split: option.splits)

lemma pause_paced: "paced opt t p \<Longrightarrow> paced opt now (pause p)"
  by (simp add: paced_defs pause_def)

lemma resume_paced: "good_options opt \<Longrightarrow> paced opt t p \<Longrightarrow> t \<le> now \<Longrightarrow> paced opt now (resume opt now p)"
  using respread_within [of opt now "p\<lparr>rp_paused := False, rp_skipped := 0\<rparr>"] respread_places [of "p\<lparr>rp_paused := False, rp_skipped := 0\<rparr>" opt now]
  by (auto simp: paced_def resume_def Let_def due_within_def places_ok_def intro: order_trans)

lemma clear_paced: "paced opt now (clear p)" by (simp add: paced_defs clear_def)

lemma new_paced: "paced opt now new_row_pacer" by (simp add: paced_defs new_row_pacer_def)

text \<open>A running tape is empty once the limit has passed.\<close>

lemma drained:
  assumes "paced opt t p" "\<not> rp_paused p" "t + po_maxBacklogMs opt \<le> now"
  shows "fst (take_due now p) = queued p" "queued (snd (take_due now p)) = []"
proof -
  have "\<forall>e\<in>set (rp_q p). en_due e \<le> now" using assms by (fastforce simp: paced_def due_within_def)
  then show "fst (take_due now p) = queued p" "queued (snd (take_due now p)) = []"
    using assms(2) by (simp_all add: take_due_def queued_def takeWhile_eq_all_conv [THEN iffD2] dropWhile_eq_Nil_conv [THEN iffD2])
qed

subsection \<open>The tape of a page\<close>

text \<open>
  The hub hands out blocks in order, each with its movements in log order (\<open>Tailer\<close>). A run of a page:
  \<open>blocks\<close> are those of the hello the tape was last filled from and the newer ones since; the second
  argument is the time of the last event.
\<close>

definition in_log_order :: "block_msg \<Rightarrow> bool" where
  "in_log_order b \<longleftrightarrow> sorted_wrt (<) (map mv_li (bm_moves b))"

definition blocks_in_order :: "block_msg list \<Rightarrow> bool" where
  "blocks_in_order blocks \<longleftrightarrow> sorted_wrt (<) (map bm_n blocks) \<and> list_all in_log_order blocks"

inductive home_run :: "block_msg list \<Rightarrow> rat \<Rightarrow> home \<Rightarrow> bool" where
  run_open: "blocks_in_order blocks \<Longrightarrow> home_run blocks now (open_home blocks st)"
| run_hello: "home_run blocks t h \<Longrightarrow> blocks_in_order blocks' \<Longrightarrow> hp_replace (helloPlan blocks' (rp_paused (hm_pacer h)))
    \<Longrightarrow> home_run blocks' t (on_hello blocks' st h)"
| run_block: "home_run blocks t h \<Longrightarrow> t \<le> now \<Longrightarrow> in_log_order b \<Longrightarrow> \<forall>c\<in>set blocks. bm_n c < bm_n b
    \<Longrightarrow> home_run (blocks @ [b]) now (on_block b now h)"
| run_known: "home_run blocks t h \<Longrightarrow> t \<le> now \<Longrightarrow> c \<in> set blocks \<Longrightarrow> bm_n b \<le> bm_n c
    \<Longrightarrow> home_run blocks now (on_block b now h)"
| run_tick: "home_run blocks t h \<Longrightarrow> t \<le> now \<Longrightarrow> home_run blocks now (tick now h)"
| run_hold: "home_run blocks t h \<Longrightarrow> t \<le> now \<Longrightarrow> home_run blocks now (holdTape why on now h)"

definition unfresh :: "tape_row \<Rightarrow> tape_row" where
  "unfresh r = r\<lparr>tr_fresh := False\<rparr>"

text \<open>What the page has: the rows that wait, newest first, then the rows on screen.\<close>

definition tape :: "home \<Rightarrow> tape_row list" where
  "tape h = map unfresh (rev (queued (hm_pacer h)) @ hm_rows h)"

definition all_rows :: "block_msg list \<Rightarrow> tape_row list" where
  "all_rows blocks = rev (concat (map (\<lambda>b. tape_rows_of b False) blocks))"

definition tape_inv :: "block_msg list \<Rightarrow> rat \<Rightarrow> home \<Rightarrow> bool" where
  "tape_inv blocks t h \<longleftrightarrow> blocks_in_order blocks \<and> map_option fst (hm_newest h) = map_option fst (newest_of blocks) \<and>
     subseq (tape h) (all_rows blocks) \<and> take TAPE_ROWS (tape h) = take TAPE_ROWS (all_rows blocks) \<and>
     length (hm_rows h) \<le> TAPE_ROWS \<and> (rp_paused (hm_pacer h) \<longleftrightarrow> hm_hover h \<or> hm_focus h) \<and> paced PACING t (hm_pacer h)"

lemma unfresh_simps [simp]: "unfresh (row_of b f m) = row_of b False m" "tr_n (unfresh r) = tr_n r" "mv_li (unfresh r) = mv_li r"
  by (simp_all add: unfresh_def row_of_def)

lemma unfresh_rows [simp]: "map unfresh (tape_rows_of b f) = tape_rows_of b False"
  by (simp add: tape_rows_of_def)

lemma all_rows_snoc [simp]: "all_rows (blocks @ [b]) = rev (tape_rows_of b False) @ all_rows blocks"
  by (simp add: all_rows_def)

lemma unfresh_all_rows [simp]: "map unfresh (all_rows blocks) = all_rows blocks"
  by (simp add: all_rows_def rev_map [symmetric] map_concat o_def)

lemma newestFirst_all: "newestFirst blocks = take TAPE_ROWS (all_rows blocks)"
  by (simp add: newestFirst_def all_rows_def)

lemma unfresh_newestFirst [simp]: "map unfresh (newestFirst blocks) = newestFirst blocks"
  by (simp add: newestFirst_all flip: take_map)

lemma take_append_cong: "take n ys = take n zs \<Longrightarrow> take n (xs @ ys) = take n (xs @ zs)"
  by (simp add: take_append) (metis diff_le_self min.absorb_iff2 min.commute take_take)

lemma fresh_tape_inv:
  assumes "blocks_in_order blocks" "hm_rows h = newestFirst blocks" "queued (hm_pacer h) = []" "hm_newest h = newest_of blocks"
    "rp_paused (hm_pacer h) \<longleftrightarrow> hm_hover h \<or> hm_focus h" "paced PACING t (hm_pacer h)"
  shows "tape_inv blocks t h"
  using assms by (auto simp: tape_inv_def tape_def newestFirst_all take_map [symmetric] take_is_prefix prefix_imp_subseq)

lemma newest_known: "blocks_in_order blocks \<Longrightarrow> c \<in> set blocks \<Longrightarrow> \<exists>n t. newest_of blocks = Some (n, t) \<and> bm_n c \<le> n"
proof -
  assume blocks: "blocks_in_order blocks" "c \<in> set blocks"
  then obtain bs b where "blocks = bs @ [b]" by (metis empty_iff empty_set rev_exhaust)
  then show ?thesis using blocks by (auto simp: newest_of_def blocks_in_order_def sorted_wrt_append)
qed

lemma block_skipped:
  assumes "tape_inv blocks t h"
  shows "(case hm_newest h of Some (n, _) \<Rightarrow> bm_n b \<le> n | None \<Rightarrow> False) \<longleftrightarrow> (\<exists>c\<in>set blocks. bm_n b \<le> bm_n c)"
proof (cases "blocks = []")
  case True
  then show ?thesis using assms by (auto simp: tape_inv_def newest_of_def)
next
  case False
  have "blocks_in_order blocks" and newest: "map_option fst (hm_newest h) = Some (bm_n (last blocks))"
    using assms False by (simp_all add: tape_inv_def newest_of_def)
  then have "\<forall>c\<in>set blocks. bm_n c \<le> bm_n (last blocks)"
    using newest_known by (fastforce simp: newest_of_def False)
  then show ?thesis using newest False by (auto split: option.splits intro: bexI [of _ "last blocks"] order_trans)
qed

text \<open>A push over the bound drops rows that no tape would show any more.\<close>

lemma subseq_rev_drop: "subseq (rev (drop k xs) @ zs) (rev xs @ zs)"
proof (rule list_emb_append_mono)
  show "subseq (rev (drop k xs)) (rev xs)" by (simp add: rev_drop take_is_prefix prefix_imp_subseq)
qed simp

lemma push_tape:
  assumes "tape_inv blocks t h" "t \<le> now" "in_log_order b" "\<forall>c\<in>set blocks. bm_n c < bm_n b"
  shows "tape_inv (blocks @ [b]) now (on_block b now h)"
proof -
  define q where "q = queued (hm_pacer h)"
  define items where "items = tape_rows_of b True"
  define l where "l = q @ items"
  define k where "k = (if items = [] then 0 else length l - po_maxQueue PACING)"
  have inv: "blocks_in_order blocks" "subseq (tape h) (all_rows blocks)" "take TAPE_ROWS (tape h) = take TAPE_ROWS (all_rows blocks)"
    "paced PACING t (hm_pacer h)" using assms(1) by (simp_all add: tape_inv_def)
  have h': "on_block b now h = h\<lparr>hm_newest := Some (bm_n b, bm_t b), hm_pacer := push PACING items now (hm_pacer h)\<rparr>"
    using block_skipped [OF assms(1), of b] assms(4) by (fastforce simp: on_block_def items_def)
  have queue: "queued (push PACING items now (hm_pacer h)) = drop k l"
    by (simp add: push_queued q_def k_def l_def)
  have whole: "map unfresh (rev l @ hm_rows h) = rev (tape_rows_of b False) @ tape h"
    by (simp add: tape_def l_def q_def items_def flip: rev_map)
  have "subseq (rev (drop k l) @ hm_rows h) (rev l @ hm_rows h)" by (rule subseq_rev_drop)
  from subseq_map [OF this, of unfresh]
  have "subseq (tape (on_block b now h)) (map unfresh (rev l @ hm_rows h))" by (simp add: tape_def h' queue)
  then have sub: "subseq (tape (on_block b now h)) (all_rows (blocks @ [b]))"
    using inv(2) unfolding whole all_rows_snoc by (metis list_emb_append_mono subseq_order.order_trans subseq_order.refl)
  have "take TAPE_ROWS (rev (drop k l) @ hm_rows h) = take TAPE_ROWS (rev l @ hm_rows h)"
  proof (cases "k = 0")
    case False
    then have "TAPE_ROWS \<le> length l - k" by (auto simp: k_def PACING_def TAPE_ROWS_def split: if_splits)
    then show ?thesis by (simp add: rev_drop min_absorb1)
  qed simp
  then have "take TAPE_ROWS (tape (on_block b now h)) = take TAPE_ROWS (rev (tape_rows_of b False) @ tape h)"
    unfolding whole [symmetric] by (simp add: tape_def h' queue take_map del: map_append)
  then have "take TAPE_ROWS (tape (on_block b now h)) = take TAPE_ROWS (all_rows (blocks @ [b]))"
    using take_append_cong [OF inv(3)] by simp
  moreover have "blocks_in_order (blocks @ [b])" using inv(1) assms(3,4) by (simp add: blocks_in_order_def sorted_wrt_append)
  moreover have "paced PACING now (push PACING items now (hm_pacer h))" by (rule push_paced [OF good_PACING inv(4) assms(2)])
  ultimately show ?thesis using sub assms(1) by (simp add: tape_inv_def h' newest_of_def)
qed

lemma tick_tape_inv:
  assumes "tape_inv blocks t h" "t \<le> now"
  shows "tape_inv blocks now (tick now h)"
proof -
  obtain due p where take_eq: "take_due now (hm_pacer h) = (due, p)" by force
  have queue: "queued (hm_pacer h) = due @ queued p" and paused: "rp_paused p = rp_paused (hm_pacer h)"
    using take_due_queued [of "hm_pacer h" now] take_due_paused [of now "hm_pacer h"] by (simp_all add: take_eq)
  have rows: "hm_rows (tick now h) = take TAPE_ROWS (rev due @ hm_rows h)"
    using assms(1) by (simp add: tick_def take_eq tape_inv_def)
  have tape: "tape (tick now h) = map unfresh (rev (queued p) @ take TAPE_ROWS (rev due @ hm_rows h))"
    using rows by (simp add: tape_def tick_def take_eq)
  have whole: "tape h = map unfresh (rev (queued p) @ (rev due @ hm_rows h))" by (simp add: tape_def queue)
  have "prefix (rev (queued p) @ take TAPE_ROWS (rev due @ hm_rows h)) (rev (queued p) @ (rev due @ hm_rows h))"
    unfolding same_prefix_prefix by (rule take_is_prefix)
  then have "subseq (tape (tick now h)) (tape h)"
    unfolding tape whole by (intro prefix_imp_subseq map_mono_prefix)
  moreover have "take TAPE_ROWS (rev (queued p) @ take TAPE_ROWS (rev due @ hm_rows h)) = take TAPE_ROWS (rev (queued p) @ (rev due @ hm_rows h))"
    by (rule take_append_cong) (simp only: take_take min.idem)
  then have "take TAPE_ROWS (tape (tick now h)) = take TAPE_ROWS (tape h)"
    unfolding tape whole take_map by (rule arg_cong)
  moreover have "paced PACING now p" using take_due_paced [of PACING t "hm_pacer h" now] assms take_eq by (simp add: tape_inv_def)
  moreover have "hm_newest (tick now h) = hm_newest h" "hm_pacer (tick now h) = p" "hm_hover (tick now h) = hm_hover h"
    "hm_focus (tick now h) = hm_focus h" "length (hm_rows (tick now h)) \<le> TAPE_ROWS"
    using rows by (simp_all add: tick_def take_eq)
  moreover have "subseq (tape h) (all_rows blocks)" using assms(1) by (simp add: tape_inv_def)
  ultimately show ?thesis using assms(1) paused subseq_order.order_trans unfolding tape_inv_def by metis
qed

lemma hold_tape_inv:
  assumes "tape_inv blocks t h" "t \<le> now"
  shows "tape_inv blocks now (holdTape why on now h)"
proof -
  have "paced PACING now (pause (hm_pacer h))" "paced PACING now (resume PACING now (hm_pacer h))"
    using pause_paced [of PACING t "hm_pacer h"] resume_paced [OF good_PACING, of t "hm_pacer h" now] assms by (simp_all add: tape_inv_def)
  moreover have "rp_paused (pause p)" "\<not> rp_paused (resume PACING now p)" for p :: "tape_row row_pacer"
    by (simp_all add: pause_def resume_def Let_def)
  moreover have "queued (hm_pacer (holdTape why on now h)) = queued (hm_pacer h)" "hm_rows (holdTape why on now h) = hm_rows h"
    "hm_newest (holdTape why on now h) = hm_newest h"
    by (simp_all add: holdTape_def Let_def split: hold.splits)
  moreover have "hm_pacer (holdTape why on now h) = (if hm_hover (holdTape why on now h) \<or> hm_focus (holdTape why on now h)
      then pause (hm_pacer h) else resume PACING now (hm_pacer h))"
    by (simp add: holdTape_def Let_def split: hold.splits)
  ultimately show ?thesis using assms(1) by (simp add: tape_inv_def tape_def)
qed

lemma home_run_inv: "home_run blocks t h \<Longrightarrow> tape_inv blocks t h"
proof (induction rule: home_run.induct)
  case (run_open blocks now st)
  then show ?case
    by (intro fresh_tape_inv) (simp_all add: open_home_def queued_def new_row_pacer_def paced_defs)
next
  case (run_hello blocks t h blocks' st)
  then have "rp_paused (hm_pacer h) = (hm_hover h \<or> hm_focus h)" by (simp add: tape_inv_def)
  then show ?case using run_hello
    by (intro fresh_tape_inv) (simp_all add: on_hello_def Let_def helloPlan_def clear_paced, simp_all add: clear_def)
next
  case (run_block blocks t h now b)
  then show ?case by (intro push_tape)
next
  case (run_known blocks t h now c b)
  then have "on_block b now h = h" using block_skipped [of blocks t h b] by (auto simp: on_block_def)
  moreover have "paced PACING now (hm_pacer h)"
    using run_known by (fastforce simp: tape_inv_def paced_def due_within_def)
  ultimately show ?case using run_known by (simp add: tape_inv_def)
qed (simp_all add: tick_tape_inv hold_tape_inv)

lemma all_rows_sorted:
  assumes "blocks_in_order blocks"
  shows "sorted_wrt (\<lambda>r s. tr_n s < tr_n r \<or> tr_n s = tr_n r \<and> mv_li s < mv_li r) (all_rows blocks)"
  using assms
proof (induction blocks rule: rev_induct)
  case (snoc b blocks)
  then have blocks: "blocks_in_order blocks" "in_log_order b" "\<forall>c\<in>set blocks. bm_n c < bm_n b"
    by (auto simp: blocks_in_order_def sorted_wrt_append)
  have "sorted_wrt (\<lambda>r s. tr_n s < tr_n r \<or> tr_n s = tr_n r \<and> mv_li s < mv_li r) (rev (tape_rows_of b False))"
    using blocks(2) by (simp add: sorted_wrt_rev tape_rows_of_def sorted_wrt_map row_of_def in_log_order_def)
  then show ?case using snoc.IH [OF blocks(1)] blocks(3)
    by (auto simp: sorted_wrt_append all_rows_def tape_rows_of_def row_of_def)
qed (simp add: all_rows_def)

lemma distinct_keys: "sorted_wrt (\<lambda>x y. f x \<noteq> f y) xs \<Longrightarrow> distinct (map f xs)"
  by (induction xs) auto

lemma sorted_wrt_subseq: "subseq xs ys \<Longrightarrow> sorted_wrt P ys \<Longrightarrow> sorted_wrt P xs"
  by (induction rule: list_emb.induct) (auto dest: list_emb_set)

lemma row_key_inj: "row_key r = row_key s \<Longrightarrow> tr_n r = tr_n s \<and> mv_li r = mv_li s"
proof -
  assume eq: "row_key r = row_key s"
  have "c \<noteq> CHR '':''" if "c \<in> set (show_nat n)" for c n using show_nat_digits [OF that] by (auto simp: is_digit_def)
  then have colon: "c \<noteq> CHR '':''" if "c \<in> set (show_int i)" for c i
    using that by (auto simp: show_int_def split: if_splits)
  have tw: "takeWhile (\<lambda>c. c \<noteq> CHR '':'') (row_key r) = show_int (tr_n r)"
      "dropWhile (\<lambda>c. c \<noteq> CHR '':'') (row_key r) = '':'' @ show_nat (mv_li r)" for r
    using colon by (simp_all add: row_key_def takeWhile_append dropWhile_append3)
  have "CHR ''-'' \<notin> set (show_nat n)" for n using show_nat_digits [of "CHR ''-''" n] by (auto simp: is_digit_def)
  then have "show_nat n \<noteq> CHR ''-'' # xs" "CHR ''-'' # xs \<noteq> show_nat n" for n xs by (metis list.set_intros(1))+
  then have "show_int i = show_int j \<Longrightarrow> i = j" for i j by (auto simp: show_int_def split: if_splits)
  then show ?thesis using tw [of r] tw [of s] by (simp add: eq)
qed

text \<open>
  Whatever blocks arrive when, and however the reader holds the tape, the rows on screen are at most 32
  movements, newest first, each once, and the rows that wait are newer than they are; at most 128 wait.
\<close>

theorem tape_newest_first:
  assumes "home_run blocks t h"
  shows "sorted_wrt (\<lambda>r s. tr_n s < tr_n r \<or> tr_n s = tr_n r \<and> mv_li s < mv_li r) (rev (queued (hm_pacer h)) @ hm_rows h) \<and>
    distinct (map row_key (hm_rows h)) \<and> length (hm_rows h) \<le> 32 \<and> length (queued (hm_pacer h)) \<le> 128"
proof -
  have inv: "tape_inv blocks t h" using home_run_inv assms by blast
  then have "sorted_wrt (\<lambda>r s. tr_n s < tr_n r \<or> tr_n s = tr_n r \<and> mv_li s < mv_li r) (tape h)"
    using sorted_wrt_subseq all_rows_sorted by (auto simp: tape_inv_def)
  then have sorted: "sorted_wrt (\<lambda>r s. tr_n s < tr_n r \<or> tr_n s = tr_n r \<and> mv_li s < mv_li r) (rev (queued (hm_pacer h)) @ hm_rows h)"
    unfolding tape_def sorted_wrt_map by simp
  then have "sorted_wrt (\<lambda>r s. tr_n s < tr_n r \<or> tr_n s = tr_n r \<and> mv_li s < mv_li r) (hm_rows h)"
    by (simp add: sorted_wrt_append)
  then have "sorted_wrt (\<lambda>r s. row_key r \<noteq> row_key s) (hm_rows h)"
    by (rule sorted_wrt_mono_rel [rotated]) (auto dest: row_key_inj)
  then have "distinct (map row_key (hm_rows h))" by (rule distinct_keys)
  then show ?thesis using sorted inv by (simp add: tape_inv_def paced_def TAPE_ROWS_def PACING_def length_queued)
qed


subsection \<open>Runs\<close>

definition sample_block :: "int \<Rightarrow> nat list \<Rightarrow> block_msg" where
  "sample_block n lis = \<lparr>bm_n = n, bm_t = n, bm_moves = map (\<lambda>li. \<lparr>mv_tx = ''0x'', mv_li = li, mv_from = ''a'', mv_to = ''b'',
     mv_fromName = None, mv_toName = None, mv_value = ''1'', mv_lane = None\<rparr>) lis\<rparr>"

definition sample_home :: home where
  "sample_home = on_block (sample_block 8 [1, 4]) 10 (open_home [sample_block 7 [2]] None)"

lemma sample_home_run: "home_run [sample_block 7 [2], sample_block 8 [1, 4]] 10 sample_home"
proof -
  have "home_run [sample_block 7 [2]] 0 (open_home [sample_block 7 [2]] None)"
    by (rule run_open) (simp add: blocks_in_order_def in_log_order_def sample_block_def)
  from run_block [OF this, of 10 "sample_block 8 [1, 4]"] show ?thesis
    by (simp add: sample_home_def in_log_order_def sample_block_def)
qed

theorem tape_newest_first_witness: "distinct (map row_key (hm_rows sample_home)) \<and> length (hm_rows sample_home) \<le> 32"
  using tape_newest_first [OF sample_home_run] by simp


text \<open>
  A held page keeps its rows over a hello, but the hello's newest block replaces its own. When the
  server it reconnects to is a block behind, that block arrives again and is shown twice.
\<close>

definition held_page :: home where
  "held_page =
     (let h = open_home [sample_block 7 [2], sample_block 8 [1]] None;
          h = holdTape Hover True 0 h;
          h = on_hello [sample_block 7 [2]] None h;
          h = on_block (sample_block 8 [1]) 10 h
      in holdTape Hover False 20 h)"

theorem held_page_repeats: "map row_key (hm_rows (tick 3020 held_page)) = [''8:1'', ''8:1'', ''7:2'']"
  by code_simp

end
