(* ===== verification/Client.thy ===== *)
theory Client
  imports Hub
begin

text \<open>
  \<open>explorer/lib/stream-client.ts\<close>: how a page keeps its event stream open. The browser's \<open>EventSource\<close>
  retries a dropped connection on its own; the page makes a new one when the browser gives up or
  when nothing has arrived for the watchdog's time. The theorem says that a page never gives up,
  never holds two streams, and waits within bounds; a page that is left holds nothing.
\<close>

subsection \<open>State\<close>

text \<open>
  \<open>readyState\<close> of an \<open>EventSource\<close>. \<open>ct_ready\<close> and \<open>ct_urls\<close> are the ones made so far; the pending
  timers are the delay of the retry and whether the watchdog is armed; \<open>ct_told\<close> is what the page was
  told last of the connection.
\<close>

datatype ready = Connecting | Open | Closed

record client =
  ct_source :: "nat option"
  ct_last :: "string option"
  ct_attempt :: nat
  ct_stopped :: bool
  ct_retry :: "int option"
  ct_dog :: bool
  ct_ready :: "ready list"
  ct_urls :: "string list"
  ct_told :: "bool option"

definition new_client :: client where
  "new_client = \<lparr>ct_source = None, ct_last = None, ct_attempt = 0, ct_stopped = False, ct_retry = None, ct_dog = False,
     ct_ready = [], ct_urls = [], ct_told = None\<rparr>"

subsection \<open>Operations\<close>

definition client_schedule :: "rat \<Rightarrow> client \<Rightarrow> client" where
  "client_schedule random c =
     (if ct_stopped c then c
      else c\<lparr>ct_retry := Some (backoffMs (ct_attempt c) random), ct_attempt := ct_attempt c + 1\<rparr>)"

definition arm :: "client \<Rightarrow> client" where
  "arm c = c\<lparr>ct_dog := True\<rparr>"

definition close_source :: "client \<Rightarrow> client" where
  "close_source c = (case ct_source c of Some s \<Rightarrow> c\<lparr>ct_ready := (ct_ready c)[s := Closed]\<rparr> | None \<Rightarrow> c)"

definition dog_fires :: "rat \<Rightarrow> client \<Rightarrow> client" where
  "dog_fires random c = client_schedule random ((close_source c)\<lparr>ct_dog := False, ct_source := None, ct_told := Some False\<rparr>)"

definition client_connect :: "(string \<Rightarrow> string) \<Rightarrow> string \<Rightarrow> client \<Rightarrow> client" where
  "client_connect encode url c =
     (if ct_stopped c then c
      else c\<lparr>ct_source := Some (length (ct_ready c)), ct_ready := ct_ready c @ [Connecting],
             ct_urls := ct_urls c @ [case ct_last c of None \<Rightarrow> url | Some l \<Rightarrow> url @ ''?last='' @ encode l]\<rparr>)"

definition onopen :: "client \<Rightarrow> client" where
  "onopen c = arm (c\<lparr>ct_attempt := 0, ct_told := Some True\<rparr>)"

definition onerror :: "rat \<Rightarrow> nat \<Rightarrow> client \<Rightarrow> client" where
  "onerror random s c =
     (let c = c\<lparr>ct_told := Some False\<rparr> in
      if ct_ready c ! s = Closed \<and> ct_source c = Some s then client_schedule random (c\<lparr>ct_dog := False, ct_source := None\<rparr>) else c)"

definition on_event :: "string \<Rightarrow> client \<Rightarrow> client" where
  "on_event lastEventId c = (let c = arm c in if lastEventId = [] then c else c\<lparr>ct_last := Some lastEventId\<rparr>)"

definition client_stop :: "client \<Rightarrow> client" where
  "client_stop c = (close_source (c\<lparr>ct_stopped := True, ct_retry := None, ct_dog := False\<rparr>))\<lparr>ct_source := None\<rparr>"

definition openStream :: "(string \<Rightarrow> string) \<Rightarrow> string \<Rightarrow> client" where
  "openStream encode url = client_connect encode url new_client"

subsection \<open>Runs\<close>

text \<open>
  What may happen: the browser opens a connection, drops it and tries again, or gives it up (it raises
  nothing for a closed one); an event arrives; a timer fires; the page is left. \<open>random\<close> is what
  \<open>Math.random\<close> answers.
\<close>

inductive client_step :: "(string \<Rightarrow> string) \<Rightarrow> string \<Rightarrow> client \<Rightarrow> client \<Rightarrow> bool" for encode url where
  step_opens: "s < length (ct_ready c) \<Longrightarrow> ct_ready c ! s = Connecting
    \<Longrightarrow> client_step encode url c (onopen (c\<lparr>ct_ready := (ct_ready c)[s := Open]\<rparr>))"
| step_drops: "s < length (ct_ready c) \<Longrightarrow> ct_ready c ! s \<noteq> Closed \<Longrightarrow> 0 \<le> random \<Longrightarrow> random < 1
    \<Longrightarrow> client_step encode url c (onerror random s (c\<lparr>ct_ready := (ct_ready c)[s := Connecting]\<rparr>))"
| step_gives_up: "s < length (ct_ready c) \<Longrightarrow> ct_ready c ! s \<noteq> Closed \<Longrightarrow> 0 \<le> random \<Longrightarrow> random < 1
    \<Longrightarrow> client_step encode url c (onerror random s (c\<lparr>ct_ready := (ct_ready c)[s := Closed]\<rparr>))"
| step_event: "s < length (ct_ready c) \<Longrightarrow> ct_ready c ! s = Open \<Longrightarrow> client_step encode url c (on_event lastEventId c)"
| step_dog: "ct_dog c \<Longrightarrow> 0 \<le> random \<Longrightarrow> random < 1 \<Longrightarrow> client_step encode url c (dog_fires random c)"
| step_retry: "ct_retry c = Some d \<Longrightarrow> client_step encode url c (client_connect encode url (c\<lparr>ct_retry := None\<rparr>))"
| step_stop: "client_step encode url c (client_stop c)"

definition client_reach :: "(string \<Rightarrow> string) \<Rightarrow> string \<Rightarrow> client \<Rightarrow> bool" where
  "client_reach encode url c \<longleftrightarrow> (client_step encode url)\<^sup>*\<^sup>* (openStream encode url) c"

text \<open>The streams that are not closed.\<close>

definition live_sources :: "client \<Rightarrow> nat set" where
  "live_sources c = {s. s < length (ct_ready c) \<and> ct_ready c ! s \<noteq> Closed}"

definition client_ok :: "client \<Rightarrow> bool" where
  "client_ok c \<longleftrightarrow>
     (case ct_source c of
        Some s \<Rightarrow> live_sources c = {s} \<and> ct_retry c = None \<and> \<not> ct_stopped c
      | None \<Rightarrow> live_sources c = {} \<and> \<not> ct_dog c \<and>
          (case ct_retry c of None \<Rightarrow> ct_stopped c | Some d \<Rightarrow> \<not> ct_stopped c \<and> 750 \<le> d \<and> d \<le> 37500))"

lemma live_update:
  "s < length (ct_ready c) \<Longrightarrow> live_sources (c\<lparr>ct_ready := (ct_ready c)[s := r]\<rparr>) =
     (if r = Closed then live_sources c - {s} else insert s (live_sources c))"
  by (auto simp: live_sources_def nth_list_update)

lemma live_simps [simp]: "live_sources (c\<lparr>ct_retry := r\<rparr>) = live_sources c" "live_sources (c\<lparr>ct_dog := d\<rparr>) = live_sources c"
  "live_sources (c\<lparr>ct_source := x\<rparr>) = live_sources c" "live_sources (c\<lparr>ct_told := t\<rparr>) = live_sources c"
  "live_sources (c\<lparr>ct_attempt := a\<rparr>) = live_sources c" "live_sources (c\<lparr>ct_last := l\<rparr>) = live_sources c"
  "live_sources (c\<lparr>ct_stopped := b\<rparr>) = live_sources c" "live_sources (c\<lparr>ct_urls := u\<rparr>) = live_sources c"
  by (simp_all add: live_sources_def)

text \<open>A stream that is not closed is the page's own.\<close>

lemma live_source:
  assumes "client_ok c" "s < length (ct_ready c)" "ct_ready c ! s \<noteq> Closed"
  shows "ct_source c = Some s" "live_sources c = {s}" "ct_retry c = None" "\<not> ct_stopped c"
proof -
  have "s \<in> live_sources c" using assms(2,3) by (simp add: live_sources_def)
  then show "ct_source c = Some s" "live_sources c = {s}" "ct_retry c = None" "\<not> ct_stopped c"
    using assms(1) by (auto simp: client_ok_def split: option.splits)
qed

lemma live_source_open:
  "client_ok c \<Longrightarrow> ct_source c = Some s \<Longrightarrow> s < length (ct_ready c) \<and> ct_ready c ! s \<noteq> Closed"
  by (auto simp: client_ok_def live_sources_def)

lemma scheduled_ok:
  assumes "0 \<le> random" "random < 1" "ct_source c = None" "live_sources c = {}" "\<not> ct_dog c" "\<not> ct_stopped c"
  shows "client_ok (client_schedule random c)"
  using backoffMs_bounds [OF assms(1,2)] assms(3-) by (simp add: client_ok_def client_schedule_def)

lemma client_step_ok:
  assumes "client_step encode url c c'" "client_ok c"
  shows "client_ok c'"
  using assms
proof (induction rule: client_step.induct)
  case (step_opens s c)
  then show ?case using live_source [OF step_opens(3,1)] by (simp add: client_ok_def onopen_def arm_def live_update)
next
  case (step_drops s c random)
  then show ?case using live_source [OF step_drops(5,1,2)] by (simp add: client_ok_def onerror_def live_update)
next
  case (step_gives_up s c random)
  note source = live_source [OF step_gives_up(5,1,2)]
  then have "onerror random s (c\<lparr>ct_ready := (ct_ready c)[s := Closed]\<rparr>) =
      client_schedule random (c\<lparr>ct_ready := (ct_ready c)[s := Closed], ct_told := Some False, ct_dog := False, ct_source := None\<rparr>)"
    using step_gives_up(1) by (simp add: onerror_def)
  moreover have "live_sources (c\<lparr>ct_ready := (ct_ready c)[s := Closed]\<rparr>) = {}"
    unfolding live_update [OF step_gives_up(1)] using source by simp
  ultimately show ?case using step_gives_up(3,4) source by (simp add: scheduled_ok)
next
  case (step_event s c lastEventId)
  then show ?case using live_source [OF step_event(3,1)] by (simp add: client_ok_def on_event_def arm_def Let_def)
next
  case (step_dog c random)
  then obtain s where s: "ct_source c = Some s" by (auto simp: client_ok_def split: option.splits)
  have s_open: "s < length (ct_ready c)" "ct_ready c ! s \<noteq> Closed" using live_source_open [OF step_dog(4) s] by simp_all
  note source = s_open live_source [OF step_dog(4) s_open]
  have "live_sources (close_source c) = {}"
    using source by (simp add: close_source_def s live_update)
  then show ?case using step_dog(2,3) source unfolding dog_fires_def
    by (intro scheduled_ok) (simp_all add: close_source_def s)
next
  case (step_retry c d)
  then have c: "live_sources c = {}" "\<not> ct_stopped c" by (auto simp: client_ok_def split: option.splits)
  have "live_sources (client_connect encode url (c\<lparr>ct_retry := None\<rparr>)) = {length (ct_ready c)}"
    using c by (auto simp: client_connect_def live_sources_def nth_append less_Suc_eq)
  then show ?case using c by (simp add: client_ok_def client_connect_def)
next
  case (step_stop c)
  have "live_sources (client_stop c) = {}"
  proof (cases "ct_source c")
    case None
    then show ?thesis using step_stop by (simp add: client_stop_def close_source_def client_ok_def)
  next
    case (Some s)
    then have "s < length (ct_ready c)" "live_sources c = {s}" using live_source_open [OF step_stop] live_source [OF step_stop] by blast+
    then show ?thesis using live_update [of s "c\<lparr>ct_stopped := True, ct_retry := None, ct_dog := False\<rparr>" Closed] Some
      by (simp add: client_stop_def close_source_def)
  qed
  then show ?case by (simp add: client_ok_def client_stop_def close_source_def split: option.splits)
qed

lemma client_reach_ok: "client_reach encode url c \<Longrightarrow> client_ok c"
  unfolding client_reach_def
proof (induction rule: rtranclp_induct)
  case base
  have "live_sources (openStream encode url) = {0}"
    by (auto simp: openStream_def client_connect_def new_client_def live_sources_def)
  then show ?case by (simp add: client_ok_def openStream_def client_connect_def new_client_def)
qed (rule client_step_ok)

text \<open>A page that was left makes no request any more.\<close>

lemma stopped_step:
  "client_step encode url c c' \<Longrightarrow> client_ok c \<Longrightarrow> ct_stopped c \<Longrightarrow> ct_stopped c' \<and> ct_urls c' = ct_urls c"
  by (induction rule: client_step.induct)
    (auto simp: client_connect_def onopen_def arm_def onerror_def Let_def client_schedule_def on_event_def dog_fires_def client_stop_def
      close_source_def split: option.splits)

lemma stopped_final:
  assumes "(client_step encode url)\<^sup>*\<^sup>* c c'" "client_ok c" "ct_stopped c"
  shows "client_ok c' \<and> ct_stopped c' \<and> ct_urls c' = ct_urls c"
  using assms
proof (induction rule: rtranclp_induct)
  case (step c' c'')
  then show ?case using client_step_ok stopped_step by metis
qed simp

text \<open>
  C20: As long as a page is open it has exactly one live stream, or none and a retry that fires
  within 0.75 to 37.5 s; a page that was left has neither, and makes no further request.
\<close>

theorem client_keeps_trying:
  assumes "client_reach encode url c"
  shows "if ct_stopped c then live_sources c = {} \<and> ct_retry c = None \<and> \<not> ct_dog c \<and>
           (\<forall>c'. (client_step encode url)\<^sup>*\<^sup>* c c' \<longrightarrow> ct_urls c' = ct_urls c)
         else (\<exists>s. live_sources c = {s} \<and> ct_retry c = None) \<or>
           (\<exists>d. live_sources c = {} \<and> \<not> ct_dog c \<and> ct_retry c = Some d \<and> 750 \<le> d \<and> d \<le> 37500)"
proof -
  have ok: "client_ok c" using client_reach_ok assms .
  show ?thesis
  proof (cases "ct_stopped c")
    case True
    have "\<forall>c'. (client_step encode url)\<^sup>*\<^sup>* c c' \<longrightarrow> ct_urls c' = ct_urls c"
      using stopped_final [OF _ ok True] by blast
    moreover have "live_sources c = {} \<and> ct_retry c = None \<and> \<not> ct_dog c"
      using ok True by (cases "ct_source c"; cases "ct_retry c") (simp_all add: client_ok_def)
    ultimately show ?thesis unfolding if_P [OF True] by blast
  next
    case False
    then show ?thesis using ok unfolding if_not_P [OF False]
      by (cases "ct_source c"; cases "ct_retry c") (simp_all add: client_ok_def)
  qed
qed

text \<open>A page whose stream the browser gave up on.\<close>

definition sample_client :: client where
  "sample_client = onerror 0 0 ((openStream id ''/s'')\<lparr>ct_ready := [Closed]\<rparr>)"

theorem client_keeps_trying_witness: "live_sources sample_client = {} \<and> ct_retry sample_client = Some 750"
proof -
  have ready: "ct_ready (openStream id ''/s'') = [Connecting]" by (simp add: openStream_def client_connect_def new_client_def)
  have "client_step id ''/s'' (openStream id ''/s'') sample_client"
    using step_gives_up [of 0 "openStream id ''/s''" 0 id "''/s''"] by (simp add: sample_client_def ready)
  then have reach: "client_reach id ''/s'' sample_client" by (simp add: client_reach_def r_into_rtranclp)
  have "\<not> ct_stopped sample_client" "ct_retry sample_client = Some 750" by code_simp+
  then show ?thesis using client_keeps_trying [OF reach] by auto
qed

end
