(* ===== verification/Address.thy ===== *)
theory Address
  imports Format "HOL-Library.Multiset" "HOL-Library.Product_Lexorder"
begin

text \<open>
  \<open>explorer/lib/address.ts\<close> and \<open>search.ts\<close>: an address page's history, read page by page from a keyset
  position, and the routes of the search box. The table's rows carry the joined addresses and lane.
\<close>

subsection \<open>Search\<close>

definition is_hex_lower :: "char \<Rightarrow> bool" where
  "is_hex_lower c \<longleftrightarrow> is_digit c \<or> (97 \<le> (of_char c :: nat) \<and> (of_char c :: nat) \<le> 102)"

definition parse_hex :: "nat \<Rightarrow> string \<Rightarrow> string option" where
  "parse_hex digits s =
     (let v = map to_lower (trim s)
      in if length v = 2 + digits \<and> startsWith ''0x'' v \<and> list_all is_hex_lower (drop 2 v) then Some v else None)"

definition parseTxHash :: "string \<Rightarrow> string option" where "parseTxHash = parse_hex 64"
definition parseAddress :: "string \<Rightarrow> string option" where "parseAddress = parse_hex 40"

datatype search_route = Href string | Hint

definition routeSearch :: "string \<Rightarrow> search_route" where
  "routeSearch s = (case parseTxHash s of Some tx \<Rightarrow> Href (''/tx/'' @ tx)
     | None \<Rightarrow> (case parseAddress s of Some a \<Rightarrow> Href (''/address/'' @ a) | None \<Rightarrow> Hint))"

subsection \<open>A page of the history\<close>

record movement =
  mm_block :: int
  mm_li :: nat
  mm_tx :: string
  mm_from :: nat
  mm_to :: nat
  mm_fromAddress :: string
  mm_toAddress :: string
  mm_value :: int
  mm_time :: int
  mm_lane :: "string option"

type_synonym position = "int \<times> nat"

definition MAX_BLOCK :: int where "MAX_BLOCK = 9223372036854775807"
definition MAX_LI :: nat where "MAX_LI = 2147483647"

text \<open>\<open>/^(\d{1,15})-(\d{1,9})$/\<close>; anything else is the first page.\<close>

definition parseBefore :: "string option \<Rightarrow> position option" where
  "parseBefore s =
     (let v = (case s of Some v \<Rightarrow> v | None \<Rightarrow> []);
          b = takeWhile is_digit v; l = drop 1 (dropWhile is_digit v)
      in if 1 \<le> length b \<and> length b \<le> 15 \<and> take 1 (dropWhile is_digit v) = ''-'' \<and> list_all is_digit l \<and> 1 \<le> length l \<and> length l \<le> 9
         then Some (int (read_nat b), read_nat l) else None)"

definition key_of :: "movement \<Rightarrow> position" where
  "key_of m = (mm_block m, mm_li m)"

definition newest_first :: "movement list \<Rightarrow> movement list" where
  "newest_first ms = rev (sort_key key_of ms)"

text \<open>One of the two index scans, and their \<open>UNION\<close>, which drops the row both find.\<close>

definition scan :: "(movement \<Rightarrow> nat) \<Rightarrow> nat \<Rightarrow> position \<Rightarrow> nat \<Rightarrow> movement list \<Rightarrow> movement list" where
  "scan col i before limit ms = take limit (newest_first (filter (\<lambda>m. col m = i \<and> key_of m < before) ms))"

definition latest :: "nat \<Rightarrow> position \<Rightarrow> nat \<Rightarrow> movement list \<Rightarrow> movement list" where
  "latest i before limit ms =
     take limit (newest_first (remdups (scan mm_from i before limit ms @ scan mm_to i before limit ms)))"

datatype direction = In | Out | Self

record history_row =
  hr_block :: int
  hr_li :: nat
  hr_tx :: string
  hr_time :: int
  hr_dir :: direction
  hr_counterparty :: string
  hr_value :: int
  hr_lane :: "string option"

record history_page =
  hp_rows :: "history_row list"
  hp_older :: "string option"

definition history_row_of :: "bool \<Rightarrow> nat \<Rightarrow> movement \<Rightarrow> history_row" where
  "history_row_of lanes i m =
     (let dir = (if mm_from m = mm_to m then Self else if mm_to m = i then In else Out)
      in \<lparr>hr_block = mm_block m, hr_li = mm_li m, hr_tx = mm_tx m, hr_time = mm_time m, hr_dir = dir,
          hr_counterparty = (if dir = In then mm_fromAddress m else mm_toAddress m), hr_value = mm_value m,
          hr_lane = (if lanes then mm_lane m else None)\<rparr>)"

definition history :: "bool \<Rightarrow> nat \<Rightarrow> position option \<Rightarrow> nat \<Rightarrow> movement list \<Rightarrow> history_page" where
  "history lanes i before n ms =
     (let found = latest i (case before of Some p \<Rightarrow> p | None \<Rightarrow> (MAX_BLOCK, MAX_LI)) (n + 1) ms;
          rows = map (history_row_of lanes i) (take n found)
      in \<lparr>hp_rows = rows,
          hp_older = (if length found > n \<and> rows \<noteq> []
                      then Some (show_int (hr_block (List.last rows)) @ ''-'' @ show_nat (hr_li (List.last rows))) else None)\<rparr>)"

text \<open>Following the page's link to the older ones, at most \<open>fuel\<close> times.\<close>

fun walk :: "nat \<Rightarrow> bool \<Rightarrow> nat \<Rightarrow> string option \<Rightarrow> nat \<Rightarrow> movement list \<Rightarrow> history_page list" where
  "walk 0 lanes i before n ms = []"
| "walk (Suc fuel) lanes i before n ms =
     (let p = history lanes i (parseBefore before) n ms
      in p # (case hp_older p of None \<Rightarrow> [] | Some s \<Rightarrow> walk fuel lanes i (Some s) n ms))"

subsection \<open>The two scans find the newest movements\<close>

definition of_address :: "nat \<Rightarrow> position \<Rightarrow> movement list \<Rightarrow> movement list" where
  "of_address i before ms = newest_first (filter (\<lambda>m. (mm_from m = i \<or> mm_to m = i) \<and> key_of m < before) ms)"

definition descending :: "movement list \<Rightarrow> bool" where
  "descending ms \<longleftrightarrow> sorted_wrt (\<lambda>a b. key_of b < key_of a) ms"

lemma newest_first_set [simp]: "set (newest_first ms) = set ms" by (simp add: newest_first_def)

lemma newest_first_descending:
  assumes "distinct (map key_of ms)"
  shows "descending (newest_first ms)"
proof -
  have "mset (map key_of (sort_key key_of ms)) = mset (map key_of ms)" by (metis mset_map mset_sort)
  then have "distinct (map key_of (sort_key key_of ms))" using assms by (metis mset_eq_imp_distinct_iff)
  then have "sorted_wrt (<) (map key_of (sort_key key_of ms))" by (simp add: strict_sorted_iff)
  then show ?thesis by (simp add: descending_def newest_first_def sorted_wrt_rev sorted_wrt_map)
qed

lemma descending_keys: "descending ms \<Longrightarrow> distinct (map key_of ms)"
proof -
  assume "descending ms"
  then have "sorted_wrt (<) (map key_of (rev ms))" by (simp add: descending_def sorted_wrt_map sorted_wrt_rev)
  then show ?thesis by (metis distinct_rev rev_map strict_sorted_iff)
qed

lemma descending_unique:
  assumes "descending xs" "descending ys" "set xs = set ys"
  shows "xs = ys"
  using assms
proof (induction xs arbitrary: ys)
  case (Cons x xs)
  then obtain y ys' where y: "ys = y # ys'" by (cases ys) auto
  have "x = y"
  proof (rule ccontr)
    assume ne: "x \<noteq> y"
    then have "key_of y < key_of x" "key_of x < key_of y" using Cons.prems y by (auto simp: descending_def)
    then show False by simp
  qed
  moreover have "x \<notin> set xs" "y \<notin> set ys'" using Cons.prems y by (auto simp: descending_def)
  ultimately have "set xs = set ys'" using Cons.prems(3) y by (simp add: insert_ident)
  then show ?case using Cons \<open>x = y\<close> y by (simp add: descending_def)
qed simp

lemma descending_filter: "descending ms \<Longrightarrow> descending (filter P ms)"
  by (simp add: descending_def sorted_wrt_filter)

text \<open>An element among the first \<open>k\<close> that satisfies \<open>P\<close> is among the first \<open>k\<close> that do.\<close>

lemma take_filter_mem: "x \<in> set (take k xs) \<Longrightarrow> P x \<Longrightarrow> x \<in> set (take k (filter P xs))"
proof (induction xs arbitrary: k)
  case (Cons y xs)
  obtain j where k: "k = Suc j" using Cons.prems by (cases k) auto
  have up: "x \<in> set (take k (filter P xs))" if "x \<in> set (take j (filter P xs))"
    using that k by (metis le_SucI order_refl set_take_subset_set_take subsetD)
  show ?case using Cons k up by auto
qed simp

lemma take_filter_all: "\<forall>x\<in>set (take k xs). P x \<Longrightarrow> take k (filter P xs) = take k xs"
  by (induction xs arbitrary: k) (auto simp: take_Cons split: nat.split)

lemma filter_newest_first:
  assumes "distinct (map key_of ms)"
  shows "newest_first (filter P ms) = filter P (newest_first ms)"
proof (rule descending_unique)
  show "descending (newest_first (filter P ms))" by (rule newest_first_descending) (rule distinct_map_filter [OF assms])
  show "descending (filter P (newest_first ms))" by (rule descending_filter [OF newest_first_descending [OF assms]])
qed simp

lemma latest_exact:
  assumes "distinct (map key_of ms)"
  shows "latest i before limit ms = take limit (of_address i before ms)"
proof -
  define us where "us = of_address i before ms"
  define F where "F = (\<lambda>m :: movement. mm_from m = i)"
  define T where "T = (\<lambda>m :: movement. mm_to m = i)"
  have us: "us = filter (\<lambda>m. (F m \<or> T m) \<and> key_of m < before) (newest_first ms)"
    by (simp add: us_def of_address_def filter_newest_first [OF assms] F_def T_def)
  have desc: "descending us" unfolding us by (rule descending_filter [OF newest_first_descending [OF assms]])
  have scans: "scan mm_from i before limit ms = take limit (filter F us)" "scan mm_to i before limit ms = take limit (filter T us)"
    unfolding us scan_def filter_newest_first [OF assms]
    by (simp_all add: F_def T_def) (intro arg_cong [where f = "take limit"] filter_cong refl; blast)+
  define both where "both = set (take limit (filter F us)) \<union> set (take limit (filter T us))"
  have sub: "both \<subseteq> set us" unfolding both_def using set_take_subset by fastforce
  have keys: "distinct (map key_of (remdups (take limit (filter F us) @ take limit (filter T us))))"
  proof -
    have "inj_on key_of (set us)" using descending_keys [OF desc] by (simp add: distinct_map)
    then have "inj_on key_of both" using sub by (rule inj_on_subset)
    then show ?thesis by (simp add: distinct_map both_def)
  qed
  have "newest_first (remdups (take limit (filter F us) @ take limit (filter T us))) = filter (\<lambda>m. m \<in> both) us"
  proof (rule descending_unique)
    show "descending (newest_first (remdups (take limit (filter F us) @ take limit (filter T us))))"
      by (rule newest_first_descending [OF keys])
    show "descending (filter (\<lambda>m. m \<in> both) us)" by (rule descending_filter [OF desc])
    show "set (newest_first (remdups (take limit (filter F us) @ take limit (filter T us)))) = set (filter (\<lambda>m. m \<in> both) us)"
      using sub by (auto simp: both_def)
  qed
  moreover have "\<forall>m\<in>set (take limit us). m \<in> both"
  proof
    fix m assume m: "m \<in> set (take limit us)"
    then have "m \<in> set us" by (rule in_set_takeD)
    then have "F m \<or> T m" by (auto simp: us)
    then show "m \<in> both" using take_filter_mem [OF m, of F] take_filter_mem [OF m, of T] by (auto simp: both_def)
  qed
  ultimately show ?thesis unfolding latest_def scans us_def [symmetric] using take_filter_all by metis
qed

subsection \<open>Walking the pages\<close>

lemma length_show_nat_pow: "n < 10 ^ d \<Longrightarrow> 0 < d \<Longrightarrow> 1 \<le> length (show_nat n) \<and> length (show_nat n) \<le> d"
  using length_show_nat_le [of n d] by (cases "show_nat n") auto

lemma parseBefore_link:
  assumes "0 \<le> b" "b < 10 ^ 15" "l < 10 ^ 9"
  shows "parseBefore (Some (show_int b @ ''-'' @ show_nat l)) = Some (b, l)"
proof -
  have b: "show_int b = show_nat (nat b)" using assms(1) by (simp add: show_int_def)
  have cut: "takeWhile is_digit (show_nat (nat b) @ ''-'' @ show_nat l) = show_nat (nat b)"
    "dropWhile is_digit (show_nat (nat b) @ ''-'' @ show_nat l) = ''-'' @ show_nat l"
    by (simp_all add: takeWhile_digits dropWhile_digits)
  have "nat b < 10 ^ 15" using assms by (metis nat_less_iff of_nat_numeral of_nat_power)
  then have len: "1 \<le> length (show_nat (nat b)) \<and> length (show_nat (nat b)) \<le> 15" "1 \<le> length (show_nat l) \<and> length (show_nat l) \<le> 9"
    using length_show_nat_pow [of "nat b" 15] length_show_nat_pow [of l 9] assms(3) by simp_all
  show ?thesis unfolding parseBefore_def b option.case Let_def cut using len assms(1) by simp
qed

lemma descending_cut:
  assumes "descending (xs @ m # ys)"
  shows "filter (\<lambda>x. key_of x < key_of m) (xs @ m # ys) = ys"
proof -
  have "filter (\<lambda>x. key_of x < key_of m) xs = []"
    using assms by (fastforce simp: descending_def sorted_wrt_append filter_empty_conv)
  moreover have "filter (\<lambda>x. key_of x < key_of m) ys = ys"
    using assms by (auto simp: descending_def sorted_wrt_append filter_id_conv)
  ultimately show ?thesis by simp
qed

lemma of_address_before:
  assumes "distinct (map key_of ms)" "of_address i q ms = xs @ m # ys" "key_of m \<le> q"
  shows "of_address i (key_of m) ms = ys"
proof -
  have desc: "descending (of_address i q ms)"
    unfolding of_address_def by (rule newest_first_descending) (rule distinct_map_filter [OF assms(1)])
  have "of_address i (key_of m) ms = filter (\<lambda>x. key_of x < key_of m) (of_address i q ms)"
    using assms(3) unfolding of_address_def filter_newest_first [OF assms(1)] filter_filter
    by (intro filter_cong refl) auto
  then show ?thesis using descending_cut desc unfolding assms(2) by simp
qed

definition readable :: "movement \<Rightarrow> bool" where
  "readable m \<longleftrightarrow> 0 \<le> mm_block m \<and> mm_block m < 10 ^ 15 \<and> mm_li m < 10 ^ 9"

lemma walk_rows:
  assumes keys: "distinct (map key_of ms)" and ok: "\<forall>m\<in>set ms. readable m" and n: "1 \<le> n"
    and q: "q = (case parseBefore before of Some p \<Rightarrow> p | None \<Rightarrow> (MAX_BLOCK, MAX_LI))"
    and fuel: "length (of_address i q ms) < fuel"
  shows "concat (map hp_rows (walk fuel lanes i before n ms)) = map (history_row_of lanes i) (of_address i q ms) \<and>
    length (walk fuel lanes i before n ms) \<le> Suc (length (of_address i q ms))"
  using q fuel
proof (induction fuel arbitrary: before q)
  case (Suc fuel)
  define rs where "rs = of_address i q ms"
  define p where "p = history lanes i (parseBefore before) n ms"
  have found: "latest i (case parseBefore before of Some p \<Rightarrow> p | None \<Rightarrow> (MAX_BLOCK, MAX_LI)) (n + 1) ms = take (n + 1) rs"
    unfolding Suc.prems(1) [symmetric] rs_def by (rule latest_exact [OF keys])
  have p: "hp_rows p = map (history_row_of lanes i) (take n rs)"
    "hp_older p = (if length rs > n \<and> take n rs \<noteq> [] then
       Some (show_int (hr_block (List.last (hp_rows p))) @ ''-'' @ show_nat (hr_li (List.last (hp_rows p)))) else None)"
    unfolding p_def history_def Let_def found by (auto simp: min_def)
  show ?case
  proof (cases "length rs > n")
    case False
    then show ?thesis using p n by (simp add: Let_def p_def [symmetric] rs_def [symmetric])
  next
    case True
    define m where "m = rs ! (n - 1)"
    have split: "rs = take (n - 1) rs @ m # drop n rs"
      using True n id_take_nth_drop [of "n - 1" rs] by (simp add: m_def)
    have ne: "take n rs \<noteq> []" using True n by auto
    have last: "List.last (take n rs) = m" using True n last_conv_nth [OF ne] by (simp add: m_def)
    have mem: "m \<in> set rs" using split by (metis in_set_conv_decomp)
    then have m: "m \<in> set ms" "key_of m < q" by (auto simp: rs_def of_address_def)
    have "hp_older p = Some (show_int (mm_block m) @ ''-'' @ show_nat (mm_li m))"
      using True ne p(2) by (simp add: p(1) last_map last history_row_of_def Let_def)
    moreover define s where "s = show_int (mm_block m) @ ''-'' @ show_nat (mm_li m)"
    ultimately have older: "hp_older p = Some s" by simp
    have link: "parseBefore (Some s) = Some (key_of m)"
      unfolding s_def key_of_def using ok m(1) by (intro parseBefore_link) (auto simp: readable_def)
    have rest: "of_address i (key_of m) ms = drop n rs"
      using of_address_before [OF keys, of i q "take (n - 1) rs" m "drop n rs"] split m(2) by (simp add: rs_def)
    have less: "length (drop n rs) < fuel" using Suc.prems(2) True n by (simp add: rs_def)
    from Suc.IH [of "key_of m" "Some s"] link rest less
    have IH: "concat (map hp_rows (walk fuel lanes i (Some s) n ms)) = map (history_row_of lanes i) (drop n rs)"
      "length (walk fuel lanes i (Some s) n ms) \<le> Suc (length (drop n rs))" by simp_all
    have "map (history_row_of lanes i) (take n rs) @ map (history_row_of lanes i) (drop n rs) = map (history_row_of lanes i) rs"
      by (metis append_take_drop_id map_append)
    then show ?thesis using IH p(1) older True n by (simp add: Let_def p_def [symmetric] rs_def [symmetric])
  qed
qed simp

lemma all_before_start:
  assumes "readable m"
  shows "key_of m < (MAX_BLOCK, MAX_LI)"
  using assms by (simp add: readable_def key_of_def MAX_BLOCK_def less_prod_def)

text \<open>
  C39: An address's history is complete: following the links to older pages from the first one, the pages
  end before the fuel does, and together they show exactly the address's movements, each once (a
  transfer to itself too), newest first.
\<close>

theorem history_pages_exact:
  assumes "distinct (map key_of ms)" "\<forall>m\<in>set ms. readable m" "1 \<le> n" "length ms + 1 < fuel"
  shows "concat (map hp_rows (walk fuel lanes i None n ms)) =
      map (history_row_of lanes i) (newest_first (filter (\<lambda>m. mm_from m = i \<or> mm_to m = i) ms)) \<and>
    length (walk fuel lanes i None n ms) < fuel"
proof -
  define q where "q = (case parseBefore None of Some p \<Rightarrow> p | None \<Rightarrow> (MAX_BLOCK, MAX_LI))"
  have "parseBefore None = None" by (simp add: parseBefore_def)
  then have q: "q = (MAX_BLOCK, MAX_LI)" by (simp add: q_def)
  have all: "of_address i q ms = newest_first (filter (\<lambda>m. mm_from m = i \<or> mm_to m = i) ms)"
    unfolding of_address_def q by (intro arg_cong [where f = newest_first] filter_cong refl) (use assms(2) all_before_start in auto)
  have len: "length (of_address i q ms) \<le> length ms" unfolding all by (simp add: newest_first_def)
  show ?thesis using walk_rows [OF assms(1-3) q_def, of i fuel lanes] len assms(4) unfolding all by linarith
qed

definition sample_movement :: "int \<Rightarrow> nat \<Rightarrow> movement" where
  "sample_movement b receiver = \<lparr>mm_block = b, mm_li = 0, mm_tx = ''0x1'', mm_from = 1, mm_to = receiver, mm_fromAddress = ''0xa'',
     mm_toAddress = ''0xb'', mm_value = 5, mm_time = 0, mm_lane = None\<rparr>"

theorem history_pages_exact_witness:
  "map hr_block (concat (map hp_rows (walk 5 True 1 None 1 [sample_movement 4 1, sample_movement 9 2, sample_movement 7 1]))) = [9, 7, 4]"
proof -
  define ms where "ms = [sample_movement 4 1, sample_movement 9 2, sample_movement 7 1]"
  have keys: "distinct (map key_of ms)" by (simp add: ms_def key_of_def sample_movement_def)
  have ok: "\<forall>m\<in>set ms. readable m" by (simp add: ms_def readable_def sample_movement_def)
  have "concat (map hp_rows (walk 5 True 1 None 1 ms)) =
      map (history_row_of True 1) (newest_first (filter (\<lambda>m. mm_from m = 1 \<or> mm_to m = 1) ms))"
    using history_pages_exact [OF keys ok, of 1 5 True 1] by (simp add: ms_def)
  moreover have "newest_first (filter (\<lambda>m. mm_from m = 1 \<or> mm_to m = 1) ms) = [sample_movement 9 2, sample_movement 7 1, sample_movement 4 1]"
    by (simp add: ms_def newest_first_def sample_movement_def key_of_def)
  ultimately show ?thesis unfolding ms_def [symmetric] by (simp add: history_row_of_def sample_movement_def Let_def)
qed

end
