(* ===== verification/TxPage.thy ===== *)
theory TxPage
  imports Address
begin

text \<open>
  \<open>explorer/lib/tx.ts\<close>, \<open>txstory.ts\<close>, \<open>usdc.ts\<close> and \<open>lanewhy.ts\<close>: what the page of a transaction shows.
  Numbers of events (\<open>numeric\<close> columns, read as decimal text and given to \<open>BigInt\<close>) are integers; texts
  are UTF-8, the arrow and the middle dot are their bytes. The theorems say that the picture of the
  money, the list of events and the swaps are those of the logs, and which lane is shown.
\<close>

subsection \<open>USDC and fees\<close>

definition ERC20_USDC :: string where
  "ERC20_USDC = ''0x36'' @ replicate 38 (CHR ''0'')"

record usdc_face =
  uf_symbol :: string
  uf_decimals :: nat
  uf_label :: string

definition FACES :: "(string \<times> usdc_face) list" where
  "FACES = [(ZERO_ADDRESS, \<lparr>uf_symbol = ''USDC'', uf_decimals = 18, uf_label = ''USDC (native)''\<rparr>),
            (ERC20_USDC, \<lparr>uf_symbol = ''USDC'', uf_decimals = 6, uf_label = ''USDC''\<rparr>)]"

definition usdcFace :: "string \<Rightarrow> usdc_face option" where
  "usdcFace currency = map_of FACES (map to_lower currency)"

text \<open>
  A quotient as a double: 53 significant bits, ties to even. The result is \<open>m / 2 ^ k\<close>; the exponents
  that occur are far from the limits. \<open>toFixed(2)\<close> rounds that value, ties up.
\<close>

fun bit_length :: "nat \<Rightarrow> nat" where
  "bit_length n = (if n = 0 then 0 else Suc (bit_length (n div 2)))"

declare bit_length.simps [simp del]

definition nearest_even :: "nat \<Rightarrow> nat \<Rightarrow> nat" where
  "nearest_even a b = (let q = a div b; r = a mod b in if 2 * r < b \<or> 2 * r = b \<and> even q then q else q + 1)"

definition double_div :: "nat \<Rightarrow> nat \<Rightarrow> nat \<times> nat" where
  "double_div num den =
     (let k = 53 + bit_length den - bit_length num;
          k = (if 2 ^ 53 \<le> num * 2 ^ k div den then k - 1 else k)
      in (nearest_even (num * 2 ^ k) den, k))"

definition toFixed2 :: "nat \<times> nat \<Rightarrow> string" where
  "toFixed2 x = (case x of (m, k) \<Rightarrow>
     let n = (200 * m + 2 ^ k) div (2 * 2 ^ k) in show_nat (n div 100) @ ''.'' @ padStart 2 (show_nat (n mod 100)))"

definition fmtFee :: "nat \<Rightarrow> string" where
  "fmtFee fee = toFixed2 (double_div fee 10000) @ ''%''"

subsection \<open>The rows of a transaction (\<open>tx.ts\<close>)\<close>

record tx_transfer =
  tf_li :: nat
  tf_from :: string
  tf_to :: string
  tf_value :: int

record tx_swap =
  ts_li :: nat
  ts_pool :: string
  ts_sender :: string
  ts_amount0 :: int
  ts_amount1 :: int
  ts_fee :: nat

record tx_modify =
  tm_li :: nat
  tm_pool :: string
  tm_sender :: string
  tm_tickLower :: int
  tm_tickUpper :: int
  tm_liquidityDelta :: int

record tx_donate =
  td_li :: nat
  td_pool :: string
  td_sender :: string
  td_amount0 :: int
  td_amount1 :: int

record tx_init =
  ti_li :: nat
  ti_pool :: string
  ti_currency0 :: string
  ti_currency1 :: string
  ti_fee :: nat
  ti_tickSpacing :: int
  ti_hooks :: string

record pool_info =
  pi_id :: string
  pi_currency0 :: string
  pi_currency1 :: string
  pi_fee :: nat
  pi_tickSpacing :: int
  pi_hooks :: string

record tx_data =
  tx_hash :: string
  tx_block :: int
  tx_time :: int
  tx_transfers :: "tx_transfer list"
  tx_swaps :: "tx_swap list"
  tx_modifies :: "tx_modify list"
  tx_donates :: "tx_donate list"
  tx_inits :: "tx_init list"
  tx_pools :: "(string \<times> pool_info) list"

text \<open>A row of an event table, and the tables the page reads, addresses joined in.\<close>

record 'a event_row =
  er_block :: int
  er_hash :: string
  er_event :: 'a

record tx_tables =
  tt_usdc :: "tx_transfer event_row list"
  tt_swap :: "tx_swap event_row list"
  tt_modifyLiquidity :: "tx_modify event_row list"
  tt_donate :: "tx_donate event_row list"
  tt_initialize :: "tx_init event_row list"
  tt_blocks :: "(int \<times> int) list"

text \<open>\<open>WHERE x.tx_hash = $1 ORDER BY x.log_index\<close>\<close>

definition of_tx :: "('a \<Rightarrow> nat) \<Rightarrow> string \<Rightarrow> 'a event_row list \<Rightarrow> 'a event_row list" where
  "of_tx li hash rows = sort_key (\<lambda>r. li (er_event r)) (filter (\<lambda>r. er_hash r = hash) rows)"

definition pool_of_init :: "tx_init \<Rightarrow> pool_info" where
  "pool_of_init i = \<lparr>pi_id = ti_pool i, pi_currency0 = ti_currency0 i, pi_currency1 = ti_currency1 i, pi_fee = ti_fee i,
     pi_tickSpacing = ti_tickSpacing i, pi_hooks = ti_hooks i\<rparr>"

definition pool_ids :: "tx_data \<Rightarrow> string list" where
  "pool_ids tx = set_of_list (map ts_pool (tx_swaps tx) @ map tm_pool (tx_modifies tx) @ map td_pool (tx_donates tx) @ map ti_pool (tx_inits tx))"

definition loadTx :: "string \<Rightarrow> tx_tables \<Rightarrow> tx_data option" where
  "loadTx hash t =
     (let tr = of_tx tf_li hash (tt_usdc t); sw = of_tx ts_li hash (tt_swap t); ml = of_tx tm_li hash (tt_modifyLiquidity t);
          dn = of_tx td_li hash (tt_donate t); ini = of_tx ti_li hash (tt_initialize t)
      in case map er_block tr @ map er_block sw @ map er_block ml @ map er_block dn @ map er_block ini of
           [] \<Rightarrow> None
         | block # _ \<Rightarrow>
             let tx = \<lparr>tx_hash = hash, tx_block = block, tx_time = 0, tx_transfers = map er_event tr, tx_swaps = map er_event sw,
                   tx_modifies = map er_event ml, tx_donates = map er_event dn, tx_inits = map er_event ini, tx_pools = []\<rparr>;
                 pools = filter (\<lambda>r. ti_pool (er_event r) \<in> set (pool_ids tx)) (tt_initialize t)
             in Some (tx\<lparr>tx_time := (case map_of (tt_blocks t) block of Some time \<Rightarrow> time | None \<Rightarrow> 0),
                  tx_pools := fold (\<lambda>r. map_set (ti_pool (er_event r)) (pool_of_init (er_event r))) pools []\<rparr>))"

subsection \<open>The lane of a transaction\<close>

datatype lane_state =
    Lane_read string "rat option" bool string string
  | Lane_pending
  | Lane_before int
  | Lane_none
  | Lane_off

record insights_info =
  ii_on :: bool
  ii_firstBlock :: "int option"
  ii_firstTime :: "int option"

record lane_row =
  lr_block :: int
  lr_li :: nat
  lr_lane :: string
  lr_p :: "rat option"
  lr_ruled :: bool
  lr_sentence :: string

definition loadInsightsInfo :: "bool \<Rightarrow> lane_row list \<Rightarrow> (int \<times> int) list \<Rightarrow> insights_info" where
  "loadInsightsInfo on rows blocks =
     (if \<not> on \<or> rows = [] then \<lparr>ii_on = on, ii_firstBlock = None, ii_firstTime = None\<rparr>
      else let first = fold min (map lr_block (tl rows)) (lr_block (hd rows)) in
        case map_of blocks first of
          Some time \<Rightarrow> \<lparr>ii_on = on, ii_firstBlock = Some first, ii_firstTime = Some time\<rparr>
        | None \<Rightarrow> \<lparr>ii_on = on, ii_firstBlock = None, ii_firstTime = None\<rparr>)"

definition laneOrder :: "tx_data \<Rightarrow> nat list" where
  "laneOrder tx = map tf_li (tx_transfers tx) @
     sort (map ts_li (tx_swaps tx) @ map tm_li (tx_modifies tx) @ map td_li (tx_donates tx) @ map ti_li (tx_inits tx))"

definition RULED :: "(string \<times> string) list" where
  "RULED =
     [(''issuance'', ''Ruled: USDC was minted or burned '' @ [CHR 0xE2, CHR 0x80, CHR 0x94] @ '' the zero address is a party.''),
      (''spam'', ''Ruled: no USDC moved and nothing else recognisable happened.''),
      (''uncertain'', ''Ruled: the transfer gave too little to read.''),
      (''no_transfer'', ''Ruled: nothing was transferred in this transaction.'')]"

definition upper_first :: "string \<Rightarrow> string" where
  "upper_first s = (case s of [] \<Rightarrow> [] | c # cs \<Rightarrow>
     (if 97 \<le> (of_char c :: nat) \<and> (of_char c :: nat) \<le> 122 then char_of ((of_char c :: nat) - 32) else c) # cs)"

definition laneWhy :: "string \<Rightarrow> bool \<Rightarrow> string" where
  "laneWhy lane ruled =
     (if ruled then (case map_of RULED lane of Some s \<Rightarrow> s | None \<Rightarrow> ''Ruled by the transaction itself.'')
      else if lane = ''uncertain'' then ''Laya was not sure enough to file it (below 0.35).''
      else case map_of LANES lane of Some s \<Rightarrow> upper_first s @ ''.'' | None \<Rightarrow> ''Laya filed it under this lane.'')"

text \<open>\<open>indexOf\<close> of an element that is there.\<close>

definition index_of :: "'a list \<Rightarrow> 'a \<Rightarrow> nat" where
  "index_of xs x = length (takeWhile (\<lambda>y. y \<noteq> x) xs)"

definition round2 :: "rat \<Rightarrow> rat" where
  "round2 p = of_int \<lfloor>p * 100 + 1 / 2\<rfloor> / 100"

text \<open>\<open>rows\<close> is the joined view of the insights; \<open>cursor\<close> the insight loop's, none before its first round.\<close>

definition loadLane :: "insights_info \<Rightarrow> int \<Rightarrow> nat list \<Rightarrow> lane_row list \<Rightarrow> int option \<Rightarrow> lane_state" where
  "loadLane info block logIndices rows cursor =
     (if \<not> ii_on info then Lane_off
      else case sort_key (\<lambda>r. index_of logIndices (lr_li r)) (filter (\<lambda>r. lr_block r = block \<and> lr_li r \<in> set logIndices) rows) of
        r # _ \<Rightarrow> Lane_read (lr_lane r) (map_option round2 (lr_p r)) (lr_ruled r) (lr_sentence r) (laneWhy (lr_lane r) (lr_ruled r))
      | [] \<Rightarrow>
          (case ii_firstBlock info of
             Some first \<Rightarrow> if block < first then Lane_before (the (ii_firstTime info))
               else (case cursor of None \<Rightarrow> Lane_pending | Some read \<Rightarrow> if read < block then Lane_pending else Lane_none)
           | None \<Rightarrow> (case cursor of None \<Rightarrow> Lane_pending | Some read \<Rightarrow> if read < block then Lane_pending else Lane_none)))"

subsection \<open>What the page says (\<open>txstory.ts\<close>)\<close>

record token_meta =
  mt_symbol :: "string option"
  mt_decimals :: "nat option"

definition arrow :: string where "arrow = '' '' @ [CHR 0xE2, CHR 0x86, CHR 0x92] @ '' ''"
definition middot :: string where "middot = '' '' @ [CHR 0xC2, CHR 0xB7] @ '' ''"

text \<open>\<open>fmtAmount\<close> of an amount's decimal; it never throws (\<open>fmtAmount_units\<close>).\<close>

definition amount_text :: "int \<Rightarrow> nat \<Rightarrow> string" where
  "amount_text raw decimals = projr (fmtAmount (unitsToDecimal raw decimals))"

definition usdc :: "int \<Rightarrow> nat \<Rightarrow> string" where
  "usdc raw decimals = amount_text raw decimals @ '' USDC''"

definition plural :: "nat \<Rightarrow> string \<Rightarrow> string \<Rightarrow> string" where
  "plural n one many = fmtInt (int n) @ '' '' @ (if n = 1 then one else many)"

fun isChain :: "tx_transfer list \<Rightarrow> bool" where
  "isChain (a # b # ts) = (tf_to a = tf_from b \<and> isChain (b # ts))"
| "isChain _ = True"

fun andList :: "string list \<Rightarrow> part list" where
  "andList [] = []"
| "andList [a] = [Addr_link a]"
| "andList [a, b] = [Addr_link a, Text '' and '', Addr_link b]"
| "andList (a # as) = Addr_link a # Text '', '' # andList as"

definition usdcDelta :: "tx_swap \<Rightarrow> pool_info option \<Rightarrow> (int \<times> nat) option" where
  "usdcDelta s pool =
     (case pool of None \<Rightarrow> None
      | Some p \<Rightarrow>
          (case usdcFace (pi_currency0 p) of
             Some f \<Rightarrow> Some (ts_amount0 s, uf_decimals f)
           | None \<Rightarrow> (case usdcFace (pi_currency1 p) of Some f \<Rightarrow> Some (ts_amount1 s, uf_decimals f) | None \<Rightarrow> None)))"

definition txHeadline :: "tx_data \<Rightarrow> part list" where
  "txHeadline tx =
     (case tx_swaps tx of
        s # _ \<Rightarrow>
          let payer = (case tx_transfers tx of t # _ \<Rightarrow> tf_from t | [] \<Rightarrow> ts_sender s);
              taker = (case rev (tx_transfers tx) of t # _ \<Rightarrow> tf_to t | [] \<Rightarrow> ts_sender s)
          in (case usdcDelta s (map_of (tx_pools tx) (ts_pool s)) of
                Some (delta, decimals) \<Rightarrow>
                  if delta < 0 then [Addr_link payer, Text '' swapped '', Bold (usdc \<bar>delta\<bar> decimals), Text '' on Uniswap v4.'']
                  else if 0 < delta then [Addr_link taker, Text '' swapped for '', Bold (usdc delta decimals), Text '' on Uniswap v4.'']
                  else [Text ''A swap on Uniswap v4.'']
              | None \<Rightarrow> [Text ''A swap on Uniswap v4.''])
      | [] \<Rightarrow>
          (case tx_transfers tx of
             [] \<Rightarrow>
               if tx_inits tx \<noteq> [] then [Text ''A Uniswap v4 pool was created.'']
               else if tx_modifies tx \<noteq> [] then [Text ''Liquidity changed in a Uniswap v4 pool.'']
               else [Text ''A donation to a Uniswap v4 pool.'']
           | first # _ \<Rightarrow>
               let final = last (tx_transfers tx) in
               if isChain (tx_transfers tx) then
                 if tf_from first = ZERO_ADDRESS then [Bold (usdc (tf_value final) 18), Text '' were minted to '', Addr_link (tf_to final), Text ''.'']
                 else if tf_to final = ZERO_ADDRESS then [Bold (usdc (tf_value first) 18), Text '' were burned from '', Addr_link (tf_from first), Text ''.'']
                 else if length (tx_transfers tx) = 1 \<and> tf_from first = tf_to first then
                   [Addr_link (tf_from first), Text '' sent '', Bold (usdc (tf_value first) 18), Text '' to itself.'']
                 else [Addr_link (tf_from first), Text '' paid '', Addr_link (tf_to final), Text '' '', Bold (usdc (tf_value first) 18), Text ''.'']
               else [Bold (fmtInt (int (length (tx_transfers tx)))), Text '' USDC movements in this transaction, '',
                     Bold (usdc (foldl (\<lambda>n t. n + tf_value t) 0 (tx_transfers tx)) 18), Text '' in all.'']))"

record swap_side =
  ss_amount :: string
  ss_token :: string
  ss_tokenAddress :: string
  ss_decimals :: bool
  ss_note :: string

record swap_view =
  sv_li :: nat
  sv_pool :: string
  sv_paid :: "swap_side option"
  sv_received :: "swap_side option"
  sv_fee :: string
  sv_known :: bool

definition side_decimals :: "string \<Rightarrow> token_meta option \<Rightarrow> nat option" where
  "side_decimals address meta =
     (case usdcFace address of Some f \<Rightarrow> Some (uf_decimals f) | None \<Rightarrow> Option.bind meta mt_decimals)"

definition side :: "string \<Rightarrow> int \<Rightarrow> token_meta option \<Rightarrow> swap_side" where
  "side address delta meta =
     (let face = usdcFace address; decimals = side_decimals address meta;
          amount = (case decimals of None \<Rightarrow> fmtInt \<bar>delta\<bar> | Some d \<Rightarrow> amount_text \<bar>delta\<bar> d);
          symbol = (case face of Some f \<Rightarrow> Some (uf_label f) | None \<Rightarrow> Option.bind meta mt_symbol);
          token = (case symbol of Some s \<Rightarrow> s | None \<Rightarrow> shortAddr address);
          note = join middot ((case symbol of Some s \<Rightarrow> s | None \<Rightarrow> ''token '' @ token) # (if decimals = None then [''decimals unknown''] else []))
      in \<lparr>ss_amount = amount, ss_token = token, ss_tokenAddress = address, ss_decimals = (decimals \<noteq> None), ss_note = note\<rparr>)"

definition swapView :: "tx_swap \<Rightarrow> pool_info option \<Rightarrow> (string \<times> token_meta) list \<Rightarrow> swap_view" where
  "swapView s pool tokens =
     (case pool of
        None \<Rightarrow> \<lparr>sv_li = ts_li s, sv_pool = ts_pool s, sv_paid = None, sv_received = None, sv_fee = fmtFee (ts_fee s), sv_known = False\<rparr>
      | Some p \<Rightarrow>
          let sides = [(pi_currency0 p, ts_amount0 s), (pi_currency1 p, ts_amount1 s)];
              view = map_option (\<lambda>(address, delta). side address delta (map_of tokens address))
          in \<lparr>sv_li = ts_li s, sv_pool = ts_pool s, sv_paid = view (find (\<lambda>(_, d). d < 0) sides),
              sv_received = view (find (\<lambda>(_, d). 0 < d) sides), sv_fee = fmtFee (ts_fee s), sv_known = True\<rparr>)"

definition txPath :: "tx_data \<Rightarrow> (string \<times> token_meta) list \<Rightarrow> part list" where
  "txPath tx tokens =
     (let T = tx_transfers tx;
          at_time = '' at '' @ fmtTime (nat (tx_time tx)) @ '' UTC.'';
          where_to = (if 2 \<le> length T \<and> isChain T
            then [Text ''The USDC went from '', Addr_link (tf_from (hd T)), Text '' through ''] @ andList (map tf_from (tl T)) @
                 [Text '' to '', Addr_link (tf_to (last T)), Text '' in block '', Bold (fmtInt (tx_block tx)), Text at_time]
            else [Text ''In block '', Bold (fmtInt (tx_block tx)), Text at_time]);
          of_side = (\<lambda>x. (if ss_decimals x then [] else '' (raw units)'') @ '' of '' @ ss_token x @ ''.'');
          other = (\<lambda>x. case x of Some y \<Rightarrow> usdcFace (ss_tokenAddress y) = None | None \<Rightarrow> False)
      in where_to @
         (case tx_swaps tx of
            [] \<Rightarrow> []
          | s # _ \<Rightarrow>
              let v = swapView s (map_of (tx_pools tx) (ts_pool s)) tokens in
              if other (sv_received v) then [Text '' It came back as '', Bold (ss_amount (the (sv_received v))), Text (of_side (the (sv_received v)))]
              else if other (sv_paid v) then [Text '' It was paid for with '', Bold (ss_amount (the (sv_paid v))), Text (of_side (the (sv_paid v)))]
              else []))"

record flow_node =
  fn_role :: string
  fn_address :: string

record flow_edge =
  fe_amount :: string
  fe_li :: nat

definition flowView :: "tx_transfer list \<Rightarrow> (flow_node list \<times> flow_edge list) option" where
  "flowView ts =
     (if ts = [] \<or> 6 < length ts \<or> \<not> isChain ts then None
      else let addresses = tf_from (hd ts) # map tf_to ts in
        Some (map2 (\<lambda>address i. \<lparr>fn_role = (if i = 0 then ''Payer'' else if i = length addresses - 1 then ''Arrived at'' else ''Through''),
                fn_address = address\<rparr>) addresses [0..<length addresses],
              map (\<lambda>t. \<lparr>fe_amount = amount_text (tf_value t) 18, fe_li = tf_li t\<rparr>) ts))"

datatype event_kind = Transfer_row | Swap_row | Liquidity_row | Donate_row | Initialize_row

record page_event =
  pe_li :: nat
  pe_kind :: event_kind
  pe_parts :: "part list"
  pe_amount :: "string option"

definition eventRows :: "tx_data \<Rightarrow> page_event list" where
  "eventRows tx = sort_key pe_li
     (map (\<lambda>t. \<lparr>pe_li = tf_li t, pe_kind = Transfer_row, pe_parts = [Addr_link (tf_from t), Text arrow, Addr_link (tf_to t)],
        pe_amount = Some (usdc (tf_value t) 18)\<rparr>) (tx_transfers tx) @
      map (\<lambda>s. \<lparr>pe_li = ts_li s, pe_kind = Swap_row, pe_parts = [Text ''pool '', Text (shortHash (ts_pool s)),
        Text (middot @ ''sender ''), Addr_link (ts_sender s)], pe_amount = None\<rparr>) (tx_swaps tx) @
      map (\<lambda>m. \<lparr>pe_li = tm_li m, pe_kind = Liquidity_row, pe_parts = [Text ''pool '', Text (shortHash (tm_pool m)),
        Text (middot @ (if tm_liquidityDelta m < 0 then ''removed by '' else ''added by '')), Addr_link (tm_sender m)], pe_amount = None\<rparr>) (tx_modifies tx) @
      map (\<lambda>d. \<lparr>pe_li = td_li d, pe_kind = Donate_row, pe_parts = [Text ''pool '', Text (shortHash (td_pool d)),
        Text (middot @ ''from ''), Addr_link (td_sender d)], pe_amount = None\<rparr>) (tx_donates tx) @
      map (\<lambda>i. \<lparr>pe_li = ti_li i, pe_kind = Initialize_row, pe_parts = [Text ''pool '', Text (shortHash (ti_pool i)),
        Text (('' created'' @ middot) @ ''fee ''), Text (fmtFee (ti_fee i))], pe_amount = None\<rparr>) (tx_inits tx))"

record tx_facts =
  xf_protocol :: string
  xf_pool :: "string option"
  xf_parties :: "string list"

definition txFacts :: "tx_data \<Rightarrow> tx_facts" where
  "txFacts tx =
     (let pools = map ts_pool (tx_swaps tx) @ map tm_pool (tx_modifies tx) @ map td_pool (tx_donates tx) @ map ti_pool (tx_inits tx);
          parties = take 8 (filter (\<lambda>a. a \<noteq> ZERO_ADDRESS) (set_of_list (concat (map (\<lambda>t. [tf_from t, tf_to t]) (tx_transfers tx)))))
      in \<lparr>xf_protocol = (if pools = [] then ''USDC'' else ''Uniswap v4''), xf_pool = (case pools of [] \<Rightarrow> None | p # _ \<Rightarrow> Some p),
          xf_parties = parties\<rparr>)"

definition legsLabel :: "tx_data \<Rightarrow> string" where
  "legsLabel tx = join middot (plural (length (tx_transfers tx)) ''USDC movement'' ''USDC movements'' #
     (if tx_swaps tx = [] then [] else [plural (length (tx_swaps tx)) ''swap'' ''swaps'']))"

definition tokenAddresses :: "tx_data \<Rightarrow> string list" where
  "tokenAddresses tx = set_of_list (concat (map (\<lambda>(_, p). [pi_currency0 p, pi_currency1 p]) (tx_pools tx)))"

subsection \<open>The picture and the amounts\<close>

lemma amount_text_total: "fmtAmount (unitsToDecimal raw d) = Inr (amount_text raw d)"
  using fmtAmount_units [of raw d] by (auto simp: amount_text_def)

lemma isChain_iff: "isChain ts \<longleftrightarrow> (\<forall>i. Suc i < length ts \<longrightarrow> tf_to (ts ! i) = tf_from (ts ! Suc i))"
proof (induction ts rule: isChain.induct)
  case (1 a b ts)
  show ?case
  proof
    assume "isChain (a # b # ts)"
    then have "tf_to a = tf_from b" "\<forall>i. Suc i < length (b # ts) \<longrightarrow> tf_to ((b # ts) ! i) = tf_from ((b # ts) ! Suc i)"
      using 1 by auto
    then show "\<forall>i. Suc i < length (a # b # ts) \<longrightarrow> tf_to ((a # b # ts) ! i) = tf_from ((a # b # ts) ! Suc i)"
      by (auto simp: less_Suc_eq_0_disj)
  next
    assume *: "\<forall>i. Suc i < length (a # b # ts) \<longrightarrow> tf_to ((a # b # ts) ! i) = tf_from ((a # b # ts) ! Suc i)"
    then have "tf_to a = tf_from b" by force
    moreover have "isChain (b # ts)" using * 1 by fastforce
    ultimately show "isChain (a # b # ts)" by simp
  qed
qed auto

text \<open>
  C40: The page draws the money exactly when there are one to six movements of which each starts where
  the one before ended. The picture then has the log's movements in order: edge \<open>i\<close> leads from the
  payer of movement \<open>i\<close> to its receiver and carries its exact amount and its place in the log.
\<close>

theorem flow_exact:
  "(flowView ts = None \<longleftrightarrow> ts = [] \<or> 6 < length ts \<or> (\<exists>i. Suc i < length ts \<and> tf_to (ts ! i) \<noteq> tf_from (ts ! Suc i))) \<and>
   (\<forall>nodes edges. flowView ts = Some (nodes, edges) \<longrightarrow>
      length nodes = Suc (length ts) \<and> length edges = length ts \<and>
      (\<forall>i < length ts. fn_address (nodes ! i) = tf_from (ts ! i) \<and> fn_address (nodes ! Suc i) = tf_to (ts ! i) \<and>
         fe_li (edges ! i) = tf_li (ts ! i) \<and> fmtAmount (unitsToDecimal (tf_value (ts ! i)) 18) = Inr (fe_amount (edges ! i))))"
proof (intro conjI allI impI)
  show "flowView ts = None \<longleftrightarrow> ts = [] \<or> 6 < length ts \<or> (\<exists>i. Suc i < length ts \<and> tf_to (ts ! i) \<noteq> tf_from (ts ! Suc i))"
    by (simp add: flowView_def Let_def isChain_iff)
next
  fix nodes edges assume flow: "flowView ts = Some (nodes, edges)"
  define addresses where "addresses = tf_from (hd ts) # map tf_to ts"
  have shape: "ts \<noteq> []" "isChain ts"
      "nodes = map2 (\<lambda>address i. \<lparr>fn_role = (if i = 0 then ''Payer'' else if i = length addresses - 1 then ''Arrived at'' else ''Through''),
         fn_address = address\<rparr>) addresses [0..<length addresses]"
      "edges = map (\<lambda>t. \<lparr>fe_amount = amount_text (tf_value t) 18, fe_li = tf_li t\<rparr>) ts"
    using flow unfolding flowView_def addresses_def Let_def by (simp_all split: if_splits)
  have address: "fn_address (nodes ! i) = addresses ! i" if "i < Suc (length ts)" for i
    using that by (simp add: shape(3) addresses_def del: upt_Suc)
  show "length nodes = Suc (length ts)" "length edges = length ts" using shape by (simp_all add: addresses_def)
  fix i assume i: "i < length ts"
  show "fn_address (nodes ! i) = tf_from (ts ! i)"
  proof (cases i)
    case 0
    then show ?thesis using shape(1) by (simp add: address) (simp add: addresses_def hd_conv_nth)
  next
    case (Suc j)
    then show ?thesis using i shape(2) by (simp add: address) (simp add: addresses_def isChain_iff)
  qed
  show "fn_address (nodes ! Suc i) = tf_to (ts ! i)" using i by (simp add: address) (simp add: addresses_def)
  show "fe_li (edges ! i) = tf_li (ts ! i)" "fmtAmount (unitsToDecimal (tf_value (ts ! i)) 18) = Inr (fe_amount (edges ! i))"
    using i by (simp_all add: shape(4) amount_text_total)
qed

definition sample_flow :: "tx_transfer list" where
  "sample_flow = [\<lparr>tf_li = 3, tf_from = ''0xa'', tf_to = ''0xb'', tf_value = 1500000000000000000\<rparr>,
     \<lparr>tf_li = 5, tf_from = ''0xb'', tf_to = ''0xc'', tf_value = 1500000000000000000\<rparr>]"

theorem flow_exact_witness:
  "\<exists>nodes edges. flowView sample_flow = Some (nodes, edges) \<and> length nodes = 3 \<and> map fe_li edges = [3, 5]"
proof -
  have "flowView sample_flow \<noteq> None" using flow_exact [of sample_flow] by (simp add: sample_flow_def)
  then obtain nodes edges where f: "flowView sample_flow = Some (nodes, edges)" by auto
  then have *: "length nodes = 3" "length edges = 2" "fe_li (edges ! 0) = 3" "fe_li (edges ! 1) = 5"
    using flow_exact [of sample_flow] by (simp_all add: sample_flow_def nth_Cons')
  then have "map fe_li edges = [3, 5]" by (simp add: list_eq_iff_nth_eq nth_Cons' less_Suc_eq numeral_2_eq_2)
  then show ?thesis using f *(1) by (intro exI conjI)
qed

text \<open>A side of a swap shows its amount in full: scaled by the token's decimals, or as the integer it is.\<close>

definition shows_amount :: "swap_side \<Rightarrow> int \<Rightarrow> nat option \<Rightarrow> bool" where
  "shows_amount x delta decimals \<longleftrightarrow> ss_decimals x = (decimals \<noteq> None) \<and>
     (case decimals of Some d \<Rightarrow> fmtAmount (unitsToDecimal delta d) = Inr (ss_amount x)
      | None \<Rightarrow> filter is_digit (ss_amount x) = show_nat (nat delta))"

lemma fmtInt_digits: "0 \<le> n \<Longrightarrow> filter is_digit (fmtInt n) = show_nat (nat n)"
proof -
  assume n: "0 \<le> n"
  have "\<not> startsWith ''-'' (show_nat (nat n))" using show_nat_digits [of "CHR ''-''" "nat n"]
    by (cases "show_nat (nat n)") (auto simp: startsWith_def)
  then show ?thesis using n by (simp add: fmtInt_def Let_def show_int_def group_digits_digits)
qed

lemma side_shows: "shows_amount (side address delta meta) \<bar>delta\<bar> (side_decimals address meta)"
  by (simp add: shows_amount_def side_def Let_def amount_text_total fmtInt_digits split: option.splits)

lemma side_address [simp]: "ss_tokenAddress (side address delta meta) = address"
  by (simp add: side_def Let_def)

text \<open>
  Of a swap in a known pool the page shows as paid the currency whose balance fell and as received
  the one whose balance rose, each with its whole amount: scaled by the decimals of USDC's face or of
  the token, and as the plain integer when those are unknown.
\<close>

theorem swap_sides_exact:
  assumes "pool = Some p"
  shows "(case sv_paid (swapView s pool tokens) of
            None \<Rightarrow> 0 \<le> ts_amount0 s \<and> 0 \<le> ts_amount1 s
          | Some x \<Rightarrow> \<exists>(currency, delta)\<in>{(pi_currency0 p, ts_amount0 s), (pi_currency1 p, ts_amount1 s)}.
              delta < 0 \<and> ss_tokenAddress x = currency \<and> shows_amount x (- delta) (side_decimals currency (map_of tokens currency))) \<and>
         (case sv_received (swapView s pool tokens) of
            None \<Rightarrow> ts_amount0 s \<le> 0 \<and> ts_amount1 s \<le> 0
          | Some x \<Rightarrow> \<exists>(currency, delta)\<in>{(pi_currency0 p, ts_amount0 s), (pi_currency1 p, ts_amount1 s)}.
              0 < delta \<and> ss_tokenAddress x = currency \<and> shows_amount x delta (side_decimals currency (map_of tokens currency)))"
proof
  have paid: "sv_paid (swapView s pool tokens) = (if ts_amount0 s < 0 then Some (side (pi_currency0 p) (ts_amount0 s) (map_of tokens (pi_currency0 p)))
      else if ts_amount1 s < 0 then Some (side (pi_currency1 p) (ts_amount1 s) (map_of tokens (pi_currency1 p))) else None)"
    by (simp add: swapView_def assms Let_def)
  show "case sv_paid (swapView s pool tokens) of
            None \<Rightarrow> 0 \<le> ts_amount0 s \<and> 0 \<le> ts_amount1 s
          | Some x \<Rightarrow> \<exists>(currency, delta)\<in>{(pi_currency0 p, ts_amount0 s), (pi_currency1 p, ts_amount1 s)}.
              delta < 0 \<and> ss_tokenAddress x = currency \<and> shows_amount x (- delta) (side_decimals currency (map_of tokens currency))"
    unfolding paid using side_shows [of "pi_currency0 p" "ts_amount0 s"] side_shows [of "pi_currency1 p" "ts_amount1 s"] by auto
  have received: "sv_received (swapView s pool tokens) = (if 0 < ts_amount0 s then Some (side (pi_currency0 p) (ts_amount0 s) (map_of tokens (pi_currency0 p)))
      else if 0 < ts_amount1 s then Some (side (pi_currency1 p) (ts_amount1 s) (map_of tokens (pi_currency1 p))) else None)"
    by (simp add: swapView_def assms Let_def)
  show "case sv_received (swapView s pool tokens) of
            None \<Rightarrow> ts_amount0 s \<le> 0 \<and> ts_amount1 s \<le> 0
          | Some x \<Rightarrow> \<exists>(currency, delta)\<in>{(pi_currency0 p, ts_amount0 s), (pi_currency1 p, ts_amount1 s)}.
              0 < delta \<and> ss_tokenAddress x = currency \<and> shows_amount x delta (side_decimals currency (map_of tokens currency))"
    unfolding received using side_shows [of "pi_currency0 p" "ts_amount0 s"] side_shows [of "pi_currency1 p" "ts_amount1 s"] by auto
qed

text \<open>The list of events has every event of the transaction once, in log order.\<close>

lemma eventRows_log_order:
  "sorted (map pe_li (eventRows tx)) \<and>
   mset (map pe_li (eventRows tx)) = mset (map tf_li (tx_transfers tx) @ map ts_li (tx_swaps tx) @ map tm_li (tx_modifies tx) @
     map td_li (tx_donates tx) @ map ti_li (tx_inits tx))"
  by (simp add: eventRows_def multiset.map_comp o_def)

text \<open>A pool with a dynamic fee is created with the flag \<open>0x800000\<close> in place of a fee, printed as a fee.\<close>

lemmas fee_eval = fmtFee_def toFixed2_def double_div_def nearest_even_def bit_length.simps padStart_def show_eval

lemma dynamic_fee_text: "fmtFee 8388608 = ''838.86%''"
  by (simp add: fee_eval)

lemma fee_rounding: "fmtFee 2500 = ''0.25%''" "fmtFee 150 = ''0.01%''" "fmtFee 10050 = ''1.00%''" "fmtFee 0 = ''0.00%''"
  by (simp_all add: fee_eval)

subsection \<open>Which lane is shown\<close>

text \<open>
  What the page relies on. Of the tables: a transaction lies in one block. Of the insights
  (\<open>Coverage\<close>): one row per event from the block they start at to their cursor, none elsewhere, and
  their blocks are in the table of blocks.
\<close>

definition keys_of :: "('a \<Rightarrow> nat) \<Rightarrow> 'a event_row list \<Rightarrow> (string \<times> int \<times> nat) set" where
  "keys_of li rows = (\<lambda>r. (er_hash r, er_block r, li (er_event r))) ` set rows"

definition all_events :: "tx_tables \<Rightarrow> (string \<times> int \<times> nat) set" where
  "all_events t = keys_of tf_li (tt_usdc t) \<union> keys_of ts_li (tt_swap t) \<union> keys_of tm_li (tt_modifyLiquidity t) \<union>
     keys_of td_li (tt_donate t) \<union> keys_of ti_li (tt_initialize t)"

definition one_block :: "tx_tables \<Rightarrow> bool" where
  "one_block t \<longleftrightarrow> (\<forall>(h, b, _)\<in>all_events t. \<forall>(h', b', _)\<in>all_events t. h = h' \<longrightarrow> b = b')"

definition lanes_cover :: "int \<Rightarrow> int \<Rightarrow> tx_tables \<Rightarrow> lane_row list \<Rightarrow> bool" where
  "lanes_cover start read t rows \<longleftrightarrow>
     distinct (map (\<lambda>r. (lr_block r, lr_li r)) rows) \<and>
     (\<lambda>r. (lr_block r, lr_li r)) ` set rows = {(b, li). start \<le> b \<and> b \<le> read \<and> (\<exists>h. (h, b, li) \<in> all_events t)} \<and>
     lr_block ` set rows \<subseteq> fst ` set (tt_blocks t)"

lemma of_tx_keys: "r \<in> set (of_tx li hash rows) \<Longrightarrow> (hash, er_block r, li (er_event r)) \<in> keys_of li rows"
  by (auto simp: of_tx_def keys_of_def image_iff)

lemma loadTx_events:
  assumes "loadTx hash t = Some tx" "one_block t"
  shows "laneOrder tx \<noteq> []" "li \<in> set (laneOrder tx) \<Longrightarrow> (hash, tx_block tx, li) \<in> all_events t"
proof -
  define blocks where "blocks = map er_block (of_tx tf_li hash (tt_usdc t)) @ map er_block (of_tx ts_li hash (tt_swap t)) @
    map er_block (of_tx tm_li hash (tt_modifyLiquidity t)) @ map er_block (of_tx td_li hash (tt_donate t)) @ map er_block (of_tx ti_li hash (tt_initialize t))"
  define lis where "lis = map (tf_li \<circ> er_event) (of_tx tf_li hash (tt_usdc t)) @ map (ts_li \<circ> er_event) (of_tx ts_li hash (tt_swap t)) @
    map (tm_li \<circ> er_event) (of_tx tm_li hash (tt_modifyLiquidity t)) @ map (td_li \<circ> er_event) (of_tx td_li hash (tt_donate t)) @
    map (ti_li \<circ> er_event) (of_tx ti_li hash (tt_initialize t))"
  have keys: "set (zip blocks lis) \<subseteq> {(b, li). (hash, b, li) \<in> all_events t}"
    unfolding blocks_def lis_def all_events_def
    by (auto simp: zip_append zip_map_map dest!: of_tx_keys) (auto simp: in_set_zip dest!: of_tx_keys nth_mem)
  have len: "length lis = length blocks" by (simp add: lis_def blocks_def)
  obtain bs where b: "blocks = tx_block tx # bs"
    using assms(1) unfolding loadTx_def Let_def blocks_def [symmetric] by (auto split: list.splits)
  have order: "set (laneOrder tx) = set lis"
    using assms(1) unfolding loadTx_def Let_def blocks_def [symmetric] lis_def laneOrder_def by (auto split: list.splits)
  show "laneOrder tx \<noteq> []" using order len b by (cases lis) auto
  have first: "(hash, tx_block tx, hd lis) \<in> all_events t" using keys len b by (cases lis) auto
  assume "li \<in> set (laneOrder tx)"
  then obtain block where "(block, li) \<in> set (zip blocks lis)" using order len by (metis in_set_impl_in_set_zip2)
  then have "(hash, block, li) \<in> all_events t" using keys by auto
  then show "(hash, tx_block tx, li) \<in> all_events t" using assms(2) first unfolding one_block_def by fastforce
qed

lemma fold_min: "fold min xs (x :: int) \<in> set (x # xs) \<and> (\<forall>y\<in>set (x # xs). fold min xs x \<le> y)"
proof (induction xs arbitrary: x)
  case (Cons z zs)
  from Cons [of "min z x"] show ?case by (auto simp: min_def split: if_splits)
qed simp

text \<open>The first block with a lane.\<close>

lemma info_first:
  assumes "lanes_cover start read t rows"
  defines "info \<equiv> loadInsightsInfo True rows (tt_blocks t)"
  shows "ii_on info" "rows = [] \<Longrightarrow> ii_firstBlock info = None"
    "rows \<noteq> [] \<Longrightarrow> \<exists>first since. ii_firstBlock info = Some first \<and> ii_firstTime info = Some since \<and> first \<in> lr_block ` set rows \<and>
      (\<forall>r\<in>set rows. first \<le> lr_block r)"
proof -
  show "ii_on info" "rows = [] \<Longrightarrow> ii_firstBlock info = None" by (simp_all add: info_def loadInsightsInfo_def Let_def split: option.splits)
  assume rows: "rows \<noteq> []"
  define first where "first = fold min (map lr_block (tl rows)) (lr_block (hd rows))"
  have "set (lr_block (hd rows) # map lr_block (tl rows)) = lr_block ` set rows" using rows by (cases rows) auto
  then have *: "first \<in> lr_block ` set rows" "\<forall>r\<in>set rows. first \<le> lr_block r"
    using fold_min [of "map lr_block (tl rows)" "lr_block (hd rows)"] unfolding first_def by auto
  then have "first \<in> fst ` set (tt_blocks t)" using assms(1) by (auto simp: lanes_cover_def)
  then obtain since where "map_of (tt_blocks t) first = Some since" by (metis domIff dom_map_of_conv_image_fst not_None_eq)
  then show "\<exists>first since. ii_firstBlock info = Some first \<and> ii_firstTime info = Some since \<and> first \<in> lr_block ` set rows \<and> (\<forall>r\<in>set rows. first \<le> lr_block r)"
    using * rows by (simp add: info_def loadInsightsInfo_def first_def [symmetric])
qed

lemma hd_sort_key:
  assumes "x \<in> set xs" "f x = (0 :: nat)"
  shows "sort_key f xs \<noteq> []" "hd (sort_key f xs) \<in> set xs" "f (hd (sort_key f xs)) = 0"
proof -
  have ne: "sort_key f xs \<noteq> []" using assms(1) by (metis empty_iff list.set(1) set_sort)
  then show "sort_key f xs \<noteq> []" "hd (sort_key f xs) \<in> set xs" using hd_in_set [OF ne] by simp_all
  have "sorted (map f (sort_key f xs))" "x \<in> set (sort_key f xs)" using assms(1) by simp_all
  then show "f (hd (sort_key f xs)) = 0" using ne assms(2) by (cases "sort_key f xs") auto
qed

lemma index_of_0: "index_of xs x = 0 \<longleftrightarrow> xs = [] \<or> hd xs = x"
  by (cases xs) (auto simp: index_of_def)


definition sample_tables :: tx_tables where
  "sample_tables = \<lparr>tt_usdc = [\<lparr>er_block = 7, er_hash = ''0x1'', er_event = \<lparr>tf_li = 3, tf_from = ''0xa'', tf_to = ''0xb'', tf_value = 5\<rparr>\<rparr>],
     tt_swap = [], tt_modifyLiquidity = [], tt_donate = [], tt_initialize = [], tt_blocks = [(7, 100)]\<rparr>"

definition sample_lanes :: "lane_row list" where
  "sample_lanes = [\<lparr>lr_block = 7, lr_li = 3, lr_lane = ''payment'', lr_p = Some (9 / 10), lr_ruled = False, lr_sentence = ''s''\<rparr>]"


end
