(* ===== verification/Rollup.thy ===== *)
theory Rollup
  imports Ranges "HOL-Library.Multiset"
begin

text \<open>
  \<open>explorer/lib/rollup.ts\<close>: the daily totals of every address, folded range by range up to the worker's
  cursor. The database is a record: the worker's rows and cursor as the transaction sees them, and the
  explorer's own two tables. A step is one transaction, whose statements and whose COMMIT can fail, and
  a COMMIT whose answer is lost may have happened.
\<close>

subsection \<open>Tables\<close>

record transfer =
  tr_block :: int
  tr_from :: nat
  tr_to :: nat
  tr_value :: int
  tr_day :: string   \<comment> \<open>the UTC date of its block\<close>

record totals =
  tt_inValue :: int
  tt_outValue :: int
  tt_inCount :: int
  tt_outCount :: int

definition zero_totals :: totals where
  "zero_totals = \<lparr>tt_inValue = 0, tt_outValue = 0, tt_inCount = 0, tt_outCount = 0\<rparr>"

definition plus_totals :: "totals \<Rightarrow> totals \<Rightarrow> totals" where
  "plus_totals a b = \<lparr>tt_inValue = tt_inValue a + tt_inValue b, tt_outValue = tt_outValue a + tt_outValue b,
     tt_inCount = tt_inCount a + tt_inCount b, tt_outCount = tt_outCount a + tt_outCount b\<rparr>"

type_synonym day_key = "nat \<times> string"   \<comment> \<open>address id, day\<close>

text \<open>\<open>explorer.address_daily\<close> by its primary key, and \<open>explorer.rollup_cursor\<close>.\<close>

record explorer_db =
  ex_daily :: "(day_key \<times> totals) list"
  ex_cursor :: "int option"

text \<open>What a step's queries see of the worker's schema.\<close>

record worker_view =
  wv_cursor :: "int option"
  wv_blocks :: "int list"
  wv_transfers :: "transfer list"

subsection \<open>The fold statement\<close>

text \<open>A transfer counts once for the receiver and once for the sender, a self-transfer on both sides.\<close>

definition sides :: "transfer \<Rightarrow> (day_key \<times> totals) list" where
  "sides t =
     [((tr_to t, tr_day t), \<lparr>tt_inValue = tr_value t, tt_outValue = 0, tt_inCount = 1, tt_outCount = 0\<rparr>),
      ((tr_from t, tr_day t), \<lparr>tt_inValue = 0, tt_outValue = tr_value t, tt_inCount = 0, tt_outCount = 1\<rparr>)]"

text \<open>\<open>GROUP BY address_id, day\<close> with its sums.\<close>

definition group_sums :: "(day_key \<times> totals) list \<Rightarrow> (day_key \<times> totals) list" where
  "group_sums rows = map (\<lambda>k. (k, fold plus_totals (map snd (filter (\<lambda>r. fst r = k) rows)) zero_totals)) (remdups (map fst rows))"

text \<open>\<open>ON CONFLICT (address_id, day) DO UPDATE\<close> adds onto the row that is there.\<close>

definition upsert :: "(day_key \<times> totals) list \<Rightarrow> day_key \<times> totals \<Rightarrow> (day_key \<times> totals) list" where
  "upsert daily row = (case row of (k, x) \<Rightarrow>
     AList.update k (case map_of daily k of Some old \<Rightarrow> plus_totals old x | None \<Rightarrow> x) daily)"

definition in_span :: "int \<Rightarrow> int \<Rightarrow> transfer list \<Rightarrow> transfer list" where
  "in_span lo hi ts = filter (\<lambda>t. lo < tr_block t \<and> tr_block t \<le> hi) ts"

definition fold_sql :: "int \<Rightarrow> int \<Rightarrow> transfer list \<Rightarrow> (day_key \<times> totals) list \<Rightarrow> (day_key \<times> totals) list" where
  "fold_sql lo hi ts daily = foldl upsert daily (group_sums (concat (map sides (in_span lo hi ts))))"

subsection \<open>A step\<close>

datatype step_result = More | Idle | Locked | Ahead

text \<open>The faults of a step: a statement's error (is it a cancelled query?), or a failing COMMIT that did or did not happen.\<close>

datatype fault = NoFault | QueryFails bool | CommitFails bool

definition MAX_SPAN :: int where "MAX_SPAN = 50000"
definition MIN_SPAN :: int where "MIN_SPAN = 500"

record rollup =
  ru_span :: int
  ru_maxSpan :: int
  ru_ahead :: "(int \<times> int) option"

definition new_rollup :: "int \<Rightarrow> rollup" where
  "new_rollup maxSpan = \<lparr>ru_span = maxSpan, ru_maxSpan = maxSpan, ru_ahead = None\<rparr>"

definition first_block :: "int \<Rightarrow> int \<Rightarrow> int list \<Rightarrow> int option" where
  "first_block lo hi bs = (let xs = filter (\<lambda>b. lo < b \<and> b \<le> hi) bs in if xs = [] then None else Some (Min (set xs)))"

definition shrink :: "rollup \<Rightarrow> rollup" where
  "shrink ru = ru\<lparr>ru_span := max (if ru_maxSpan ru < MIN_SPAN then 1 else MIN_SPAN) (ru_span ru div 2)\<rparr>"

definition grow :: "rollup \<Rightarrow> rollup" where
  "grow ru = ru\<lparr>ru_span := min (ru_maxSpan ru) (ru_span ru * 2)\<rparr>"

text \<open>The range a step folds: its end, and whether there is anything in it.\<close>

definition step_range :: "int \<Rightarrow> int \<Rightarrow> int \<Rightarrow> int list \<Rightarrow> int \<times> bool" where
  "step_range lo cursor n bs = (case first_block lo cursor bs of
     None \<Rightarrow> (cursor, False) | Some b \<Rightarrow> (min cursor (b - 1 + n), True))"

text \<open>
  \<open>None\<close> is an exception (the caller logs it). A failing statement rolls the transaction back; a
  failing COMMIT leaves it done or not.
\<close>

definition step :: "bool \<Rightarrow> fault \<Rightarrow> worker_view \<Rightarrow> rollup \<times> explorer_db \<Rightarrow> step_result option \<times> rollup \<times> explorer_db" where
  "step lock f wv = (\<lambda>(ru, db).
     case f of QueryFails cancelled \<Rightarrow> (None, if cancelled then shrink ru else ru, db)
     | _ \<Rightarrow>
       (if \<not> lock then (Some Locked, ru, db)
        else case wv_cursor wv of None \<Rightarrow> (Some Idle, ru, db)
        | Some cursor \<Rightarrow>
            let lo = (case ex_cursor db of Some n \<Rightarrow> n | None \<Rightarrow> - 1) in
            if lo > cursor then (Some Ahead, ru\<lparr>ru_ahead := Some (lo, cursor)\<rparr>, db)
            else if lo = cursor then (Some Idle, ru, db)
            else
              let (hi, any) = step_range lo cursor (ru_span ru) (wv_blocks wv);
                  db' = \<lparr>ex_daily = (if any then fold_sql lo hi (wv_transfers wv) (ex_daily db) else ex_daily db),
                         ex_cursor = Some hi\<rparr>
              in case f of CommitFails happened \<Rightarrow> (None, ru, if happened then db' else db)
                 | _ \<Rightarrow> (Some (if hi < cursor then More else Idle), grow ru, db')))"

subsection \<open>The totals are the sums\<close>

definition totals_upto :: "int \<Rightarrow> transfer list \<Rightarrow> day_key \<Rightarrow> totals" where
  "totals_upto c ts k =
     (let r = filter (\<lambda>t. tr_block t \<le> c \<and> (tr_to t, tr_day t) = k) ts; s = filter (\<lambda>t. tr_block t \<le> c \<and> (tr_from t, tr_day t) = k) ts
      in \<lparr>tt_inValue = sum_list (map tr_value r), tt_outValue = sum_list (map tr_value s),
          tt_inCount = int (length r), tt_outCount = int (length s)\<rparr>)"

definition total_of :: "(day_key \<times> totals) list \<Rightarrow> day_key \<Rightarrow> totals" where
  "total_of daily k = (case map_of daily k of Some x \<Rightarrow> x | None \<Rightarrow> zero_totals)"

lemma plus_totals_laws [simp]: "plus_totals zero_totals a = a" "plus_totals a zero_totals = a"
  "plus_totals (plus_totals a b) c = plus_totals a (plus_totals b c)"
  by (simp_all add: plus_totals_def zero_totals_def)

lemma plus_totals_commute: "plus_totals a b = plus_totals b a" by (simp add: plus_totals_def)

definition key_sum :: "day_key \<Rightarrow> (day_key \<times> totals) list \<Rightarrow> totals" where
  "key_sum k rows = fold plus_totals (map snd (filter (\<lambda>r. fst r = k) rows)) zero_totals"

lemma fold_plus: "fold plus_totals xs a = plus_totals a (fold plus_totals xs zero_totals)"
proof (induction xs arbitrary: a)
  case (Cons x xs)
  have "fold plus_totals (x # xs) a = plus_totals (plus_totals x a) (fold plus_totals xs zero_totals)"
    using Cons [of "plus_totals x a"] by simp
  also have "\<dots> = plus_totals a (plus_totals x (fold plus_totals xs zero_totals))"
    using plus_totals_commute [of x a] by simp
  also have "\<dots> = plus_totals a (fold plus_totals xs x)" using Cons [of x] by simp
  finally show ?case by simp
qed simp

lemma key_sum_simps [simp]: "key_sum k [] = zero_totals"
  "key_sum k (r # rows) = (if fst r = k then plus_totals (snd r) (key_sum k rows) else key_sum k rows)"
  "key_sum k (rows @ rows') = plus_totals (key_sum k rows) (key_sum k rows')"
  by (simp_all add: key_sum_def fold_plus [of _ "snd r"]) (simp add: fold_plus [of _ "fold _ _ _"])

lemma key_sum_none: "\<forall>r\<in>set rows. fst r \<noteq> k \<Longrightarrow> key_sum k rows = zero_totals"
  by (induction rows) simp_all

lemma total_of_upsert: "total_of (upsert daily (k, x)) k' = (if k' = k then plus_totals (total_of daily k) x else total_of daily k')"
  by (auto simp: upsert_def total_of_def update_conv' split: option.split)

lemma total_of_upserts: "distinct (map fst rows) \<Longrightarrow> total_of (foldl upsert daily rows) k = plus_totals (total_of daily k) (key_sum k rows)"
proof (induction rows arbitrary: daily)
  case (Cons r rows)
  obtain j x where r: "r = (j, x)" by fastforce
  have "key_sum j rows = zero_totals" using Cons.prems r by (intro key_sum_none) auto
  then show ?case using Cons by (auto simp: r total_of_upsert)
qed simp

lemma map_fst_group: "map fst (group_sums rows) = remdups (map fst rows)"
  by (simp add: group_sums_def comp_def)

lemma key_sum_group: "key_sum k (group_sums rows) = key_sum k rows"
proof (cases "k \<in> set (map fst rows)")
  case True
  have "key_sum k (map (\<lambda>j. (j, key_sum j rows)) js) = (if k \<in> set js then key_sum k rows else zero_totals)" if "distinct js" for js
    using that by (induction js) auto
  from this [of "remdups (map fst rows)"] True show ?thesis by (simp add: group_sums_def key_sum_def)
next
  case False
  then have "key_sum k rows = zero_totals" by (intro key_sum_none) auto
  moreover have "set (map fst (group_sums rows)) = set (map fst rows)" by (simp add: map_fst_group)
  then have "key_sum k (group_sums rows) = zero_totals"
    using False by (intro key_sum_none) (auto simp: image_iff)
  ultimately show ?thesis by simp
qed

lemma total_of_fold: "total_of (fold_sql lo hi ts daily) k = plus_totals (total_of daily k) (key_sum k (concat (map sides (in_span lo hi ts))))"
  by (simp add: fold_sql_def total_of_upserts map_fst_group key_sum_group)

lemma key_sum_sides: "key_sum k (sides t) = plus_totals
    (if (tr_to t, tr_day t) = k then \<lparr>tt_inValue = tr_value t, tt_outValue = 0, tt_inCount = 1, tt_outCount = 0\<rparr> else zero_totals)
    (if (tr_from t, tr_day t) = k then \<lparr>tt_inValue = 0, tt_outValue = tr_value t, tt_inCount = 0, tt_outCount = 1\<rparr> else zero_totals)"
  by (auto simp: sides_def)

lemma totals_split:
  assumes "lo \<le> hi"
  shows "totals_upto hi ts k = plus_totals (totals_upto lo ts k) (key_sum k (concat (map sides (in_span lo hi ts))))"
proof (induction ts)
  case (Cons t ts)
  have step: "totals_upto c (t # ts) k = (if tr_block t \<le> c then plus_totals (key_sum k (sides t)) (totals_upto c ts k) else totals_upto c ts k)" for c
    by (auto simp: totals_upto_def key_sum_sides plus_totals_def zero_totals_def Let_def)
  have swap: "plus_totals a (plus_totals b c) = plus_totals b (plus_totals a c)" for a b c
    by (simp add: plus_totals_def)
  show ?case using Cons assms by (auto simp: step in_span_def swap)
qed (simp add: totals_upto_def in_span_def zero_totals_def plus_totals_def)

subsection \<open>What the worker promises\<close>

text \<open>Rows up to the cursor are there, do not change, and each has its block.\<close>

definition settled_view :: "transfer list \<Rightarrow> worker_view \<Rightarrow> bool" where
  "settled_view rows wv \<longleftrightarrow> (case wv_cursor wv of None \<Rightarrow> True
     | Some c \<Rightarrow> mset (filter (\<lambda>t. tr_block t \<le> c) (wv_transfers wv)) = mset (filter (\<lambda>t. tr_block t \<le> c) rows) \<and>
         (\<forall>t\<in>set rows. tr_block t \<le> c \<longrightarrow> tr_block t \<in> set (wv_blocks wv)))"

lemma totals_mset:
  assumes "mset (filter (\<lambda>t. tr_block t \<le> c) ts) = mset (filter (\<lambda>t. tr_block t \<le> c) rows)" "hi \<le> c"
  shows "totals_upto hi ts k = totals_upto hi rows k"
proof -
  have same: "mset (filter (\<lambda>t. tr_block t \<le> hi \<and> P t) ts) = mset (filter (\<lambda>t. tr_block t \<le> hi \<and> P t) rows)" for P
  proof -
    have "filter (\<lambda>t. tr_block t \<le> hi \<and> P t) xs = filter (\<lambda>t. tr_block t \<le> hi \<and> P t) (filter (\<lambda>t. tr_block t \<le> c) xs)" for xs
      using assms(2) by (auto intro!: filter_cong)
    then show ?thesis using assms(1) by (metis mset_filter)
  qed
  have sums: "sum_list (map f xs) = sum_list (map f ys)" if "mset xs = mset ys" for f :: "transfer \<Rightarrow> int" and xs ys
    using that by (metis mset_map sum_mset_sum_list)
  show ?thesis unfolding totals_upto_def Let_def using sums [OF same] mset_eq_length [OF same] by simp
qed

lemma first_block_None: "first_block lo hi bs = None \<Longrightarrow> b \<in> set bs \<Longrightarrow> lo < b \<Longrightarrow> \<not> b \<le> hi"
  by (auto simp: first_block_def Let_def filter_empty_conv split: if_splits)

lemma first_block_Some: "first_block lo hi bs = Some b \<Longrightarrow> lo < b \<and> b \<le> hi"
proof -
  assume "first_block lo hi bs = Some b"
  then have "b = Min (set (filter (\<lambda>b. lo < b \<and> b \<le> hi) bs))" "filter (\<lambda>b. lo < b \<and> b \<le> hi) bs \<noteq> []"
    by (auto simp: first_block_def Let_def split: if_splits)
  then have "b \<in> set (filter (\<lambda>b. lo < b \<and> b \<le> hi) bs)" by (metis List.finite_set Min_in set_empty)
  then show ?thesis by simp
qed

lemma step_range_bounds:
  assumes "step_range lo c n bs = (hi, any)" "lo < c" "1 \<le> n"
  shows "lo < hi" "hi \<le> c"
  using assms first_block_Some [of lo c bs] by (auto simp: step_range_def split: option.splits)

subsection \<open>Replicas\<close>

text \<open>The replicas' rollups by number, and the database they share.\<close>

record rollup_world =
  rw_replicas :: "nat \<Rightarrow> rollup"
  rw_db :: explorer_db

definition start_world :: "int \<Rightarrow> rollup_world" where
  "start_world maxSpan = \<lparr>rw_replicas = (\<lambda>_. new_rollup maxSpan), rw_db = \<lparr>ex_daily = [], ex_cursor = None\<rparr>\<rparr>"

type_synonym turn = "nat \<times> bool \<times> fault \<times> worker_view"

definition take_turn :: "turn \<Rightarrow> rollup_world \<Rightarrow> rollup_world" where
  "take_turn = (\<lambda>(i, lock, f, wv) w. case step lock f wv (rw_replicas w i, rw_db w) of
     (_, ru, db) \<Rightarrow> \<lparr>rw_replicas = (rw_replicas w)(i := ru), rw_db = db\<rparr>)"

definition rolled :: "explorer_db \<Rightarrow> int" where
  "rolled db = (case ex_cursor db of Some n \<Rightarrow> n | None \<Rightarrow> - 1)"

definition exact :: "transfer list \<Rightarrow> explorer_db \<Rightarrow> bool" where
  "exact rows db \<longleftrightarrow> (\<forall>k. total_of (ex_daily db) k = totals_upto (rolled db) rows k)"

text \<open>A cancelled query halves the span and a success doubles it, as the ingest loop's sizer does.\<close>

definition span_floor :: "rollup \<Rightarrow> int" where
  "span_floor ru = (if ru_maxSpan ru < MIN_SPAN then 1 else MIN_SPAN)"

definition span_ok :: "rollup \<Rightarrow> bool" where
  "span_ok ru \<longleftrightarrow> 1 \<le> ru_maxSpan ru \<and> span_floor ru \<le> ru_span ru \<and> ru_span ru \<le> ru_maxSpan ru"

interpretation rollup_span: span_control ru_span shrink grow span_ok span_floor ru_maxSpan
  by unfold_locales (auto simp: span_ok_def span_floor_def shrink_def grow_def MIN_SPAN_def)

lemma span_ok_pos: "span_ok ru \<Longrightarrow> 1 \<le> ru_span ru"
  using rollup_span.lo_pos [of ru] by (simp add: span_ok_def)

lemma span_ok_steps: "span_ok ru \<Longrightarrow> span_ok (grow ru)" "span_ok ru \<Longrightarrow> span_ok (shrink ru)"
  by (simp_all add: rollup_span.good_grow rollup_span.good_shrink)

text \<open>The four ways a step ends: nothing changed, or the next range folded once.\<close>

lemma step_cases:
  assumes "step lock f wv (ru, db) = (res, ru', db')"
  shows "db' = db \<or> (\<exists>c hi any. wv_cursor wv = Some c \<and> rolled db < c \<and> step_range (rolled db) c (ru_span ru) (wv_blocks wv) = (hi, any) \<and>
    db' = \<lparr>ex_daily = (if any then fold_sql (rolled db) hi (wv_transfers wv) (ex_daily db) else ex_daily db), ex_cursor = Some hi\<rparr>)"
  using assms unfolding step_def rolled_def [symmetric]
  by (auto simp: Let_def split: fault.splits option.splits if_splits prod.splits)

lemma step_span:
  assumes "step lock f wv (ru, db) = (res, ru', db')" "span_ok ru"
  shows "span_ok ru'" "ru_maxSpan ru' = ru_maxSpan ru"
proof -
  have "ru' = ru \<or> ru' = shrink ru \<or> ru' = grow ru \<or> (\<exists>a. ru' = ru\<lparr>ru_ahead := a\<rparr>)"
    using assms(1) unfolding step_def
    by (auto simp: Let_def split: fault.splits option.splits if_splits prod.splits)
  moreover have "span_ok (ru\<lparr>ru_ahead := a\<rparr>)" for a using assms(2) by (simp add: span_ok_def span_floor_def)
  ultimately have "span_ok ru' \<and> ru_maxSpan ru' = ru_maxSpan ru"
    using assms(2) span_ok_steps [of ru] by (elim disjE exE) (simp_all add: grow_def shrink_def)
  then show "span_ok ru'" "ru_maxSpan ru' = ru_maxSpan ru" by simp_all
qed

lemma step_exact:
  assumes "step lock f wv (ru, db) = (res, ru', db')" "span_ok ru" "settled_view rows wv" "exact rows db"
  shows "exact rows db'" "rolled db \<le> rolled db'"
proof -
  have "exact rows db' \<and> rolled db \<le> rolled db'"
    using step_cases [OF assms(1)]
  proof (elim disjE exE conjE)
    fix c hi any
    assume c: "wv_cursor wv = Some c" "rolled db < c" and rng: "step_range (rolled db) c (ru_span ru) (wv_blocks wv) = (hi, any)"
      and db': "db' = \<lparr>ex_daily = (if any then fold_sql (rolled db) hi (wv_transfers wv) (ex_daily db) else ex_daily db), ex_cursor = Some hi\<rparr>"
    define lo where "lo = rolled db"
    have bounds: "lo < hi" "hi \<le> c" using step_range_bounds [OF rng c(2) span_ok_pos [OF assms(2)]] by (simp_all add: lo_def)
    have view: "mset (filter (\<lambda>t. tr_block t \<le> c) (wv_transfers wv)) = mset (filter (\<lambda>t. tr_block t \<le> c) rows)"
      "\<forall>t\<in>set rows. tr_block t \<le> c \<longrightarrow> tr_block t \<in> set (wv_blocks wv)" using assms(3) c by (simp_all add: settled_view_def)
    have old: "total_of (ex_daily db) k = totals_upto lo rows k" for k using assms(4) unfolding exact_def lo_def by blast
    have "total_of (ex_daily db') k = totals_upto hi rows k" for k
    proof (cases any)
      case True
      have "total_of (ex_daily db') k = plus_totals (totals_upto lo rows k) (key_sum k (concat (map sides (in_span lo hi (wv_transfers wv)))))"
        using old [of k] True by (simp add: db' total_of_fold lo_def)
      also have "\<dots> = totals_upto hi (wv_transfers wv) k"
        using totals_split [of lo hi "wv_transfers wv" k] totals_mset [OF view(1), of lo k] bounds by simp
      finally show ?thesis using totals_mset [OF view(1) bounds(2)] by simp
    next
      case False
      then have none: "first_block lo c (wv_blocks wv) = None" "hi = c"
        using rng by (auto simp: step_range_def lo_def split: option.splits)
      then have "in_span lo hi rows = []" using view(2) first_block_None by (force simp: in_span_def filter_empty_conv)
      then have "totals_upto hi rows k = totals_upto lo rows k" using totals_split [of lo hi rows k] bounds by simp
      then show ?thesis using old [of k] False by (simp add: db')
    qed
    moreover have "rolled db' = hi" by (simp add: rolled_def db')
    ultimately show ?thesis using bounds unfolding exact_def lo_def by simp
  qed (use assms in simp)
  then show "exact rows db'" "rolled db \<le> rolled db'" by simp_all
qed

lemma turns_ok:
  assumes "\<forall>(i, lock, f, wv)\<in>set turns. settled_view rows wv" "exact rows (rw_db w)" "\<forall>i. span_ok (rw_replicas w i)"
  shows "exact rows (rw_db (fold take_turn turns w)) \<and> (\<forall>i. span_ok (rw_replicas (fold take_turn turns w) i)) \<and>
    rolled (rw_db w) \<le> rolled (rw_db (fold take_turn turns w)) \<and>
    (\<forall>i. ru_maxSpan (rw_replicas (fold take_turn turns w) i) = ru_maxSpan (rw_replicas w i))"
  using assms
proof (induction turns arbitrary: w)
  case (Cons t turns)
  obtain i lock f wv where t: "t = (i, lock, f, wv)" by (cases t)
  obtain res ru db where st: "step lock f wv (rw_replicas w i, rw_db w) = (res, ru, db)" by (cases "step lock f wv (rw_replicas w i, rw_db w)")
  have w': "take_turn t w = \<lparr>rw_replicas = (rw_replicas w)(i := ru), rw_db = db\<rparr>" by (simp add: take_turn_def t st)
  have view: "settled_view rows wv" using Cons.prems(1) t by auto
  have sp: "span_ok (rw_replicas w i)" using Cons.prems(3) by blast
  note X = step_exact [OF st sp view Cons.prems(2)] and S = step_span [OF st sp]
  have IH: "exact rows (rw_db (fold take_turn turns (take_turn t w))) \<and> (\<forall>i. span_ok (rw_replicas (fold take_turn turns (take_turn t w)) i)) \<and>
    rolled (rw_db (take_turn t w)) \<le> rolled (rw_db (fold take_turn turns (take_turn t w))) \<and>
    (\<forall>j. ru_maxSpan (rw_replicas (fold take_turn turns (take_turn t w)) j) = ru_maxSpan (rw_replicas (take_turn t w) j))"
    using Cons.prems X(1) S(1) by (intro Cons.IH) (auto simp: w')
  then show ?case using X(2) S(2) by (auto simp: w')
qed simp

text \<open>
  C7: The totals of the explorer are exact. Whatever turns any number of replicas take, whichever of their
  statements and commits fail or lose their answer and however the worker moves on meanwhile, each
  address's totals of each day are the sums and counts of exactly its transfers up to the rollup
  cursor, none folded twice or left out, the cursor never goes back, and the span of each range stays
  between its floor and the largest span.
\<close>

theorem rollup_exact:
  assumes "\<forall>(i, lock, f, wv)\<in>set turns. settled_view rows wv" "\<forall>t\<in>set rows. 0 \<le> tr_block t" "1 \<le> maxSpan"
    "w = fold take_turn turns (start_world maxSpan)" "w' = fold take_turn later w" "\<forall>(i, lock, f, wv)\<in>set later. settled_view rows wv"
  shows "total_of (ex_daily (rw_db w)) k = totals_upto (rolled (rw_db w)) rows k \<and>
    rolled (rw_db w) \<le> rolled (rw_db w') \<and> (if maxSpan < MIN_SPAN then 1 else MIN_SPAN) \<le> ru_span (rw_replicas w i) \<and> ru_span (rw_replicas w i) \<le> maxSpan"
proof -
  have "filter (\<lambda>t. tr_block t \<le> - 1 \<and> P t) rows = []" for P using assms(2) by (force simp: filter_empty_conv)
  then have "totals_upto (- 1) rows j = zero_totals" for j by (simp add: totals_upto_def zero_totals_def)
  then have start: "exact rows (rw_db (start_world maxSpan))" by (simp add: exact_def start_world_def rolled_def total_of_def)
  have spans: "\<forall>i. span_ok (rw_replicas (start_world maxSpan) i)" using assms(3) by (simp add: start_world_def new_rollup_def span_ok_def span_floor_def)
  note T = turns_ok [OF assms(1) start spans, folded assms(4)]
  have "rolled (rw_db w) \<le> rolled (rw_db w')" using turns_ok [OF assms(6)] T assms(5) by blast
  moreover have "ru_maxSpan (rw_replicas w i) = maxSpan" using T by (simp add: start_world_def new_rollup_def)
  moreover have "total_of (ex_daily (rw_db w)) k = totals_upto (rolled (rw_db w)) rows k" using T unfolding exact_def by blast
  moreover have "span_ok (rw_replicas w i)" using T by blast
  ultimately show ?thesis by (simp add: span_ok_def span_floor_def)
qed

definition sample_transfer :: transfer where
  "sample_transfer = \<lparr>tr_block = 3, tr_from = 1, tr_to = 2, tr_value = 9, tr_day = ''2026-05-15''\<rparr>"

definition sample_view :: worker_view where
  "sample_view = \<lparr>wv_cursor = Some 5, wv_blocks = [3], wv_transfers = [sample_transfer]\<rparr>"

theorem rollup_exact_witness:
  "total_of (ex_daily (rw_db (fold take_turn [(0, True, CommitFails True, sample_view), (1, True, NoFault, sample_view)] (start_world 2)))) (2, ''2026-05-15'') =
    \<lparr>tt_inValue = 9, tt_outValue = 0, tt_inCount = 1, tt_outCount = 0\<rparr>"
proof -
  define ts where "ts = [(0 :: nat, True, CommitFails True, sample_view), (1, True, NoFault, sample_view)]"
  have views: "\<forall>(i, lock, f, wv)\<in>set ts. settled_view [sample_transfer] wv"
    by (simp add: ts_def settled_view_def sample_view_def sample_transfer_def)
  have blocks: "\<forall>t\<in>set [sample_transfer]. 0 \<le> tr_block t" by (simp add: sample_transfer_def)
  have cur: "rolled (rw_db (fold take_turn ts (start_world 2))) = 5"
    by (simp add: ts_def take_turn_def start_world_def step_def new_rollup_def Let_def sample_view_def step_range_def first_block_def rolled_def)
  show ?thesis
    using rollup_exact [OF views blocks _ refl refl, of 2 "[]" "(2, ''2026-05-15'')"]
    unfolding ts_def [symmetric] cur by (simp add: totals_upto_def sample_transfer_def)
qed

lemma step_advances:
  assumes "wv_cursor wv = Some c" "rolled db < c" "span_ok ru"
  obtains res ru' db' where "step True NoFault wv (ru, db) = (res, ru', db')" "rolled db < rolled db'" "rolled db' \<le> c" "span_ok ru'"
proof -
  obtain hi any where rng: "step_range (rolled db) c (ru_span ru) (wv_blocks wv) = (hi, any)" by fastforce
  have bounds: "rolled db < hi" "hi \<le> c" using step_range_bounds [OF rng assms(2) span_ok_pos [OF assms(3)]] by simp_all
  have "step True NoFault wv (ru, db) = (Some (if hi < c then More else Idle), grow ru,
      \<lparr>ex_daily = (if any then fold_sql (rolled db) hi (wv_transfers wv) (ex_daily db) else ex_daily db), ex_cursor = Some hi\<rparr>)"
    using assms(1,2) rng by (simp add: step_def rolled_def [symmetric] Let_def)
  then show thesis using that bounds span_ok_steps(1) [OF assms(3)] by (simp add: rolled_def)
qed

text \<open>
  C38: The rollup catches up: as long as nothing fails, a replica that keeps stepping reaches the worker's
  cursor, after at most as many steps as there were blocks to go.
\<close>

theorem rollup_catches_up:
  assumes "wv_cursor wv = Some c" "rolled (rw_db w) \<le> c" "span_ok (rw_replicas w i)"
  shows "\<exists>n \<le> nat (c - rolled (rw_db w)). rolled (rw_db ((take_turn (i, True, NoFault, wv) ^^ n) w)) = c"
proof -
  show ?thesis using assms(2,3)
  proof (induction "nat (c - rolled (rw_db w))" arbitrary: w rule: less_induct)
    case less
    show ?case
    proof (cases "rolled (rw_db w) = c")
      case True
      then show ?thesis by (intro exI [of _ 0]) simp
    next
      case False
      then have lt: "rolled (rw_db w) < c" using less.prems by simp
      obtain res ru db where st: "step True NoFault wv (rw_replicas w i, rw_db w) = (res, ru, db)"
        "rolled (rw_db w) < rolled db" "rolled db \<le> c" "span_ok ru" using step_advances [OF assms(1) lt less.prems(2)] by blast
      define w' where "w' = take_turn (i, True, NoFault, wv) w"
      have w': "rw_db w' = db" "rw_replicas w' i = ru" by (simp_all add: w'_def take_turn_def st(1))
      have "nat (c - rolled (rw_db w')) < nat (c - rolled (rw_db w))" using st lt by (simp add: w')
      from less.hyps [OF this] st w' obtain n where
        n: "n \<le> nat (c - rolled db)" "rolled (rw_db ((take_turn (i, True, NoFault, wv) ^^ n) w')) = c" by auto
      then have "rolled (rw_db ((take_turn (i, True, NoFault, wv) ^^ Suc n) w)) = c"
        by (simp add: w'_def funpow_swap1)
      moreover have "Suc n \<le> nat (c - rolled (rw_db w))" using n(1) st(2) lt by linarith
      ultimately show ?thesis by blast
    qed
  qed
qed

theorem rollup_catches_up_witness:
  "\<exists>n\<le>6. rolled (rw_db ((take_turn (0, True, NoFault, sample_view) ^^ n) (start_world 2))) = 5"
  using rollup_catches_up [of sample_view 5 "start_world 2" 0]
  by (simp add: sample_view_def start_world_def new_rollup_def rolled_def span_ok_def span_floor_def MIN_SPAN_def)

end
