(* ===== verification/Window.thy ===== *)
theory Window
  imports Hub "HOL-Library.Multiset"
begin

text \<open>
  \<open>explorer/lib/window.ts\<close>: the rolling minute behind the headline, by block time. Values are exact
  integers of wei; the movements a second are an exact rational, where the code rounds a double.
\<close>

record window_move = move +
  wm_raw :: int

record held_move = window_move +
  hm_n :: int
  hm_t :: int

record window_block =
  wb_n :: int
  wb_t :: int
  wb_moves :: "window_move list"

record rolling =
  rw_moves :: "held_move list"
  rw_newest :: int
  rw_first :: "int option"
  rw_head :: "int option"
  rw_span :: int

definition new_window :: "int \<Rightarrow> rolling" where
  "new_window spanSec = \<lparr>rw_moves = [], rw_newest = 0, rw_first = None, rw_head = None, rw_span = spanSec\<rparr>"

definition hold :: "window_block \<Rightarrow> window_move \<Rightarrow> held_move" where
  "hold b m = \<lparr>mv_tx = mv_tx m, mv_li = mv_li m, mv_from = mv_from m, mv_to = mv_to m, mv_fromName = mv_fromName m,
     mv_toName = mv_toName m, mv_value = mv_value m, mv_lane = mv_lane m, wm_raw = wm_raw m, hm_n = wb_n b, hm_t = wb_t b\<rparr>"

definition add_block :: "window_block \<Rightarrow> rolling \<Rightarrow> rolling" where
  "add_block b w =
     (let newest = max (rw_newest w) (wb_t b);
          floor_t = newest - rw_span w
      in w\<lparr>rw_moves := dropWhile (\<lambda>m. hm_t m \<le> floor_t) (rw_moves w @ map (hold b) (wb_moves b)),
           rw_newest := newest,
           rw_head := (if wb_moves b = [] then rw_head w
                       else Some (max (case rw_head w of Some t \<Rightarrow> t | None \<Rightarrow> 0) (wb_t b))),
           rw_first := (case rw_first w of Some t \<Rightarrow> Some t | None \<Rightarrow> Some (wb_t b))\<rparr>)"

text \<open>\<open>lanes[l] = (lanes[l] ?? 0) + 1\<close>; an empty lane text counts as none.\<close>

definition count_lane :: "held_move \<Rightarrow> (string \<times> nat) list \<Rightarrow> (string \<times> nat) list" where
  "count_lane m lanes = (case truthy (mv_lane m) of None \<Rightarrow> lanes
     | Some l \<Rightarrow> map_set l ((case map_of lanes l of Some k \<Rightarrow> k | None \<Rightarrow> 0) + 1) lanes)"

definition best_of_tx :: "held_move \<Rightarrow> (string \<times> held_move) list \<Rightarrow> (string \<times> held_move) list" where
  "best_of_tx m perTx = (case map_of perTx (mv_tx m) of
       Some best \<Rightarrow> if wm_raw m > wm_raw best then map_set (mv_tx m) m perTx else perTx
     | None \<Rightarrow> map_set (mv_tx m) m perTx)"

definition to_largest :: "held_move \<Rightarrow> largest" where
  "to_largest m = \<lparr>mv_tx = mv_tx m, mv_li = mv_li m, mv_from = mv_from m, mv_to = mv_to m,
     mv_fromName = truthy (mv_fromName m), mv_toName = truthy (mv_toName m), mv_value = mv_value m, mv_lane = mv_lane m,
     lg_n = hm_n m, lg_t = hm_t m\<rparr>"

definition top_moves :: "held_move list \<Rightarrow> held_move list" where
  "top_moves ms = take 5 (sort_key (\<lambda>m. - wm_raw m) (map snd (fold best_of_tx ms [])))"

definition per_second :: "nat \<Rightarrow> int \<Rightarrow> rat" where
  "per_second n s = of_int ((20 * int n + s) div (2 * s)) / 10"

definition stats :: "int \<Rightarrow> rolling \<Rightarrow> stats_msg" where
  "stats now w =
     (let seen = (case rw_first w of None \<Rightarrow> 1 | Some t \<Rightarrow> rw_newest w - t);
          secs = max 1 (min (rw_span w) seen)
      in \<lparr>sm_count = length (rw_moves w), sm_usdc = unitsToDecimal (sum_list (map wm_raw (rw_moves w))) 18,
          sm_perSec = per_second (length (rw_moves w)) secs, sm_lanes = fold count_lane (rw_moves w) [],
          sm_largest = map to_largest (top_moves (rw_moves w)), sm_headT = rw_head w, sm_now = now\<rparr>)"

subsection \<open>The window holds the last minute\<close>

definition held_of :: "window_block list \<Rightarrow> held_move list" where
  "held_of bs = concat (map (\<lambda>b. map (hold b) (wb_moves b)) bs)"

definition newest_time :: "window_block list \<Rightarrow> int" where
  "newest_time bs = fold (\<lambda>b t. max t (wb_t b)) bs 0"

lemma held_of_simps [simp]: "held_of [] = []" "held_of (bs @ [b]) = held_of bs @ map (hold b) (wb_moves b)"
  by (simp_all add: held_of_def)

lemma newest_time_snoc: "newest_time [] = 0" "newest_time (bs @ [b]) = max (newest_time bs) (wb_t b)"
  by (simp_all add: newest_time_def)

lemma held_times: "m \<in> set (held_of bs) \<Longrightarrow> \<exists>b\<in>set bs. hm_t m = wb_t b"
  by (auto simp: held_of_def hold_def)

lemma sorted_held: "sorted (map wb_t bs) \<Longrightarrow> sorted (map hm_t (held_of bs))"
proof (induction bs rule: rev_induct)
  case (snoc b bs)
  moreover have "map hm_t (map (hold b) (wb_moves b)) = replicate (length (wb_moves b)) (wb_t b)"
    by (simp add: hold_def comp_def map_replicate_const)
  ultimately show ?case using held_times [of _ bs] by (fastforce simp: sorted_append)
qed simp

lemma dropWhile_sorted: "sorted (map f xs) \<Longrightarrow> dropWhile (\<lambda>x. f x \<le> k) xs = filter (\<lambda>x. k < f x) xs" for k :: int
proof (induction xs)
  case (Cons x xs)
  show ?case
  proof (cases "f x \<le> k")
    case False
    then have "\<forall>y\<in>set xs. k < f y" using Cons.prems by auto
    then show ?thesis using False by (simp add: filter_id_conv)
  qed (use Cons in simp)
qed simp

lemma window_holds:
  assumes "sorted (map wb_t bs)"
  shows "rw_newest (fold add_block bs (new_window s)) = newest_time bs \<and>
    rw_span (fold add_block bs (new_window s)) = s \<and>
    rw_moves (fold add_block bs (new_window s)) = filter (\<lambda>m. newest_time bs - s < hm_t m) (held_of bs) \<and>
    rw_first (fold add_block bs (new_window s)) = (case bs of [] \<Rightarrow> None | b # _ \<Rightarrow> Some (wb_t b))"
  using assms
proof (induction bs rule: rev_induct)
  case (snoc b bs)
  define w where "w = fold add_block bs (new_window s)"
  have IH: "rw_newest w = newest_time bs" "rw_span w = s"
    "rw_moves w = filter (\<lambda>m. newest_time bs - s < hm_t m) (held_of bs)"
    "rw_first w = (case bs of [] \<Rightarrow> None | b # _ \<Rightarrow> Some (wb_t b))"
    using snoc by (simp_all add: w_def sorted_append)
  have step: "fold add_block (bs @ [b]) (new_window s) = add_block b w" by (simp add: w_def)
  define k where "k = newest_time (bs @ [b]) - s"
  have mono: "newest_time bs - s \<le> k" by (simp add: k_def newest_time_snoc)
  have sorted: "sorted (map hm_t (held_of (bs @ [b])))" by (rule sorted_held [OF snoc.prems])
  have "sorted (map hm_t (rw_moves w @ map (hold b) (wb_moves b)))"
    using sorted by (auto simp: IH sorted_append sorted_filter)
  from dropWhile_sorted [OF this, of k]
  have "dropWhile (\<lambda>m. hm_t m \<le> k) (rw_moves w @ map (hold b) (wb_moves b)) = filter (\<lambda>m. k < hm_t m) (held_of (bs @ [b]))"
    using mono by (auto simp: IH intro!: filter_cong)
  then have moves: "rw_moves (add_block b w) = filter (\<lambda>m. k < hm_t m) (held_of (bs @ [b]))"
    by (simp add: add_block_def IH k_def newest_time_snoc Let_def)
  have other: "rw_newest (add_block b w) = newest_time (bs @ [b])" "rw_span (add_block b w) = s"
    by (simp_all add: add_block_def IH newest_time_snoc Let_def)
  have "rw_first (add_block b w) = (case bs @ [b] of [] \<Rightarrow> None | b # _ \<Rightarrow> Some (wb_t b))"
    by (cases bs) (simp_all add: add_block_def IH Let_def)
  then show ?case unfolding step using other moves k_def by simp
qed (simp_all add: new_window_def newest_time_def)

subsection \<open>The largest movements\<close>

text \<open>\<open>best ms tx\<close>: the first of the transaction's movements that no other exceeds.\<close>

definition best_in :: "held_move list \<Rightarrow> string \<times> held_move \<Rightarrow> bool" where
  "best_in ms e \<longleftrightarrow> snd e \<in> set ms \<and> mv_tx (snd e) = fst e \<and> (\<forall>m\<in>set ms. mv_tx m = fst e \<longrightarrow> wm_raw m \<le> wm_raw (snd e))"

definition covers :: "held_move list \<Rightarrow> (string \<times> held_move) list \<Rightarrow> bool" where
  "covers ms perTx \<longleftrightarrow> distinct (map fst perTx) \<and> fst ` set perTx = mv_tx ` set ms \<and> (\<forall>e\<in>set perTx. best_in ms e)"

lemma best_in_other: "best_in ms e \<Longrightarrow> fst e \<noteq> mv_tx m \<Longrightarrow> best_in (ms @ [m]) e"
  by (auto simp: best_in_def)

lemma best_in_kept: "best_in ms e \<Longrightarrow> fst e = mv_tx m \<Longrightarrow> wm_raw m \<le> wm_raw (snd e) \<Longrightarrow> best_in (ms @ [m]) e"
  by (auto simp: best_in_def)

lemma best_in_new: "best_in ms (mv_tx m, b) \<Longrightarrow> wm_raw b \<le> wm_raw m \<Longrightarrow> best_in (ms @ [m]) (mv_tx m, m)"
  by (fastforce simp: best_in_def)

lemma covers_step:
  assumes "covers ms perTx"
  shows "covers (ms @ [m]) (best_of_tx m perTx)"
proof (cases "map_of perTx (mv_tx m)")
  case None
  then have new: "mv_tx m \<notin> fst ` set perTx" by (simp add: map_of_eq_None_iff)
  then have upd: "map_set (mv_tx m) m perTx = perTx @ [(mv_tx m, m)]"
    by (induction perTx) auto
  have "best_in (ms @ [m]) e" if "e \<in> set perTx" for e
  proof (rule best_in_other)
    show "fst e \<noteq> mv_tx m" using new that by (metis image_eqI)
  qed (use assms that in \<open>simp add: covers_def\<close>)
  moreover have "mv_tx x \<noteq> mv_tx m" if "x \<in> set ms" for x
    using assms new that unfolding covers_def by (metis image_eqI)
  then have "best_in (ms @ [m]) (mv_tx m, m)" by (auto simp: best_in_def)
  ultimately show ?thesis using assms new None by (auto simp: covers_def best_of_tx_def upd)
next
  case (Some b)
  then have mem: "(mv_tx m, b) \<in> set perTx" by (rule map_of_SomeD)
  have d: "distinct (map fst perTx)" and b: "best_in ms (mv_tx m, b)" using assms mem by (auto simp: covers_def)
  define new where "new = map_set (mv_tx m) m perTx"
  have keys: "map fst new = map fst perTx" 
    using mem unfolding new_def by (induction perTx) (auto split: if_splits)
  have entries: "e = (mv_tx m, m) \<or> (e \<in> set perTx \<and> fst e \<noteq> mv_tx m)" if e: "e \<in> set new" for e
  proof -
    have dn: "distinct (map fst new)" unfolding keys by (rule d)
    have "map_of new (fst e) = Some (snd e)" using e by (intro map_of_is_SomeI [OF dn]) simp
    then have "((map_of perTx)(mv_tx m \<mapsto> m)) (fst e) = Some (snd e)" by (simp add: new_def update_conv')
    then show ?thesis
      by (cases "fst e = mv_tx m") (auto simp: prod_eq_iff dest: map_of_SomeD)
  qed
  have eq: "fst ` set perTx = mv_tx ` set ms" using assms by (simp add: covers_def)
  have "mv_tx m \<in> fst ` set perTx" using mem by (metis fst_conv image_eqI)
  then have img: "fst ` set perTx = mv_tx ` set (ms @ [m])" unfolding eq by (simp add: insert_absorb)
  show ?thesis
  proof (cases "wm_raw m > wm_raw b")
    case True
    have "best_in (ms @ [m]) e" if "e \<in> set new" for e
      using entries [OF that] best_in_new [OF b] True best_in_other [of ms e m] assms by (auto simp: covers_def)
    moreover have "fst ` set new = mv_tx ` set (ms @ [m])" using img keys by (metis list.set_map)
    ultimately show ?thesis using d keys Some True by (simp add: covers_def best_of_tx_def new_def [symmetric])
  next
    case False
    have "best_in (ms @ [m]) e" if e: "e \<in> set perTx" for e
    proof (cases "fst e = mv_tx m")
      case True
      then have "e = (mv_tx m, b)" using d e mem by (metis eq_key_imp_eq_value prod.collapse)
      then show ?thesis using b False by (intro best_in_kept) simp_all
    next
      case neq: False
      then show ?thesis using assms e by (intro best_in_other) (auto simp: covers_def)
    qed
    then show ?thesis using d img Some False by (simp add: covers_def best_of_tx_def)
  qed
qed

lemma covers_fold: "covers ms (fold best_of_tx ms [])"
proof (induction ms rule: rev_induct)
  case (snoc m ms)
  then show ?case using covers_step by simp
qed (simp add: covers_def)

lemma top_moves_props:
  assumes "five = top_moves ms"
  shows "length five \<le> 5" "distinct (map mv_tx five)" "set five \<subseteq> set ms" "sorted (map (\<lambda>m. - wm_raw m) five)"
    "\<And>m. m \<in> set ms \<Longrightarrow> (\<exists>b\<in>set five. mv_tx b = mv_tx m \<and> wm_raw m \<le> wm_raw b) \<or>
       (length five = 5 \<and> (\<forall>b\<in>set five. wm_raw m \<le> wm_raw b))"
proof -
  define perTx where "perTx = fold best_of_tx ms []"
  define al where "al = sort_key (\<lambda>m. - wm_raw m) (map snd perTx)"
  have cov: "covers ms perTx" unfolding perTx_def by (rule covers_fold)
  have five: "five = take 5 al" by (simp add: assms top_moves_def al_def perTx_def)
  have txs: "map mv_tx (map snd perTx) = map fst perTx" using cov by (auto simp: covers_def best_in_def)
  have "distinct (map mv_tx (map snd perTx))" unfolding txs using cov by (simp add: covers_def)
  moreover have "mset (map mv_tx al) = mset (map mv_tx (map snd perTx))" unfolding al_def by (metis mset_map mset_sort)
  ultimately have dis: "distinct (map mv_tx al)" by (metis mset_eq_imp_distinct_iff)
  have set_al: "set al = snd ` set perTx" by (simp add: al_def)
  have srt: "sorted (map (\<lambda>m. - wm_raw m) al)" by (simp add: al_def)
  show "length five \<le> 5" by (simp add: five)
  show "distinct (map mv_tx five)" unfolding five take_map [symmetric] using dis by (rule distinct_take)
  show "set five \<subseteq> set ms" 
  proof
    fix x assume "x \<in> set five"
    then obtain e where "e \<in> set perTx" "x = snd e" using set_al set_take_subset [of 5 al] by (auto simp: five)
    then show "x \<in> set ms" using cov by (auto simp: covers_def best_in_def)
  qed
  show "sorted (map (\<lambda>m. - wm_raw m) five)" unfolding five take_map [symmetric] using srt by (rule sorted_wrt_take)
  fix m assume m: "m \<in> set ms"
  then have "mv_tx m \<in> fst ` set perTx" using cov by (auto simp: covers_def)
  then obtain b where b: "(mv_tx m, b) \<in> set perTx" by force
  then have "best_in ms (mv_tx m, b)" using cov by (simp add: covers_def)
  then have best: "mv_tx b = mv_tx m" "wm_raw m \<le> wm_raw b" using m by (simp_all add: best_in_def)
  have "b \<in> set al" using b set_al by force
  then consider "b \<in> set five" | "b \<in> set (drop 5 al)" unfolding five by (metis append_take_drop_id in_set_conv_decomp Un_iff set_append)
  then show "(\<exists>b\<in>set five. mv_tx b = mv_tx m \<and> wm_raw m \<le> wm_raw b) \<or> (length five = 5 \<and> (\<forall>b\<in>set five. wm_raw m \<le> wm_raw b))"
  proof cases
    case 2
    have "sorted (map (\<lambda>m. - wm_raw m) (take 5 al @ drop 5 al))" using srt by simp
    then have "\<forall>x\<in>set five. wm_raw b \<le> wm_raw x" using 2 unfolding map_append sorted_append by (auto simp: five)
    moreover have "length five = 5" using 2 by (cases "length al \<le> 5") (auto simp: five)
    ultimately show ?thesis using best by fastforce
  qed (use best in blast)
qed

lemma count_lane_step:
  "map_of (count_lane m acc) l = (if truthy (mv_lane m) = Some l then Some ((case map_of acc l of Some k \<Rightarrow> k | None \<Rightarrow> 0) + 1) else map_of acc l)"
  by (cases "truthy (mv_lane m)") (auto simp: count_lane_def update_conv')

lemma count_lane_count:
  "map_of (fold count_lane ms acc) l =
     (let k = length (filter (\<lambda>m. truthy (mv_lane m) = Some l) ms) in
      case map_of acc l of None \<Rightarrow> if k = 0 then None else Some k | Some j \<Rightarrow> Some (j + k))"
proof (induction ms arbitrary: acc)
  case (Cons m ms)
  show ?case
    by (cases "truthy (mv_lane m)"; cases "map_of acc l") (simp_all add: Cons count_lane_step Let_def)
qed (simp split: option.split)

text \<open>
  C37: The headline counts the chain's last minute: with blocks added in the order of their times, the
  movements counted are exactly those less than the span before the newest block, the sum is their exact
  sum, each lane's number is how many of them carry it, and the largest five are of distinct
  transactions, in order, and no movement left out exceeds one shown.
\<close>

theorem window_stats_exact:
  assumes "sorted (map wb_t bs)" "st = stats now (fold add_block bs (new_window s))"
    "ms = filter (\<lambda>m. newest_time bs - s < hm_t m) (held_of bs)"
  shows "sm_count st = length ms \<and> sm_usdc st = unitsToDecimal (sum_list (map wm_raw ms)) 18 \<and>
    (\<forall>l. map_of (sm_lanes st) l = (let k = length (filter (\<lambda>m. truthy (mv_lane m) = Some l) ms) in if k = 0 then None else Some k)) \<and>
    (\<exists>five. sm_largest st = map to_largest five \<and> set five \<subseteq> set ms \<and> length five \<le> 5 \<and> distinct (map mv_tx five) \<and>
       sorted (map (\<lambda>m. - wm_raw m) five) \<and>
       (\<forall>m\<in>set ms. (\<exists>b\<in>set five. mv_tx b = mv_tx m \<and> wm_raw m \<le> wm_raw b) \<or>
                    (length five = 5 \<and> (\<forall>b\<in>set five. wm_raw m \<le> wm_raw b))))"
proof -
  define w where "w = fold add_block bs (new_window s)"
  have moves: "rw_moves w = ms" using window_holds [OF assms(1)] assms(3) by (simp add: w_def)
  have st: "st = stats now w" using assms(2) by (simp add: w_def)
  have "sm_largest st = map to_largest (top_moves ms)" by (simp add: st stats_def Let_def moves)
  then have "\<exists>five. sm_largest st = map to_largest five \<and> set five \<subseteq> set ms \<and> length five \<le> 5 \<and> distinct (map mv_tx five) \<and>
       sorted (map (\<lambda>m. - wm_raw m) five) \<and>
       (\<forall>m\<in>set ms. (\<exists>b\<in>set five. mv_tx b = mv_tx m \<and> wm_raw m \<le> wm_raw b) \<or>
                    (length five = 5 \<and> (\<forall>b\<in>set five. wm_raw m \<le> wm_raw b)))"
    using top_moves_props [of "top_moves ms" ms, OF refl] by (intro exI [of _ "top_moves ms"]) simp
  moreover have "map_of (sm_lanes st) l = (let k = length (filter (\<lambda>m. truthy (mv_lane m) = Some l) ms) in if k = 0 then None else Some k)" for l
    by (simp add: st stats_def Let_def moves count_lane_count)
  ultimately show ?thesis by (simp add: st stats_def Let_def moves)
qed

definition sample_window_move :: "string \<Rightarrow> int \<Rightarrow> window_move" where
  "sample_window_move tx raw = \<lparr>mv_tx = tx, mv_li = 0, mv_from = ''0xa'', mv_to = ''0xb'', mv_fromName = None, mv_toName = None,
     mv_value = unitsToDecimal raw 18, mv_lane = Some ''swap'', wm_raw = raw\<rparr>"

definition sample_window :: "window_block list" where
  "sample_window = [\<lparr>wb_n = 1, wb_t = 10, wb_moves = [sample_window_move ''t1'' 5]\<rparr>,
     \<lparr>wb_n = 2, wb_t = 100, wb_moves = [sample_window_move ''t2'' 7, sample_window_move ''t3'' 9]\<rparr>]"

theorem window_stats_exact_witness:
  "sm_count (stats 0 (fold add_block sample_window (new_window 60))) = 2 \<and>
   map_of (sm_lanes (stats 0 (fold add_block sample_window (new_window 60)))) ''swap'' = Some 2"
proof -
  have times: "sorted (map wb_t sample_window)" by (simp add: sample_window_def)
  have "filter (\<lambda>m. newest_time sample_window - 60 < hm_t m) (held_of sample_window) =
      map (hold (sample_window ! 1)) (wb_moves (sample_window ! 1))"
    by (simp add: sample_window_def newest_time_def held_of_def hold_def)
  then show ?thesis
    using window_stats_exact [OF times refl refl, of 0 60]
    by (simp add: sample_window_def hold_def sample_window_move_def truthy_def)
qed

end
