(* ===== verification/Tailer.thy ===== *)
theory Tailer
  imports Window "HOL-Library.Product_Lexorder"
begin

text \<open>
  \<open>explorer/lib/release.ts\<close> and \<open>tailer.ts\<close>: how far the tape may go, and the loop that reads the
  released movements from the worker's tables and hands them to the hub; then the whole live path from
  those tables to the viewers' tapes. A query sees a snapshot of the database or fails. Cycle timings
  and log lines are left out.
\<close>

subsection \<open>Release\<close>

text \<open>The insights cursor is absent when lanes are off, and empty when they have not started.\<close>

definition releaseTo :: "int option \<Rightarrow> int option option \<Rightarrow> int option \<Rightarrow> int option" where
  "releaseTo cursor insightsCursor heldThrough =
     (case cursor of None \<Rightarrow> None
      | Some c \<Rightarrow> (case insightsCursor of None \<Rightarrow> Some c
        | Some i \<Rightarrow> Some (max (min (case i of Some n \<Rightarrow> n | None \<Rightarrow> - 1) c)
                             (min (case heldThrough of Some n \<Rightarrow> n | None \<Rightarrow> - 1) c))))"

lemma releaseTo_bound: "releaseTo cursor i held = Some to \<Longrightarrow> \<exists>c. cursor = Some c \<and> to \<le> c"
  by (auto simp: releaseTo_def split: option.splits)

text \<open>With lanes on, a block waits for its lane but never longer than the hold.\<close>

lemma releaseTo_waits:
  "releaseTo (Some c) (Some i) held = Some to \<Longrightarrow> n \<le> c \<Longrightarrow>
   n \<le> to \<longleftrightarrow> n \<le> (case i of Some k \<Rightarrow> k | None \<Rightarrow> - 1) \<or> n \<le> (case held of Some k \<Rightarrow> k | None \<Rightarrow> - 1)"
  by (auto simp: releaseTo_def)

subsection \<open>What the queries read\<close>

record move_row =
  mr_n :: int
  mr_t :: int
  mr_tx :: string
  mr_li :: nat
  mr_f :: string
  mr_r :: string
  mr_v :: int
  mr_lane :: "string option"

text \<open>
  A snapshot: the worker's cursors, its blocks with the time each was stored (ms), the joined rows of
  the transfer table, and the database's clock.
\<close>

record archive =
  ar_cursor :: "int option"
  ar_insightsCursor :: "int option"
  ar_blocks :: "(int \<times> int) list"
  ar_rows :: "move_row list"
  ar_now :: int

definition MAX_GAP :: int where "MAX_GAP = 600"
definition CATCHUP :: int where "CATCHUP = 150"
definition MAX_ROWS :: nat where "MAX_ROWS = 50000"

record tailer =
  tl_lastReleased :: "int option"
  tl_window :: rolling
  tl_holdMs :: int
  tl_lanes :: bool

definition new_tailer :: "int \<Rightarrow> bool \<Rightarrow> tailer" where
  "new_tailer holdMs lanes = \<lparr>tl_lastReleased = None, tl_window = new_window 60, tl_holdMs = holdMs, tl_lanes = lanes\<rparr>"

definition max_opt :: "int list \<Rightarrow> int option" where
  "max_opt ns = fold (\<lambda>n acc. case acc of None \<Rightarrow> Some n | Some m \<Rightarrow> Some (max m n)) ns None"

definition target :: "tailer \<Rightarrow> archive \<Rightarrow> int option \<times> int option" where
  "target ta db =
     (let released = (case tl_lastReleased ta of Some n \<Rightarrow> n | None \<Rightarrow> - 1);
          held = max_opt (map fst (filter (\<lambda>(n, stored). released < n \<and> stored \<le> ar_now db - tl_holdMs ta) (ar_blocks db)))
      in (releaseTo (ar_cursor db) (if tl_lanes ta then Some (ar_insightsCursor db) else None) held, ar_cursor db))"

definition row_order :: "move_row \<Rightarrow> int \<times> nat" where
  "row_order r = (mr_n r, mr_li r)"

definition read_moves :: "bool \<Rightarrow> int \<Rightarrow> int \<Rightarrow> archive \<Rightarrow> move_row list" where
  "read_moves lanes lo hi db =
     map (\<lambda>r. if lanes then r else r\<lparr>mr_lane := None\<rparr>)
       (take MAX_ROWS (sort_key row_order (filter (\<lambda>r. lo < mr_n r \<and> mr_n r \<le> hi) (ar_rows db))))"

text \<open>\<open>names.ts\<close>\<close>

definition NAMES :: "(string \<times> string) list" where
  "NAMES = [(ZERO_ADDRESS, ''Mint / burn''),
     (''0x8366a39cc670b4001a1121b8f6a443a643e40951'', ''Uniswap v4 Pools''),
     (''0x4fca4a51ab4f23a7447b3284fbd7d73289a89fb1'', ''Uniswap Router''),
     (''0x000000000022d473030f116ddee9f6b43ac78ba3'', ''Permit2'')]"

definition nameOf :: "string \<Rightarrow> string option" where
  "nameOf address = map_of NAMES (map to_lower address)"

definition window_move_of :: "move_row \<Rightarrow> window_move" where
  "window_move_of r = \<lparr>mv_tx = mr_tx r, mv_li = mr_li r, mv_from = mr_f r, mv_to = mr_r r, mv_fromName = nameOf (mr_f r),
     mv_toName = nameOf (mr_r r), mv_value = unitsToDecimal (mr_v r) 18, mv_lane = mr_lane r, wm_raw = mr_v r\<rparr>"

definition toMove :: "window_move \<Rightarrow> move" where
  "toMove m = \<lparr>mv_tx = mv_tx m, mv_li = mv_li m, mv_from = mv_from m, mv_to = mv_to m, mv_fromName = truthy (mv_fromName m),
     mv_toName = truthy (mv_toName m), mv_value = mv_value m, mv_lane = mv_lane m\<rparr>"

text \<open>A row opens a new block unless the last one has its number.\<close>

definition add_row :: "window_block list \<Rightarrow> move_row \<Rightarrow> window_block list" where
  "add_row win r =
     (let win = (if win \<noteq> [] \<and> wb_n (List.last win) = mr_n r then win else win @ [\<lparr>wb_n = mr_n r, wb_t = mr_t r, wb_moves = []\<rparr>])
      in butlast win @ [(List.last win)\<lparr>wb_moves := wb_moves (List.last win) @ [window_move_of r]\<rparr>])"

definition group_moves :: "move_row list \<Rightarrow> window_block list" where
  "group_moves rows = foldl add_row [] rows"

definition msg_of :: "window_block \<Rightarrow> block_msg" where
  "msg_of b = \<lparr>bm_n = wb_n b, bm_t = wb_t b, bm_moves = map toMove (wb_moves b)\<rparr>"

subsection \<open>A cycle\<close>

definition reseed_tape :: "int \<Rightarrow> archive option \<Rightarrow> tailer \<times> hub \<Rightarrow> tailer \<times> hub" where
  "reseed_tape to q = (\<lambda>(ta, h). case q of None \<Rightarrow> (ta, h)
     | Some db \<Rightarrow>
         let win = group_moves (read_moves (tl_lanes ta) (to - CATCHUP) to db)
         in (ta\<lparr>tl_window := fold add_block win (tl_window ta), tl_lastReleased := Some to\<rparr>, reseed (map msg_of win) to h))"

definition init_tape :: "archive option \<Rightarrow> archive option \<Rightarrow> tailer \<times> hub \<Rightarrow> tailer \<times> hub" where
  "init_tape q q' = (\<lambda>(ta, h). case q of None \<Rightarrow> (ta, h)
     | Some db \<Rightarrow> (case fst (target ta db) of None \<Rightarrow> (ta, h)
         | Some to \<Rightarrow> if to < 0 then (ta, h) else reseed_tape to q' (ta, h)))"

text \<open>\<open>qs i\<close> is what the cycle's \<open>i\<close>-th query sees. A failing query ends the cycle where it stands.\<close>

definition cycle :: "(nat \<Rightarrow> archive option) \<Rightarrow> tailer \<times> hub \<Rightarrow> tailer \<times> hub" where
  "cycle qs = (\<lambda>(ta, h).
     case tl_lastReleased ta of None \<Rightarrow> init_tape (qs 0) (qs 1) (ta, h)
     | Some released \<Rightarrow>
         (case qs 0 of None \<Rightarrow> (ta, h)
          | Some db \<Rightarrow>
              (case target ta db of (None, _) \<Rightarrow> (ta, h)
               | (Some to, cursor) \<Rightarrow>
                   if (case cursor of Some c \<Rightarrow> c < released - MAX_GAP | None \<Rightarrow> False)
                   then init_tape (qs 1) (qs 2) (ta\<lparr>tl_window := new_window 60, tl_lastReleased := None\<rparr>, h)
                   else if to \<le> released then (ta, h)
                   else if to - released > MAX_GAP then reseed_tape to (qs 1) (ta, h)
                   else (case qs 1 of None \<Rightarrow> (ta, h)
                     | Some db' \<Rightarrow>
                         let win = group_moves (read_moves (tl_lanes ta) released to db')
                         in (ta\<lparr>tl_window := fold add_block win (tl_window ta), tl_lastReleased := Some to\<rparr>,
                             publishBlocks (map msg_of win) h)))))"

subsection \<open>Rows and blocks\<close>

text \<open>Rows in the order of the table's key, each block's rows with that block's time.\<close>

definition rows_sorted :: "move_row list \<Rightarrow> bool" where
  "rows_sorted rows \<longleftrightarrow> sorted_wrt (<) (map row_order rows)"

lemma rows_sorted_snoc: "rows_sorted (rows @ [r]) \<longleftrightarrow> rows_sorted rows \<and> (\<forall>x\<in>set rows. row_order x < row_order r)"
  by (auto simp: rows_sorted_def sorted_wrt_append)

lemma rows_sorted_filter: "rows_sorted rows \<Longrightarrow> rows_sorted (filter P rows)"
  by (simp add: rows_sorted_def sorted_wrt_map sorted_wrt_filter)

text \<open>A table's rows have distinct keys: sorting any listing of them gives the sorted one.\<close>

lemma sort_rows:
  assumes "rows_sorted rows" "mset xs = mset rows"
  shows "sort_key row_order xs = rows"
proof -
  have keys: "map row_order (sort_key row_order xs) = map row_order rows"
  proof (rule map_sorted_distinct_set_unique [of id, simplified])
    show "sorted (map row_order (sort_key row_order xs))" by simp
    show "sorted (map row_order rows)" "distinct (map row_order rows)"
      using assms(1) by (auto simp: rows_sorted_def strict_sorted_iff)
    have "mset (map row_order (sort_key row_order xs)) = mset (map row_order rows)" using assms(2) by (simp add: mset_map)
    then show "distinct (map row_order (sort_key row_order xs))" "set (map row_order (sort_key row_order xs)) = set (map row_order rows)"
      using assms(1) by (metis mset_eq_imp_distinct_iff rows_sorted_def strict_sorted_iff) (metis mset_eq_setD \<open>mset (map row_order (sort_key row_order xs)) = _\<close>)
  qed
  have "inj_on row_order (set rows)"
    using assms(1) by (metis rows_sorted_def strict_sorted_iff distinct_map)
  moreover have "set (sort_key row_order xs) = set rows" using assms(2) by (metis mset_eq_setD set_sort)
  ultimately show ?thesis using keys by (metis inj_on_map_eq_map Un_absorb)
qed

lemma group_moves_snoc: "group_moves (rows @ [r]) = add_row (group_moves rows) r" "group_moves [] = []"
  by (simp_all add: group_moves_def)

lemma group_moves_last: "rows \<noteq> [] \<Longrightarrow> group_moves rows \<noteq> [] \<and> wb_n (List.last (group_moves rows)) = mr_n (List.last rows)"
  by (induction rows rule: rev_induct) (auto simp: group_moves_snoc add_row_def Let_def)

lemma group_moves_mem: "b \<in> set (group_moves rows) \<Longrightarrow> \<exists>r\<in>set rows. wb_n b = mr_n r"
proof (induction rows arbitrary: b rule: rev_induct)
  case (snoc r rows)
  have old: "\<exists>r\<in>set rows. wb_n c = mr_n r" if "c \<in> set (butlast (group_moves rows))" for c
    using snoc.IH in_set_butlastD [OF that] by blast
  show ?case using snoc.prems snoc.IH old by (auto simp: group_moves_snoc add_row_def Let_def split: if_splits)
qed (simp add: group_moves_snoc)

lemma add_row_block: "wb_n (List.last (add_row win r)) = mr_n r"
  by (auto simp: add_row_def Let_def)

text \<open>Grouping a stretch of the rows is taking the stretch of the groups.\<close>

lemma group_moves_filter:
  assumes "rows_sorted rows"
  shows "group_moves (filter (\<lambda>r. P (mr_n r)) rows) = filter (\<lambda>b. P (wb_n b)) (group_moves rows)"
  using assms
proof (induction rows rule: rev_induct)
  case (snoc r rows)
  define win where "win = group_moves rows"
  have IH: "group_moves (filter (\<lambda>r. P (mr_n r)) rows) = filter (\<lambda>b. P (wb_n b)) win"
    using snoc by (simp add: rows_sorted_snoc win_def)
  have le: "\<And>x. x \<in> set rows \<Longrightarrow> mr_n x \<le> mr_n r" using snoc.prems by (auto simp: rows_sorted_snoc row_order_def less_prod_def)
  show ?case
  proof (cases "win \<noteq> [] \<and> wb_n (List.last win) = mr_n r")
    case True
    then obtain init b where win: "win = init @ [b]" "wb_n b = mr_n r" by (metis append_butlast_last_id)
    then show ?thesis using IH by (simp add: group_moves_snoc win_def [symmetric] add_row_def Let_def)
  next
    case False
    have "wb_n b \<noteq> mr_n r" if mem: "b \<in> set win" for b
    proof
      assume eq: "wb_n b = mr_n r"
      have ne: "rows \<noteq> []" using mem by (auto simp: win_def group_moves_snoc)
      have last: "List.last rows \<in> set rows" "wb_n (List.last win) = mr_n (List.last rows)" "win \<noteq> []"
        using group_moves_last [OF ne] ne by (simp_all add: win_def)
      obtain x where x: "x \<in> set rows" "mr_n x = mr_n r" using group_moves_mem mem eq unfolding win_def by metis
      have "rows_sorted rows" using snoc.prems by (simp add: rows_sorted_snoc)
      then have "mr_n x \<le> mr_n (List.last rows)"
        using x(1) ne by (cases rows rule: rev_cases) (auto simp: rows_sorted_snoc row_order_def less_prod_def)
      then show False using False le [OF last(1)] x last by simp
    qed
    then have other: "\<not> (filter (\<lambda>b. P (wb_n b)) win \<noteq> [] \<and> wb_n (List.last (filter (\<lambda>b. P (wb_n b)) win)) = mr_n r)"
      by (metis filter_is_subset last_in_set subsetD)
    then show ?thesis using False IH by (auto simp: group_moves_snoc win_def [symmetric] add_row_def Let_def)
  qed
qed (simp add: group_moves_snoc)

lemma group_moves_chain:
  assumes "rows_sorted rows"
  shows "sorted_wrt (<) (map wb_n (group_moves rows))"
  using assms
proof (induction rows rule: rev_induct)
  case (snoc r rows)
  define win where "win = group_moves rows"
  have IH: "sorted_wrt (<) (map wb_n win)" using snoc by (simp add: rows_sorted_snoc win_def)
  have le: "\<And>b. b \<in> set win \<Longrightarrow> wb_n b \<le> mr_n r"
    using snoc.prems group_moves_mem [of _ rows] by (fastforce simp: win_def rows_sorted_snoc row_order_def less_prod_def)
  show ?case
  proof (cases "win \<noteq> [] \<and> wb_n (List.last win) = mr_n r")
    case True
    then obtain init b where "win = init @ [b]" by (metis append_butlast_last_id)
    then show ?thesis using IH True by (simp add: group_moves_snoc win_def [symmetric] add_row_def Let_def sorted_wrt_append)
  next
    case False
    have "wb_n b < mr_n r" if b: "b \<in> set win" for b
    proof -
      have "wb_n b \<le> wb_n (List.last win)"
        using b IH by (cases win rule: rev_cases) (auto simp: sorted_wrt_append)
      then show ?thesis using le [of "List.last win"] le [OF b] b False by (cases "win = []") auto
    qed
    then show ?thesis using IH False by (auto simp: group_moves_snoc win_def [symmetric] add_row_def Let_def sorted_wrt_append)
  qed
qed (simp add: group_moves_snoc)

subsection \<open>A query reads the chain\<close>

definition chain_of :: "move_row list \<Rightarrow> block_msg list" where
  "chain_of rows = map msg_of (group_moves rows)"

definition unlane :: "move_row \<Rightarrow> move_row" where
  "unlane r = r\<lparr>mr_lane := None\<rparr>"

definition unlane_block :: "window_block \<Rightarrow> window_block" where
  "unlane_block b = b\<lparr>wb_moves := map (\<lambda>m. m\<lparr>mv_lane := None\<rparr>) (wb_moves b)\<rparr>"

text \<open>What the worker promises: the rows up to its cursor are there and do not change, lanes aside.\<close>

definition settled_rows :: "move_row list \<Rightarrow> archive \<Rightarrow> bool" where
  "settled_rows rows db \<longleftrightarrow> (case ar_cursor db of None \<Rightarrow> True
     | Some c \<Rightarrow> mset (map unlane (filter (\<lambda>r. mr_n r \<le> c) (ar_rows db))) = mset (map unlane (filter (\<lambda>r. mr_n r \<le> c) rows)))"

text \<open>No stretch that a cycle replays holds more rows than one query reads.\<close>

definition sparse :: "move_row list \<Rightarrow> bool" where
  "sparse rows \<longleftrightarrow> (\<forall>lo hi. hi - lo \<le> MAX_GAP \<longrightarrow> length (filter (\<lambda>r. lo < mr_n r \<and> mr_n r \<le> hi) rows) \<le> MAX_ROWS)"

lemma unlane_simps [simp]: "mr_n (unlane r) = mr_n r" "mr_t (unlane r) = mr_t r" "row_order (unlane r) = row_order r"
  "window_move_of (unlane r) = (window_move_of r)\<lparr>mv_lane := None\<rparr>"
  by (simp_all add: unlane_def row_order_def window_move_of_def)

lemma unlane_block_simps [simp]: "wb_n (unlane_block b) = wb_n b" "block_rows (msg_of (unlane_block b)) = block_rows (msg_of b)"
  by (simp_all add: unlane_block_def msg_of_def block_rows_def toMove_def strip_move_def)

lemma msg_of_n [simp]: "bm_n (msg_of b) = wb_n b" by (simp add: msg_of_def)

lemma chain_of_sorted: "rows_sorted rows \<Longrightarrow> chain_sorted (chain_of rows)"
  using group_moves_chain by (simp add: chain_sorted_def chain_of_def comp_def)

lemma add_row_unlane: "add_row (map unlane_block win) (unlane r) = map unlane_block (add_row win r)"
  by (cases win rule: rev_cases) (auto simp: add_row_def Let_def unlane_block_def window_move_of_def unlane_def butlast_append)

lemma group_moves_unlane: "group_moves (map unlane rows) = map unlane_block (group_moves rows)"
  by (induction rows rule: rev_induct) (simp_all add: group_moves_snoc add_row_unlane)

lemma same_unlane:
  assumes "map unlane xs = map unlane ys"
  shows "same_blocks (map msg_of (group_moves xs)) (map msg_of (group_moves ys))"
proof -
  have "map unlane_block (group_moves xs) = map unlane_block (group_moves ys)"
    using assms by (simp flip: group_moves_unlane)
  then have "list_all2 (\<lambda>b c. unlane_block b = unlane_block c) (group_moves xs) (group_moves ys)"
    by (simp add: list_all2_conv_all_nth list_eq_iff_nth_eq)
  then show ?thesis unfolding same_blocks_def list_all2_map1 list_all2_map2
    by (rule list_all2_mono) (metis msg_of_n unlane_block_simps)
qed

lemma insort_key_map: "\<forall>x. f (g x) = f x \<Longrightarrow> map g (insort_key f x xs) = insort_key f (g x) (map g xs)"
  by (induction xs) auto

lemma sort_key_map_same: "\<forall>x. f (g x) = f x \<Longrightarrow> map g (sort_key f xs) = sort_key f (map g xs)"
  by (induction xs) (simp_all add: insort_key_map)

lemma rows_sorted_unlane: "rows_sorted (map unlane rows) = rows_sorted rows"
  by (simp add: rows_sorted_def comp_def)

lemma read_moves_exact:
  assumes "rows_sorted rows" "settled_rows rows db" "ar_cursor db = Some c" "hi \<le> c"
    "length (filter (\<lambda>r. lo < mr_n r \<and> mr_n r \<le> hi) rows) \<le> MAX_ROWS"
  shows "map unlane (read_moves lanes lo hi db) = map unlane (filter (\<lambda>r. lo < mr_n r \<and> mr_n r \<le> hi) rows)"
proof -
  define P where "P = (\<lambda>r :: move_row. lo < mr_n r \<and> mr_n r \<le> hi)"
  have cut: "filter P (filter (\<lambda>r. mr_n r \<le> c) xs) = filter P xs" for xs
    using assms(4) by (auto simp: P_def intro!: filter_cong)
  have lane: "map unlane (filter P xs) = filter P (map unlane xs)" for xs by (simp add: filter_map comp_def P_def)
  have all: "mset (map unlane (filter (\<lambda>r. mr_n r \<le> c) (ar_rows db))) = mset (map unlane (filter (\<lambda>r. mr_n r \<le> c) rows))"
    using assms(2,3) by (simp add: settled_rows_def)
  have "mset (filter P (map unlane (filter (\<lambda>r. mr_n r \<le> c) (ar_rows db)))) = mset (filter P (map unlane (filter (\<lambda>r. mr_n r \<le> c) rows)))"
    using all by (simp only: mset_filter)
  then have same: "mset (map unlane (filter P (ar_rows db))) = mset (map unlane (filter P rows))" by (simp only: lane [symmetric] cut)
  have sorted: "sort_key row_order (map unlane (filter P (ar_rows db))) = map unlane (filter P rows)"
    using assms(1) by (intro sort_rows same) (simp add: rows_sorted_unlane rows_sorted_filter)
  have len: "length (filter P (ar_rows db)) \<le> MAX_ROWS"
    using mset_eq_length [OF same] assms(5) by (simp add: P_def)
  have "map unlane (map (\<lambda>r. if lanes then r else r\<lparr>mr_lane := None\<rparr>) xs) = map unlane xs" for xs
    by (auto simp: unlane_def)
  then have "map unlane (read_moves lanes lo hi db) = map unlane (sort_key row_order (filter P (ar_rows db)))"
    using len unfolding read_moves_def P_def by (simp add: unlane_def)
  also have "\<dots> = map unlane (filter P rows)" using sort_key_map_same [of row_order unlane "filter P (ar_rows db)"] sorted by simp
  finally show ?thesis by (simp add: P_def)
qed

lemma read_moves_between:
  assumes "rows_sorted rows" "settled_rows rows db" "ar_cursor db = Some c" "hi \<le> c" "sparse rows" "hi - lo \<le> MAX_GAP"
  shows "same_blocks (map msg_of (group_moves (read_moves lanes lo hi db))) (between (chain_of rows) lo hi)"
proof -
  have "between (chain_of rows) lo hi = map msg_of (group_moves (filter (\<lambda>r. lo < mr_n r \<and> mr_n r \<le> hi) rows))"
    using group_moves_filter [OF assms(1), of "\<lambda>n. lo < n \<and> n \<le> hi"]
    by (simp add: between_def chain_of_def filter_map comp_def)
  then show ?thesis
    using same_unlane [OF read_moves_exact [OF assms(1-4)]] assms(5,6) by (simp add: sparse_def)
qed

subsection \<open>Pages\<close>

record page =
  pg_viewer :: viewer
  pg_stream :: "nat option"

text \<open>
  Whatever a page has been sent and not read yet, it keeps a gapless tape while reading it; while the
  hub still serves its stream, it ends at the live tape.
\<close>

definition page_ok :: "block_msg list \<Rightarrow> int \<Rightarrow> hub \<Rightarrow> page \<Rightarrow> bool" where
  "page_ok chain r h pg \<longleftrightarrow> (case pg_stream pg of None \<Rightarrow> tape_ok chain (pg_viewer pg)
     | Some s \<Rightarrow> good chain (concat (sr_queue (hb_streams h s))) (pg_viewer pg) \<and>
         (s \<in> set (hb_sinks h) \<longrightarrow> tape_live chain r (fold receive (concat (sr_queue (hb_streams h s))) (pg_viewer pg))))"

lemma page_ok_broadcast:
  assumes "distinct (hb_sinks h)" "page_ok chain r h pg"
    "\<And>v. tape_live chain r v \<Longrightarrow> good chain c v \<and> tape_live chain r' (fold receive c v)"
  shows "page_ok chain r' (broadcast c h) pg"
proof (cases "pg_stream pg")
  case (Some s)
  note B = broadcast_effect [OF assms(1), where c = c]
  have old: "good chain (concat (sr_queue (hb_streams h s))) (pg_viewer pg)"
    "s \<in> set (hb_sinks h) \<Longrightarrow> tape_live chain r (fold receive (concat (sr_queue (hb_streams h s))) (pg_viewer pg))"
    using assms(2) Some by (simp_all add: page_ok_def)
  show ?thesis
  proof (cases "s \<in> set (hb_sinks h)")
    case True
    from B(5) [of s] show ?thesis
    proof
      assume q: "sr_queue (hb_streams (broadcast c h) s) = sr_queue (hb_streams h s) @ [c]"
      show ?thesis using old(1) old(2) [OF True] assms(3) [OF old(2) [OF True]] by (simp add: page_ok_def Some q good_append)
    next
      assume "sr_queue (hb_streams (broadcast c h) s) = sr_queue (hb_streams h s) \<and> s \<notin> set (hb_sinks (broadcast c h))"
      then show ?thesis using old(1) by (simp add: page_ok_def Some)
    qed
  next
    case False
    then have "hb_streams (broadcast c h) s = hb_streams h s" "s \<notin> set (hb_sinks (broadcast c h))" using B(3,4) by auto
    then show ?thesis using old(1) by (simp add: page_ok_def Some)
  qed
qed (use assms(2) in \<open>simp add: page_ok_def\<close>)

text \<open>A page depends on the hub through its sinks and streams only.\<close>

lemma page_ok_cong: "hb_sinks h' = hb_sinks h \<Longrightarrow> hb_streams h' = hb_streams h \<Longrightarrow> page_ok chain r h' pg = page_ok chain r h pg"
  by (simp add: page_ok_def split: option.split)

lemma trim_buffer_streams [simp]: "hb_sinks (trim_buffer h) = hb_sinks h" "hb_streams (trim_buffer h) = hb_streams h"
  by (simp_all add: trim_buffer_def split: prod.split)

lemma seed_streams [simp]: "hb_sinks (seed bs r h) = hb_sinks h" "hb_streams (seed bs r h) = hb_streams h"
  by (simp_all add: seed_def)

subsection \<open>The hub's operations keep every page\<close>

definition live_inv :: "block_msg list \<Rightarrow> int \<Rightarrow> hub \<Rightarrow> page set \<Rightarrow> bool" where
  "live_inv chain r h pgs \<longleftrightarrow> hub_ok chain r h \<and> distinct (hb_sinks h) \<and> (\<forall>pg\<in>pgs. page_ok chain r h pg)"

lemma broadcast_inv:
  assumes "hub_ok chain r' h" "distinct (hb_sinks h)" "\<And>pg. pg \<in> pgs \<Longrightarrow> page_ok chain r h pg"
    "\<And>v. tape_live chain r v \<Longrightarrow> good chain c v \<and> tape_live chain r' (fold receive c v)"
  shows "live_inv chain r' (broadcast c h) pgs"
  unfolding live_inv_def
  using same_tape_ok [OF broadcast_effect(1) [OF assms(2)] assms(1)] broadcast_effect(2) [OF assms(2)]
    page_ok_broadcast [OF assms(2) assms(3) assms(4)] by blast

lemma publishBlocks_inv:
  assumes "chain_sorted chain" "live_inv chain r h pgs" "same_blocks bs (between chain r to)" "r \<le> to"
  shows "live_inv chain to (publishBlocks bs h) pgs"
proof (cases "bs = []")
  case True
  then have none: "between chain r to = []" using assms(3) by simp
  then have eq: "upto_block chain to = upto_block chain r" using upto_split [OF assms(1,4)] by simp
  have "hub_ok chain to h"
    using assms none by (auto simp: live_inv_def hub_ok_def) (metis append_Nil2 between_split order_trans)
  moreover have "page_ok chain to h pg" if "page_ok chain r h pg" for pg
    using that eq by (auto simp: page_ok_def tape_live_def split: option.splits)
  ultimately show ?thesis using assms(2) True by (auto simp: live_inv_def publishBlocks_def)
next
  case False
  define h1 where "h1 = (trim_buffer (h\<lparr>hb_blocks := hb_blocks h @ bs\<rparr>))\<lparr>hb_hello := None\<rparr>"
  have inv: "hub_ok chain r h" "distinct (hb_sinks h)" "\<And>pg. pg \<in> pgs \<Longrightarrow> page_ok chain r h pg"
    using assms(2) by (simp_all add: live_inv_def)
  have h1: "hub_ok chain to h1" unfolding h1_def by (rule append_ok [OF assms(1) inv(1) assms(3,4)])
  have same: "hb_sinks h1 = hb_sinks h" "hb_streams h1 = hb_streams h" by (simp_all add: h1_def)
  have "live_inv chain to (broadcast (block_frames bs) h1) pgs"
    using inv(2,3) by (intro broadcast_inv [OF h1, of _ r]) (simp_all add: same page_ok_cong [OF same] live_blocks [OF assms(1) _ assms(3,4)])
  then show ?thesis using False by (simp add: publishBlocks_def h1_def block_frames_def)
qed

lemma reseed_inv:
  assumes "chain_sorted chain" "live_inv chain r h pgs" "same_blocks bs (between chain lo to)" "lo \<le> to"
  shows "live_inv chain to (reseed bs to h) pgs"
proof -
  define h1 where "h1 = seed bs to h"
  obtain c h2 where hf: "helloFrame h1 = (c, h2)" by fastforce
  have inv: "distinct (hb_sinks h)" "\<And>pg. pg \<in> pgs \<Longrightarrow> page_ok chain r h pg" using assms(2) by (simp_all add: live_inv_def)
  have h1: "hub_ok chain to h1" unfolding h1_def by (rule seed_ok [OF assms(1,3,4)])
  note H = helloFrame_effect [OF h1 hf]
  have same: "hb_sinks h2 = hb_sinks h" "hb_streams h2 = hb_streams h" using H by (simp_all add: h1_def)
  have "good chain c v \<and> tape_live chain to (fold receive c v)" if "tape_live chain r v" for v
    using hello_live [OF assms(1) h1, of v] live_ok [OF that] live_ok by (simp add: H(1))
  then have "live_inv chain to (broadcast c h2) pgs"
    using inv by (intro broadcast_inv [OF H(2), of _ r]) (simp_all add: same page_ok_cong [OF same])
  then show ?thesis by (simp add: reseed_def h1_def [symmetric] hf)
qed

lemma quiet_inv:
  assumes "live_inv chain r h pgs" "\<And>v. tape_live chain r v \<Longrightarrow> good chain c v \<and> tape_live chain r (fold receive c v)"
  shows "live_inv chain r (broadcast c h) pgs"
  using assms by (intro broadcast_inv [of _ _ _ _ r]) (auto simp: live_inv_def)

lemma publishStats_inv:
  assumes "live_inv chain r h pgs"
  shows "live_inv chain r (publishStats st h) pgs"
  unfolding publishStats_def
proof (rule quiet_inv)
  show "live_inv chain r (h\<lparr>hb_stats := Some st, hb_hello := None\<rparr>) pgs"
    using assms by (auto simp: live_inv_def hub_ok_def page_ok_def split: option.splits)
qed (simp add: live_stats live_ok)

lemma heartbeat_inv: "live_inv chain r h pgs \<Longrightarrow> live_inv chain r (heartbeat h) pgs"
  unfolding heartbeat_def by (erule quiet_inv) (simp add: live_ok)

lemma drop_inv:
  assumes "live_inv chain r h pgs"
  shows "live_inv chain r (drop_sink s h) pgs"
proof -
  have "page_ok chain r (drop_sink s h) pg" if "page_ok chain r h pg" for pg
    using that assms by (auto simp: page_ok_def drop_effect live_inv_def split: option.splits dest: notin_set_remove1)
  then show ?thesis using assms same_tape_ok [OF drop_effect(1)] by (auto simp: live_inv_def drop_effect distinct_remove1)
qed

lemma closeAll_inv: "live_inv chain r h pgs \<Longrightarrow> live_inv chain r (closeAll h) pgs"
proof -
  have "live_inv chain r h pgs \<Longrightarrow> live_inv chain r (fold drop_sink ss h) pgs" for ss
    by (induction ss arbitrary: h) (simp_all add: drop_inv)
  then show "live_inv chain r h pgs \<Longrightarrow> live_inv chain r (closeAll h) pgs" by (simp add: closeAll_def)
qed

subsection \<open>The whole live path\<close>

record world =
  wd_tailer :: tailer
  wd_hub :: hub
  wd_next :: nat
  wd_pages :: "nat \<Rightarrow> page"

definition new_world :: "nat \<Rightarrow> int \<Rightarrow> bool \<Rightarrow> world" where
  "new_world maxStreams holdMs lanes =
     \<lparr>wd_tailer = new_tailer holdMs lanes, wd_hub = new_hub maxStreams 40, wd_next = 0,
      wd_pages = (\<lambda>_. \<lparr>pg_viewer = new_viewer, pg_stream = None\<rparr>)\<rparr>"

text \<open>
  What can happen: a cycle of the tailer, its two timers, the runtime learning whether lanes are on,
  the shutdown, a page connecting (with its last id in the header or in the query), reading a chunk of
  its stream, losing it, and the server noticing that a stream is gone.
\<close>

datatype tape_event =
    Cycle "nat \<Rightarrow> archive option"
  | StatsTick int
  | Beat
  | Lanes bool
  | Shutdown
  | Connect nat bool
  | Read nat
  | Lost nat
  | Gone nat

definition last_event_id :: "bool \<Rightarrow> viewer \<Rightarrow> int option" where
  "last_event_id native v =
     (let i = map_option show_int (vw_last v) in if native then parseLastEventId i None else parseLastEventId None i)"

fun tape_step :: "tape_event \<Rightarrow> world \<Rightarrow> world" where
  "tape_step (Cycle qs) w = (case cycle qs (wd_tailer w, wd_hub w) of (ta, h) \<Rightarrow> w\<lparr>wd_tailer := ta, wd_hub := h\<rparr>)"
| "tape_step (StatsTick now) w = w\<lparr>wd_hub := publishStats (stats now (tl_window (wd_tailer w))) (wd_hub w)\<rparr>"
| "tape_step Beat w = w\<lparr>wd_hub := heartbeat (wd_hub w)\<rparr>"
| "tape_step (Lanes on) w = w\<lparr>wd_tailer := (wd_tailer w)\<lparr>tl_lanes := on\<rparr>\<rparr>"
| "tape_step Shutdown w = w\<lparr>wd_hub := closeAll (wd_hub w)\<rparr>"
| "tape_step (Connect p native) w =
     (let pg = wd_pages w p in
      if pg_stream pg \<noteq> None then w
      else case subscribe (wd_next w) (last_event_id native (pg_viewer pg)) (wd_hub w) of (ok, h) \<Rightarrow>
        w\<lparr>wd_hub := h, wd_next := Suc (wd_next w),
          wd_pages := (wd_pages w)(p := pg\<lparr>pg_stream := if ok then Some (wd_next w) else None\<rparr>)\<rparr>)"
| "tape_step (Read p) w =
     (let pg = wd_pages w p in
      case pg_stream pg of None \<Rightarrow> w
      | Some s \<Rightarrow>
          (case sr_queue (hb_streams (wd_hub w) s) of [] \<Rightarrow> w
           | c # cs \<Rightarrow>
               w\<lparr>wd_hub := (wd_hub w)\<lparr>hb_streams := (hb_streams (wd_hub w))(s := (hb_streams (wd_hub w) s)\<lparr>sr_queue := cs\<rparr>)\<rparr>,
                 wd_pages := (wd_pages w)(p := pg\<lparr>pg_viewer := fold receive c (pg_viewer pg)\<rparr>)\<rparr>))"
| "tape_step (Lost p) w = w\<lparr>wd_pages := (wd_pages w)(p := (wd_pages w p)\<lparr>pg_stream := None\<rparr>)\<rparr>"
| "tape_step (Gone s) w =
     w\<lparr>wd_hub := (unsubscribe s (wd_hub w))\<lparr>hb_streams := (hb_streams (wd_hub w))(s := sink_cancel (hb_streams (wd_hub w) s))\<rparr>\<rparr>"

text \<open>Every snapshot a cycle sees is settled, and within a cycle the worker's cursor does not go back.\<close>

definition steady :: "move_row list \<Rightarrow> (nat \<Rightarrow> archive option) \<Rightarrow> bool" where
  "steady rows qs \<longleftrightarrow> (\<forall>i db. qs i = Some db \<longrightarrow> settled_rows rows db) \<and>
     (\<forall>i j db db' c. i < j \<longrightarrow> qs i = Some db \<longrightarrow> qs j = Some db' \<longrightarrow> ar_cursor db = Some c \<longrightarrow>
        (\<exists>c'. ar_cursor db' = Some c' \<and> c \<le> c'))"

fun allowed :: "move_row list \<Rightarrow> tape_event \<Rightarrow> bool" where
  "allowed rows (Cycle qs) = steady rows qs"
| "allowed rows (Gone s) = True"
| "allowed rows _ = True"

inductive tape_reach :: "move_row list \<Rightarrow> world \<Rightarrow> bool" for rows where
  tape_start: "tape_reach rows (new_world maxStreams holdMs lanes)"
| tape_next: "tape_reach rows w \<Longrightarrow> allowed rows e \<Longrightarrow> tape_reach rows (tape_step e w)"

subsection \<open>The invariant\<close>

definition tailer_at :: "int \<Rightarrow> tailer \<Rightarrow> bool" where
  "tailer_at r ta \<longleftrightarrow> (case tl_lastReleased ta of None \<Rightarrow> True | Some n \<Rightarrow> n = r)"

lemma target_bound: "target ta db = (Some to, cursor) \<Longrightarrow> \<exists>c. cursor = Some c \<and> ar_cursor db = Some c \<and> to \<le> c"
  unfolding target_def Let_def using releaseTo_bound by (metis prod.inject)

lemma read_next:
  assumes "rows_sorted rows" "sparse rows" "steady rows qs" "qs i = Some db" "qs j = Some db'" "i < j"
    "ar_cursor db = Some c" "to \<le> c" "to - lo \<le> MAX_GAP"
  shows "same_blocks (map msg_of (group_moves (read_moves l lo to db'))) (between (chain_of rows) lo to)"
proof -
  obtain c' where "ar_cursor db' = Some c'" "c \<le> c'" using assms(3-7) unfolding steady_def by blast
  moreover have "settled_rows rows db'" using assms(3,5) unfolding steady_def by blast
  ultimately show ?thesis using assms by (intro read_moves_between [of _ _ c']) auto
qed

lemma reseed_tape_inv:
  assumes "rows_sorted rows" "sparse rows" "steady rows qs" "qs i = Some db" "i < j" "ar_cursor db = Some c" "to \<le> c"
    and inv: "live_inv (chain_of rows) r h pgs" "tailer_at r ta" and run: "reseed_tape to (qs j) (ta, h) = (ta', h')"
  shows "\<exists>r'. live_inv (chain_of rows) r' h' pgs \<and> tailer_at r' ta'"
proof (cases "qs j")
  case None
  then show ?thesis using inv run by (auto simp: reseed_tape_def)
next
  case (Some db')
  have "same_blocks (map msg_of (group_moves (read_moves (tl_lanes ta) (to - CATCHUP) to db'))) (between (chain_of rows) (to - CATCHUP) to)"
    by (rule read_next [OF assms(1-4) Some assms(5-7)]) (simp add: CATCHUP_def MAX_GAP_def)
  from reseed_inv [OF chain_of_sorted [OF assms(1)] inv(1) this]
  have "live_inv (chain_of rows) to h' pgs" using run Some by (auto simp: reseed_tape_def Let_def CATCHUP_def)
  moreover have "tailer_at to ta'" using run Some by (auto simp: reseed_tape_def Let_def tailer_at_def)
  ultimately show ?thesis by blast
qed

lemma init_tape_inv:
  assumes "rows_sorted rows" "sparse rows" "steady rows qs" "i < j"
    and inv: "live_inv (chain_of rows) r h pgs" "tailer_at r ta" and run: "init_tape (qs i) (qs j) (ta, h) = (ta', h')"
  shows "\<exists>r'. live_inv (chain_of rows) r' h' pgs \<and> tailer_at r' ta'"
proof (cases "qs i")
  case None
  then show ?thesis using inv run by (auto simp: init_tape_def)
next
  case (Some db)
  obtain t cursor where t: "target ta db = (t, cursor)" by fastforce
  show ?thesis
  proof (cases t)
    case None
    then show ?thesis using inv run Some t by (auto simp: init_tape_def)
  next
    case to: (Some to)
    obtain c where c: "ar_cursor db = Some c" "to \<le> c" using target_bound t to by metis
    show ?thesis
    proof (cases "to < 0")
      case True
      then show ?thesis using inv run Some t to by (auto simp: init_tape_def)
    next
      case False
      then have "reseed_tape to (qs j) (ta, h) = (ta', h')" using run Some t to by (simp add: init_tape_def)
      from reseed_tape_inv [OF assms(1-3) Some assms(4) c inv this] show ?thesis .
    qed
  qed
qed

lemma cycle_inv:
  assumes "rows_sorted rows" "sparse rows" "steady rows qs"
    and inv: "live_inv (chain_of rows) r h pgs" "tailer_at r ta" and run: "cycle qs (ta, h) = (ta', h')"
  shows "\<exists>r'. live_inv (chain_of rows) r' h' pgs \<and> tailer_at r' ta'"
proof (cases "tl_lastReleased ta")
  case None
  then have "init_tape (qs 0) (qs 1) (ta, h) = (ta', h')" using run by (simp add: cycle_def)
  from init_tape_inv [OF assms(1-3) _ inv this] show ?thesis by simp
next
  case released: (Some n)
  then have n: "n = r" using inv(2) by (simp add: tailer_at_def)
  show ?thesis
  proof (cases "qs 0")
    case None
    then show ?thesis using inv run released by (auto simp: cycle_def)
  next
    case db: (Some db)
    obtain t cursor where t: "target ta db = (t, cursor)" by fastforce
    show ?thesis
    proof (cases t)
      case None
      then show ?thesis using inv run released db t by (auto simp: cycle_def)
    next
      case to: (Some to)
      obtain c where c: "ar_cursor db = Some c" "to \<le> c" "cursor = Some c" using target_bound t to by metis
      define ta0 where "ta0 = ta\<lparr>tl_window := new_window 60, tl_lastReleased := None\<rparr>"
      have ta0: "tailer_at r ta0" by (simp add: ta0_def tailer_at_def)
      consider (rewound) "c < n - MAX_GAP" | (quiet) "\<not> c < n - MAX_GAP" "to \<le> n"
        | (far) "\<not> c < n - MAX_GAP" "\<not> to \<le> n" "to - n > MAX_GAP"
        | (near) "\<not> c < n - MAX_GAP" "\<not> to \<le> n" "\<not> to - n > MAX_GAP" by blast
      then show ?thesis
      proof cases
        case rewound
        then have "init_tape (qs 1) (qs 2) (ta0, h) = (ta', h')" using run released db t to c by (simp add: cycle_def ta0_def)
        from init_tape_inv [OF assms(1-3) _ inv(1) ta0 this] show ?thesis by simp
      next
        case quiet
        then show ?thesis using run released db t to c inv by (auto simp: cycle_def)
      next
        case far
        then have "reseed_tape to (qs 1) (ta, h) = (ta', h')" using run released db t to c by (simp add: cycle_def)
        from reseed_tape_inv [OF assms(1-3) db _ c(1,2) inv this] show ?thesis by simp
      next
        case near
        show ?thesis
        proof (cases "qs 1")
          case None
          then show ?thesis using near run released db t to c inv by (auto simp: cycle_def)
        next
          case db': (Some db')
          have "ta' = ta\<lparr>tl_window := fold add_block (group_moves (read_moves (tl_lanes ta) n to db')) (tl_window ta), tl_lastReleased := Some to\<rparr>"
            "h' = publishBlocks (map msg_of (group_moves (read_moves (tl_lanes ta) n to db'))) h"
            using near run released db db' t to c by (simp_all add: cycle_def Let_def)
          moreover have "same_blocks (map msg_of (group_moves (read_moves (tl_lanes ta) n to db'))) (between (chain_of rows) n to)"
            using near by (intro read_next [OF assms(1-3) db db' _ c(1,2)]) auto
          ultimately show ?thesis
            using publishBlocks_inv [OF chain_of_sorted [OF assms(1)] inv(1), of _ to] near n
            by (intro exI [of _ to]) (simp add: tailer_at_def)
        qed
      qed
    qed
  qed
qed

definition fresh_from :: "nat \<Rightarrow> hub \<Rightarrow> bool" where
  "fresh_from n h \<longleftrightarrow> (\<forall>s\<ge>n. s \<notin> set (hb_sinks h) \<and> sr_queue (hb_streams h s) = [])"

definition own_streams :: "nat \<Rightarrow> (nat \<Rightarrow> page) \<Rightarrow> bool" where
  "own_streams n pages \<longleftrightarrow> (\<forall>p s. pg_stream (pages p) = Some s \<longrightarrow> s < n) \<and>
     (\<forall>p q s. pg_stream (pages p) = Some s \<longrightarrow> pg_stream (pages q) = Some s \<longrightarrow> p = q)"

definition world_ok :: "move_row list \<Rightarrow> world \<Rightarrow> bool" where
  "world_ok rows w \<longleftrightarrow>
     (\<exists>r. live_inv (chain_of rows) r (wd_hub w) (range (wd_pages w)) \<and> tailer_at r (wd_tailer w)) \<and>
     fresh_from (wd_next w) (wd_hub w) \<and> own_streams (wd_next w) (wd_pages w)"

lemma parse_own_id: "parseLastEventId (map_option show_int i) None = None \<or> parseLastEventId (map_option show_int i) None = i"
  "parseLastEventId None (map_option show_int i) = None \<or> parseLastEventId None (map_option show_int i) = i"
proof -
  have read: "int (read_nat (show_int n)) = n" if "list_all is_digit (show_int n)" for n
    using that by (cases "n < 0") (auto simp: show_int_def)
  have ends: "\<not> is_space (hd (show_nat k))" "\<not> is_space (List.last (show_nat k))" for k
    by (rule digit_not_space, rule hd_show_nat)+
  have trimmed: "trim (show_int n) = show_int n" for n
    by (intro trim_id) (simp_all add: show_int_def ends)
  have "truthy (Some (show_int n)) = Some (show_int n)" for n
    by (cases "show_int n") (auto simp: truthy_def show_int_def split: if_splits)
  then show "parseLastEventId (map_option show_int i) None = None \<or> parseLastEventId (map_option show_int i) None = i"
    "parseLastEventId None (map_option show_int i) = None \<or> parseLastEventId None (map_option show_int i) = i"
    by (cases i; auto simp: parseLastEventId_def trimmed read truthy_def [of None] Let_def)+
qed

lemma broadcast_fresh: "distinct (hb_sinks h) \<Longrightarrow> fresh_from n h \<Longrightarrow> fresh_from n (broadcast c h)"
  using broadcast_effect(3,4) [where h = h and c = c] unfolding fresh_from_def by (metis subsetD)

lemma fresh_cong: "hb_sinks h' = hb_sinks h \<Longrightarrow> hb_streams h' = hb_streams h \<Longrightarrow> fresh_from n h' = fresh_from n h"
  by (simp add: fresh_from_def)

lemma reseed_fresh:
  assumes "distinct (hb_sinks h)" "fresh_from n h"
  shows "fresh_from n (reseed bs to h)"
proof -
  obtain c h2 where hf: "helloFrame (seed bs to h) = (c, h2)" by fastforce
  have "hb_sinks h2 = hb_sinks h" "hb_streams h2 = hb_streams h"
    using hf by (auto simp: helloFrame_def Let_def split: option.splits)
  then show ?thesis using assms broadcast_fresh [of h2 n c] by (simp add: reseed_def hf fresh_from_def)
qed

lemma publishBlocks_fresh: "distinct (hb_sinks h) \<Longrightarrow> fresh_from n h \<Longrightarrow> fresh_from n (publishBlocks bs h)"
  unfolding publishBlocks_def using broadcast_fresh [of "(trim_buffer (h\<lparr>hb_blocks := hb_blocks h @ bs\<rparr>))\<lparr>hb_hello := None\<rparr>" n]
  by (simp add: fresh_from_def)

lemma cycle_fresh:
  assumes "distinct (hb_sinks h)" "fresh_from n h" "cycle qs (ta, h) = (ta', h')"
  shows "fresh_from n h'"
proof -
  have reseed: "fresh_from n h1'" if "reseed_tape to q (ta1, h) = (ta1', h1')" for to q ta1 ta1' h1'
    using that assms(1,2) reseed_fresh by (auto simp: reseed_tape_def Let_def split: option.splits)
  have init: "fresh_from n h1'" if "init_tape q q' (ta1, h) = (ta1', h1')" for q q' ta1 ta1' h1'
    using that assms(2) reseed by (auto simp: init_tape_def split: option.splits if_splits)
  show ?thesis
    using assms init reseed publishBlocks_fresh
    unfolding cycle_def by (auto simp: Let_def split: option.splits if_splits prod.splits)
qed

lemma closeAll_fresh: "fresh_from n h \<Longrightarrow> fresh_from n (closeAll h)"
proof -
  have "fresh_from n h \<Longrightarrow> fresh_from n (fold drop_sink ss h)" for ss
    by (induction ss arbitrary: h) (auto simp: fresh_from_def drop_effect dest: notin_set_remove1)
  then show "fresh_from n h \<Longrightarrow> fresh_from n (closeAll h)" by (simp add: closeAll_def)
qed

lemma page_ok_own:
  assumes "page_ok chain r h pg" "\<And>s. pg_stream pg = Some s \<Longrightarrow> sr_queue (hb_streams h' s) = sr_queue (hb_streams h s) \<and>
      (s \<in> set (hb_sinks h') \<longrightarrow> s \<in> set (hb_sinks h))"
  shows "page_ok chain r h' pg"
  using assms by (cases "pg_stream pg") (auto simp: page_ok_def)

lemma connect_ok:
  assumes "rows_sorted rows" "world_ok rows w"
  shows "world_ok rows (tape_step (Connect p native) w)"
proof (cases "pg_stream (wd_pages w p) \<noteq> None")
  case False
  define pg where "pg = wd_pages w p"
  define s where "s = wd_next w"
  obtain ok h where sub: "subscribe s (last_event_id native (pg_viewer pg)) (wd_hub w) = (ok, h)" by fastforce
  obtain r where inv: "live_inv (chain_of rows) r (wd_hub w) (range (wd_pages w))" "tailer_at r (wd_tailer w)"
    and fresh: "fresh_from s (wd_hub w)" and own: "own_streams s (wd_pages w)"
    using assms(2) by (auto simp: world_ok_def s_def)
  have pok: "page_ok (chain_of rows) r (wd_hub w) (wd_pages w q)" for q using inv(1) by (simp add: live_inv_def)
  have tape: "tape_ok (chain_of rows) (pg_viewer pg)" using pok [of p] False by (simp add: page_ok_def pg_def)
  have id: "last_event_id native (pg_viewer pg) = None \<or> last_event_id native (pg_viewer pg) = vw_last (pg_viewer pg)"
    unfolding last_event_id_def Let_def by (cases native; simp only: if_True if_False; rule parse_own_id)
  have sf: "s \<notin> set (hb_sinks (wd_hub w))" "sr_queue (hb_streams (wd_hub w) s) = []" using fresh by (auto simp: fresh_from_def)
  have hub: "hub_ok (chain_of rows) r (wd_hub w)" "distinct (hb_sinks (wd_hub w))" using inv(1) by (simp_all add: live_inv_def)
  note E = subscribe_effect [OF chain_of_sorted [OF assms(1)] hub(1) sf id tape sub]
  define pages where "pages = (wd_pages w)(p := pg\<lparr>pg_stream := if ok then Some s else None\<rparr>)"
  have step: "tape_step (Connect p native) w = w\<lparr>wd_hub := h, wd_next := Suc s, wd_pages := pages\<rparr>"
    using False sub by (simp add: Let_def pg_def [symmetric] s_def [symmetric] pages_def)
  have mine: "page_ok (chain_of rows) r h (pages p)" using E tape by (cases ok) (simp_all add: pages_def page_ok_def)
  have others: "page_ok (chain_of rows) r h (pages q)" if "q \<noteq> p" for q
  proof -
    have "page_ok (chain_of rows) r h (wd_pages w q)"
    proof (rule page_ok_own [OF pok])
      fix t assume "pg_stream (wd_pages w q) = Some t"
      then have "t \<noteq> s" using own by (auto simp: own_streams_def)
      then show "sr_queue (hb_streams h t) = sr_queue (hb_streams (wd_hub w) t) \<and> (t \<in> set (hb_sinks h) \<longrightarrow> t \<in> set (hb_sinks (wd_hub w)))"
        using E by (cases ok) auto
    qed
    then show ?thesis using that by (simp add: pages_def)
  qed
  have "distinct (hb_sinks h)" using E hub(2) sf(1) by (cases ok) auto
  moreover have "page_ok (chain_of rows) r h (pages q)" for q using mine others by (cases "q = p") auto
  ultimately have "live_inv (chain_of rows) r h (range pages)" using E by (auto simp: live_inv_def)
  moreover have "fresh_from (Suc s) h" using fresh E by (cases ok) (auto simp: fresh_from_def)
  moreover have "own_streams (Suc s) pages" using own by (auto simp: own_streams_def pages_def less_Suc_eq split: if_splits)
  ultimately show ?thesis unfolding step world_ok_def using inv(2) by auto
qed (use assms in simp)

lemma read_ok:
  assumes "world_ok rows w"
  shows "world_ok rows (tape_step (Read p) w)"
proof (cases "\<exists>s c cs. pg_stream (wd_pages w p) = Some s \<and> sr_queue (hb_streams (wd_hub w) s) = c # cs")
  case True
  then obtain s c cs where s: "pg_stream (wd_pages w p) = Some s" "sr_queue (hb_streams (wd_hub w) s) = c # cs" by blast
  define h where "h = (wd_hub w)\<lparr>hb_streams := (hb_streams (wd_hub w))(s := (hb_streams (wd_hub w) s)\<lparr>sr_queue := cs\<rparr>)\<rparr>"
  define pages where "pages = (wd_pages w)(p := (wd_pages w p)\<lparr>pg_viewer := fold receive c (pg_viewer (wd_pages w p))\<rparr>)"
  have step: "tape_step (Read p) w = w\<lparr>wd_hub := h, wd_pages := pages\<rparr>"
    using s by (simp add: Let_def h_def pages_def)
  obtain r where inv: "live_inv (chain_of rows) r (wd_hub w) (range (wd_pages w))" "tailer_at r (wd_tailer w)"
    and fresh: "fresh_from (wd_next w) (wd_hub w)" and own: "own_streams (wd_next w) (wd_pages w)"
    using assms by (auto simp: world_ok_def)
  have pok: "page_ok (chain_of rows) r (wd_hub w) (wd_pages w q)" for q using inv(1) by (simp add: live_inv_def)
  have mine: "page_ok (chain_of rows) r h (pages p)"
    using pok [of p] s by (simp add: page_ok_def pages_def h_def good_append)
  have others: "page_ok (chain_of rows) r h (pages q)" if "q \<noteq> p" for q
  proof -
    have "page_ok (chain_of rows) r h (wd_pages w q)"
      by (rule page_ok_own [OF pok]) (use own s that in \<open>auto simp: own_streams_def h_def\<close>)
    then show ?thesis using that by (simp add: pages_def)
  qed
  have "same_tape (wd_hub w) h" by (simp add: h_def same_tape_def)
  then have "hub_ok (chain_of rows) r h" using inv(1) same_tape_ok by (auto simp: live_inv_def)
  moreover have "page_ok (chain_of rows) r h (pages q)" for q using mine others by (cases "q = p") auto
  moreover have "distinct (hb_sinks h)" using inv(1) by (simp add: live_inv_def h_def)
  ultimately have "live_inv (chain_of rows) r h (range pages)" by (auto simp: live_inv_def)
  moreover have "fresh_from (wd_next w) h" using fresh s own by (auto simp: fresh_from_def h_def)
  moreover have "own_streams (wd_next w) pages" using own by (auto simp: own_streams_def pages_def split: if_splits)
  ultimately show ?thesis unfolding step world_ok_def using inv(2) by auto
next
  case False
  then have "tape_step (Read p) w = w" by (auto simp: Let_def split: option.split list.split)
  then show ?thesis using assms by simp
qed

lemma lost_ok:
  assumes "world_ok rows w"
  shows "world_ok rows (tape_step (Lost p) w)"
proof -
  define pages where "pages = (wd_pages w)(p := (wd_pages w p)\<lparr>pg_stream := None\<rparr>)"
  have "page_ok chain r h (pages q)" if "page_ok chain r h (wd_pages w q)" for chain r h q
    using that by (cases "q = p") (auto simp: pages_def page_ok_def split: option.splits intro: good_start)
  moreover have "own_streams (wd_next w) (wd_pages w) \<Longrightarrow> own_streams (wd_next w) pages"
    by (auto simp: own_streams_def pages_def split: if_splits)
  ultimately show ?thesis using assms by (auto simp: world_ok_def live_inv_def pages_def [symmetric])
qed

lemma gone_ok:
  assumes "world_ok rows w"
  shows "world_ok rows (tape_step (Gone s) w)"
proof -
  define h where "h = (unsubscribe s (wd_hub w))\<lparr>hb_streams := (hb_streams (wd_hub w))(s := sink_cancel (hb_streams (wd_hub w) s))\<rparr>"
  have tape: "same_tape (wd_hub w) h" by (simp add: h_def same_tape_def unsubscribe_def)
  have "page_ok chain r h pg" if "page_ok chain r (wd_hub w) pg" "distinct (hb_sinks (wd_hub w))" for chain r pg
    using that
    by (cases "pg_stream pg = Some s") (auto simp: page_ok_def h_def unsubscribe_def sink_cancel_def split: option.splits intro: good_start)
  moreover have "distinct (hb_sinks (wd_hub w)) \<Longrightarrow> distinct (hb_sinks h)" by (simp add: h_def unsubscribe_def distinct_remove1)
  moreover have "fresh_from (wd_next w) (wd_hub w) \<Longrightarrow> fresh_from (wd_next w) h"
    by (auto simp: fresh_from_def h_def unsubscribe_def sink_cancel_def dest: notin_set_remove1)
  moreover obtain r where "live_inv (chain_of rows) r (wd_hub w) (range (wd_pages w))" "tailer_at r (wd_tailer w)"
    "fresh_from (wd_next w) (wd_hub w)" "own_streams (wd_next w) (wd_pages w)" using assms by (auto simp: world_ok_def)
  ultimately show ?thesis using same_tape_ok [OF tape]
    by (auto simp: world_ok_def live_inv_def h_def [symmetric] intro!: exI [of _ r])
qed

lemma tape_reach_ok:
  assumes "rows_sorted rows" "sparse rows" "tape_reach rows w"
  shows "world_ok rows w"
  using assms(3)
proof induction
  case (tape_start maxStreams holdMs lanes)
  show ?case
    using new_hub_ok [of "chain_of rows" maxStreams 40]
    by (auto simp: world_ok_def new_world_def live_inv_def page_ok_def tape_ok_def new_viewer_def tailer_at_def new_tailer_def
        fresh_from_def own_streams_def new_hub_def new_stream_def)
next
  case (tape_next w e)
  then obtain r where inv: "live_inv (chain_of rows) r (wd_hub w) (range (wd_pages w))" "tailer_at r (wd_tailer w)"
    and rest: "fresh_from (wd_next w) (wd_hub w)" "own_streams (wd_next w) (wd_pages w)" by (auto simp: world_ok_def)
  have dis: "distinct (hb_sinks (wd_hub w))" using inv(1) by (simp add: live_inv_def)
  show ?case
  proof (cases e)
    case (Cycle qs)
    obtain ta h where run: "cycle qs (wd_tailer w, wd_hub w) = (ta, h)" by fastforce
    from cycle_inv [OF assms(1,2) _ inv run] tape_next(2) obtain r' where
      "live_inv (chain_of rows) r' h (range (wd_pages w))" "tailer_at r' ta" by (auto simp: Cycle)
    then show ?thesis using rest cycle_fresh [OF dis rest(1) run] by (auto simp: Cycle run world_ok_def)
  next
    case (StatsTick now)
    then show ?thesis using inv rest publishStats_inv [OF inv(1)]
        broadcast_fresh [of "(wd_hub w)\<lparr>hb_stats := Some (stats now (tl_window (wd_tailer w))), hb_hello := None\<rparr>" "wd_next w"] dis
      by (auto simp: world_ok_def publishStats_def fresh_from_def)
  next
    case Beat
    then show ?thesis using inv rest heartbeat_inv [OF inv(1)] broadcast_fresh [OF dis rest(1)]
      by (auto simp: world_ok_def heartbeat_def)
  next
    case (Lanes on)
    then show ?thesis using inv rest by (auto simp: world_ok_def tailer_at_def)
  next
    case Shutdown
    then show ?thesis using inv rest closeAll_inv [OF inv(1)] closeAll_fresh by (auto simp: world_ok_def)
  next
    case (Connect p native)
    then show ?thesis using connect_ok [OF assms(1) tape_next.IH] by simp
  next
    case (Read p)
    then show ?thesis using read_ok [OF tape_next.IH] by simp
  next
    case (Lost p)
    then show ?thesis using lost_ok [OF tape_next.IH] by simp
  next
    case (Gone s)
    then show ?thesis using gone_ok [OF tape_next.IH] by simp
  qed
qed

text \<open>The chain is the table: block by block, every row once, in the order of its key.\<close>

lemma add_row_rows: "\<exists>t. rows_of (map msg_of (add_row win r)) = rows_of (map msg_of win) @ [(mr_n r, t, strip_move (toMove (window_move_of r)))]"
  by (cases win rule: rev_cases) (auto simp: add_row_def Let_def msg_of_def block_rows_def butlast_append)

lemma chain_of_rows: "map (\<lambda>(n, _, m). (n, m)) (rows_of (chain_of rows)) = map (\<lambda>r. (mr_n r, strip_move (toMove (window_move_of r)))) rows"
proof (induction rows rule: rev_induct)
  case (snoc r rows)
  obtain t where "rows_of (map msg_of (add_row (group_moves rows) r)) =
      rows_of (map msg_of (group_moves rows)) @ [(mr_n r, t, strip_move (toMove (window_move_of r)))]" using add_row_rows by blast
  then show ?case using snoc by (simp add: chain_of_def group_moves_snoc)
qed (simp add: chain_of_def group_moves_snoc)

text \<open>
  C3: Every page shows a gapless tape. Let the worker's rows up to its cursor be settled and no 600 blocks
  hold more rows than a query reads. Then whatever the tailer, the hub, the queues and the pages do
  (reconnects, dropped viewers, stalls, a worker that was rewound, failing queries), the movements a page
  has been handed since its last hello are the newest ones up to its last event id, each once and in
  order; and a page that the hub serves and that has read its queue has all of them up to the last
  released block. The chain they are taken from is the worker's table, row by row.
\<close>

theorem viewer_tape_gapless:
  assumes "rows_sorted rows" "sparse rows" "tape_reach rows w"
  shows "(let v = pg_viewer (wd_pages w p); tape = rows_of (vw_blocks v); h = wd_hub w in
      (tape = [] \<or> (\<exists>l. vw_last v = Some l \<and> suffix tape (upto_block (chain_of rows) l))) \<and>
      (case (pg_stream (wd_pages w p), tl_lastReleased (wd_tailer w)) of
         (Some s, Some n) \<Rightarrow> if s \<in> set (hb_sinks h) \<and> sr_queue (hb_streams h s) = [] then suffix tape (upto_block (chain_of rows) n) else True
       | _ \<Rightarrow> True)) \<and>
    map (\<lambda>(n, _, m). (n, m)) (rows_of (chain_of rows)) = map (\<lambda>r. (mr_n r, strip_move (toMove (window_move_of r)))) rows"
proof -
  obtain r where inv: "live_inv (chain_of rows) r (wd_hub w) (range (wd_pages w))" "tailer_at r (wd_tailer w)"
    using tape_reach_ok [OF assms] by (auto simp: world_ok_def)
  have pok: "page_ok (chain_of rows) r (wd_hub w) (wd_pages w p)" using inv(1) by (simp add: live_inv_def)
  then have "tape_ok (chain_of rows) (pg_viewer (wd_pages w p))" by (auto simp: page_ok_def split: option.splits intro: good_start)
  then show ?thesis using pok inv(2) chain_of_rows
    by (auto simp: Let_def tape_ok_def page_ok_def tailer_at_def tape_live_def split: option.splits)
qed

definition sample_row :: "int \<Rightarrow> move_row" where
  "sample_row n = \<lparr>mr_n = n, mr_t = 100 + n, mr_tx = ''0x1'', mr_li = 0, mr_f = ''0xa'', mr_r = ''0xb'', mr_v = 7, mr_lane = None\<rparr>"

definition sample_archive :: "int \<Rightarrow> archive" where
  "sample_archive c = \<lparr>ar_cursor = Some c, ar_insightsCursor = None, ar_blocks = [], ar_rows = [sample_row 5], ar_now = 0\<rparr>"

definition sample_world :: world where
  "sample_world = fold tape_step [Connect 0 False, Cycle (\<lambda>_. Some (sample_archive 6)), Read 0, Read 0, Read 0] (new_world 10 8000 False)"

theorem viewer_tape_gapless_witness:
  "tape_reach [sample_row 5] sample_world \<and>
   (let tape = rows_of (vw_blocks (pg_viewer (wd_pages sample_world 0)))
    in tape = [] \<or> (\<exists>l. vw_last (pg_viewer (wd_pages sample_world 0)) = Some l \<and> suffix tape (upto_block (chain_of [sample_row 5]) l))) \<and>
   map (\<lambda>(n, _, m). n) (rows_of (chain_of [sample_row 5])) = [5]"
proof -
  have sorted: "rows_sorted [sample_row 5]" by (simp add: rows_sorted_def)
  have sparse: "sparse [sample_row 5]"
    unfolding sparse_def MAX_ROWS_def by (auto intro: order_trans [OF length_filter_le])
  have steady: "steady [sample_row 5] (\<lambda>_. Some (sample_archive 6))"
    by (simp add: steady_def settled_rows_def sample_archive_def sample_row_def)
  have reach: "tape_reach [sample_row 5] sample_world"
    unfolding sample_world_def using steady
    by (simp del: tape_step.simps) (intro tape_next tape_start; simp)
  note T = viewer_tape_gapless [OF sorted sparse reach, of 0, unfolded Let_def]
  have "map fst (map (\<lambda>(n, _, m). (n, m)) (rows_of (chain_of [sample_row 5]))) = [mr_n (sample_row 5)]"
    using T by simp
  then have "map (\<lambda>(n, _, m). n) (rows_of (chain_of [sample_row 5])) = [5]"
    by (simp add: comp_def case_prod_unfold) (simp add: sample_row_def)
  then show ?thesis using T reach unfolding Let_def by blast
qed

end
