(* ===== verification/Story.thy ===== *)
theory Story
  imports Address Rollup Window Tailer "HOL-Library.List_Lexorder" "HOL-Library.Char_ord"
begin

text \<open>
  What the home page and an address page say: \<open>explorer/lib/homestory.ts\<close>, \<open>live.ts\<close>, \<open>lanes.ts\<close>,
  \<open>addrstory.ts\<close> and the sums of \<open>address.ts\<close>. The theorems say that an address's totals are the sums of
  its whole history as far as the rollup has come, and what the headline prints of the last minute.
  Inks are left out of the lanes; the chart's bars are pixels and are not modelled.
\<close>

subsection \<open>Lanes\<close>

record lane_meta =
  lm_label :: string
  lm_plural :: string

definition LANE_META :: "(string \<times> lane_meta) list" where
  "LANE_META = map (\<lambda>(k, l, p). (k, \<lparr>lm_label = l, lm_plural = p\<rparr>))
     [(''swap'', ''Swap'', ''swaps''), (''bridge'', ''Bridge'', ''bridge transfers''), (''liquidity'', ''Liquidity'', ''liquidity changes''),
      (''vault'', ''Vault'', ''vault moves''), (''lending'', ''Lending'', ''lending moves''),
      (''signed_payment'', ''Signed payment'', ''signed payments''), (''payment'', ''Payment'', ''payments''), (''spam'', ''Dust'', ''dust''),
      (''issuance'', ''Mint / burn'', ''mints and burns''), (''uncertain'', ''Uncertain'', ''uncertain movements''),
      (''no_transfer'', ''No transfer'', ''events without a transfer'')]"

definition LANE_ORDER :: "string list" where
  "LANE_ORDER = [''swap'', ''bridge'', ''liquidity'', ''vault'', ''lending'', ''signed_payment'', ''payment'', ''spam'',
     ''issuance'', ''uncertain'', ''no_transfer'']"

definition LANES_ALWAYS :: "string list" where
  "LANES_ALWAYS = [''swap'', ''bridge'', ''liquidity'', ''vault'', ''lending'', ''signed_payment'', ''payment'', ''spam'', ''issuance'']"

definition em_dash :: string where "em_dash = [CHR 0xE2, CHR 0x80, CHR 0x94]"

definition laneMeta :: "string option \<Rightarrow> lane_meta" where
  "laneMeta lane =
     (case lane of None \<Rightarrow> \<lparr>lm_label = em_dash, lm_plural = []\<rparr>
      | Some l \<Rightarrow> (case map_of LANE_META l of Some m \<Rightarrow> m
          | None \<Rightarrow> let s = map (\<lambda>c. if c = CHR ''_'' then CHR '' '' else c) l in \<lparr>lm_label = s, lm_plural = s\<rparr>))"

text \<open>Every lane the model can choose is shown, in its order, and every shown lane has its words.\<close>

lemma lanes_shown: "take (length LANES) LANE_ORDER = map fst LANES" "map fst LANE_META = LANE_ORDER"
  "set LANES_ALWAYS \<subseteq> set LANE_ORDER"
  by code_simp+

subsection \<open>The home page (\<open>homestory.ts\<close>, \<open>live.ts\<close>)\<close>

definition lane_count :: "stats_msg \<Rightarrow> string \<Rightarrow> nat" where
  "lane_count s l = (case map_of (sm_lanes s) l of Some n \<Rightarrow> n | None \<Rightarrow> 0)"

definition laned :: "stats_msg \<Rightarrow> nat" where
  "laned s = sum_list (map snd (sm_lanes s))"

definition lanesPaused :: "stats_msg option \<Rightarrow> bool" where
  "lanesPaused s = (case s of None \<Rightarrow> False | Some s \<Rightarrow> 0 < sm_count s \<and> laned s * 2 < sm_count s)"

text \<open>\<open>replace(/^-/, '').split('.')[0].replace(/^0+(?=\d)/, '')\<close>\<close>

definition whole_digits :: "string \<Rightarrow> string" where
  "whole_digits usdc =
     (let s = takeWhile (\<lambda>c. c \<noteq> CHR ''.'') (if startsWith ''-'' usdc then drop 1 usdc else usdc);
          z = takeWhile (\<lambda>c. c = CHR ''0'') s;
          r = dropWhile (\<lambda>c. c = CHR ''0'') s
      in if r \<noteq> [] \<and> is_digit (hd r) then r else if z = [] then s else drop (length z - 1) s)"

definition minuteTotal :: "string \<Rightarrow> string + string" where
  "minuteTotal usdc = (if length (whole_digits usdc) \<le> 2 then fmtAmount usdc else fmtWhole usdc)"

definition homeHeadline :: "stats_msg option \<Rightarrow> nat option \<Rightarrow> string + part list" where
  "homeHeadline s behindAt =
     (case s of None \<Rightarrow> Inr [Text (''Listening to Arc'' @ ellipsis)]
      | Some s \<Rightarrow>
          if sm_count s = 0 then Inr [Text (''Listening to Arc'' @ ellipsis)]
          else
            let lead = (case behindAt of None \<Rightarrow> ''In the last minute '' | Some t \<Rightarrow> ''In the minute to '' @ take 5 (fmtTime t) @ '' UTC '') in
            bindE (minuteTotal (sm_usdc s)) (\<lambda>total.
              let parts = [Text lead, Bold (total @ '' USDC''), Text '' moved across Arc in '', Bold (fmtInt (int (sm_count s))),
                    Text (if sm_count s = 1 then '' movement'' else '' movements'')];
                  swaps = lane_count s ''swap''
              in Inr (if lanesPaused (Some s) then parts @ [Text ''.'']
                 else parts @ [Text ''; '', Bold (fmtInt (int swaps)), Text (if swaps = 1 then '' of them was a swap.'' else '' of them were swaps.'')])))"

record lane_share =
  ls_lane :: string
  ls_label :: string
  ls_pct :: nat

definition laneShares :: "stats_msg option \<Rightarrow> lane_share list" where
  "laneShares s =
     (let total = (case s of None \<Rightarrow> 0 | Some s \<Rightarrow> sm_count s); of_lane = (\<lambda>l. case s of None \<Rightarrow> 0 | Some s \<Rightarrow> lane_count s l) in
      map (\<lambda>lane. \<lparr>ls_lane = lane, ls_label = lm_label (laneMeta (Some lane)), ls_pct = pct (of_lane lane) total\<rparr>)
        (filter (\<lambda>l. l \<in> set LANES_ALWAYS \<or> 0 < of_lane l) LANE_ORDER))"

datatype live_state = Live_now | Behind int | Down

definition BEHIND_S :: int where "BEHIND_S = 15"

definition newestTime :: "int option list \<Rightarrow> int option" where
  "newestTime ts = fold (\<lambda>t best. case (t, best) of (Some x, None) \<Rightarrow> Some x
     | (Some x, Some b) \<Rightarrow> if b < x then Some x else Some b | (None, _) \<Rightarrow> best) ts None"

text \<open>\<open>Math.round\<close>: halves up.\<close>

definition round_div :: "int \<Rightarrow> int \<Rightarrow> int" where
  "round_div a b = (2 * a + b) div (2 * b)"

definition lagText :: "int \<Rightarrow> string" where
  "lagText seconds =
     (if seconds < 120 then fmtInt seconds @ '' s behind''
      else if seconds < 7200 then fmtInt (round_div seconds 60) @ '' min behind''
      else if seconds < 48 * 3600 then fmtInt (round_div seconds 3600) @ '' h behind''
      else fmtInt (round_div seconds 86400) @ '' days behind'')"

definition liveState :: "int option \<Rightarrow> int \<Rightarrow> bool \<Rightarrow> live_state" where
  "liveState newestBlockTime nowMs opened =
     (if \<not> opened then Down
      else case newestBlockTime of None \<Rightarrow> Live_now
      | Some t \<Rightarrow> let lag = round_div (nowMs - 1000 * t) 1000 in if BEHIND_S < lag then Behind lag else Live_now)"

subsection \<open>An address page (\<open>address.ts\<close>, \<open>addrstory.ts\<close>)\<close>

record page_totals =
  pt_inValue :: int
  pt_outValue :: int
  pt_inCount :: int
  pt_outCount :: int
  pt_firstDay :: "string option"
  pt_lastDay :: "string option"

text \<open>The rows of an address in \<open>explorer.address_daily\<close>; a sum over no row is \<open>NULL\<close>, read as 0.\<close>

definition own_days :: "nat \<Rightarrow> (day_key \<times> totals) list \<Rightarrow> (string \<times> totals) list" where
  "own_days i daily = map (\<lambda>((_, day), x). (day, x)) (filter (\<lambda>((a, _), _). a = i) daily)"

definition totals_of :: "nat \<Rightarrow> (day_key \<times> totals) list \<Rightarrow> page_totals" where
  "totals_of i daily =
     (let own = own_days i daily; days = map fst own; sum = (\<lambda>f. sum_list (map (f \<circ> snd) own))
      in \<lparr>pt_inValue = sum tt_inValue, pt_outValue = sum tt_outValue, pt_inCount = sum tt_inCount, pt_outCount = sum tt_outCount,
          pt_firstDay = (if days = [] then None else Some (Min (set days))),
          pt_lastDay = (if days = [] then None else Some (Max (set days)))\<rparr>)"

definition days_of :: "nat \<Rightarrow> (day_key \<times> totals) list \<Rightarrow> (string \<times> int \<times> int) list" where
  "days_of i daily = map (\<lambda>(day, x). (day, tt_inValue x, tt_outValue x)) (sort_key fst (own_days i daily))"

definition netOf :: "page_totals \<Rightarrow> string" where
  "netOf t = unitsToDecimal (pt_inValue t - pt_outValue t) 18"

definition topLane :: "(string \<times> nat) list \<Rightarrow> string option" where
  "topLane lanes = fold (\<lambda>lane best.
     let n = (case map_of lanes lane of Some n \<Rightarrow> n | None \<Rightarrow> 0);
         top = (case best of None \<Rightarrow> 0 | Some b \<Rightarrow> (case map_of lanes b of Some n \<Rightarrow> n | None \<Rightarrow> 0))
     in if lane = ''uncertain'' then best else if 0 < n \<and> (best = None \<or> top < n) then Some lane else best) LANE_ORDER None"

text \<open>\<open>fmtDay\<close> is a parameter: it prints a calendar date.\<close>

definition addressHeadline :: "(string \<Rightarrow> string) \<Rightarrow> string \<Rightarrow> page_totals \<Rightarrow> string option \<Rightarrow> string + part list" where
  "addressHeadline fmtDay address t lane =
     bindE (fmtAmount (unitsToDecimal (pt_inValue t) 18)) (\<lambda>received.
     bindE (fmtAmount (unitsToDecimal (pt_outValue t) 18)) (\<lambda>sent.
       let n = pt_inCount t + pt_outCount t in
       Inr ([case nameOf address of Some name \<Rightarrow> Bold name | None \<Rightarrow> Text ''This address'',
             Text '' received '', Bold (received @ '' USDC''), Text '' and sent '', Bold (sent @ '' USDC''),
             Text '' across '', Bold (fmtInt n), Text (if n = 1 then '' movement'' else '' movements'')] @
            (case pt_firstDay t of Some d \<Rightarrow> [Text ('' since '' @ fmtDay d)] | None \<Rightarrow> []) @
            (case lane of Some l \<Rightarrow> [Text ('' '' @ em_dash @ '' mostly ''), Bold (lm_plural (laneMeta (Some l))), Text ''.''] | None \<Rightarrow> [Text ''.'']))))"

definition ROLLUP_SLACK :: int where "ROLLUP_SLACK = 120"

definition rollupBehind :: "int option \<Rightarrow> int option \<Rightarrow> bool" where
  "rollupBehind rolledTo headBlock = (case (rolledTo, headBlock) of (Some r, Some h) \<Rightarrow> r < h - ROLLUP_SLACK | _ \<Rightarrow> False)"

definition emptyAddressText :: "bool \<Rightarrow> int option \<Rightarrow> int option \<Rightarrow> string" where
  "emptyAddressText known_address rolledTo headBlock =
     (if known_address \<and> rolledTo = None then ''Totals are still being added.''
      else if known_address \<and> rollupBehind rolledTo headBlock then ''Totals are still being added (up to block '' @ fmtInt (the rolledTo) @ '').''
      else ''No USDC movement for this address since 2026-05-15.'')"

record counterparty =
  cp_address :: nat
  cp_count :: nat
  cp_value :: int

text \<open>\<open>recent\<close> over the latest \<open>n\<close> movements: their number, and the six counterparties met most, ties by value and id.\<close>

definition recent :: "nat \<Rightarrow> nat \<Rightarrow> movement list \<Rightarrow> nat \<times> counterparty list" where
  "recent i n ms =
     (let page = latest i (MAX_BLOCK, MAX_LI) n ms;
          met = filter (\<lambda>m. mm_from m \<noteq> mm_to m) page;
          cp = (\<lambda>m. if mm_to m = i then mm_from m else mm_to m);
          group = (\<lambda>a. \<lparr>cp_address = a, cp_count = length (filter (\<lambda>m. cp m = a) met),
            cp_value = sum_list (map mm_value (filter (\<lambda>m. cp m = a) met))\<rparr>)
      in (length page, take 6 (sort_key (\<lambda>x. (- int (cp_count x), - cp_value x, cp_address x)) (map group (remdups (map cp met))))))"

subsection \<open>Totals and headline\<close>

text \<open>The table has one row per address and day.\<close>

definition one_row :: "explorer_db \<Rightarrow> bool" where
  "one_row db \<longleftrightarrow> distinct (map fst (ex_daily db))"

lemma distinct_upserts: "distinct (map fst daily) \<Longrightarrow> distinct (map fst (foldl upsert daily rows))"
  by (induction rows arbitrary: daily) (auto simp: upsert_def distinct_update)

lemma turns_one_row: "one_row (rw_db w) \<Longrightarrow> one_row (rw_db (fold take_turn turns w))"
proof (induction turns arbitrary: w)
  case (Cons t turns)
  obtain i lock f wv where t: "t = (i, lock, f, wv)" by (cases t)
  obtain res ru db where st: "step lock f wv (rw_replicas w i, rw_db w) = (res, ru, db)" by (cases "step lock f wv (rw_replicas w i, rw_db w)")
  have "one_row db" using step_cases [OF st] Cons.prems
    by (auto simp: one_row_def fold_sql_def distinct_upserts split: if_splits)
  then show ?case using Cons.IH [of "take_turn t w"] by (simp add: take_turn_def t st)
qed simp

text \<open>Summed over the days that occur, a total is the sum over all transfers.\<close>

lemma sum_over_days:
  fixes f :: "transfer \<Rightarrow> int"
  shows "distinct D \<Longrightarrow> sum_list (map (\<lambda>d. sum_list (map f (filter (\<lambda>t. P t \<and> tr_day t = d) ts))) D) = sum_list (map f (filter (\<lambda>t. P t \<and> tr_day t \<in> set D) ts))"
proof (induction ts)
  case (Cons t ts)
  have "sum_list (map (\<lambda>d. if P t \<and> tr_day t = d then f t + g d else g d) D) = (if P t \<and> tr_day t \<in> set D then f t else 0) + sum_list (map g D)" for g
    using Cons.prems by (induction D) auto
  then show ?case using Cons by (simp add: if_distrib [of "\<lambda>xs. sum_list (map f xs)"] cong: if_cong)
qed simp

lemma own_days_exact:
  assumes "exact rows db" "one_row db" "(day, x) \<in> set (own_days i (ex_daily db))"
  shows "x = totals_upto (rolled db) rows (i, day)"
proof -
  have "((i, day), x) \<in> set (ex_daily db)" using assms(3) by (auto simp: own_days_def)
  then have "map_of (ex_daily db) (i, day) = Some x" using assms(2) by (simp add: one_row_def)
  then have "x = total_of (ex_daily db) (i, day)" by (simp add: total_of_def)
  then show ?thesis using assms(1) unfolding exact_def by metis
qed

lemma own_days_all:
  assumes "exact rows db" "t \<in> set rows" "tr_block t \<le> rolled db" "tr_to t = i \<or> tr_from t = i"
  shows "tr_day t \<in> set (map fst (own_days i (ex_daily db)))"
proof (rule ccontr)
  assume missing: "tr_day t \<notin> set (map fst (own_days i (ex_daily db)))"
  then have "(i, tr_day t) \<notin> fst ` set (ex_daily db)" by (force simp: own_days_def)
  then have "total_of (ex_daily db) (i, tr_day t) = zero_totals" by (simp add: total_of_def map_of_eq_None_iff [THEN iffD2])
  then have "totals_upto (rolled db) rows (i, tr_day t) = zero_totals" using assms(1) by (simp add: exact_def)
  then show False using assms(2-) by (auto simp: totals_upto_def zero_totals_def filter_empty_conv Let_def)
qed

definition sent_to :: "transfer list \<Rightarrow> int \<Rightarrow> nat \<Rightarrow> transfer list" where
  "sent_to rows c i = filter (\<lambda>t. tr_block t \<le> c \<and> tr_to t = i) rows"

definition sent_by :: "transfer list \<Rightarrow> int \<Rightarrow> nat \<Rightarrow> transfer list" where
  "sent_by rows c i = filter (\<lambda>t. tr_block t \<le> c \<and> tr_from t = i) rows"

lemma totals_of_exact:
  assumes "exact rows db" "one_row db"
  shows "pt_inValue (totals_of i (ex_daily db)) = sum_list (map tr_value (sent_to rows (rolled db) i))"
    "pt_outValue (totals_of i (ex_daily db)) = sum_list (map tr_value (sent_by rows (rolled db) i))"
    "pt_inCount (totals_of i (ex_daily db)) = int (length (sent_to rows (rolled db) i))"
    "pt_outCount (totals_of i (ex_daily db)) = int (length (sent_by rows (rolled db) i))"
proof -
  define own where "own = own_days i (ex_daily db)"
  define c where "c = rolled db"
  have by_day: "map (f \<circ> snd) own = map (\<lambda>d. f (totals_upto c rows (i, d))) (map fst own)" for f :: "totals \<Rightarrow> int"
    using own_days_exact [OF assms] by (auto simp: own_def c_def)
  have days: "distinct (map fst own)"
    using assms(2) by (auto simp: own_def own_days_def one_row_def distinct_map inj_on_def case_prod_beta) (metis fst_conv snd_conv)
  have sums: "sum_list (map (\<lambda>d. sum_list (map f (filter (\<lambda>t. P t \<and> tr_day t = d) rows))) (map fst own)) = sum_list (map f (filter P rows))"
    if P: "\<And>t. P t \<Longrightarrow> tr_block t \<le> c \<and> (tr_to t = i \<or> tr_from t = i)"
    for f :: "transfer \<Rightarrow> int" and P
  proof -
    have "tr_day t \<in> set (map fst own)" if "t \<in> set rows" "P t" for t
      using own_days_all [OF assms(1) that(1)] P [OF that(2)] by (simp only: own_def c_def)
    then have "filter (\<lambda>t. P t \<and> tr_day t \<in> set (map fst own)) rows = filter P rows"
      by (intro filter_cong refl iffI conjI) simp_all
    then show ?thesis using sum_over_days [OF days, of f P rows] by (simp only:)
  qed
  have ones: "int (length xs) = sum_list (map (\<lambda>_. 1) xs)" for xs :: "transfer list" by (induction xs) simp_all
  have day: "(\<lambda>t. tr_block t \<le> c \<and> (tr_to t, tr_day t) = (i, d)) = (\<lambda>t. (tr_block t \<le> c \<and> tr_to t = i) \<and> tr_day t = d)"
    "(\<lambda>t. tr_block t \<le> c \<and> (tr_from t, tr_day t) = (i, d)) = (\<lambda>t. (tr_block t \<le> c \<and> tr_from t = i) \<and> tr_day t = d)" for d by auto
  show "pt_inValue (totals_of i (ex_daily db)) = sum_list (map tr_value (sent_to rows (rolled db) i))"
    "pt_outValue (totals_of i (ex_daily db)) = sum_list (map tr_value (sent_by rows (rolled db) i))"
    "pt_inCount (totals_of i (ex_daily db)) = int (length (sent_to rows (rolled db) i))"
    "pt_outCount (totals_of i (ex_daily db)) = int (length (sent_by rows (rolled db) i))"
    unfolding totals_of_def Let_def own_def [symmetric] page_totals.simps by_day totals_upto_def totals.simps day ones
      sent_to_def sent_by_def c_def [symmetric] by (intro sums; simp)+
qed

text \<open>
  C14: An address page's totals are its whole history as far as the rollup has come: what it received
  and sent, and how often, are the sums and counts over all its transfers, and the net is their
  difference, printed without losing a digit.
\<close>

theorem page_totals_exact:
  assumes "\<forall>(j, lock, f, wv)\<in>set turns. settled_view rows wv" "\<forall>t\<in>set rows. 0 \<le> tr_block t" "1 \<le> maxSpan"
    "db = rw_db (fold take_turn turns (start_world maxSpan))" "t = totals_of i (ex_daily db)"
  shows "pt_inValue t = sum_list (map tr_value (sent_to rows (rolled db) i)) \<and>
    pt_outValue t = sum_list (map tr_value (sent_by rows (rolled db) i)) \<and>
    pt_inCount t = int (length (sent_to rows (rolled db) i)) \<and>
    pt_outCount t = int (length (sent_by rows (rolled db) i)) \<and>
    netOf t = unitsToDecimal (sum_list (map tr_value (sent_to rows (rolled db) i)) - sum_list (map tr_value (sent_by rows (rolled db) i))) 18"
proof -
  have "filter (\<lambda>t. tr_block t \<le> - 1 \<and> P t) rows = []" for P using assms(2) by (force simp: filter_empty_conv)
  then have "totals_upto (- 1) rows j = zero_totals" for j by (simp add: totals_upto_def zero_totals_def)
  then have start: "exact rows (rw_db (start_world maxSpan))" by (simp add: exact_def start_world_def rolled_def total_of_def)
  have spans: "\<forall>j. span_ok (rw_replicas (start_world maxSpan) j)" using assms(3) by (simp add: start_world_def new_rollup_def span_ok_def span_floor_def)
  have "exact rows db" using turns_ok [OF assms(1) start spans] assms(4) by simp
  moreover have "one_row db" using turns_one_row [of "start_world maxSpan" turns] assms(4) by (simp add: one_row_def start_world_def)
  ultimately show ?thesis using totals_of_exact [of rows db i] assms(5) by (simp add: netOf_def)
qed

theorem page_totals_exact_witness:
  "pt_inCount (totals_of 2 (ex_daily (rw_db (fold take_turn [(0, True, NoFault, sample_view)] (start_world 2))))) = 1"
proof -
  define ts where "ts = [(0 :: nat, True, NoFault, sample_view)]"
  have "\<forall>(j, lock, f, wv)\<in>set ts. settled_view [sample_transfer] wv"
    by (simp add: ts_def settled_view_def sample_view_def sample_transfer_def)
  note result = page_totals_exact [OF this _ _ refl refl, of 2 2]
  have "rolled (rw_db (fold take_turn ts (start_world 2))) = 4"
    by (simp add: ts_def take_turn_def start_world_def step_def new_rollup_def Let_def sample_view_def step_range_def first_block_def rolled_def)
  then show ?thesis using result by (simp add: ts_def [symmetric] sample_transfer_def sent_to_def)
qed

text \<open>The headline's total: two decimals under 100 USDC, whole USDC from there, and never an error.\<close>

lemma hd_show_nat_pos: "0 < n \<Longrightarrow> hd (show_nat n) \<noteq> CHR ''0''"
proof (induction n rule: show_nat.induct)
  case (1 n)
  show ?case
  proof (cases "n < 10")
    case True
    then have "show_nat n = [digit_char n]" by (simp add: show_nat.simps [of n])
    then have "digit_char n \<noteq> CHR ''0''" using read_show_nat [of n] "1.prems" by (auto simp: read_nat_single)
    then show ?thesis using \<open>show_nat n = [digit_char n]\<close> by simp
  next
    case False
    then have "0 < n div 10" by simp
    then show ?thesis using 1 False by (simp add: show_nat.simps [of n])
  qed
qed

lemma whole_digits_units: "whole_digits (unitsToDecimal raw d) = show_nat (nat \<bar>raw\<bar> div 10 ^ d)"
proof -
  define n where "n = nat \<bar>raw\<bar> div 10 ^ d"
  define z where "z = (let fr = (if d = 0 then [] else strip_zeros (padStart d (show_nat (nat \<bar>raw\<bar> mod 10 ^ d)))) in if fr = [] then [] else ''.'' @ fr)"
  have out: "unitsToDecimal raw d = (if raw < 0 then ''-'' else []) @ show_nat n @ z"
    by (simp add: unitsToDecimal_def Let_def n_def z_def)
  have z: "z = [] \<or> hd z = CHR ''.''" by (auto simp: z_def Let_def)
  have digits: "\<forall>c\<in>set (show_nat n). is_digit c" using show_nat_digits by blast
  have "\<not> startsWith ''-'' (show_nat n @ z)"
    using digits show_nat_nonempty [of n] by (cases "show_nat n") (auto simp: startsWith_def)
  then have "(if startsWith ''-'' (unitsToDecimal raw d) then drop 1 (unitsToDecimal raw d) else unitsToDecimal raw d) = show_nat n @ z"
    unfolding out by (simp add: startsWith_def)
  moreover have "takeWhile (\<lambda>c. c \<noteq> CHR ''.'') (show_nat n @ z) = show_nat n"
    using digits z by (subst takeWhile_append2) (auto, cases z, auto)
  ultimately have s: "takeWhile (\<lambda>c. c \<noteq> CHR ''.'') (if startsWith ''-'' (unitsToDecimal raw d) then drop 1 (unitsToDecimal raw d) else unitsToDecimal raw d) = show_nat n"
    by simp
  have "whole_digits (unitsToDecimal raw d) = show_nat n"
  proof (cases "n = 0")
    case True
    have "show_nat 0 = ''0''" by (simp add: show_eval)
    then show ?thesis unfolding whole_digits_def s Let_def by (simp add: True)
  next
    case False
    then have "hd (show_nat n) \<noteq> CHR ''0''" by (simp add: hd_show_nat_pos)
    then have "dropWhile (\<lambda>c. c = CHR ''0'') (show_nat n) = show_nat n"
      using show_nat_nonempty [of n] by (cases "show_nat n") auto
    then show ?thesis unfolding whole_digits_def s Let_def using hd_show_nat(1) [of n] by simp
  qed
  then show ?thesis by (simp add: n_def)
qed

lemma length_show_nat_2: "length (show_nat n) \<le> 2 \<longleftrightarrow> n < 100"
proof
  assume "length (show_nat n) \<le> 2"
  moreover have "read_nat (show_nat n) < 10 ^ length (show_nat n)" by (rule read_nat_bound) simp
  moreover have "(10 :: nat) ^ length (show_nat n) \<le> 10 ^ 2" using calculation(1) by (intro power_increasing) simp_all
  ultimately show "n < 100" by simp
qed (use length_show_nat_le [of n 2] in simp)

lemma minute_total: "minuteTotal (unitsToDecimal raw d) = (if nat \<bar>raw\<bar> < 100 * 10 ^ d then fmtAmount (unitsToDecimal raw d) else fmtWhole (unitsToDecimal raw d))"
  by (simp add: minuteTotal_def whole_digits_units length_show_nat_2 div_less_iff_less_mult)

lemma headline_total: "\<exists>parts. homeHeadline (Some (stats now w)) behindAt = Inr parts"
proof -
  have "\<exists>s. minuteTotal (sm_usdc (stats now w)) = Inr s"
    by (simp add: stats_def Let_def minute_total fmtAmount_def fmtWhole_def scaled_units)
  then show ?thesis by (auto simp: homeHeadline_def Let_def)
qed

text \<open>\<open>topLane\<close> is a lane with the most movements, the uncertain ones aside, and none if there are none.\<close>

definition lane_total :: "(string \<times> nat) list \<Rightarrow> string \<Rightarrow> nat" where
  "lane_total lanes l = (case map_of lanes l of Some n \<Rightarrow> n | None \<Rightarrow> 0)"

definition top_among :: "(string \<times> nat) list \<Rightarrow> string list \<Rightarrow> string option \<Rightarrow> bool" where
  "top_among lanes ks best \<longleftrightarrow> (case best of
     None \<Rightarrow> \<forall>k\<in>set ks. k \<noteq> ''uncertain'' \<longrightarrow> lane_total lanes k = 0
   | Some b \<Rightarrow> b \<noteq> ''uncertain'' \<and> 0 < lane_total lanes b \<and> b \<in> set ks \<and>
       (\<forall>k\<in>set ks. k \<noteq> ''uncertain'' \<longrightarrow> lane_total lanes k \<le> lane_total lanes b))"

definition pick_lane :: "(string \<times> nat) list \<Rightarrow> string \<Rightarrow> string option \<Rightarrow> string option" where
  "pick_lane lanes lane best =
     (let n = lane_total lanes lane; top = (case best of None \<Rightarrow> 0 | Some b \<Rightarrow> lane_total lanes b)
      in if lane = ''uncertain'' then best else if 0 < n \<and> (best = None \<or> top < n) then Some lane else best)"

lemma topLane_pick: "topLane lanes = fold (pick_lane lanes) LANE_ORDER None"
  unfolding topLane_def pick_lane_def [abs_def] lane_total_def ..

lemma pick_lane_top:
  assumes "top_among lanes ks best"
  shows "top_among lanes (ks @ [l]) (pick_lane lanes l best)"
proof (cases "l = ''uncertain''")
  case True
  then have "pick_lane lanes l best = best" by (simp add: pick_lane_def)
  then show ?thesis using assms True by (cases best) (simp_all add: top_among_def)
next
  case False
  show ?thesis
  proof (cases best)
    case None
    then show ?thesis using assms False by (cases "lane_total lanes l = 0") (simp_all add: top_among_def pick_lane_def Let_def)
  next
    case (Some b)
    then show ?thesis using assms False
      by (cases "lane_total lanes b < lane_total lanes l") (force simp: top_among_def pick_lane_def Let_def)+
  qed
qed

lemma topLane_most: "top_among lanes LANE_ORDER (topLane lanes)"
proof -
  have "top_among lanes ks best \<Longrightarrow> top_among lanes (ks @ ls) (fold (pick_lane lanes) ls best)" for ks ls best
  proof (induction ls arbitrary: ks best)
    case (Cons l ls)
    then show ?case using Cons.IH [OF pick_lane_top [OF Cons.prems]] by simp
  qed simp
  moreover have "top_among lanes [] None" by (simp add: top_among_def)
  ultimately have "top_among lanes ([] @ LANE_ORDER) (fold (pick_lane lanes) LANE_ORDER None)" by blast
  then show ?thesis by (simp only: topLane_pick append_Nil)
qed

end
