(* ===== verification/Spec2Isabelle.thy ===== *)
theory Spec2Isabelle
  imports Coverage Reconcile CrStatus Pacing Client Tokens Story
begin

text \<open>
  Arckive indexes the events of an EVM chain into PostgreSQL, gives each event a lane with the help of a
  model, runs its indexers on Kubernetes and shows what it stored. This library models the logic of
  its four TypeScript packages under \<open>src/packages\<close> and proves what makes them correct.

  \<^bold>\<open>The parts and how they interact\<close>

  \<open>core\<close> is the pure code both sides share: names, ABIs, DDL, decoding, configuration, sentences. A
  \<open>worker\<close> process runs two loops over one schema. Ingest reads a block range from an RPC node, decodes
  it and commits rows, dead letters and the cursor in one transaction. The insight loop follows behind
  that cursor: it reads the committed rows and the chain around them, writes a sentence per transaction,
  asks the model gate (Laya) for a lane and commits the round with its own cursor. The \<open>operator\<close> watches
  Indexer resources and applies the objects a worker runs from. The \<open>explorer\<close> reads the worker's
  tables: a tailer streams new movements to every open page, a rollup keeps daily totals.

  \<^bold>\<open>Theories, and the code they model\<close>

  \<^item> \<open>Prelude\<close>: errors as sums, \<open>Map\<close> and \<open>Set\<close> as insertion-ordered lists, numbers printed in
    decimal; the locales \<open>doubling_backoff\<close> and \<open>bounded_map\<close>.
  \<^item> \<open>Naming\<close>, \<open>Partitions\<close> (\<open>core/naming.ts\<close>, \<open>core/partitions.ts\<close>, class \<open>Partitions\<close> of
    \<open>worker/db.ts\<close>): identifiers, partitions and their book-keeping.
  \<^item> \<open>Abi\<close>, \<open>Ddl\<close>, \<open>Decode\<close>, \<open>Config\<close> (\<open>core/abi.ts\<close>, \<open>ddl.ts\<close>, \<open>decode.ts\<close>, \<open>config.ts\<close>, \<open>crd.ts\<close>;
    \<open>worker/abi.ts\<close>): from a contract's ABI to its tables and rows, and the configuration a worker gets.
  \<^item> \<open>Transaction\<close>, \<open>Database\<close>, \<open>Store\<close>, \<open>Commit\<close> (\<open>worker/db.ts\<close>): statements as operations on a record
    of tables, a transaction as a working copy that is kept or dropped while the connection may break
    anywhere and the acknowledgement of COMMIT may be lost, \<open>bootstrap\<close> and \<open>commitBatch\<close>.
  \<^item> \<open>Ranges\<close>, \<open>Rpc\<close>, \<open>Signal\<close>, \<open>Pipeline\<close> (\<open>core/ranges.ts\<close>; \<open>worker/blocks.ts\<close>, \<open>rangesizer.ts\<close>,
    \<open>rpc.ts\<close>, \<open>signal.ts\<close>, \<open>status.ts\<close>, \<open>ws.ts\<close>, \<open>pipeline.ts\<close>): a round of ingest and its loop.
    \<open>Ingest\<close> and \<open>Delivery\<close> hold what the loop guarantees over its life.
  \<^item> \<open>Facts\<close>, \<open>Sentence\<close> (\<open>core/insights\<close>): what a transaction did, as a sentence, and its lane.
    \<open>Laya\<close>, \<open>Pool\<close>, \<open>Context\<close>, \<open>InsightsDb\<close>, \<open>Insights\<close> (\<open>worker/laya.ts\<close>, \<open>rpcpool.ts\<close>, \<open>pacer.ts\<close>,
    \<open>txcontext.ts\<close>, \<open>insightsdb.ts\<close>, \<open>insights.ts\<close>): the insight loop. \<open>Coverage\<close> composes it with ingest.
  \<^item> \<open>Gate\<close>, \<open>Resources\<close>, \<open>Reconcile\<close> (\<open>operator/gate.ts\<close>, \<open>resources.ts\<close>, \<open>reconcile.ts\<close>, the interface
    of \<open>kube.ts\<close>, \<open>safeReconcile\<close> of \<open>main.ts\<close>): the operator.
  \<^item> \<open>Format\<close>, \<open>Hub\<close>, \<open>Window\<close>, \<open>Tailer\<close>, \<open>Rollup\<close>, \<open>Address\<close> (\<open>explorer/lib\<close>: \<open>format.ts\<close>, \<open>hub.ts\<close>,
    \<open>types.ts\<close>, \<open>sse.ts\<close>, \<open>streamroute.ts\<close>, \<open>stream-client.ts\<close>, \<open>window.ts\<close>, \<open>release.ts\<close>, \<open>tailer.ts\<close>,
    \<open>names.ts\<close>, \<open>rollup.ts\<close>, \<open>address.ts\<close>, \<open>search.ts\<close>): the explorer's data side.
  \<^item> \<open>Client\<close>, \<open>Pacing\<close>, \<open>TxPage\<close>, \<open>Tokens\<close>, \<open>Story\<close> (\<open>stream-client.ts\<close>, \<open>pacing.ts\<close>, \<open>tx.ts\<close>, \<open>txstory.ts\<close>,
    \<open>usdc.ts\<close>, \<open>lanewhy.ts\<close>, \<open>tokens.ts\<close>, \<open>homestory.ts\<close>, \<open>live.ts\<close>, \<open>lanes.ts\<close>, \<open>addrstory.ts\<close>, the handlers of
    \<open>components/HomeLive.tsx\<close>): the page side: its connection, its tape, and what the pages say.
  \<^item> \<open>CrStatus\<close> (\<open>worker/crstatus.ts\<close>, \<open>health.ts\<close>): what a worker reports of itself to its Indexer.

  A definition has the name of the function it translates; the fields of a class are a record whose
  operations take and return it, an exception is \<open>Inl\<close>, an \<open>await\<close> on the outside world is an argument
  (what the node, the gate, the API server or a query answers, and where the connection breaks).

  \<^bold>\<open>What the lemmas show\<close>

  The end-to-end guarantees are invariants over every reachable state. Ingest (\<open>Delivery\<close>) stores each
  tracked log up to the cursor exactly once under any faults, lost acknowledgements and restarts;
  insights (\<open>Coverage\<close>) cover each event between their start and cursor exactly once, and every ingest
  step keeps what they rely on; every page of the explorer shows a gapless tape (\<open>Tailer\<close>); the rollup's
  totals are exact (\<open>Rollup\<close>); the operator's gate loses no change of an Indexer (\<open>Gate\<close>). They rest on
  the components' own results: a batch or a round of insights is written whole or not at all and
  readers see exactly its rows (\<open>Commit\<close>, \<open>InsightsDb\<close>); caches answer as their source does (\<open>Laya\<close>,
  \<open>Context\<close>); retries end and wait within bounds (\<open>Pool\<close>, \<open>Context\<close>); rendered objects fit together
  (\<open>Resources\<close>); pages of a history add up to it (\<open>Address\<close>), an address's totals to its transfers
  (\<open>Story\<close>); amounts lose no digit (\<open>Format\<close>); a live tape shows what a page loaded later would (\<open>Pacing\<close>);
  an open page never gives up its stream (\<open>Client\<close>); outages are never stored (\<open>Tokens\<close>). Closed
  theorems named in the findings exhibit runs in which the code does not do what its comments say.

  Interfaces are locales, interpreted on the code's own definitions: \<open>doubling_backoff\<close> (ingest loop,
  insight loop, newHeads, RPC endpoints, operator retries, the page's reconnects), \<open>span_control\<close> (the
  getLogs sizer and the rollup's span), \<open>bounded_map\<close> (head times, the LRU caches) and \<open>dictionary\<close>
  (sentences, labels, addresses).

  \<^bold>\<open>Bounds and fuel\<close>

  Loops are structural recursions or have a proved measure. Where fuel appears the theorem says how much
  is enough: token reads (\<open>Context\<close>) end within their deadline's attempts, \<open>walk\<close> over a history (\<open>Address\<close>)
  needs more turns than there are movements, the rollup catches up in at most as many steps as there are
  blocks to go. Numeric bounds of the code (cache sizes, 64 queued chunks, 40 buffered movements, 600
  blocks of gap, 50000 rows of one read) are the code's constants.

  \<^bold>\<open>Assumptions\<close>

  PostgreSQL, viem, the node, the model gate and the API server are parameters. The hypotheses on them
  state what they document: transactions are atomic and isolated, an honest node answers from one chain
  (\<open>honest\<close>, \<open>chain_ok\<close>), the gate answers a fixed function of the sentence (\<open>gate_ok\<close>), the worker's rows up
  to its cursor do not change (\<open>settled_rows\<close>, \<open>settled_view\<close>, which \<open>Delivery\<close> proves of ingest), the
  insights have one row per event of their range (\<open>lanes_cover\<close>, which \<open>Coverage\<close> proves of them), a forced
  server-side apply owns and replaces its fields (\<open>server_side_apply\<close>). Doubles
  that hold probabilities, rates, percentages or clock readings are exact rationals (a pool's fee is rounded
  as the code's doubles are); amounts are integers in the code
  too. Clocks are numbers the environment gives. JSON arrives parsed. The environment of a process
  (its configuration and definitions) is fixed while it runs.

  \<^bold>\<open>Not modelled\<close>

  The background compaction of partitions and the pool of connections (\<open>worker/db.ts\<close>), HTTP and TLS,
  Prometheus metrics, process start-up and shutdown, log lines; benchmark, seed and smoke scripts, which
  are not part of the running system; the rendering of the explorer's React pages, the bars of the daily
  chart, calendar dates and byte sizes; zod and viem themselves.
\<close>

end
